(* ===== verification/Prelude.thy ===== *)
theory Prelude
  imports Main "HOL-Library.Word" "HOL-Library.Monad_Syntax"
begin

text \<open>
  Shared material of the dnrd development: the machine types of the i686 build that
  dnrd-2.20.3/config.log records (little endian, 32 bit \<open>int\<close>, \<open>long\<close>, \<open>time_t\<close> and
  pointers), checked access to C arrays, C strings as byte buffers, the character
  functions of the C locale, network byte order, and circular singly linked lists in a
  store of nodes.

  Every operation of the model that can leave the defined part of C (an array access out
  of range, a pointer that addresses no live object, a failed \<open>assert\<close>) or that may run
  forever has an \<open>option\<close> result: \<open>None\<close> stands for exactly these outcomes, never for an
  error value the C code returns. A theorem that the result is \<open>Some\<close> is therefore a
  theorem of memory safety and of termination.
\<close>

unbundle bit_operations_syntax

section \<open>Machine types\<close>

type_synonym byte = "8 word"
type_synonym u16 = "16 word"
type_synonym u32 = "32 word"
type_synonym bytes = "byte list"
type_synonym ptr = nat

abbreviation (input) NULL :: ptr where
  "NULL \<equiv> 0"

named_theorems mem_simps \<open>checked access to arrays\<close>
named_theorems chain_simps \<open>links of circular lists\<close>

text \<open>The bytes of a string literal, without the final NUL.\<close>

definition bstr :: "string \<Rightarrow> bytes" where
  "bstr s = map of_char s"

declare Option.bind_cong [fundef_cong]

section \<open>Checked access to arrays\<close>

definition rd :: "'a list \<Rightarrow> int \<Rightarrow> 'a option" where
  "rd xs i = (if 0 \<le> i \<and> i < int (length xs) then Some (xs ! nat i) else None)"

definition wr :: "'a list \<Rightarrow> int \<Rightarrow> 'a \<Rightarrow> 'a list option" where
  "wr xs i v = (if 0 \<le> i \<and> i < int (length xs) then Some (xs[nat i := v]) else None)"

lemma rd_nat [simp, mem_simps]: "rd xs (int n) = (if n < length xs then Some (xs ! n) else None)"
  by (simp add: rd_def)

lemma wr_nat [simp, mem_simps]:
  "wr xs (int n) v = (if n < length xs then Some (xs[n := v]) else None)"
  by (simp add: wr_def)

lemma rd_Suc [simp]: "rd xs (1 + int n) = (if Suc n < length xs then Some (xs ! Suc n) else None)"
  using rd_nat [of xs "Suc n"] by simp

lemma rd_0 [simp]: "rd xs 0 = (if xs = [] then None else Some (xs ! 0))"
  using rd_nat [of xs 0] by simp

lemma rd_numeral [simp]:
  "rd xs (numeral k) = (if numeral k < length xs then Some (xs ! numeral k) else None)"
  using rd_nat [of xs "numeral k"] by simp

lemma rd_add [simp]: "rd xs (int m + int n) = (if m + n < length xs then Some (xs ! (m + n)) else None)"
  using rd_nat [of xs "m + n"] by simp

lemma wr_add [simp]:
  "wr xs (int m + int n) v = (if m + n < length xs then Some (xs[m + n := v]) else None)"
  using wr_nat [of xs "m + n"] by simp

lemma rd_numeral_add [simp]:
  "rd xs (numeral k + int n) = (if numeral k + n < length xs then Some (xs ! (numeral k + n)) else None)"
  using rd_nat [of xs "numeral k + n"] by simp

lemma wr_numeral_add [simp]:
  "wr xs (numeral k + int n) v = (if numeral k + n < length xs then Some (xs[numeral k + n := v]) else None)"
  using wr_nat [of xs "numeral k + n"] by simp

lemma wr_Suc [simp]: "wr xs (1 + int n) v = (if Suc n < length xs then Some (xs[Suc n := v]) else None)"
  using wr_nat [of xs "Suc n"] by simp

lemma rd_uint [simp]:
  "rd xs (uint w) = (if unat w < length xs then Some (xs ! unat w) else None)"
  using rd_nat [of xs "unat w"] by simp

lemma wr_uint [simp]:
  "wr xs (uint w) v = (if unat w < length xs then Some (xs[unat w := v]) else None)"
  using wr_nat [of xs "unat w"] by simp

lemma rd_add_numeral [simp]:
  "rd xs (int n + numeral k) = (if n + numeral k < length xs then Some (xs ! (n + numeral k)) else None)"
  using rd_nat [of xs "n + numeral k"] by simp

lemma wr_add_numeral [simp]:
  "wr xs (int n + numeral k) v = (if n + numeral k < length xs then Some (xs[n + numeral k := v]) else None)"
  using wr_nat [of xs "n + numeral k"] by simp

lemma rd_eq_Some [mem_simps]:
  "rd xs i = Some v \<longleftrightarrow> 0 \<le> i \<and> i < int (length xs) \<and> v = xs ! nat i"
  by (auto simp: rd_def)

lemma wr_eq_Some [mem_simps]:
  "wr xs i v = Some ys \<longleftrightarrow> 0 \<le> i \<and> i < int (length xs) \<and> ys = xs[nat i := v]"
  by (auto simp: wr_def)

lemma wr_length: "wr xs i v = Some ys \<Longrightarrow> length ys = length xs"
  by (auto simp: mem_simps)

lemma rd_neg [simp]: "i < 0 \<Longrightarrow> rd xs i = None"
  by (simp add: rd_def)

lemma wr_neg [simp]: "i < 0 \<Longrightarrow> wr xs i v = None"
  by (simp add: wr_def)

lemma take_Suc_update [simp]: "i < length xs \<Longrightarrow> take (Suc i) (xs[i := v]) = take i xs @ [v]"
  by (simp add: take_Suc_conv_app_nth)

lemma find_Some_in: "find P xs = Some q \<Longrightarrow> q \<in> set xs \<and> P q"
  by (induction xs) (auto split: if_splits)

lemma find_append: "find P (xs @ ys) = (case find P xs of Some x \<Rightarrow> Some x | None \<Rightarrow> find P ys)"
  by (induction xs) auto

lemma filter_neq_notin: "p \<notin> set xs \<Longrightarrow> filter (\<lambda>x. x \<noteq> p \<and> P x) xs = filter P xs"
  by (induction xs) auto

text \<open>Overwriting a part of an array.\<close>

definition overlay :: "'a list \<Rightarrow> nat \<Rightarrow> 'a list \<Rightarrow> 'a list" where
  "overlay xs k ys = take k xs @ ys @ drop (k + length ys) xs"

lemma overlay_overlay:
  assumes "k + length ys + length zs \<le> length xs"
  shows "overlay (overlay xs k ys) (k + length ys) zs = overlay xs k (ys @ zs)"
proof -
  have "length (take k xs) = k" using assms by simp
  then show ?thesis using assms unfolding overlay_def by (simp add: ac_simps)
qed

lemma length_overlay [simp]: "k + length ys \<le> length xs \<Longrightarrow> length (overlay xs k ys) = length xs"
  by (simp add: overlay_def)

lemma overlay_one: "k < length xs \<Longrightarrow> xs[k := y] = overlay xs k [y]"
  by (simp add: overlay_def upd_conv_take_nth_drop)

section \<open>C strings\<close>

text \<open>A C string is the part of a buffer before its first NUL.\<close>

definition cstr :: "bytes \<Rightarrow> bytes" where
  "cstr buf = takeWhile (\<lambda>c. c \<noteq> 0) buf"

text \<open>\<open>strlen\<close> is undefined on a buffer without a NUL.\<close>

definition c_strlen :: "bytes \<Rightarrow> nat option" where
  "c_strlen buf = (if 0 \<in> set buf then Some (length (cstr buf)) else None)"

text \<open>\<open>strnlen\<close> of the library, which reads at most \<open>n\<close> bytes.\<close>

definition c_strnlen :: "bytes \<Rightarrow> nat \<Rightarrow> nat option" where
  "c_strnlen buf n =
     (if 0 \<in> set (take n buf) then Some (length (cstr buf))
      else if n \<le> length buf then Some n else None)"

lemma cstr_no_nul [simp]: "0 \<notin> set (cstr buf)"
  by (auto simp: cstr_def dest: set_takeWhileD)

lemma cstr_append_nul [simp]: "0 \<notin> set s \<Longrightarrow> cstr (s @ 0 # t) = s"
  unfolding cstr_def by (induction s) auto

lemma cstr_no_nul_id: "0 \<notin> set s \<Longrightarrow> cstr s = s"
  unfolding cstr_def by (simp add: takeWhile_eq_all_conv) metis

lemma cstr_split: "0 \<in> set buf \<Longrightarrow> \<exists>t. buf = cstr buf @ 0 # t"
  unfolding cstr_def
  by (induction buf) auto

lemma cstr_length_less: "0 \<in> set buf \<Longrightarrow> length (cstr buf) < length buf"
  using cstr_split [of buf] by (metis length_append less_add_same_cancel1 length_greater_0_conv list.simps(3))

lemma cstr_nth:
  assumes "0 \<in> set buf"
  shows "buf ! length (cstr buf) = 0"
proof -
  obtain t where "buf = cstr buf @ 0 # t"
    using cstr_split [OF assms] by blast
  then show ?thesis by (metis nth_append_length)
qed

section \<open>Characters of the C locale\<close>

definition c_isupper :: "byte \<Rightarrow> bool" where
  "c_isupper c \<longleftrightarrow> 65 \<le> c \<and> c \<le> 90"

definition c_islower :: "byte \<Rightarrow> bool" where
  "c_islower c \<longleftrightarrow> 97 \<le> c \<and> c \<le> 122"

definition c_isdigit :: "byte \<Rightarrow> bool" where
  "c_isdigit c \<longleftrightarrow> 48 \<le> c \<and> c \<le> 57"

definition c_tolower :: "byte \<Rightarrow> byte" where
  "c_tolower c = (if c_isupper c then c + 32 else c)"

definition c_toupper :: "byte \<Rightarrow> byte" where
  "c_toupper c = (if c_islower c then c - 32 else c)"

text \<open>\<open>strcasecmp (a, b) = 0\<close> for two C strings.\<close>

definition c_strcaseeq :: "bytes \<Rightarrow> bytes \<Rightarrow> bool" where
  "c_strcaseeq a b \<longleftrightarrow> map c_tolower a = map c_tolower b"

lemma c_tolower_0 [simp]: "c_tolower 0 = 0"
  by (simp add: c_tolower_def c_isupper_def)

lemma unat_c_tolower:
  "unat (c_tolower c) = (if 65 \<le> unat c \<and> unat c \<le> 90 then unat c + 32 else unat c)"
proof (cases "c_isupper c")
  case True
  then have b: "65 \<le> unat c" "unat c \<le> 90"
    by (simp_all add: c_isupper_def word_le_nat_alt)
  then have "unat (c + 32) = unat c + 32"
    by (subst unat_add_lem [THEN iffD1]) auto
  with True b show ?thesis by (simp add: c_tolower_def)
next
  case False
  then show ?thesis by (auto simp: c_tolower_def c_isupper_def word_le_nat_alt)
qed

lemma c_tolower_eq_0 [simp]: "c_tolower c = 0 \<longleftrightarrow> c = 0"
proof -
  have "c_tolower c = 0 \<longleftrightarrow> unat (c_tolower c) = 0"
    by (simp add: unat_eq_0)
  also have "\<dots> \<longleftrightarrow> unat c = 0"
    by (auto simp: unat_c_tolower)
  finally show ?thesis by (simp add: unat_eq_0)
qed

lemma c_tolower_idem [simp]: "c_tolower (c_tolower c) = c_tolower c"
proof -
  have "unat (c_tolower (c_tolower c)) = unat (c_tolower c)"
    by (auto simp: unat_c_tolower)
  then show ?thesis by (simp only: word_unat_eq_iff)
qed

section \<open>Network byte order\<close>

text \<open>
  \<open>ntohs\<close> of the two bytes at an address, and the bytes that \<open>htons\<close> stores: on the
  little endian machine both come to the big endian reading of the bytes.
\<close>

definition be16 :: "byte \<Rightarrow> byte \<Rightarrow> u16" where
  "be16 a b = push_bit 8 (ucast a) OR ucast b"

definition hi8 :: "u16 \<Rightarrow> byte" where
  "hi8 w = ucast (drop_bit 8 w)"

definition lo8 :: "u16 \<Rightarrow> byte" where
  "lo8 w = ucast w"

definition rd_be16 :: "bytes \<Rightarrow> int \<Rightarrow> u16 option" where
  "rd_be16 m i = do { a \<leftarrow> rd m i; b \<leftarrow> rd m (i + 1); Some (be16 a b) }"

lemma be16_hi_lo [simp]: "be16 (hi8 w) (lo8 w) = w"
  unfolding be16_def hi8_def lo8_def
  by (rule bit_word_eqI) (auto simp: bit_simps)

lemma hi8_be16 [simp]: "hi8 (be16 a b) = a"
  unfolding be16_def hi8_def
  by (rule bit_word_eqI) (auto simp: bit_simps dest: bit_imp_le_length)

lemma lo8_be16 [simp]: "lo8 (be16 a b) = b"
  unfolding be16_def lo8_def
  by (rule bit_word_eqI) (auto simp: bit_simps)

lemma rd_be16_eq:
  "0 \<le> i \<Longrightarrow> i + 1 < int (length m) \<Longrightarrow>
     rd_be16 m i = Some (be16 (m ! nat i) (m ! nat (i + 1)))"
  by (simp add: rd_be16_def rd_def)

section \<open>Circular lists in a store\<close>

text \<open>
  The lists of name servers, of interfaces and of open queries are circular lists with a
  dummy head node. A store gives the \<open>next\<close> field of every live node, \<open>path f p xs q\<close>
  says that the nodes \<open>xs\<close> lead from \<open>p\<close> to \<open>q\<close>, and \<open>circ f h xs\<close> that the list
  with head \<open>h\<close> holds exactly the nodes \<open>xs\<close>, in this order.
\<close>

fun path :: "(ptr \<rightharpoonup> ptr) \<Rightarrow> ptr \<Rightarrow> ptr list \<Rightarrow> ptr \<Rightarrow> bool" where
  "path f p [] q \<longleftrightarrow> p = q"
| "path f p (x # xs) q \<longleftrightarrow> p = x \<and> (\<exists>y. f x = Some y \<and> path f y xs q)"

definition circ :: "(ptr \<rightharpoonup> ptr) \<Rightarrow> ptr \<Rightarrow> ptr list \<Rightarrow> bool" where
  "circ f h xs \<longleftrightarrow> distinct (h # xs) \<and> path f h (h # xs) h"

lemma path_append [simp]: "path f p (xs @ ys) q \<longleftrightarrow> (\<exists>r. path f p xs r \<and> path f r ys q)"
  by (induction xs arbitrary: p) auto

lemma path_upd_notin [simp, chain_simps]: "u \<notin> set xs \<Longrightarrow> path (f(u := v)) p xs q = path f p xs q"
  by (induction xs arbitrary: p) auto

lemma path_dom: "path f p xs q \<Longrightarrow> x \<in> set xs \<Longrightarrow> \<exists>y. f x = Some y"
  by (induction xs arbitrary: p) auto

lemma path_cong: "(\<And>x. x \<in> set xs \<Longrightarrow> f x = g x) \<Longrightarrow> path f p xs q = path g p xs q"
  by (induction xs arbitrary: p) auto

lemma path_start: "path f p (x # xs) q \<Longrightarrow> p = x"
  by simp

lemma circ_Nil: "circ f h [] \<longleftrightarrow> f h = Some h"
  by (auto simp: circ_def)

lemma circ_Cons: "circ f h (x # xs) \<longleftrightarrow>
   distinct (h # x # xs) \<and> f h = Some x \<and> path f x (x # xs) h"
  by (auto simp: circ_def)

lemma circ_next: "circ f h xs \<Longrightarrow> f h = Some (hd (xs @ [h]))"
  by (cases xs) (auto simp: circ_def)

lemma circ_cong: "(\<And>x. x \<in> set (h # xs) \<Longrightarrow> f x = g x) \<Longrightarrow> circ f h xs = circ g h xs"
  unfolding circ_def by (metis path_cong)

lemma circ_upd_notin [simp, chain_simps]:
  "u \<notin> set (h # xs) \<Longrightarrow> circ (f(u := v)) h xs = circ f h xs"
  by (simp add: circ_def)

lemma circ_rotate: "circ f h (xs @ y # ys) \<Longrightarrow> circ f y (ys @ h # xs)"
  by (auto simp: circ_def)

lemma circ_head_unique: "circ f h xs \<Longrightarrow> x \<in> set xs \<Longrightarrow> f x \<noteq> Some x"
proof -
  assume c: "circ f h xs" and x: "x \<in> set xs"
  from x obtain as bs where xs: "xs = as @ x # bs" by (meson split_list)
  have c2: "circ f x (bs @ h # as)" using circ_rotate c xs by blast
  have "f x = Some (hd (bs @ h # as @ [x]))" using circ_next [OF c2] by simp
  moreover have "distinct (x # bs @ h # as)" using c2 unfolding circ_def by blast
  ultimately show "f x \<noteq> Some x" by (cases bs) auto
qed

text \<open>Insertion after a node and removal of the node after it, anywhere on the list.\<close>

lemma path_insert:
  assumes "path f p (as @ x # bs) q" "distinct (as @ x # bs)" "y \<notin> set (as @ x # bs)" "f x = Some z"
  shows "path (f(y \<mapsto> z, x \<mapsto> y)) p (as @ x # y # bs) q"
proof -
  from assms(1) have 1: "path f p as x" and 2: "path f x (x # bs) q" by auto
  with assms(4) have 3: "path f z bs q" by auto
  have nx: "x \<notin> set as" "x \<notin> set bs" "y \<notin> set as" "y \<notin> set bs" "x \<noteq> y" using assms by auto
  then show ?thesis using 1 3 by auto
qed

lemma path_delete:
  assumes "path f p (as @ x # y # bs) q" "distinct (as @ x # y # bs)" "f y = Some z"
  shows "path (f(x \<mapsto> z)) p (as @ x # bs) q"
proof -
  from assms(1) have 1: "path f p as x" and 2: "path f y (y # bs) q" by auto
  with assms(3) have 3: "path f z bs q" by auto
  have nx: "x \<notin> set as" "x \<notin> set bs" using assms by auto
  then show ?thesis using 1 3 by auto
qed

lemma circ_insert:
  assumes "circ f h (as @ bs)" "y \<notin> set (h # as @ bs)" "f (last (h # as)) = Some z"
  shows "circ (f(y \<mapsto> z, last (h # as) \<mapsto> y)) h (as @ y # bs)"
proof -
  let ?x = "last (h # as)"
  have eq: "h # as = butlast (h # as) @ [?x]"
    using append_butlast_last_id [of "h # as"] by simp
  have lists: "h # as @ bs = butlast (h # as) @ ?x # bs"
    "h # as @ y # bs = butlast (h # as) @ ?x # y # bs"
    using eq by (metis append_Cons append_assoc self_append_conv2)+
  from assms(1) have "path f h (butlast (h # as) @ ?x # bs) h" "distinct (butlast (h # as) @ ?x # bs)"
    unfolding circ_def by (metis lists(1))+
  moreover have "y \<notin> set (butlast (h # as) @ ?x # bs)" using assms(2) lists(1) by metis
  ultimately have "path (f(y \<mapsto> z, ?x \<mapsto> y)) h (butlast (h # as) @ ?x # y # bs) h"
    using assms(3) by (rule path_insert)
  then have "path (f(y \<mapsto> z, ?x \<mapsto> y)) h (h # as @ y # bs) h" by (metis lists(2))
  moreover have "distinct (h # as @ y # bs)"
    using assms(1,2) by (auto simp: circ_def)
  ultimately show ?thesis unfolding circ_def by blast
qed

lemma circ_delete:
  assumes "circ f h (as @ y # bs)" "f y = Some z"
  shows "circ (f(last (h # as) \<mapsto> z)) h (as @ bs)"
proof -
  let ?x = "last (h # as)"
  have eq: "h # as = butlast (h # as) @ [?x]"
    using append_butlast_last_id [of "h # as"] by simp
  have lists: "h # as @ bs = butlast (h # as) @ ?x # bs"
    "h # as @ y # bs = butlast (h # as) @ ?x # y # bs"
    using eq by (metis append_Cons append_assoc self_append_conv2)+
  from assms(1) have "path f h (butlast (h # as) @ ?x # y # bs) h" "distinct (butlast (h # as) @ ?x # y # bs)"
    unfolding circ_def by (metis lists(2))+
  then have "path (f(?x \<mapsto> z)) h (butlast (h # as) @ ?x # bs) h"
    using assms(2) by (rule path_delete)
  then have "path (f(?x \<mapsto> z)) h (h # as @ bs) h" by (metis lists(1))
  moreover have "distinct (h # as @ bs)" using assms(1) by (auto simp: circ_def)
  ultimately show ?thesis unfolding circ_def by blast
qed

lemma circ_next_last: "circ f h (as @ y # bs) \<Longrightarrow> f (last (h # as)) = Some y"
proof -
  assume c: "circ f h (as @ y # bs)"
  have eq: "h # as = butlast (h # as) @ [last (h # as)]"
    using append_butlast_last_id [of "h # as"] by simp
  have "h # as @ y # bs = butlast (h # as) @ last (h # as) # y # bs"
    using eq by (metis append_Cons append_assoc self_append_conv2)
  then have "path f h (butlast (h # as) @ last (h # as) # y # bs) h"
    using c unfolding circ_def by metis
  then show ?thesis by auto
qed

lemma circ_last: "circ f h as \<Longrightarrow> f (last (h # as)) = Some h"
proof -
  assume c: "circ f h as"
  have "h # as = butlast (h # as) @ [last (h # as)]"
    using append_butlast_last_id [of "h # as"] by simp
  then have "path f h (butlast (h # as) @ [last (h # as)]) h"
    using c unfolding circ_def by metis
  then show ?thesis by auto
qed

text \<open>
  The interface to a store of linked nodes: \<open>nxt\<close> reads the \<open>next\<close> fields of the live
  nodes, \<open>link p q\<close> performs \<open>p->next = q\<close> on a live node. The three node types of the
  program provide it, and every list operation of the code is proved against it.
\<close>

locale node_store =
  fixes nxt :: "'s \<Rightarrow> ptr \<rightharpoonup> ptr"
    and link :: "ptr \<Rightarrow> ptr \<Rightarrow> 's \<Rightarrow> 's option"
  assumes link_live: "nxt s p = Some r \<Longrightarrow> \<exists>s'. link p q s = Some s' \<and> nxt s' = (nxt s)(p \<mapsto> q)"
    and link_dead: "nxt s p = None \<Longrightarrow> link p q s = None"
begin

lemma link_nxt: "link p q s = Some s' \<Longrightarrow> nxt s' = (nxt s)(p \<mapsto> q)"
  using link_live [of s p _ q] by (cases "nxt s p") (auto simp: link_dead)

lemma insert_after:
  assumes "circ (nxt s) h (as @ bs)" "y \<notin> set (h # as @ bs)" "nxt s y = Some w"
    and "nxt s (last (h # as)) = Some z"
  shows "\<exists>s1 s2. link y z s = Some s1 \<and> link (last (h # as)) y s1 = Some s2 \<and>
           circ (nxt s2) h (as @ y # bs) \<and> nxt s2 = (nxt s)(y \<mapsto> z, last (h # as) \<mapsto> y)"
proof -
  obtain s1 where s1: "link y z s = Some s1" "nxt s1 = (nxt s)(y \<mapsto> z)"
    using link_live [OF assms(3)] by blast
  have "\<exists>r. nxt s1 (last (h # as)) = Some r"
    using s1(2) assms(4) by (simp add: fun_upd_def)
  then obtain r where "nxt s1 (last (h # as)) = Some r" by blast
  from link_live [OF this] obtain s2 where
    s2: "link (last (h # as)) y s1 = Some s2" "nxt s2 = (nxt s1)(last (h # as) \<mapsto> y)" by blast
  have "circ (nxt s2) h (as @ y # bs)"
    unfolding s2(2) s1(2) using assms(1,2,4) by (rule circ_insert)
  then show ?thesis using s1 s2 by auto
qed

lemma delete_after:
  assumes "circ (nxt s) h (as @ y # bs)"
  shows "\<exists>z s1. nxt s (last (h # as)) = Some y \<and> nxt s y = Some z \<and>
           link (last (h # as)) z s = Some s1 \<and> circ (nxt s1) h (as @ bs) \<and>
           nxt s1 = (nxt s)(last (h # as) \<mapsto> z)"
proof -
  have 1: "nxt s (last (h # as)) = Some y" using assms by (rule circ_next_last)
  from assms have "path (nxt s) h ((h # as) @ y # bs) h" by (simp add: circ_def)
  then obtain z where z: "nxt s y = Some z" by auto
  obtain s1 where s1: "link (last (h # as)) z s = Some s1"
    "nxt s1 = (nxt s)(last (h # as) \<mapsto> z)" using link_live [OF 1] by blast
  have "circ (nxt s1) h (as @ bs)" unfolding s1(2) using assms z by (rule circ_delete)
  then show ?thesis using 1 z s1 by blast
qed

end

text \<open>
  A store that also frees nodes. Emptying a list is unlinking and freeing its first node
  until only the head is left.
\<close>

locale node_heap = node_store nxt link
  for nxt :: "'s \<Rightarrow> ptr \<rightharpoonup> ptr" and link :: "ptr \<Rightarrow> ptr \<Rightarrow> 's \<Rightarrow> 's option" +
  fixes release :: "ptr \<Rightarrow> 's \<Rightarrow> 's option"
  assumes release_live: "nxt s p = Some r \<Longrightarrow> \<exists>s'. release p s = Some s' \<and> nxt s' = (nxt s)(p := None)"
begin

lemma delete_release:
  assumes "circ (nxt s) h (as @ y # bs)"
  shows "\<exists>z s1 s2. nxt s (last (h # as)) = Some y \<and> nxt s y = Some z \<and>
           link (last (h # as)) z s = Some s1 \<and> release y s1 = Some s2 \<and>
           circ (nxt s2) h (as @ bs) \<and> nxt s2 = (nxt s)(last (h # as) \<mapsto> z, y := None)"
proof -
  obtain z s1 where d: "nxt s (last (h # as)) = Some y" "nxt s y = Some z"
    "link (last (h # as)) z s = Some s1" "circ (nxt s1) h (as @ bs)" "nxt s1 = (nxt s)(last (h # as) \<mapsto> z)"
    using delete_after [OF assms] by blast
  have ny: "y \<notin> set (h # as @ bs)" using assms by (auto simp: circ_def)
  then have "y \<noteq> last (h # as)" using last_in_set [of "h # as"] by (auto simp del: last.simps)
  then have "nxt s1 y = Some z" using d(2,5) by simp
  then obtain s2 where s2: "release y s1 = Some s2" "nxt s2 = (nxt s1)(y := None)"
    using release_live by blast
  have "circ (nxt s2) h (as @ bs)" unfolding s2(2) using d(4) ny by simp
  moreover have "nxt s2 = (nxt s)(last (h # as) \<mapsto> z, y := None)" unfolding s2(2) d(5) ..
  ultimately show ?thesis using d(1-3) s2(1) by blast
qed

end

end
