(* ===== verification/Libc.thy ===== *)
theory Libc
  imports Prelude
begin

text \<open>
  What the program uses of the C library beyond characters and buffers: \<open>inet_aton\<close> of
  glibc with its one to four parts in decimal, octal or hexadecimal, and the socket
  address structure. An address is the 32 bit word whose most significant byte is the first
  part, so the word that the code reads through \<open>*((int *) &sin_addr)\<close> is its byte
  reversal and equality of the two is the same.
\<close>

record sockaddr_in =
  sin_family :: u16
  sin_port :: u16
  sin_addr :: u32

definition AF_INET :: u16 where "AF_INET = 2"

definition sockaddr_zero :: sockaddr_in where
  "sockaddr_zero = \<lparr>sin_family = 0, sin_port = 0, sin_addr = 0\<rparr>"

section \<open>strtoul\<close>

definition digit_val :: "byte \<Rightarrow> nat option" where
  "digit_val c = (if c_isdigit c then Some (unat c - 48)
     else if 97 \<le> unat (c_tolower c) \<and> unat (c_tolower c) \<le> 122 then Some (unat (c_tolower c) - 87)
     else None)"

text \<open>The value of the leading digits of base \<open>b\<close>, their number and the rest.\<close>

fun digits :: "nat \<Rightarrow> bytes \<Rightarrow> nat \<Rightarrow> nat \<Rightarrow> nat \<times> nat \<times> bytes" where
  "digits b [] v n = (v, n, [])"
| "digits b (c # cs) v n =
     (case digit_val c of
        Some d \<Rightarrow> if d < b then digits b cs (b * v + d) (Suc n) else (v, n, c # cs)
      | None \<Rightarrow> (v, n, c # cs))"

text \<open>\<open>strtoul (s, &end, 0)\<close> on a string that starts with a digit.\<close>

definition strtoul0 :: "bytes \<Rightarrow> nat \<times> bytes" where
  "strtoul0 s =
     (case s of
        c # d # cs \<Rightarrow>
          if c = 48 \<and> c_tolower d = 120 then
            (case digits 16 cs 0 0 of (v, n, r) \<Rightarrow> if n = 0 then (0, d # cs) else (v, r))
          else if c = 48 then (case digits 8 s 0 0 of (v, n, r) \<Rightarrow> (v, r))
          else (case digits 10 s 0 0 of (v, n, r) \<Rightarrow> (v, r))
      | _ \<Rightarrow> (case digits 10 s 0 0 of (v, n, r) \<Rightarrow> (v, r)))"

section \<open>inet\_aton\<close>

definition c_isspace :: "byte \<Rightarrow> bool" where
  "c_isspace c \<longleftrightarrow> c = 32 \<or> (9 \<le> c \<and> c \<le> 13)"

text \<open>
  At most four parts; a part before a dot is at most 255, the last one fills the bytes
  that are left; the number must be followed by the end of the string or white space.
\<close>

fun aton_parts :: "nat \<Rightarrow> bytes \<Rightarrow> nat list \<Rightarrow> nat list option" where
  "aton_parts k s parts =
     (case s of
        [] \<Rightarrow> None
      | c # _ \<Rightarrow>
          if \<not> c_isdigit c then None
          else (case strtoul0 s of (v, r) \<Rightarrow>
            (case r of
               [] \<Rightarrow> Some (parts @ [v])
             | d # r' \<Rightarrow>
                 if d = 46 then
                   (case k of 0 \<Rightarrow> None
                    | Suc k' \<Rightarrow> if v > 255 then None else aton_parts k' r' (parts @ [v]))
                 else if c_isspace d then Some (parts @ [v]) else None)))"

declare aton_parts.simps [simp del]

definition aton_value :: "nat list \<Rightarrow> u32 option" where
  "aton_value parts =
     (let n = length parts; l = last parts
      in if parts = [] \<or> l \<ge> 256 ^ (5 - n) then None
         else Some (of_nat (l + sum_list (map2 (\<lambda>p i. p * 256 ^ (3 - i)) (butlast parts) [0, 1, 2]))))"

definition inet_aton :: "bytes \<Rightarrow> u32 option" where
  "inet_aton s = Option.bind (aton_parts 3 s []) aton_value"

lemma inet_aton_example: "inet_aton (bstr ''10.0.0.1'') = Some 0x0A000001"
  by (simp add: inet_aton_def bstr_def aton_parts.simps strtoul0_def digit_val_def c_isdigit_def
    c_tolower_def c_isupper_def aton_value_def)

section \<open>inet\_ntoa\<close>

text \<open>\<open>%u\<close> of a small number.\<close>

fun dec_digits :: "nat \<Rightarrow> bytes" where
  "dec_digits n = (if n < 10 then [of_nat (48 + n)] else dec_digits (n div 10) @ [of_nat (48 + n mod 10)])"

declare dec_digits.simps [simp del]

definition inet_ntoa :: "u32 \<Rightarrow> bytes" where
  "inet_ntoa a =
     (let part = (\<lambda>k. dec_digits (unat (take_bit 8 (drop_bit k a))))
      in part 24 @ [46] @ part 16 @ [46] @ part 8 @ [46] @ part 0)"

section \<open>atoi\<close>

text \<open>
  On a C string. glibc computes it as \<open>strtol\<close>, whose \<open>long\<close> has 32 bits here: a number that does not fit
  becomes the largest or the smallest one.
\<close>

definition saturate :: "int \<Rightarrow> int" where
  "saturate v = max (- (2 ^ 31)) (min (2 ^ 31 - 1) v)"

definition atoi :: "bytes \<Rightarrow> int" where
  "atoi s =
     (case dropWhile c_isspace s of
        [] \<Rightarrow> 0
      | c # cs \<Rightarrow>
          if c = 45 then saturate (- int (fst (digits 10 cs 0 0)))
          else if c = 43 then saturate (int (fst (digits 10 cs 0 0)))
          else saturate (int (fst (digits 10 (c # cs) 0 0))))"

lemma atoi_digit_nonneg: "c_isdigit c \<Longrightarrow> 0 \<le> atoi (c # cs)"
proof -
  assume "c_isdigit c"
  then have "\<not> c_isspace c" "c \<noteq> 45" "c \<noteq> 43"
    by (auto simp: c_isdigit_def c_isspace_def word_le_nat_alt)
  then show ?thesis by (simp add: atoi_def saturate_def)
qed

lemma atoi_range: "- (2 ^ 31) \<le> atoi s" "atoi s < 2 ^ 31"
  by (auto simp: atoi_def saturate_def split: list.splits)

end
