(* ===== verification/Srvnode.thy ===== *)
theory Srvnode
  imports Libc
begin

text \<open>
  The name servers of an interface, src/srvnode.c: circular singly linked lists with a dummy
  head. The state is the heap of nodes with the address that the next allocation returns
  and the clock that \<open>time\<close> reads; \<open>allocate\<close> of src/lib.c clears the node and exits when
  there is no memory, so it returns. \<open>time_t\<close> and \<open>int\<close> fields are integers.
\<close>

record srvnode =
  srv_addr :: sockaddr_in
  inactive :: int
  send_count :: u32
  send_time :: int
  newquery :: ptr
  srv_next :: ptr

record srv_state =
  brk :: ptr
  clock :: int
  srvs :: "ptr \<rightharpoonup> srvnode"

section \<open>The store\<close>

definition upd_srv :: "ptr \<Rightarrow> (srvnode \<Rightarrow> srvnode) \<Rightarrow> 'a srv_state_scheme \<Rightarrow> 'a srv_state_scheme option" where
  "upd_srv p f s = (case srvs s p of None \<Rightarrow> None | Some n \<Rightarrow> Some (s\<lparr>srvs := (srvs s)(p \<mapsto> f n)\<rparr>))"
definition get_srv :: "'a srv_state_scheme \<Rightarrow> ptr \<Rightarrow> srvnode option" where
  "get_srv s p = srvs s p"

definition free_srv :: "ptr \<Rightarrow> 'a srv_state_scheme \<Rightarrow> 'a srv_state_scheme option" where
  "free_srv p s = (case srvs s p of None \<Rightarrow> None | Some n \<Rightarrow> Some (s\<lparr>srvs := (srvs s)(p := None)\<rparr>))"

definition srv_nxt :: "'a srv_state_scheme \<Rightarrow> ptr \<rightharpoonup> ptr" where
  "srv_nxt s = (\<lambda>p. map_option srv_next (srvs s p))"

definition srv_link :: "ptr \<Rightarrow> ptr \<Rightarrow> 'a srv_state_scheme \<Rightarrow> 'a srv_state_scheme option" where
  "srv_link p q s = upd_srv p (\<lambda>n. n\<lparr>srv_next := q\<rparr>) s"

text \<open>\<open>NULL\<close> is no address of a node, and the allocator returns addresses that are not in use.\<close>

definition srv_wf :: "'a srv_state_scheme \<Rightarrow> bool" where
  "srv_wf s \<longleftrightarrow> 0 < brk s \<and> (\<forall>p \<in> dom (srvs s). 0 < p \<and> p < brk s)"

section \<open>Operations\<close>

definition alloc_srvnode :: "'a srv_state_scheme \<Rightarrow> ptr \<times> 'a srv_state_scheme" where
  "alloc_srvnode s =
     (let p = brk s
      in (p, s\<lparr>brk := Suc p,
               srvs := (srvs s)(p \<mapsto> \<lparr>srv_addr = sockaddr_zero, inactive = - 1, send_count = 0,
                                     send_time = 0, newquery = NULL, srv_next = p\<rparr>)\<rparr>))"

definition init_srvlist :: "'a srv_state_scheme \<Rightarrow> (ptr \<times> 'a srv_state_scheme) option" where
  "init_srvlist s = (let (p, s1) = alloc_srvnode s in do { s2 \<leftarrow> srv_link p p s1; Some (p, s2) })"

definition ins_srvnode :: "ptr \<Rightarrow> ptr \<Rightarrow> 'a srv_state_scheme \<Rightarrow> (ptr \<times> 'a srv_state_scheme) option" where
  "ins_srvnode l p s =
     (if l = NULL then None else do {
        n \<leftarrow> get_srv s l;
        s1 \<leftarrow> srv_link p (srv_next n) s;
        s2 \<leftarrow> srv_link l p s1;
        Some (p, s2)
      })"

text \<open>The first read of the node precedes the \<open>assert\<close>.\<close>

definition del_srvnode_after :: "ptr \<Rightarrow> 'a srv_state_scheme \<Rightarrow> (ptr \<times> 'a srv_state_scheme) option" where
  "del_srvnode_after l s = do {
     n \<leftarrow> get_srv s l;
     m \<leftarrow> get_srv s (srv_next n);
     s1 \<leftarrow> srv_link l (srv_next m) s;
     Some (srv_next n, s1)
   }"

definition destroy_srvnode :: "ptr \<Rightarrow> 'a srv_state_scheme \<Rightarrow> (ptr \<times> 'a srv_state_scheme) option" where
  "destroy_srvnode p s = (if p = NULL then None else do { s1 \<leftarrow> free_srv p s; Some (NULL, s1) })"

partial_function (option) clear_srvlist :: "ptr \<Rightarrow> 'a srv_state_scheme \<Rightarrow> (ptr \<times> 'a srv_state_scheme) option" where
  "clear_srvlist head s =
     (if head = NULL then None else do {
        n \<leftarrow> get_srv s head;
        if srv_next n \<noteq> head then do {
          (d, s1) \<leftarrow> del_srvnode_after head s;
          (e, s2) \<leftarrow> destroy_srvnode d s1;
          clear_srvlist head s2
        } else Some (head, s)
      })"

declare clear_srvlist.simps [code]

definition destroy_srvlist :: "ptr \<Rightarrow> 'a srv_state_scheme \<Rightarrow> (ptr \<times> 'a srv_state_scheme) option" where
  "destroy_srvlist head s =
     (if head = NULL then None else do {
        (h, s1) \<leftarrow> clear_srvlist head s;
        s2 \<leftarrow> free_srv head s1;
        Some (NULL, s2)
      })"

definition add_srv :: "ptr \<Rightarrow> bytes \<Rightarrow> 'a srv_state_scheme \<Rightarrow> (ptr \<times> 'a srv_state_scheme) option" where
  "add_srv head ipaddr s =
     (if head = NULL then None
      else (case inet_aton ipaddr of
        None \<Rightarrow> Some (NULL, s)
      | Some a \<Rightarrow>
          (let (p, s1) = alloc_srvnode s in do {
             s2 \<leftarrow> upd_srv p (\<lambda>n. n\<lparr>srv_addr := (srv_addr n)\<lparr>sin_addr := a\<rparr>, inactive := 0\<rparr>) s1;
             (q, s3) \<leftarrow> ins_srvnode head p s2;
             Some (p, s3)
           })))"

text \<open>The \<open>while\<close> loop of \<open>last_srvnode\<close> from the node \<open>p\<close>.\<close>

partial_function (option) last_loop :: "'a srv_state_scheme \<Rightarrow> ptr \<Rightarrow> ptr \<Rightarrow> ptr option" where
  "last_loop s head p = do {
     n \<leftarrow> get_srv s p;
     if srv_next n \<noteq> head then last_loop s head (srv_next n) else Some p
   }"

declare last_loop.simps [code]

definition last_srvnode :: "'a srv_state_scheme \<Rightarrow> ptr \<Rightarrow> ptr option" where
  "last_srvnode s head = (if head = NULL then None else last_loop s head head)"

definition no_srvlist :: "'a srv_state_scheme \<Rightarrow> ptr \<Rightarrow> int option" where
  "no_srvlist s head =
     (if head = NULL then Some 1
      else do { n \<leftarrow> get_srv s head; Some (if srv_next n = head then 1 else 0) })"

section \<open>The store provides linked nodes\<close>

lemma srv_nxt_Some [simp]: "srv_nxt s p = Some q \<longleftrightarrow> (\<exists>n. srvs s p = Some n \<and> srv_next n = q)"
  by (auto simp: srv_nxt_def)

lemma srv_nxt_None [simp]: "srv_nxt s p = None \<longleftrightarrow> srvs s p = None"
  by (simp add: srv_nxt_def)

lemma upd_srv_live: "srvs s p = Some n \<Longrightarrow> upd_srv p f s = Some (s\<lparr>srvs := (srvs s)(p \<mapsto> f n)\<rparr>)"
  by (simp add: upd_srv_def)

lemma srv_nxt_upd: "srv_nxt (s\<lparr>srvs := (srvs s)(p \<mapsto> n)\<rparr>) = (srv_nxt s)(p \<mapsto> srv_next n)"
  by (auto simp: srv_nxt_def)

interpretation sv: node_heap srv_nxt srv_link free_srv
proof
  show "srv_nxt s p = Some r \<Longrightarrow> \<exists>s'. srv_link p q s = Some s' \<and> srv_nxt s' = (srv_nxt s)(p \<mapsto> q)"
    for s :: "'b srv_state_scheme" and p q r
    by (auto simp: srv_link_def upd_srv_live srv_nxt_upd)
  show "srv_nxt s p = None \<Longrightarrow> srv_link p q s = None" for s :: "'b srv_state_scheme" and p q
    by (simp add: srv_link_def upd_srv_def)
  show "srv_nxt s p = Some r \<Longrightarrow> \<exists>s'. free_srv p s = Some s' \<and> srv_nxt s' = (srv_nxt s)(p := None)"
    for s :: "'b srv_state_scheme" and p r
    by (auto simp: free_srv_def srv_nxt_def fun_eq_iff)
qed

text \<open>Writes change nothing but the heap of servers.\<close>

lemma srv_link_frame: "srv_link p q s = Some s' \<Longrightarrow> \<exists>n. srvs s p = Some n \<and>
    s' = s\<lparr>srvs := (srvs s)(p \<mapsto> n\<lparr>srv_next := q\<rparr>)\<rparr>"
  by (auto simp: srv_link_def upd_srv_def split: option.splits)

lemma free_srv_frame: "free_srv p s = Some s' \<Longrightarrow> s' = s\<lparr>srvs := (srvs s)(p := None)\<rparr>"
  by (auto simp: free_srv_def split: option.splits)

section \<open>Lists of servers\<close>

definition srvlist_at :: "'a srv_state_scheme \<Rightarrow> ptr \<Rightarrow> ptr list \<Rightarrow> bool" where
  "srvlist_at s h xs \<longleftrightarrow> NULL \<notin> set (h # xs) \<and> circ (srv_nxt s) h xs"

lemma srvlist_live: "srvlist_at s h xs \<Longrightarrow> p \<in> set (h # xs) \<Longrightarrow> \<exists>n. srvs s p = Some n"
  unfolding srvlist_at_def circ_def using path_dom [of "srv_nxt s" h "h # xs" h p] by auto

lemma srvlist_first: "srvlist_at s h xs \<Longrightarrow> \<exists>n. srvs s h = Some n \<and> srv_next n = hd (xs @ [h])"
  unfolding srvlist_at_def using circ_next [of "srv_nxt s" h xs] by auto

lemma no_srvlist_iff: "srvlist_at s h xs \<Longrightarrow> no_srvlist s h = Some (if xs = [] then 1 else 0)"
  using srvlist_first [of s h xs]
  by (cases xs) (auto simp: no_srvlist_def get_srv_def srvlist_at_def circ_def)

lemma alloc_srvnode_list:
  assumes "srv_wf s" "alloc_srvnode s = (p, s')"
  shows "srv_wf s'" "srvlist_at s' p []" "srvs s p = None" "p = brk s"
    and "srvlist_at s h xs \<Longrightarrow> srvlist_at s' h xs \<and> p \<notin> set (h # xs)"
proof -
  have p: "p = brk s" using assms(2) by (simp add: alloc_srvnode_def Let_def)
  show "srvs s p = None" using assms(1) unfolding p srv_wf_def by fastforce
  show "p = brk s" by (rule p)
  show wf: "srv_wf s'" 
    using assms by (fastforce simp: alloc_srvnode_def Let_def srv_wf_def dom_def split: if_splits)
  have s': "srv_nxt s' = (srv_nxt s)(p \<mapsto> p)"
    using assms(2) by (auto simp: alloc_srvnode_def Let_def srv_nxt_def)
  show "srvlist_at s' p []" using assms(1) by (simp add: srvlist_at_def circ_Nil s' p srv_wf_def)
  show "srvlist_at s' h xs \<and> p \<notin> set (h # xs)" if l: "srvlist_at s h xs"
  proof -
    have "p \<notin> set (h # xs)" using srvlist_live [OF l, of p] \<open>srvs s p = None\<close> by auto
    then show ?thesis using l unfolding srvlist_at_def s' by simp
  qed
qed

text \<open>Insertion puts the node at the front, removal takes the node at the front.\<close>

lemma ins_srvnode_list:
  assumes "srvlist_at s h xs" "srvs s p = Some n" "p \<notin> set (h # xs)" "p \<noteq> NULL"
  shows "\<exists>s' m. ins_srvnode h p s = Some (p, s') \<and> srvlist_at s' h (p # xs) \<and> srvs s h = Some m \<and>
    s' = s\<lparr>srvs := (srvs s)(p \<mapsto> n\<lparr>srv_next := srv_next m\<rparr>, h \<mapsto> m\<lparr>srv_next := p\<rparr>)\<rparr>"
proof -
  obtain m where m: "srvs s h = Some m" using srvlist_live [OF assms(1)] by auto
  have ph: "p \<noteq> h" using assms(3) by auto
  obtain s1 s2 where s: "srv_link p (srv_next m) s = Some s1" "srv_link h p s1 = Some s2"
    "circ (srv_nxt s2) h (p # xs)"
    using sv.insert_after [of s h "[]" xs p "srv_next n" "srv_next m"] assms m
    by (auto simp: srvlist_at_def)
  have "s2 = s\<lparr>srvs := (srvs s)(p \<mapsto> n\<lparr>srv_next := srv_next m\<rparr>, h \<mapsto> m\<lparr>srv_next := p\<rparr>)\<rparr>"
    using srv_link_frame [OF s(1)] srv_link_frame [OF s(2)] assms(2) m ph by auto
  then show ?thesis using s m assms(1,4)
    by (auto simp: ins_srvnode_def srvlist_at_def get_srv_def)
qed

lemma del_srvnode_list:
  assumes "srvlist_at s h (p # xs)"
  shows "\<exists>s' m r. del_srvnode_after h s = Some (p, s') \<and> srvlist_at s' h xs \<and> srvs s h = Some m \<and>
    s' = s\<lparr>srvs := (srvs s)(h \<mapsto> m\<lparr>srv_next := r\<rparr>)\<rparr>"
proof -
  have "circ (srv_nxt s) h ([] @ p # xs)" using assms by (simp add: srvlist_at_def)
  from sv.delete_after [OF this] obtain z s1 where d: "srv_nxt s h = Some p" "srv_nxt s p = Some z"
    "srv_link h z s = Some s1" "circ (srv_nxt s1) h xs" by auto
  show ?thesis using d srv_link_frame [OF d(3)] assms
    by (auto simp: del_srvnode_after_def get_srv_def srvlist_at_def)
qed

text \<open>Emptying a list frees its nodes and leaves a list with only the head.\<close>

lemma clear_srvlist_list:
  assumes "srvlist_at s h xs"
  shows "\<exists>m. clear_srvlist h s = Some (h, s\<lparr>srvs := (srvs s |` (- set xs))(h \<mapsto> m\<lparr>srv_next := h\<rparr>)\<rparr>) \<and>
    srvs s h = Some m"
  using assms
proof (induction xs arbitrary: s)
  case Nil
  obtain n where n: "srvs s h = Some n" "srv_next n = h" using srvlist_first [OF Nil] by auto
  then have "n = n\<lparr>srv_next := h\<rparr>" by (metis srvnode.surjective srvnode.update_convs(6))
  then have "(srvs s |` (- set []))(h \<mapsto> n\<lparr>srv_next := h\<rparr>) = srvs s" using n(1) by (auto simp: fun_eq_iff)
  then have "s\<lparr>srvs := (srvs s |` (- set []))(h \<mapsto> n\<lparr>srv_next := h\<rparr>)\<rparr> = s" by simp
  then show ?case using n Nil
    by (subst clear_srvlist.simps) (simp add: get_srv_def srvlist_at_def)
next
  case (Cons p xs)
  obtain s1 m r where d: "del_srvnode_after h s = Some (p, s1)" "srvlist_at s1 h xs" "srvs s h = Some m"
    "s1 = s\<lparr>srvs := (srvs s)(h \<mapsto> m\<lparr>srv_next := r\<rparr>)\<rparr>" using del_srvnode_list [OF Cons.prems] by auto
  have ph: "p \<noteq> h" "p \<notin> set xs" "h \<notin> set xs" "h \<noteq> NULL" "p \<noteq> NULL" using Cons.prems by (auto simp: srvlist_at_def circ_def)
  obtain k where k: "srvs s p = Some k" using srvlist_live [OF Cons.prems, of p] by auto
  have "path (srv_nxt s) h (h # p # xs) h" using Cons.prems by (auto simp: srvlist_at_def circ_def)
  then have hn: "srv_next m = p" using d(3) by (auto simp: srv_nxt_def)
  let ?s2 = "s1\<lparr>srvs := (srvs s1)(p := None)\<rparr>"
  have de: "destroy_srvnode p s1 = Some (NULL, ?s2)"
    using d(4) ph k by (simp add: destroy_srvnode_def free_srv_def)
  have "srv_nxt ?s2 = (srv_nxt s1)(p := None)" by (auto simp: srv_nxt_def fun_eq_iff)
  then have l2: "srvlist_at ?s2 h xs" using d(2) ph by (simp add: srvlist_at_def)
  obtain m2 where m2: "clear_srvlist h ?s2 =
      Some (h, ?s2\<lparr>srvs := (srvs ?s2 |` (- set xs))(h \<mapsto> m2\<lparr>srv_next := h\<rparr>)\<rparr>)" "srvs ?s2 h = Some m2"
    using Cons.IH [OF l2] by blast
  have "m2 = m\<lparr>srv_next := r\<rparr>" using m2(2) d(4) ph by simp
  moreover have "(srvs ?s2 |` (- set xs))(h \<mapsto> m\<lparr>srv_next := h\<rparr>) =
      (srvs s |` (- set (p # xs)))(h \<mapsto> m\<lparr>srv_next := h\<rparr>)"
    using d(4) ph by (auto simp: restrict_map_def fun_eq_iff)
  ultimately have "?s2\<lparr>srvs := (srvs ?s2 |` (- set xs))(h \<mapsto> m2\<lparr>srv_next := h\<rparr>)\<rparr> =
      s\<lparr>srvs := (srvs s |` (- set (p # xs)))(h \<mapsto> m\<lparr>srv_next := h\<rparr>)\<rparr>"
    using d(4) by simp
  then show ?case using d(1,3) de m2(1) hn ph by (subst clear_srvlist.simps) (simp add: get_srv_def)
qed

text \<open>\<open>last_srvnode\<close> returns the head of an empty list and the last node of any other.\<close>

lemma last_loop_path:
  assumes "path (srv_nxt s) p (p # xs) h" "h \<notin> set xs"
  shows "last_loop s h p = Some (last (p # xs))"
  using assms
proof (induction xs arbitrary: p)
  case Nil
  then show ?case by (subst last_loop.simps) (auto simp: get_srv_def)
next
  case (Cons x xs)
  then obtain n where n: "srvs s p = Some n" "srv_next n = x" "path (srv_nxt s) x (x # xs) h" by auto
  have "last_loop s h x = Some (last (x # xs))" using Cons.IH [OF n(3)] Cons.prems(2) by simp
  then show ?case using n(1,2) Cons.prems(2) by (subst last_loop.simps) (auto simp: get_srv_def)
qed

lemma last_srvnode_list: "srvlist_at s h xs \<Longrightarrow> last_srvnode s h = Some (last (h # xs))"
  using last_loop_path [of s h xs h] by (auto simp: last_srvnode_def srvlist_at_def circ_def)

text \<open>Destroying a list frees the head too.\<close>

lemma destroy_srvlist_list:
  assumes "srvlist_at s h xs"
  shows "destroy_srvlist h s = Some (NULL, s\<lparr>srvs := srvs s |` (- set (h # xs))\<rparr>)"
proof -
  obtain m where m: "clear_srvlist h s = Some (h, s\<lparr>srvs := (srvs s |` (- set xs))(h \<mapsto> m\<lparr>srv_next := h\<rparr>)\<rparr>)"
    "srvs s h = Some m" using clear_srvlist_list [OF assms] by blast
  have "((srvs s |` (- set xs))(h \<mapsto> m\<lparr>srv_next := h\<rparr>))(h := None) = srvs s |` (- set (h # xs))"
    by (auto simp: restrict_map_def fun_eq_iff)
  then show ?thesis using m(1) assms by (simp add: destroy_srvlist_def free_srv_def srvlist_at_def)
qed

text \<open>
  \<open>add_srv\<close> puts an active server with the parsed address at the front; every other list
  in the store is as before.
\<close>

lemma add_srv_list:
  assumes "srv_wf s" "srvlist_at s h xs" "inet_aton ip = Some a"
  shows "\<exists>p s' n. add_srv h ip s = Some (p, s') \<and> srv_wf s' \<and> srvlist_at s' h (p # xs) \<and>
    p \<notin> dom (srvs s) \<and> srvs s' p = Some n \<and> sin_addr (srv_addr n) = a \<and> inactive n = 0 \<and>
    send_time n = 0 \<and> (\<forall>q. q \<noteq> p \<and> q \<noteq> h \<longrightarrow> srvs s' q = srvs s q) \<and>
    (\<exists>m. srvs s h = Some m \<and> srvs s' h = Some (m\<lparr>srv_next := p\<rparr>))"
proof -
  obtain p s1 where al: "alloc_srvnode s = (p, s1)" by (cases "alloc_srvnode s")
  note a1 = alloc_srvnode_list [OF assms(1) al]
  let ?n = "\<lparr>srv_addr = sockaddr_zero, inactive = - 1, send_count = 0,
                                     send_time = 0, newquery = NULL, srv_next = p\<rparr>"
  have s1: "s1 = s\<lparr>brk := Suc p, srvs := (srvs s)(p \<mapsto> ?n)\<rparr>"
    using al a1(4) by (auto simp: alloc_srvnode_def Let_def)
  have l1: "srvlist_at s1 h xs" "p \<notin> set (h # xs)" using a1(5) [OF assms(2)] by blast+
  have p0: "p \<noteq> NULL" using assms(1) a1(4) by (simp add: srv_wf_def)
  let ?n2 = "?n\<lparr>srv_addr := (srv_addr ?n)\<lparr>sin_addr := a\<rparr>, inactive := 0\<rparr>"
  let ?s2 = "s1\<lparr>srvs := (srvs s1)(p \<mapsto> ?n2)\<rparr>"
  have n1: "srvs s1 p = Some ?n" unfolding s1 by simp
  have u: "upd_srv p (\<lambda>n. n\<lparr>srv_addr := (srv_addr n)\<lparr>sin_addr := a\<rparr>, inactive := 0\<rparr>) s1 = Some ?s2"
    by (rule upd_srv_live [OF n1])
  have "srv_nxt ?s2 = srv_nxt s1" using n1 by (auto simp: srv_nxt_def fun_eq_iff)
  then have l2: "srvlist_at ?s2 h xs" using l1 by (simp add: srvlist_at_def)
  have n2: "srvs ?s2 p = Some ?n2" by simp
  obtain s3 m where i: "ins_srvnode h p ?s2 = Some (p, s3)" "srvlist_at s3 h (p # xs)" "srvs ?s2 h = Some m"
    "s3 = ?s2\<lparr>srvs := (srvs ?s2)(p \<mapsto> ?n2\<lparr>srv_next := srv_next m\<rparr>, h \<mapsto> m\<lparr>srv_next := p\<rparr>)\<rparr>"
    using ins_srvnode_list [OF l2 n2 l1(2) p0] by blast
  have ph: "p \<noteq> h" using l1(2) by auto
  have ad: "add_srv h ip s = Some (p, s3)"
    using assms(2,3) al u i(1) by (simp add: add_srv_def srvlist_at_def)
  have "dom (srvs s3) = insert p (dom (srvs s))" "brk s3 = Suc p"
    using i(3,4) s1 ph by (auto simp: dom_def split: if_splits)
  then have wf: "srv_wf s3" using assms(1) a1(4) by (auto simp: srv_wf_def less_Suc_eq)
  have m: "srvs s h = Some m" using i(3) s1 ph by simp
  have "srvs s3 p = Some (?n2\<lparr>srv_next := srv_next m\<rparr>)" "srvs s3 h = Some (m\<lparr>srv_next := p\<rparr>)"
    "\<forall>q. q \<noteq> p \<and> q \<noteq> h \<longrightarrow> srvs s3 q = srvs s q"
    using i(4) s1 ph by auto
  then show ?thesis using ad wf i(2) m a1(3) by (simp add: domIff)
qed

lemma add_srv_bad: "h \<noteq> NULL \<Longrightarrow> inet_aton ip = None \<Longrightarrow> add_srv h ip s = Some (NULL, s)"
  by (simp add: add_srv_def)

end
