(* ===== verification/Infnode.thy ===== *)
theory Infnode
  imports Srvnode
begin

text \<open>
  The interfaces, src/infnode.c: a circular list with a dummy head, each node with the list
  of its name servers and the server that is current. The state extends the one of the
  servers by the heap of interface nodes and the global \<open>inf_list\<close>. The name is \<open>None\<close> where
  the pointer \<open>inf\<close> is \<open>NULL\<close>, as it is in the head. \<open>validate_interface\<close> only asks the
  kernel and is not modelled; \<open>retry_srvlist\<close> sends a packet and is in theory Udp.
\<close>

record infnode =
  inf :: "bytes option"
  srvlist :: ptr
  current :: ptr
  roundrobin :: int
  retrydelay :: int
  inf_next :: ptr

record inf_state = srv_state +
  infs :: "ptr \<rightharpoonup> infnode"
  inf_list :: ptr

section \<open>The store\<close>

definition upd_inf :: "ptr \<Rightarrow> (infnode \<Rightarrow> infnode) \<Rightarrow> 'a inf_state_scheme \<Rightarrow> 'a inf_state_scheme option" where
  "upd_inf p f s = (case infs s p of None \<Rightarrow> None | Some n \<Rightarrow> Some (s\<lparr>infs := (infs s)(p \<mapsto> f n)\<rparr>))"

definition free_inf :: "ptr \<Rightarrow> 'a inf_state_scheme \<Rightarrow> 'a inf_state_scheme option" where
  "free_inf p s = (case infs s p of None \<Rightarrow> None | Some n \<Rightarrow> Some (s\<lparr>infs := (infs s)(p := None)\<rparr>))"

definition inf_nxt :: "'a inf_state_scheme \<Rightarrow> ptr \<rightharpoonup> ptr" where
  "inf_nxt s = (\<lambda>p. map_option inf_next (infs s p))"

definition inf_link :: "ptr \<Rightarrow> ptr \<Rightarrow> 'a inf_state_scheme \<Rightarrow> 'a inf_state_scheme option" where
  "inf_link p q s = upd_inf p (\<lambda>n. n\<lparr>inf_next := q\<rparr>) s"

section \<open>Operations on the list of interfaces\<close>

definition alloc_infnode :: "'a inf_state_scheme \<Rightarrow> ptr \<times> 'a inf_state_scheme" where
  "alloc_infnode s =
     (let p = brk s;
          s1 = s\<lparr>brk := Suc p\<rparr>;
          (l, s2) = alloc_srvnode s1
      in (p, s2\<lparr>infs := (infs s2)(p \<mapsto> \<lparr>inf = None, srvlist = l, current = NULL, roundrobin = 0,
                                         retrydelay = 0, inf_next = p\<rparr>)\<rparr>))"

partial_function (option) search_infloop :: "'a inf_state_scheme \<Rightarrow> ptr \<Rightarrow> bytes \<Rightarrow> ptr \<Rightarrow> ptr option" where
  "search_infloop s head name i = do {
     n \<leftarrow> infs s i;
     if inf_next n \<noteq> head then do {
       m \<leftarrow> infs s (inf_next n);
       nm \<leftarrow> inf m;
       if nm = name then Some (inf_next n) else search_infloop s head name (inf_next n)
     } else Some NULL
   }"

declare search_infloop.simps [code]

definition search_infnode :: "'a inf_state_scheme \<Rightarrow> ptr \<Rightarrow> bytes \<Rightarrow> ptr option" where
  "search_infnode s head name = (if head = NULL then None else search_infloop s head name head)"

definition ins_infnode :: "ptr \<Rightarrow> ptr \<Rightarrow> 'a inf_state_scheme \<Rightarrow> (ptr \<times> 'a inf_state_scheme) option" where
  "ins_infnode l i s =
     (if l = NULL \<or> i = NULL then None else do {
        n \<leftarrow> infs s l;
        s1 \<leftarrow> inf_link i (inf_next n) s;
        s2 \<leftarrow> inf_link l i s1;
        Some (i, s2)
      })"

definition add_interface :: "ptr \<Rightarrow> bytes \<Rightarrow> 'a inf_state_scheme \<Rightarrow> (ptr \<times> 'a inf_state_scheme) option" where
  "add_interface l cname s =
     (if l = NULL then None
      else (let (i, s1) = alloc_infnode s in do {
        s2 \<leftarrow> upd_inf i (\<lambda>n. n\<lparr>inf := Some cname\<rparr>) s1;
        (j, s3) \<leftarrow> ins_infnode l i s2;
        Some (i, s3)
      }))"

section \<open>The current server\<close>

text \<open>The address of the server is read for the log.\<close>

definition set_current :: "ptr \<Rightarrow> ptr \<Rightarrow> 'a inf_state_scheme \<Rightarrow> (ptr \<times> 'a inf_state_scheme) option" where
  "set_current i p s =
     (if i = NULL then None else do {
        u \<leftarrow> (if p \<noteq> NULL then map_option (\<lambda>n. ()) (get_srv s p) else Some ());
        s1 \<leftarrow> upd_inf i (\<lambda>n. n\<lparr>current := p\<rparr>) s;
        Some (p, s1)
      })"

text \<open>\<open>for (; s->inactive && s != start; s = s->next);\<close>\<close>

partial_function (option) active_loop :: "'a srv_state_scheme \<Rightarrow> ptr \<Rightarrow> ptr \<Rightarrow> ptr option" where
  "active_loop s start p = do {
     n \<leftarrow> get_srv s p;
     if inactive n \<noteq> 0 \<and> p \<noteq> start then active_loop s start (srv_next n) else Some p
   }"

declare active_loop.simps [code]

definition next_active :: "'a inf_state_scheme \<Rightarrow> ptr \<Rightarrow> ptr option" where
  "next_active s i =
     (if i = NULL then None else do {
        n \<leftarrow> infs s i;
        let start = (if current n \<noteq> NULL then current n else srvlist n);
        m \<leftarrow> get_srv s start;
        p \<leftarrow> active_loop s start (srv_next m);
        k \<leftarrow> get_srv s p;
        Some (if inactive k \<noteq> 0 then NULL else p)
      })"

definition deactivate_current :: "ptr \<Rightarrow> 'a inf_state_scheme \<Rightarrow> (ptr \<times> 'a inf_state_scheme) option" where
  "deactivate_current i s =
     (if i = NULL then None else do {
        n \<leftarrow> infs s i;
        s1 \<leftarrow> (if current n \<noteq> NULL then upd_srv (current n) (\<lambda>m. m\<lparr>inactive := clock s\<rparr>) s else Some s);
        p \<leftarrow> next_active s1 i;
        set_current i p s1
      })"

text \<open>The loop of \<open>reactivate_srvlist\<close>, which ends at the head or at a null link.\<close>

partial_function (option) reactivate_loop :: "ptr \<Rightarrow> ptr \<Rightarrow> 'a srv_state_scheme \<Rightarrow> 'a srv_state_scheme option" where
  "reactivate_loop head p s = do {
     n \<leftarrow> get_srv s p;
     let q = srv_next n;
     if q \<noteq> NULL \<and> q \<noteq> head then do {
       s1 \<leftarrow> upd_srv q (\<lambda>m. m\<lparr>inactive := 0, send_time := 0\<rparr>) s;
       reactivate_loop head q s1
     } else Some s
   }"

declare reactivate_loop.simps [code]

definition reactivate_srvlist :: "ptr \<Rightarrow> 'a inf_state_scheme \<Rightarrow> 'a inf_state_scheme option" where
  "reactivate_srvlist i s =
     (if i = NULL then None else do { n \<leftarrow> infs s i; reactivate_loop (srvlist n) (srvlist n) s })"

section \<open>Removal\<close>

definition del_infnode :: "ptr \<Rightarrow> 'a inf_state_scheme \<Rightarrow> (ptr \<times> 'a inf_state_scheme) option" where
  "del_infnode l s = do {
     n \<leftarrow> infs s l;
     m \<leftarrow> infs s (inf_next n);
     s1 \<leftarrow> inf_link l (inf_next m) s;
     Some (inf_next n, s1)
   }"

definition destroy_infnode :: "ptr \<Rightarrow> 'a inf_state_scheme \<Rightarrow> (ptr \<times> 'a inf_state_scheme) option" where
  "destroy_infnode i s =
     (if i = NULL then Some (NULL, s)
      else do {
        n \<leftarrow> infs s i;
        s1 \<leftarrow> (if srvlist n \<noteq> NULL then map_option snd (destroy_srvlist (srvlist n) s) else Some s);
        s2 \<leftarrow> free_inf i s1;
        Some (NULL, s2)
      })"

partial_function (option) empty_inflist :: "ptr \<Rightarrow> 'a inf_state_scheme \<Rightarrow> (ptr \<times> 'a inf_state_scheme) option" where
  "empty_inflist head s =
     (if head = NULL then None else do {
        n \<leftarrow> infs s head;
        if inf_next n \<noteq> head then do {
          (d, s1) \<leftarrow> del_infnode head s;
          (e, s2) \<leftarrow> destroy_infnode d s1;
          empty_inflist head s2
        } else Some (head, s)
      })"

declare empty_inflist.simps [code]

definition destroy_inflist :: "ptr \<Rightarrow> 'a inf_state_scheme \<Rightarrow> (ptr \<times> 'a inf_state_scheme) option" where
  "destroy_inflist head s =
     (if head = NULL then None else do {
        (h, s1) \<leftarrow> empty_inflist head s;
        (e, s2) \<leftarrow> destroy_infnode head s1;
        Some (NULL, s2)
      })"

section \<open>The store provides linked nodes\<close>

lemma inf_nxt_Some [simp]: "inf_nxt s p = Some q \<longleftrightarrow> (\<exists>n. infs s p = Some n \<and> inf_next n = q)"
  by (auto simp: inf_nxt_def)

lemma inf_nxt_None [simp]: "inf_nxt s p = None \<longleftrightarrow> infs s p = None"
  by (simp add: inf_nxt_def)

lemma upd_inf_live: "infs s p = Some n \<Longrightarrow> upd_inf p f s = Some (s\<lparr>infs := (infs s)(p \<mapsto> f n)\<rparr>)"
  by (simp add: upd_inf_def)

interpretation iv: node_heap inf_nxt inf_link free_inf
proof
  show "inf_nxt s p = Some r \<Longrightarrow> \<exists>s'. inf_link p q s = Some s' \<and> inf_nxt s' = (inf_nxt s)(p \<mapsto> q)"
    for s :: "'b inf_state_scheme" and p q r
    by (auto simp: inf_link_def upd_inf_def inf_nxt_def fun_eq_iff)
  show "inf_nxt s p = None \<Longrightarrow> inf_link p q s = None" for s :: "'b inf_state_scheme" and p q
    by (simp add: inf_link_def upd_inf_def)
  show "inf_nxt s p = Some r \<Longrightarrow> \<exists>s'. free_inf p s = Some s' \<and> inf_nxt s' = (inf_nxt s)(p := None)"
    for s :: "'b inf_state_scheme" and p r
    by (auto simp: free_inf_def inf_nxt_def fun_eq_iff)
qed

lemma inf_link_frame: "inf_link p q s = Some s' \<Longrightarrow> \<exists>n. infs s p = Some n \<and>
    s' = s\<lparr>infs := (infs s)(p \<mapsto> n\<lparr>inf_next := q\<rparr>)\<rparr>"
  by (auto simp: inf_link_def upd_inf_def split: option.splits)

section \<open>Lists of interfaces\<close>

definition inflist_at :: "'a inf_state_scheme \<Rightarrow> ptr \<Rightarrow> ptr list \<Rightarrow> bool" where
  "inflist_at s h is \<longleftrightarrow> NULL \<notin> set (h # is) \<and> circ (inf_nxt s) h is"

text \<open>
  The state that every operation of the running program finds and leaves: each interface has a
  list of servers, and its current server is \<open>NULL\<close> or on this list (or its head).
\<close>

definition inf_ok :: "'a inf_state_scheme \<Rightarrow> ptr \<Rightarrow> bool" where
  "inf_ok s p \<longleftrightarrow> (\<exists>n xs. infs s p = Some n \<and> srvlist_at s (srvlist n) xs \<and>
     (current n = NULL \<or> current n \<in> set (srvlist n # xs)))"

definition infs_ok :: "'a inf_state_scheme \<Rightarrow> ptr list \<Rightarrow> bool" where
  "infs_ok s is \<longleftrightarrow> inflist_at s (inf_list s) is \<and> (\<forall>p \<in> set (inf_list s # is). inf_ok s p)"

text \<open>
  What the operations of the running program keep: the links of both kinds of nodes, the
  list of servers and the name of every interface, and which nodes are live.
\<close>

definition same_shape :: "'a inf_state_scheme \<Rightarrow> 'a inf_state_scheme \<Rightarrow> bool" where
  "same_shape s t \<longleftrightarrow> srv_nxt t = srv_nxt s \<and>
     (\<forall>p. map_option (\<lambda>n. (inf n, srvlist n, inf_next n)) (infs t p) =
          map_option (\<lambda>n. (inf n, srvlist n, inf_next n)) (infs s p)) \<and>
     inf_list t = inf_list s"

lemma same_shape_refl [simp, intro]: "same_shape s s"
  by (simp add: same_shape_def)

lemma same_shape_trans [trans]: "same_shape s t \<Longrightarrow> same_shape t u \<Longrightarrow> same_shape s u"
  by (simp add: same_shape_def)

lemma same_shape_srvlist: "same_shape s t \<Longrightarrow> srvlist_at t h xs \<longleftrightarrow> srvlist_at s h xs"
  by (simp add: same_shape_def srvlist_at_def)

lemma same_shape_inf_nxt: "same_shape s t \<Longrightarrow> inf_nxt t = inf_nxt s"
proof
  fix p
  assume "same_shape s t"
  then have "map_option (\<lambda>n. (inf n, srvlist n, inf_next n)) (infs t p) =
      map_option (\<lambda>n. (inf n, srvlist n, inf_next n)) (infs s p)" by (simp add: same_shape_def)
  then show "inf_nxt t p = inf_nxt s p"
    by (cases "infs t p"; cases "infs s p") (auto simp: inf_nxt_def)
qed

lemma same_shape_inflist: "same_shape s t \<Longrightarrow> inflist_at t h is \<longleftrightarrow> inflist_at s h is"
  by (simp add: inflist_at_def same_shape_inf_nxt)

lemma same_shape_inf:
  assumes "same_shape s t" "infs s p = Some n"
  shows "\<exists>m. infs t p = Some m \<and> inf m = inf n \<and> srvlist m = srvlist n \<and> inf_next m = inf_next n"
proof -
  have "map_option (\<lambda>n. (inf n, srvlist n, inf_next n)) (infs t p) = Some (inf n, srvlist n, inf_next n)"
    using assms by (simp add: same_shape_def)
  then show ?thesis by auto
qed

lemma same_shape_srv_live: "same_shape s t \<Longrightarrow> srvs s p = Some n \<Longrightarrow> \<exists>m. srvs t p = Some m"
  unfolding same_shape_def by (metis not_None_eq srv_nxt_None)

lemma upd_srv_shape:
  assumes "srvs s p = Some n" "\<And>n. srv_next (f n) = srv_next n"
  shows "\<exists>s'. upd_srv p f s = Some s' \<and> same_shape s s' \<and> s' = s\<lparr>srvs := (srvs s)(p \<mapsto> f n)\<rparr>"
  using assms by (auto simp: upd_srv_def same_shape_def srv_nxt_def fun_eq_iff)

lemma upd_inf_shape:
  assumes "infs s p = Some n" "inf (f n) = inf n" "srvlist (f n) = srvlist n" "inf_next (f n) = inf_next n"
  shows "\<exists>s'. upd_inf p f s = Some s' \<and> same_shape s s' \<and> s' = s\<lparr>infs := (infs s)(p \<mapsto> f n)\<rparr>"
  using assms by (auto simp: upd_inf_def same_shape_def srv_nxt_def fun_eq_iff)

lemma inf_ok_srv_upd:
  assumes "inf_ok s p" "same_shape s t" "infs t = infs s"
  shows "inf_ok t p"
  using assms same_shape_srvlist [OF assms(2)] unfolding inf_ok_def by auto

lemma infs_ok_srv_upd:
  assumes "infs_ok s is" "same_shape s t" "infs t = infs s"
  shows "infs_ok t is"
proof -
  have "inf_list t = inf_list s" using assms(2) by (simp add: same_shape_def)
  then show ?thesis
    using assms inf_ok_srv_upd [OF _ assms(2,3)] same_shape_inflist [OF assms(2)]
    by (simp add: infs_ok_def)
qed

section \<open>The next active server\<close>

text \<open>The nodes of a ring that follow the node \<open>p\<close>, up to its predecessor.\<close>

definition ring_from :: "ptr list \<Rightarrow> ptr \<Rightarrow> ptr list" where
  "ring_from ring p = tl (dropWhile ((\<noteq>) p) ring) @ takeWhile ((\<noteq>) p) ring"

lemma ring_from_split: "p \<notin> set as \<Longrightarrow> ring_from (as @ p # bs) p = bs @ as"
proof -
  assume "p \<notin> set as"
  then have "dropWhile ((\<noteq>) p) (as @ p # bs) = p # bs" "takeWhile ((\<noteq>) p) (as @ p # bs) = as"
    by (subst dropWhile_append2, auto) (subst takeWhile_append2, auto)
  then show ?thesis by (simp add: ring_from_def)
qed

lemma circ_ring_from:
  assumes "circ f h xs" "p \<in> set (h # xs)"
  shows "circ f p (ring_from (h # xs) p)" "set (ring_from (h # xs) p) \<union> {p} = set (h # xs)"
proof -
  from assms(2) obtain as bs where sp: "h # xs = as @ p # bs" by (meson split_list)
  have d: "p \<notin> set as" using assms(1) sp unfolding circ_def by (metis distinct_append disjoint_iff list.set_intros(1))
  have r: "ring_from (h # xs) p = bs @ as" unfolding sp by (rule ring_from_split [OF d])
  show "circ f p (ring_from (h # xs) p)"
  proof (cases as)
    case Nil
    then show ?thesis using sp assms(1) r by simp
  next
    case (Cons a as')
    then have "circ f h (as' @ p # bs)" using sp assms(1) by simp
    then show ?thesis using circ_rotate [of f h as' p bs] r Cons sp by simp
  qed
  show "set (ring_from (h # xs) p) \<union> {p} = set (h # xs)" unfolding r unfolding sp by auto
qed

definition is_active :: "'a srv_state_scheme \<Rightarrow> ptr \<Rightarrow> bool" where
  "is_active s p = (case srvs s p of Some n \<Rightarrow> inactive n = 0 | None \<Rightarrow> False)"

text \<open>The first active server of a ring after \<open>p\<close>, \<open>p\<close> itself last.\<close>

definition first_active :: "'a srv_state_scheme \<Rightarrow> ptr list \<Rightarrow> ptr \<Rightarrow> ptr" where
  "first_active s ring p =
     (case find (is_active s) (ring_from ring p @ [p]) of Some q \<Rightarrow> q | None \<Rightarrow> NULL)"

lemma active_loop_path:
  assumes "path (srv_nxt s) p ps st" "st \<notin> set ps" "\<exists>m. srvs s st = Some m"
  shows "active_loop s st p = Some (case find (is_active s) ps of Some q \<Rightarrow> q | None \<Rightarrow> st)"
  using assms
proof (induction ps arbitrary: p)
  case Nil
  then show ?case by (subst active_loop.simps) (auto simp: get_srv_def)
next
  case (Cons x ps)
  then obtain n where n: "p = x" "srvs s x = Some n" "path (srv_nxt s) (srv_next n) ps st" by auto
  show ?case
  proof (cases "inactive n = 0")
    case True
    then show ?thesis using n by (subst active_loop.simps) (simp add: get_srv_def is_active_def)
  next
    case False
    have "active_loop s st (srv_next n) = Some (case find (is_active s) ps of Some q \<Rightarrow> q | None \<Rightarrow> st)"
      using Cons.IH [OF n(3)] Cons.prems by simp
    then show ?thesis using n False Cons.prems
      by (subst active_loop.simps) (auto simp: get_srv_def is_active_def)
  qed
qed

lemma next_active_spec:
  assumes "infs s i = Some n" "i \<noteq> NULL" "srvlist_at s (srvlist n) xs"
    and "current n = NULL \<or> current n \<in> set (srvlist n # xs)"
  shows "next_active s i = Some (first_active s (srvlist n # xs)
           (if current n = NULL then srvlist n else current n))"
proof -
  let ?st = "if current n = NULL then srvlist n else current n"
  let ?ps = "ring_from (srvlist n # xs) ?st"
  have st: "?st \<in> set (srvlist n # xs)" using assms(4) by auto
  have c: "circ (srv_nxt s) ?st ?ps"
    using circ_ring_from(1) [OF _ st] assms(3) unfolding srvlist_at_def by blast
  obtain m where m: "srvs s ?st = Some m" using srvlist_live [OF assms(3) st] by blast
  have p: "path (srv_nxt s) (srv_next m) ?ps ?st" using c m by (auto simp: circ_def)
  have d: "?st \<notin> set ?ps" using c by (auto simp: circ_def)
  let ?q = "case find (is_active s) ?ps of Some q \<Rightarrow> q | None \<Rightarrow> ?st"
  have loop: "active_loop s ?st (srv_next m) = Some ?q"
    using active_loop_path [OF p d] m by blast
  have live: "\<exists>k. srvs s ?q = Some k"
  proof (cases "find (is_active s) ?ps")
    case None
    then show ?thesis using m by simp
  next
    case (Some q)
    then have "is_active s q" by (blast dest: find_Some_in)
    then show ?thesis using Some by (auto simp: is_active_def split: option.splits)
  qed
  then obtain q k where q: "q = ?q" and k: "srvs s q = Some k" by blast
  have "next_active s i = Some (if inactive k \<noteq> 0 then NULL else q)"
  proof -
    obtain st where st: "st = ?st" by blast
    have "active_loop s st (srv_next m) = Some q" "srvs s st = Some m" using loop m unfolding q st by blast+
    then have "do { m \<leftarrow> get_srv s st; p \<leftarrow> active_loop s st (srv_next m); k \<leftarrow> get_srv s p;
        Some (if inactive k \<noteq> 0 then NULL else p) } = Some (if inactive k \<noteq> 0 then NULL else q)"
      using k by (simp add: get_srv_def)
    moreover have "st = (if current n \<noteq> NULL then current n else srvlist n)" using st by simp
    ultimately show ?thesis using assms(1,2) by (simp add: next_active_def Let_def)
  qed
  also have "(if inactive k \<noteq> 0 then NULL else q) = first_active s (srvlist n # xs) ?st"
  proof (cases "find (is_active s) ?ps")
    case None
    then show ?thesis using k m q
      by (auto simp: first_active_def is_active_def find_append)
  next
    case (Some q')
    then show ?thesis using k find_Some_in [OF Some] q by (auto simp: first_active_def is_active_def find_append)
  qed
  finally show ?thesis .
qed

lemma first_active_in:
  assumes "first_active s (h # xs) st \<noteq> NULL" "circ f h xs" "st \<in> set (h # xs)"
  shows "first_active s (h # xs) st \<in> set (h # xs)" "is_active s (first_active s (h # xs) st)"
proof -
  obtain q where q: "find (is_active s) (ring_from (h # xs) st @ [st]) = Some q" "first_active s (h # xs) st = q"
    using assms(1) by (auto simp: first_active_def split: option.splits)
  then have "q \<in> set (ring_from (h # xs) st @ [st])" "is_active s q"
    using find_Some_in [OF q(1)] by blast+
  then show "first_active s (h # xs) st \<in> set (h # xs)" "is_active s (first_active s (h # xs) st)"
    using q(2) circ_ring_from(2) [OF assms(2,3)] by auto
qed

lemma first_active_NULL:
  assumes "circ f h xs" "st \<in> set (h # xs)" "NULL \<notin> set (h # xs)"
  shows "first_active s (h # xs) st = NULL \<longleftrightarrow> (\<forall>p \<in> set (h # xs). \<not> is_active s p)"
proof -
  have st: "set (ring_from (h # xs) st @ [st]) = set (h # xs)" using circ_ring_from(2) [OF assms(1,2)] by simp
  show ?thesis
  proof (cases "find (is_active s) (ring_from (h # xs) st @ [st])")
    case None
    then have "\<forall>p \<in> set (h # xs). \<not> is_active s p" unfolding st [symmetric] find_None_iff by blast
    then show ?thesis using None by (simp add: first_active_def)
  next
    case (Some q)
    then have "q \<in> set (ring_from (h # xs) st @ [st])" "is_active s q"
        using find_Some_in [OF Some] by blast+
    then show ?thesis using Some st assms(3) by (auto simp: first_active_def)
  qed
qed

section \<open>Changing the current server\<close>

text \<open>The operations below write to the two heaps only.\<close>

definition inf_frame :: "'a inf_state_scheme \<Rightarrow> 'a inf_state_scheme \<Rightarrow> bool" where
  "inf_frame s t \<longleftrightarrow> t = s\<lparr>srvs := srvs t, infs := infs t\<rparr>"

lemma inf_frame_refl [simp, intro]: "inf_frame s s"
  by (simp add: inf_frame_def)

lemma inf_frame_trans [trans]: "inf_frame s t \<Longrightarrow> inf_frame t u \<Longrightarrow> inf_frame s u"
proof -
  assume a: "inf_frame s t" "inf_frame t u"
  have "u = t\<lparr>srvs := srvs u, infs := infs u\<rparr>" using a(2) by (simp add: inf_frame_def)
  also have "\<dots> = (s\<lparr>srvs := srvs t, infs := infs t\<rparr>)\<lparr>srvs := srvs u, infs := infs u\<rparr>"
    using a(1) unfolding inf_frame_def by metis
  also have "\<dots> = s\<lparr>srvs := srvs u, infs := infs u\<rparr>" by simp
  finally show ?thesis by (simp add: inf_frame_def)
qed

lemma inf_frame_srvs [simp, intro]: "inf_frame s (s\<lparr>srvs := m\<rparr>)"
  by (simp add: inf_frame_def)

lemma inf_frame_infs [simp, intro]: "inf_frame s (s\<lparr>infs := m\<rparr>)"
  by (simp add: inf_frame_def)

lemma infs_okD:
  assumes "infs_ok s is" "i \<in> set (inf_list s # is)"
  shows "i \<noteq> NULL" "\<exists>n xs. infs s i = Some n \<and> srvlist_at s (srvlist n) xs \<and>
     (current n = NULL \<or> current n \<in> set (srvlist n # xs))"
  using assms unfolding infs_ok_def inflist_at_def inf_ok_def by (metis, metis)

lemma set_current_ok:
  assumes "infs_ok s is" "i \<in> set (inf_list s # is)" "infs s i = Some n"
    and "srvlist_at s (srvlist n) xs" "p = NULL \<or> p \<in> set (srvlist n # xs)"
  shows "\<exists>s'. set_current i p s = Some (p, s') \<and> infs_ok s' is \<and> same_shape s s' \<and>
    s' = s\<lparr>infs := (infs s)(i \<mapsto> n\<lparr>current := p\<rparr>)\<rparr>"
proof -
  let ?s' = "s\<lparr>infs := (infs s)(i \<mapsto> n\<lparr>current := p\<rparr>)\<rparr>"
  have i0: "i \<noteq> NULL" using infs_okD(1) [OF assms(1,2)] .
  have u: "upd_inf i (\<lambda>n. n\<lparr>current := p\<rparr>) s = Some ?s'" "same_shape s ?s'"
    using upd_inf_shape [OF assms(3), of "\<lambda>n. n\<lparr>current := p\<rparr>"] by auto
  have pl: "p = NULL \<or> (\<exists>k. srvs s p = Some k)" using assms(5) srvlist_live [OF assms(4)] by blast
  have sc: "set_current i p s = Some (p, ?s')"
    using i0 u(1) pl by (auto simp: set_current_def get_srv_def)
  have "inf_ok ?s' j" if "inf_ok s j" for j
    using that assms(3-5) same_shape_srvlist [OF u(2)] by (cases "j = i") (auto simp: inf_ok_def)
  then have "infs_ok ?s' is" using assms(1) same_shape_inflist [OF u(2)] by (simp add: infs_ok_def)
  then show ?thesis using sc u(2) by blast
qed

text \<open>
  Deactivating the current server: it is marked with the time, and the current server becomes
  the next active one of the ring, or \<open>NULL\<close> when every server of the interface is inactive.
\<close>

lemma deactivate_current_ok:
  assumes "infs_ok s is" "i \<in> set (inf_list s # is)" "infs s i = Some n" "srvlist_at s (srvlist n) xs"
    and "current n = NULL \<or> current n \<in> set (srvlist n # xs)"
  shows "\<exists>s' p. deactivate_current i s = Some (p, s') \<and> infs_ok s' is \<and> same_shape s s' \<and> inf_frame s s' \<and>
    infs s' = (infs s)(i \<mapsto> n\<lparr>current := p\<rparr>) \<and>
    srvs s' = (if current n = NULL then srvs s
               else (srvs s)(current n \<mapsto> (the (srvs s (current n)))\<lparr>inactive := clock s\<rparr>)) \<and>
    p = first_active s' (srvlist n # xs) (if current n = NULL then srvlist n else current n)"
proof -
  let ?c = "current n"
  obtain s1 where s1: "(if ?c \<noteq> NULL then upd_srv ?c (\<lambda>m. m\<lparr>inactive := clock s\<rparr>) s else Some s) = Some s1"
    "same_shape s s1" "inf_frame s s1" "infs s1 = infs s"
    "srvs s1 = (if ?c = NULL then srvs s else (srvs s)(?c \<mapsto> (the (srvs s ?c))\<lparr>inactive := clock s\<rparr>))"
  proof (cases "?c = NULL")
    case True
    then show ?thesis using that [of s] by simp
  next
    case False
    then obtain m where m: "srvs s ?c = Some m" using assms(5) srvlist_live [OF assms(4), of ?c] by auto
    show ?thesis using upd_srv_shape [OF m, of "\<lambda>m. m\<lparr>inactive := clock s\<rparr>"] False m
        that [of "s\<lparr>srvs := (srvs s)(?c \<mapsto> m\<lparr>inactive := clock s\<rparr>)\<rparr>"] by simp
  qed
  have ok1: "infs_ok s1 is" using infs_ok_srv_upd [OF assms(1) s1(2,4)] .
  have il: "inf_list s1 = inf_list s" using s1(2) by (simp add: same_shape_def)
  have n1: "infs s1 i = Some n" using assms(3) s1(4) by simp
  have l1: "srvlist_at s1 (srvlist n) xs" using assms(4) same_shape_srvlist [OF s1(2)] by simp
  have i0: "i \<noteq> NULL" using infs_okD(1) [OF assms(1,2)] .
  let ?st = "if ?c = NULL then srvlist n else ?c"
  define p where "p = first_active s1 (srvlist n # xs) ?st"
  have na: "next_active s1 i = Some p" unfolding p_def by (rule next_active_spec [OF n1 i0 l1 assms(5)])
  have st: "?st \<in> set (srvlist n # xs)" using assms(5) by auto
  have pin: "p = NULL \<or> p \<in> set (srvlist n # xs)"
    using first_active_in(1) [of s1 "srvlist n" xs ?st "srv_nxt s1"] l1 st
    unfolding p_def srvlist_at_def by blast
  obtain s2 where s2: "set_current i p s1 = Some (p, s2)" "infs_ok s2 is" "same_shape s1 s2"
    "s2 = s1\<lparr>infs := (infs s1)(i \<mapsto> n\<lparr>current := p\<rparr>)\<rparr>"
    using set_current_ok [OF ok1 _ n1 l1 pin] assms(2) il by metis
  have d: "deactivate_current i s = Some (p, s2)"
    using i0 assms(3) s1(1) na s2(1) by (simp add: deactivate_current_def)
  have "is_active s2 = is_active s1" using s2(4) by (simp add: is_active_def fun_eq_iff)
  then have "p = first_active s2 (srvlist n # xs) ?st" unfolding p_def first_active_def by simp
  moreover have "inf_frame s s2" unfolding s2(4) by (rule inf_frame_trans [OF s1(3)]) simp
  moreover have "srvs s2 = srvs s1" "infs s2 = (infs s)(i \<mapsto> n\<lparr>current := p\<rparr>)" unfolding s2(4) s1(4) [symmetric] by simp_all
  moreover have "same_shape s s2" by (rule same_shape_trans [OF s1(2) s2(3)])
  ultimately show ?thesis using d s2(2) s1(5) by metis
qed

section \<open>Building and searching the list\<close>

definition inf_wf :: "'a inf_state_scheme \<Rightarrow> bool" where
  "inf_wf s \<longleftrightarrow> srv_wf s \<and> (\<forall>p \<in> dom (infs s). 0 < p \<and> p < brk s)"

lemma inflist_live: "inflist_at s h is \<Longrightarrow> p \<in> set (h # is) \<Longrightarrow> \<exists>n. infs s p = Some n"
  unfolding inflist_at_def circ_def using path_dom [of "inf_nxt s" h "h # is" h p] by auto

lemma ins_infnode_list:
  assumes "inflist_at s h is" "infs s i = Some n" "i \<notin> set (h # is)" "i \<noteq> NULL"
  shows "\<exists>s' m. ins_infnode h i s = Some (i, s') \<and> inflist_at s' h (i # is) \<and> infs s h = Some m \<and>
    s' = s\<lparr>infs := (infs s)(i \<mapsto> n\<lparr>inf_next := inf_next m\<rparr>, h \<mapsto> m\<lparr>inf_next := i\<rparr>)\<rparr>"
proof -
  obtain m where m: "infs s h = Some m" using inflist_live [OF assms(1)] by auto
  have ih: "i \<noteq> h" using assms(3) by auto
  obtain s1 s2 where s: "inf_link i (inf_next m) s = Some s1" "inf_link h i s1 = Some s2"
    "circ (inf_nxt s2) h (i # is)"
    using iv.insert_after [of s h "[]" "is" i "inf_next n" "inf_next m"] assms m
    by (auto simp: inflist_at_def)
  have "s2 = s\<lparr>infs := (infs s)(i \<mapsto> n\<lparr>inf_next := inf_next m\<rparr>, h \<mapsto> m\<lparr>inf_next := i\<rparr>)\<rparr>"
    using inf_link_frame [OF s(1)] inf_link_frame [OF s(2)] assms(2) m ih by auto
  then show ?thesis using s m assms(1,4)
    by (auto simp: ins_infnode_def inflist_at_def)
qed

text \<open>\<open>add_interface\<close> puts an interface with no server at the front of the list.\<close>

lemma add_interface_list:
  assumes "inf_wf s" "inflist_at s h is"
  shows "\<exists>i s' n m. add_interface h name s = Some (i, s') \<and> inf_wf s' \<and> inflist_at s' h (i # is) \<and>
    i \<notin> dom (infs s) \<and> infs s' i = Some n \<and> inf n = Some name \<and> current n = NULL \<and>
    srvlist n \<notin> dom (srvs s) \<and> srvlist_at s' (srvlist n) [] \<and>
    (\<forall>q. q \<noteq> i \<and> q \<noteq> h \<longrightarrow> infs s' q = infs s q) \<and> infs s h = Some m \<and> infs s' h = Some (m\<lparr>inf_next := i\<rparr>) \<and>
    (\<forall>q \<in> dom (srvs s). srvs s' q = srvs s q) \<and> inf_list s' = inf_list s"
proof -
  let ?p = "brk s"
  let ?l = "Suc ?p"
  let ?k = "\<lparr>srv_addr = sockaddr_zero, inactive = - 1, send_count = 0, send_time = 0, newquery = NULL, srv_next = ?l\<rparr>"
  let ?n = "\<lparr>inf = None, srvlist = ?l, current = NULL, roundrobin = 0, retrydelay = 0, inf_next = ?p\<rparr>"
  let ?s1 = "s\<lparr>brk := Suc ?l, srvs := (srvs s)(?l \<mapsto> ?k), infs := (infs s)(?p \<mapsto> ?n)\<rparr>"
  let ?s2 = "?s1\<lparr>infs := (infs ?s1)(?p \<mapsto> ?n\<lparr>inf := Some name\<rparr>)\<rparr>"
  have al: "alloc_infnode s = (?p, ?s1)" by (simp add: alloc_infnode_def alloc_srvnode_def Let_def)
  have u: "upd_inf ?p (\<lambda>n. n\<lparr>inf := Some name\<rparr>) ?s1 = Some ?s2" by (simp add: upd_inf_def)
  have bound: "0 < ?p" "\<And>q. q \<in> dom (infs s) \<Longrightarrow> q < ?p" "\<And>q. q \<in> dom (srvs s) \<Longrightarrow> q < ?p"
    using assms(1) unfolding inf_wf_def srv_wf_def by blast+
  have p0: "?p \<noteq> NULL" "?p \<notin> dom (infs s)" "?l \<notin> dom (srvs s)"
    using bound(1) bound(2) [of ?p] bound(3) [of ?l] by auto
  have pl: "?p \<notin> set (h # is)" using inflist_live [OF assms(2), of ?p] p0(2) by auto
  have "inf_nxt ?s2 = (inf_nxt s)(?p \<mapsto> ?p)" by (auto simp: inf_nxt_def fun_eq_iff)
  then have l2: "inflist_at ?s2 h is" using assms(2) pl by (simp add: inflist_at_def)
  have n2: "infs ?s2 ?p = Some (?n\<lparr>inf := Some name\<rparr>)" by simp
  obtain s3 m where i: "ins_infnode h ?p ?s2 = Some (?p, s3)" "inflist_at s3 h (?p # is)" "infs ?s2 h = Some m"
    "s3 = ?s2\<lparr>infs := (infs ?s2)(?p \<mapsto> (?n\<lparr>inf := Some name\<rparr>)\<lparr>inf_next := inf_next m\<rparr>, h \<mapsto> m\<lparr>inf_next := ?p\<rparr>)\<rparr>"
    using ins_infnode_list [OF l2 n2 pl p0(1)] by blast
  have hp: "h \<noteq> ?p" using pl by auto
  have h0: "h \<noteq> NULL" using assms(2) by (simp add: inflist_at_def)
  have add: "add_interface h name s = Some (?p, s3)"
    using h0 al u i(1) by (simp add: add_interface_def)
  have m: "infs s h = Some m" using i(3) hp by simp
  have "dom (infs s3) = insert ?p (dom (infs s))" using i(4) m hp by (auto simp: dom_def)
  moreover have "dom (srvs s3) = insert ?l (dom (srvs s))" "brk s3 = Suc ?l" using i(4) by (auto simp: dom_def)
  ultimately have wf: "inf_wf s3" using assms(1) p0(1) by (auto simp: inf_wf_def srv_wf_def less_Suc_eq)
  have "srvlist_at s3 ?l []" using i(4) by (simp add: srvlist_at_def circ_Nil)
  moreover have "infs s3 ?p = Some ((?n\<lparr>inf := Some name\<rparr>)\<lparr>inf_next := inf_next m\<rparr>)"
    "infs s3 h = Some (m\<lparr>inf_next := ?p\<rparr>)" "\<forall>q. q \<noteq> ?p \<and> q \<noteq> h \<longrightarrow> infs s3 q = infs s q"
    "\<forall>q \<in> dom (srvs s). srvs s3 q = srvs s q" "inf_list s3 = inf_list s"
    using i(4) hp p0(3) by auto
  ultimately show ?thesis using add wf i(2) p0 m by auto
qed

text \<open>\<open>search_infnode\<close> returns the first interface with the name.\<close>

definition inf_named :: "'a inf_state_scheme \<Rightarrow> bytes \<Rightarrow> ptr \<Rightarrow> bool" where
  "inf_named s name i = (case infs s i of Some n \<Rightarrow> inf n = Some name | None \<Rightarrow> False)"

lemma search_infloop_path:
  assumes "path (inf_nxt s) p (p # is) h" "h \<notin> set is" "\<forall>i \<in> set is. \<exists>n nm. infs s i = Some n \<and> inf n = Some nm"
  shows "search_infloop s h name p = Some (case find (inf_named s name) is of Some i \<Rightarrow> i | None \<Rightarrow> NULL)"
  using assms
proof (induction "is" arbitrary: p)
  case Nil
  then show ?case by (subst search_infloop.simps) auto
next
  case (Cons i "is")
  then obtain n m nm where n: "infs s p = Some n" "inf_next n = i" "path (inf_nxt s) i (i # is) h"
    "infs s i = Some m" "inf m = Some nm" by auto
  have ih: "search_infloop s h name i = Some (case find (inf_named s name) is of Some i \<Rightarrow> i | None \<Rightarrow> NULL)"
    using Cons.IH [OF n(3)] Cons.prems(2,3) by simp
  show ?case using n ih Cons.prems(2) by (subst search_infloop.simps) (auto simp: inf_named_def)
qed

lemma search_infnode_list:
  assumes "inflist_at s h is" "\<forall>i \<in> set is. \<exists>n nm. infs s i = Some n \<and> inf n = Some nm"
  shows "search_infnode s h name = Some (case find (inf_named s name) is of Some i \<Rightarrow> i | None \<Rightarrow> NULL)"
  using search_infloop_path [of s h "is" h name] assms
  by (simp add: search_infnode_def inflist_at_def circ_def)

section \<open>Destroying the list\<close>

text \<open>
  \<open>inf_trees s ts\<close>: for each triple of \<open>ts\<close>, an interface with the head and the nodes of its
  list of servers, all of them apart from each other.
\<close>

definition inf_trees :: "'a inf_state_scheme \<Rightarrow> (ptr \<times> ptr \<times> ptr list) list \<Rightarrow> bool" where
  "inf_trees s ts \<longleftrightarrow> (\<forall>(i, h, xs) \<in> set ts. \<exists>n. infs s i = Some n \<and> srvlist n = h \<and> srvlist_at s h xs) \<and>
     distinct (concat (map (\<lambda>(i, h, xs). h # xs) ts))"

definition tree_srvs :: "(ptr \<times> ptr \<times> ptr list) list \<Rightarrow> ptr set" where
  "tree_srvs ts = set (concat (map (\<lambda>(i, h, xs). h # xs) ts))"

lemma srvlist_at_restrict:
  "srvlist_at s h xs \<Longrightarrow> set (h # xs) \<inter> D = {} \<Longrightarrow> srvs t = srvs s |` (- D) \<Longrightarrow> srvlist_at t h xs"
proof -
  assume a: "srvlist_at s h xs" "set (h # xs) \<inter> D = {}" "srvs t = srvs s |` (- D)"
  have "srv_nxt t x = srv_nxt s x" if "x \<in> set (h # xs)" for x
    using that a(2,3) by (auto simp: srv_nxt_def restrict_map_def)
  then have "circ (srv_nxt t) h xs = circ (srv_nxt s) h xs" by (rule circ_cong)
  then show ?thesis using a(1) by (simp add: srvlist_at_def)
qed

lemma destroy_infnode_tree:
  assumes "infs s i = Some n" "srvlist_at s (srvlist n) xs" "i \<noteq> NULL"
  shows "destroy_infnode i s = Some (NULL, s\<lparr>srvs := srvs s |` (- set (srvlist n # xs)), infs := (infs s)(i := None)\<rparr>)"
  using assms destroy_srvlist_list [OF assms(2)]
  by (simp add: destroy_infnode_def free_inf_def srvlist_at_def)

lemma del_infnode_list:
  assumes "inflist_at s h (i # is)"
  shows "\<exists>s' m r. del_infnode h s = Some (i, s') \<and> inflist_at s' h is \<and> infs s h = Some m \<and> inf_next m = i \<and>
    s' = s\<lparr>infs := (infs s)(h \<mapsto> m\<lparr>inf_next := r\<rparr>)\<rparr>"
proof -
  have "circ (inf_nxt s) h ([] @ i # is)" using assms by (simp add: inflist_at_def)
  from iv.delete_after [OF this] obtain z s1 where d: "inf_nxt s h = Some i" "inf_nxt s i = Some z"
    "inf_link h z s = Some s1" "circ (inf_nxt s1) h is" by auto
  show ?thesis using d inf_link_frame [OF d(3)] assms
    by (auto simp: del_infnode_def inflist_at_def)
qed

lemma empty_inflist_list:
  assumes "inflist_at s h (map fst ts)" "inf_trees s ts"
  shows "\<exists>m. infs s h = Some m \<and> empty_inflist h s =
    Some (h, s\<lparr>srvs := srvs s |` (- tree_srvs ts), infs := (infs s |` (- set (map fst ts)))(h \<mapsto> m\<lparr>inf_next := h\<rparr>)\<rparr>)"
  using assms
proof (induction ts arbitrary: s)
  case Nil
  then have "circ (inf_nxt s) h []" by (simp add: inflist_at_def)
  then obtain n where n: "infs s h = Some n" "inf_next n = h" by (auto simp: circ_Nil)
  then have "n = n\<lparr>inf_next := h\<rparr>" by simp
  then have "(infs s |` (- set (map fst [])))(h \<mapsto> n\<lparr>inf_next := h\<rparr>) = infs s" using n(1) by (auto simp: fun_eq_iff)
  moreover have "srvs s |` (- tree_srvs []) = srvs s" by (simp add: tree_srvs_def restrict_map_def)
  ultimately have "s\<lparr>srvs := srvs s |` (- tree_srvs []), infs := (infs s |` (- set (map fst [])))(h \<mapsto> n\<lparr>inf_next := h\<rparr>)\<rparr> = s"
    by simp
  then show ?case using n Nil.prems by (subst empty_inflist.simps) (simp add: inflist_at_def)
next
  case (Cons t ts)
  obtain i l xs where t: "t = (i, l, xs)" by (cases t) auto
  have li: "inflist_at s h (i # map fst ts)" using Cons.prems(1) t by simp
  obtain s1 m r where d: "del_infnode h s = Some (i, s1)" "inflist_at s1 h (map fst ts)" "infs s h = Some m"
    "inf_next m = i" "s1 = s\<lparr>infs := (infs s)(h \<mapsto> m\<lparr>inf_next := r\<rparr>)\<rparr>" using del_infnode_list [OF li] by auto
  have ih: "i \<noteq> h" "i \<notin> set (map fst ts)" "h \<notin> set (map fst ts)" "h \<noteq> NULL" "i \<noteq> NULL"
    using li by (auto simp: inflist_at_def circ_def)
  obtain n where n: "infs s i = Some n" "srvlist n = l" "srvlist_at s l xs"
    using Cons.prems(2) t by (auto simp: inf_trees_def)
  have n1: "infs s1 i = Some n" "srvlist_at s1 l xs" using d(5) n ih by (auto simp: srvlist_at_def srv_nxt_def)
  let ?s2 = "s1\<lparr>srvs := srvs s1 |` (- set (l # xs)), infs := (infs s1)(i := None)\<rparr>"
  have de: "destroy_infnode i s1 = Some (NULL, ?s2)"
    using destroy_infnode_tree [OF n1(1)] n1(2) n(2) ih by simp
  have "inf_nxt ?s2 = (inf_nxt s1)(i := None)" by (auto simp: inf_nxt_def fun_eq_iff)
  then have l2: "inflist_at ?s2 h (map fst ts)" using d(2) ih by (simp add: inflist_at_def)
  have "inf_trees ?s2 ts" unfolding inf_trees_def
  proof (intro conjI ballI)
    show "distinct (concat (map (\<lambda>(i, h, xs). h # xs) ts))" using Cons.prems(2) by (simp add: inf_trees_def)
  next
    fix u
    assume u: "u \<in> set ts"
    obtain j k ys where uj: "u = (j, k, ys)" by (cases u) auto
    have j: "j \<noteq> i" "j \<noteq> h" using u uj ih by force+
    obtain nj where nj: "infs s j = Some nj" "srvlist nj = k" "srvlist_at s k ys"
      using Cons.prems(2) u uj by (force simp: inf_trees_def)
    have "set (k # ys) \<inter> set (l # xs) = {}"
      using Cons.prems(2) u uj t unfolding inf_trees_def by fastforce
    then have "srvlist_at ?s2 k ys" by (rule srvlist_at_restrict [OF nj(3)]) (simp add: d(5))
    then show "case u of (i, h, xs) \<Rightarrow> \<exists>n. infs ?s2 i = Some n \<and> srvlist n = h \<and> srvlist_at ?s2 h xs"
      using nj(1,2) j d(5) uj by simp
  qed
  from Cons.IH [OF l2 this] obtain m2 where m2: "infs ?s2 h = Some m2"
    "empty_inflist h ?s2 = Some (h, ?s2\<lparr>srvs := srvs ?s2 |` (- tree_srvs ts),
       infs := (infs ?s2 |` (- set (map fst ts)))(h \<mapsto> m2\<lparr>inf_next := h\<rparr>)\<rparr>)" by blast
  have "m2 = m\<lparr>inf_next := r\<rparr>" using m2(1) d(5) ih by simp
  moreover have "(infs ?s2 |` (- set (map fst ts)))(h \<mapsto> m\<lparr>inf_next := h\<rparr>) =
      (infs s |` (- set (map fst (t # ts))))(h \<mapsto> m\<lparr>inf_next := h\<rparr>)"
    using d(5) ih t by (auto simp: restrict_map_def fun_eq_iff)
  moreover have "srvs ?s2 |` (- tree_srvs ts) = srvs s |` (- tree_srvs (t # ts))"
    using d(5) t by (auto simp: restrict_map_def fun_eq_iff tree_srvs_def)
  ultimately have "?s2\<lparr>srvs := srvs ?s2 |` (- tree_srvs ts),
       infs := (infs ?s2 |` (- set (map fst ts)))(h \<mapsto> m2\<lparr>inf_next := h\<rparr>)\<rparr> =
     s\<lparr>srvs := srvs s |` (- tree_srvs (t # ts)), infs := (infs s |` (- set (map fst (t # ts))))(h \<mapsto> m\<lparr>inf_next := h\<rparr>)\<rparr>"
    using d(5) by simp
  then show ?case using d(1,3,4) de m2(2) ih by (subst empty_inflist.simps) simp
qed

lemma destroy_inflist_list:
  assumes "inflist_at s h (map fst ts)" "inf_trees s (ts @ [(h, l, xs)])"
  shows "destroy_inflist h s =
    Some (NULL, s\<lparr>srvs := srvs s |` (- tree_srvs (ts @ [(h, l, xs)])), infs := infs s |` (- set (h # map fst ts))\<rparr>)"
proof -
  have t: "inf_trees s ts" using assms(2) by (auto simp: inf_trees_def)
  obtain m where m: "infs s h = Some m" "empty_inflist h s =
    Some (h, s\<lparr>srvs := srvs s |` (- tree_srvs ts), infs := (infs s |` (- set (map fst ts)))(h \<mapsto> m\<lparr>inf_next := h\<rparr>)\<rparr>)"
    using empty_inflist_list [OF assms(1) t] by blast
  let ?s1 = "s\<lparr>srvs := srvs s |` (- tree_srvs ts), infs := (infs s |` (- set (map fst ts)))(h \<mapsto> m\<lparr>inf_next := h\<rparr>)\<rparr>"
  have l: "srvlist m = l" "srvlist_at s l xs" using assms(2) m(1) by (auto simp: inf_trees_def)
  have "distinct (concat (map (\<lambda>(i, h, xs). h # xs) ts) @ (l # xs))"
    using assms(2) unfolding inf_trees_def by simp
  then have "set (l # xs) \<inter> tree_srvs ts = {}" unfolding tree_srvs_def distinct_append by blast
  then have l1: "srvlist_at ?s1 l xs" by (rule srvlist_at_restrict [OF l(2)]) simp
  have h0: "h \<noteq> NULL" using assms(1) by (simp add: inflist_at_def)
  have "destroy_infnode h ?s1 = Some (NULL, ?s1\<lparr>srvs := srvs ?s1 |` (- set (l # xs)), infs := (infs ?s1)(h := None)\<rparr>)"
    using destroy_infnode_tree [of ?s1 h "m\<lparr>inf_next := h\<rparr>" xs] l l1 h0 by simp
  moreover have "srvs ?s1 |` (- set (l # xs)) = srvs s |` (- tree_srvs (ts @ [(h, l, xs)]))"
    by (auto simp: restrict_map_def fun_eq_iff tree_srvs_def)
  moreover have "(infs ?s1)(h := None) = infs s |` (- set (h # map fst ts))"
    by (auto simp: restrict_map_def fun_eq_iff)
  ultimately show ?thesis using m(2) h0 by (simp add: destroy_inflist_def)
qed

section \<open>The groups of addresses\<close>

text \<open>
  \<open>sort\<close>, which \<open>main\<close> calls once. \<open>group\<close> has 100 rows of 40 bytes; writing a row with a
  longer string is out of bounds, and \<open>sprintf (g, "%s - \<dots>", g, \<dots>)\<close> copies between
  overlapping objects, which C leaves undefined.
\<close>

record sort_state =
  hash_array :: "u32 list"
  current_index :: nat
  group :: "bytes list"
  group_cnt :: nat

definition sort_static :: sort_state where
  "sort_static = \<lparr>hash_array = replicate 100 0, current_index = 0, group = replicate 100 [], group_cnt = 0\<rparr>"

fun is_duplicate_loop :: "u32 list \<Rightarrow> nat \<Rightarrow> nat \<Rightarrow> u32 \<Rightarrow> int option" where
  "is_duplicate_loop hs i 0 ip = Some (- 1)"
| "is_duplicate_loop hs i (Suc n) ip = do {
     h \<leftarrow> rd hs (int i);
     if ip = h then Some (int i) else is_duplicate_loop hs (Suc i) n ip
   }"

definition is_duplicate :: "sort_state \<Rightarrow> u32 \<Rightarrow> int option" where
  "is_duplicate st ip = is_duplicate_loop (hash_array st) 0 (current_index st) ip"

definition group_entry :: "u32 \<Rightarrow> bytes option \<Rightarrow> bytes" where
  "group_entry ip nm = inet_ntoa ip @ bstr '' : '' @ (case nm of Some n \<Rightarrow> n | None \<Rightarrow> bstr ''(null)'')"

definition sort_one :: "u32 \<Rightarrow> bytes option \<Rightarrow> sort_state \<Rightarrow> sort_state option" where
  "sort_one ip nm st = do {
     d \<leftarrow> is_duplicate st ip;
     if d = - 1 then
       (if length (group_entry ip nm) < 40 then do {
          g \<leftarrow> wr (group st) (int (group_cnt st)) (group_entry ip nm);
          h \<leftarrow> wr (hash_array st) (int (group_cnt st)) ip;
          Some (st\<lparr>group := g, hash_array := h, group_cnt := group_cnt st + 1\<rparr>)
        } else None)
     else None
   }"

partial_function (option) sort_srvs ::
    "'a inf_state_scheme \<Rightarrow> ptr \<Rightarrow> bytes option \<Rightarrow> ptr \<Rightarrow> sort_state \<Rightarrow> sort_state option" where
  "sort_srvs s head nm p st = do {
     n \<leftarrow> get_srv s p;
     st1 \<leftarrow> sort_one (sin_addr (srv_addr n)) nm st;
     if srv_next n \<noteq> head then sort_srvs s head nm (srv_next n) st1 else Some st1
   }"

declare sort_srvs.simps [code]

partial_function (option) sort_infs :: "'a inf_state_scheme \<Rightarrow> ptr \<Rightarrow> sort_state \<Rightarrow> sort_state option" where
  "sort_infs s i st = do {
     n \<leftarrow> infs s i;
     h \<leftarrow> get_srv s (srvlist n);
     st1 \<leftarrow> sort_srvs s (srvlist n) (inf n) (srv_next h) st;
     if inf_next n \<noteq> inf_list s then sort_infs s (inf_next n) st1 else Some st1
   }"

declare sort_infs.simps [code]

definition sort_groups :: "'a inf_state_scheme \<Rightarrow> sort_state \<Rightarrow> sort_state option" where
  "sort_groups s st = do {
     let st1 = st\<lparr>hash_array := replicate 25 0 @ drop 25 (hash_array st), group_cnt := 0\<rparr>;
     l \<leftarrow> infs s (inf_list s);
     sort_infs s (inf_next l) st1
   }"

text \<open>The rows that \<open>sort\<close> writes for an interface: a list without servers counts as its head.\<close>

definition inf_rows :: "'a inf_state_scheme \<Rightarrow> ptr \<times> ptr \<times> ptr list \<Rightarrow> (u32 \<times> bytes option) list" where
  "inf_rows s = (\<lambda>(i, h, xs).
     map (\<lambda>p. (sin_addr (srv_addr (the (srvs s p))), inf (the (infs s i)))) (if xs = [] then [h] else xs))"

definition add_rows :: "(u32 \<times> bytes option) list \<Rightarrow> sort_state \<Rightarrow> sort_state" where
  "add_rows rows st = st\<lparr>group := overlay (group st) (group_cnt st) (map (\<lambda>(a, n). group_entry a n) rows),
      hash_array := overlay (hash_array st) (group_cnt st) (map fst rows),
      group_cnt := group_cnt st + length rows\<rparr>"

definition sort_fits :: "(u32 \<times> bytes option) list \<Rightarrow> sort_state \<Rightarrow> bool" where
  "sort_fits rows st \<longleftrightarrow> current_index st = 0 \<and> length (group st) = 100 \<and> length (hash_array st) = 100 \<and>
     group_cnt st + length rows \<le> 100 \<and> (\<forall>(a, n) \<in> set rows. length (group_entry a n) < 40)"

lemma add_rows_append:
  assumes "sort_fits (r1 @ r2) st"
  shows "add_rows r2 (add_rows r1 st) = add_rows (r1 @ r2) st" "sort_fits r1 st" "sort_fits r2 (add_rows r1 st)"
proof -
  let ?g = "map (\<lambda>(a, n). group_entry a n)"
  have b: "group_cnt st + length r1 + length r2 \<le> 100" "length (group st) = 100" "length (hash_array st) = 100"
    using assms by (auto simp: sort_fits_def)
  have "overlay (overlay (group st) (group_cnt st) (?g r1)) (group_cnt st + length r1) (?g r2) =
      overlay (group st) (group_cnt st) (?g (r1 @ r2))"
    using overlay_overlay [of "group_cnt st" "?g r1" "?g r2" "group st"] b by simp
  moreover have "overlay (overlay (hash_array st) (group_cnt st) (map fst r1)) (group_cnt st + length r1) (map fst r2) =
      overlay (hash_array st) (group_cnt st) (map fst (r1 @ r2))"
    using overlay_overlay [of "group_cnt st" "map fst r1" "map fst r2" "hash_array st"] b by simp
  ultimately show "add_rows r2 (add_rows r1 st) = add_rows (r1 @ r2) st" by (simp add: add_rows_def)
  show "sort_fits r1 st" "sort_fits r2 (add_rows r1 st)"
    using assms b by (auto simp: sort_fits_def add_rows_def)
qed

lemma sort_one_row:
  assumes "sort_fits [(ip, nm)] st"
  shows "sort_one ip nm st = Some (add_rows [(ip, nm)] st)"
  using assms
  by (auto simp: sort_fits_def add_rows_def sort_one_def is_duplicate_def overlay_one)

lemma sort_srvs_rows:
  assumes "path (srv_nxt s) p ps h" "ps \<noteq> []" "h \<notin> set (tl ps)"
    and "sort_fits (map (\<lambda>p. (sin_addr (srv_addr (the (srvs s p))), nm)) ps) st"
  shows "sort_srvs s h nm p st = Some (add_rows (map (\<lambda>p. (sin_addr (srv_addr (the (srvs s p))), nm)) ps) st)"
  using assms
proof (induction ps arbitrary: p st)
  case Nil
  then show ?case by simp
next
  case (Cons x ps)
  let ?row = "\<lambda>p. (sin_addr (srv_addr (the (srvs s p))), nm)"
  obtain n where n: "p = x" "srvs s x = Some n" "path (srv_nxt s) (srv_next n) ps h" using Cons.prems(1) by auto
  have fit: "sort_fits ([?row x] @ map ?row ps) st" using Cons.prems(4) by simp
  note ar = add_rows_append [OF fit]
  have "sort_fits [?row x] st" by (rule ar(2))
  then have one: "sort_one (sin_addr (srv_addr n)) nm st = Some (add_rows [?row x] st)"
    using sort_one_row n(2) by simp
  show ?case
  proof (cases "ps = []")
    case True
    then show ?thesis using n one by (subst sort_srvs.simps) (simp add: get_srv_def)
  next
    case False
    then have "srv_next n = hd ps" "hd ps \<in> set ps" using n(3) by (cases ps; auto)+
    then have nh: "srv_next n \<noteq> h" using Cons.prems(3) by auto
    have "h \<notin> set (tl ps)" using Cons.prems(3) False by (cases ps) auto
    then have "sort_srvs s h nm (srv_next n) (add_rows [?row x] st) = Some (add_rows (map ?row ps) (add_rows [?row x] st))"
      using Cons.IH [OF n(3) False] ar(3) by blast
    then show ?thesis using n one nh ar(1) by (subst sort_srvs.simps) (simp add: get_srv_def)
  qed
qed

lemma sort_infs_rows:
  assumes "path (inf_nxt s) p (map fst ts) (inf_list s)" "ts \<noteq> []" "inf_list s \<notin> set (map fst ts)"
    and "\<forall>(i, h, xs) \<in> set ts. \<exists>n. infs s i = Some n \<and> srvlist n = h \<and> srvlist_at s h xs"
    and "sort_fits (concat (map (inf_rows s) ts)) st"
  shows "sort_infs s p st = Some (add_rows (concat (map (inf_rows s) ts)) st)"
  using assms
proof (induction ts arbitrary: p st)
  case Nil
  then show ?case by simp
next
  case (Cons t ts)
  obtain h xs where t: "t = (p, h, xs)" using Cons.prems(1) by (cases t) auto
  obtain n where n: "infs s p = Some n" "srvlist n = h" "srvlist_at s h xs"
    "path (inf_nxt s) (inf_next n) (map fst ts) (inf_list s)"
    using Cons.prems(1,4) t by auto
  have fit: "sort_fits (inf_rows s t @ concat (map (inf_rows s) ts)) st" using Cons.prems(5) by simp
  note ar = add_rows_append [OF fit]
  let ?ps = "if xs = [] then [h] else xs"
  obtain m where m: "srvs s h = Some m" "srv_next m = hd (xs @ [h])" using srvlist_first [OF n(3)] by blast
  have pp: "path (srv_nxt s) (srv_next m) ?ps h"
    using n(3) m by (cases xs) (auto simp: srvlist_at_def circ_def)
  have hp: "h \<notin> set (tl ?ps)" using n(3) by (cases xs) (auto simp: srvlist_at_def circ_def)
  have rt: "inf_rows s t = map (\<lambda>p. (sin_addr (srv_addr (the (srvs s p))), inf n)) ?ps"
    using t n(1) by (simp add: inf_rows_def)
  have "sort_srvs s h (inf n) (srv_next m) st = Some (add_rows (inf_rows s t) st)"
    using sort_srvs_rows [OF pp _ hp, of "inf n" st] ar(2) unfolding rt by simp
  note step = this
  show ?case
  proof (cases "ts = []")
    case True
    then show ?thesis using n m step by (subst sort_infs.simps) (simp add: get_srv_def)
  next
    case False
    then have "inf_next n = hd (map fst ts)" "hd (map fst ts) \<in> set (map fst ts)"
      using n(4) by (cases ts; auto)+
    then have ni: "inf_next n \<noteq> inf_list s" using Cons.prems(3) by (metis list.set_intros(2) list.simps(9))
    have "sort_infs s (inf_next n) (add_rows (inf_rows s t) st) =
        Some (add_rows (concat (map (inf_rows s) ts)) (add_rows (inf_rows s t) st))"
      using Cons.IH [OF n(4) False] Cons.prems(3,4) ar(3) by simp
    then show ?thesis using n m step ni ar(1) by (subst sort_infs.simps) (simp add: get_srv_def)
  qed
qed

end
