(* ===== verification/Lib.thy ===== *)
theory Lib
  imports Prelude
begin

text \<open>
  The string utilities of src/lib.c. A \<open>char *\<close> argument that the function walks over is
  a buffer and a position in it; a \<open>char **\<close> cursor is the position that is passed in and
  returned. Buffers hold their NUL, so a walk that finds none leaves the buffer and is
  \<open>None\<close>. Pointers are not NULL here (no caller passes NULL to \<open>strnlwr\<close>, \<open>strnupr\<close> or
  \<open>noctrln\<close>). Strings that the callers hold as \<open>strdup\<close>ed objects are their content
  without the NUL.
\<close>

named_theorems lib_simps \<open>results of the string utilities\<close>

section \<open>Case conversion\<close>

function strn_conv :: "(byte \<Rightarrow> byte) \<Rightarrow> bytes \<Rightarrow> int \<Rightarrow> nat \<Rightarrow> bytes option" where
  "strn_conv f s maxlen i =
     (if int i \<le> maxlen then do {
        c \<leftarrow> rd s (int i);
        if c \<noteq> 0 then do {
          s' \<leftarrow> wr s (int i) (f c);
          strn_conv f s' maxlen (Suc i)
        } else Some s
      } else Some s)"
  by pat_completeness auto
termination
  by (relation "measure (\<lambda>(f, s, maxlen, i). nat (maxlen + 1 - int i))") auto

declare strn_conv.simps [simp del]

definition strnlwr :: "bytes \<Rightarrow> int \<Rightarrow> bytes option" where
  "strnlwr s maxlen = strn_conv c_tolower s maxlen 0"

definition strnupr :: "bytes \<Rightarrow> int \<Rightarrow> bytes option" where
  "strnupr s maxlen = strn_conv c_toupper s maxlen 0"

section \<open>Blanks and words\<close>

function skip_ws :: "bytes \<Rightarrow> nat \<Rightarrow> nat option" where
  "skip_ws s p = (case rd s (int p) of None \<Rightarrow> None
     | Some c \<Rightarrow> if c = 32 \<or> c = 9 then skip_ws s (Suc p) else Some p)"
  by pat_completeness auto
termination
  by (relation "measure (\<lambda>(s, p). length s - p)") (auto split: if_splits)

declare skip_ws.simps [simp del]

text \<open>The loop of \<open>noctrln\<close> runs down from the end of the string; \<open>n\<close> is \<open>i + 1\<close>.\<close>

fun noctrln_loop :: "bytes \<Rightarrow> nat \<Rightarrow> nat \<Rightarrow> bytes option" where
  "noctrln_loop s p 0 = Some s"
| "noctrln_loop s p (Suc n) = do {
     c \<leftarrow> rd s (int (p + n));
     if c \<le> 32 then do {
       s' \<leftarrow> wr s (int (p + n)) 0;
       noctrln_loop s' p n
     } else Some s
   }"

definition noctrln :: "bytes \<Rightarrow> nat \<Rightarrow> nat \<Rightarrow> bytes option" where
  "noctrln s p maxlen = do {
     len \<leftarrow> c_strnlen (drop p s) maxlen;
     noctrln_loop s p len
   }"

function word_skip :: "bytes \<Rightarrow> nat \<Rightarrow> nat option" where
  "word_skip s p = (case rd s (int p) of None \<Rightarrow> None
     | Some c \<Rightarrow> if c \<noteq> 0 \<and> c \<le> 32 then word_skip s (Suc p) else Some p)"
  by pat_completeness auto
termination
  by (relation "measure (\<lambda>(s, p). length s - p)") (auto split: if_splits)

declare word_skip.simps [simp del]

function word_copy :: "bytes \<Rightarrow> nat \<Rightarrow> bytes \<Rightarrow> nat \<Rightarrow> int \<Rightarrow> (nat \<times> bytes \<times> nat) option" where
  "word_copy s p to k maxlen = (case rd s (int p) of None \<Rightarrow> None
     | Some c \<Rightarrow>
         if c = 0 \<or> c = 32 \<or> c = 9 \<or> c < 32 then Some (p, to, k)
         else if int k < maxlen then do {
           to' \<leftarrow> wr to (int k) c;
           word_copy s (Suc p) to' (Suc k) maxlen
         } else word_copy s (Suc p) to k maxlen)"
  by pat_completeness auto
termination
  by (relation "measure (\<lambda>(s, p, to, k, maxlen). length s - p)") (auto split: if_splits)

declare word_copy.simps [simp del]

definition get_word :: "bytes \<Rightarrow> nat \<Rightarrow> bytes \<Rightarrow> int \<Rightarrow> (nat \<times> bytes) option" where
  "get_word s p to maxlen = do {
     p1 \<leftarrow> word_skip s p;
     to1 \<leftarrow> wr to 0 0;
     (p2, to2, k) \<leftarrow> word_copy s p1 to1 0 (maxlen - 2);
     to3 \<leftarrow> wr to2 (int k) 0;
     Some (p2, to3)
   }"

function quoted_copy :: "bytes \<Rightarrow> nat \<Rightarrow> byte \<Rightarrow> bytes \<Rightarrow> nat \<Rightarrow> int \<Rightarrow> (nat \<times> bytes \<times> nat) option" where
  "quoted_copy s p delim to k mx = (case rd s (int p) of None \<Rightarrow> None
     | Some c \<Rightarrow>
         if c = 0 then Some (p, to, k)
         else if c = delim then Some (Suc p, to, k)
         else if int k < mx then do {
           to' \<leftarrow> wr to (int k) c;
           quoted_copy s (Suc p) delim to' (Suc k) mx
         } else quoted_copy s (Suc p) delim to k mx)"
  by pat_completeness auto
termination
  by (relation "measure (\<lambda>(s, p, delim, to, k, mx). length s - p)") (auto split: if_splits)

declare quoted_copy.simps [simp del]

definition get_quoted :: "bytes \<Rightarrow> nat \<Rightarrow> byte \<Rightarrow> bytes \<Rightarrow> int \<Rightarrow> (nat \<times> bytes) option" where
  "get_quoted s p delim to mx = do {
     to1 \<leftarrow> wr to 0 0;
     (p1, to2, k) \<leftarrow> quoted_copy s p delim to1 0 (mx - 2);
     to3 \<leftarrow> wr to2 (int k) 0;
     Some (p1, to3)
   }"

section \<open>Copies\<close>

text \<open>\<open>strcpy (dst, src)\<close>: undefined when \<open>src\<close> has no NUL or does not fit.\<close>

definition c_strcpy :: "bytes \<Rightarrow> bytes \<Rightarrow> bytes option" where
  "c_strcpy dst src = do {
     n \<leftarrow> c_strlen src;
     if n < length dst then Some (cstr src @ 0 # drop (Suc n) dst) else None
   }"

text \<open>
  \<open>copy_string (y, x, len)\<close> for distinct buffers: \<open>z\<close> is \<open>x\<close> behind its leading blanks, and
  \<open>x - z\<close> is minus the number of blanks. The result is the new \<open>y\<close> and the new \<open>x\<close>, which
  loses its trailing blanks and is cut at \<open>len - 2\<close>.
\<close>

definition copy_string :: "bytes \<Rightarrow> bytes \<Rightarrow> nat \<Rightarrow> (bytes \<times> bytes) option" where
  "copy_string y x len = do {
     z \<leftarrow> skip_ws x 0;
     x1 \<leftarrow> noctrln x z (len + z);
     n \<leftarrow> c_strlen (drop z x1);
     x2 \<leftarrow> (if 2 \<le> len \<and> len - 2 \<le> n then wr x1 (int (z + (len - 2))) 0 else Some x1);
     y1 \<leftarrow> c_strcpy y (drop z x2);
     Some (y1, x2)
   }"

section \<open>The hash of a name\<close>

fun stringcode_loop :: "u32 \<Rightarrow> bytes \<Rightarrow> u32" where
  "stringcode_loop code [] = code"
| "stringcode_loop code (c # cs) =
     stringcode_loop (code + (if c_isupper c then ucast (c_tolower c) else ucast c)) cs"

definition get_stringcode :: "bytes \<Rightarrow> u32" where
  "get_stringcode s = (stringcode_loop 0 s AND 0xFF) + push_bit 8 (of_nat (length s))"

section \<open>What the utilities compute\<close>

lemma cstr_drop_Cons: "p < length s \<Longrightarrow> s ! p \<noteq> 0 \<Longrightarrow> cstr (drop p s) = s ! p # cstr (drop (Suc p) s)"
  by (simp add: cstr_def Cons_nth_drop_Suc [symmetric])

lemma cstr_drop_0: "p < length s \<Longrightarrow> s ! p = 0 \<Longrightarrow> cstr (drop p s) = []"
  by (simp add: cstr_def Cons_nth_drop_Suc [symmetric])

lemma nul_drop_Suc:
  assumes "(0::byte) \<in> set (drop p s)" "s ! p \<noteq> 0"
  shows "0 \<in> set (drop (Suc p) s)"
proof -
  have "p < length s" using assms(1) by (cases "p < length s") auto
  then show ?thesis using assms by (simp add: Cons_nth_drop_Suc [symmetric])
qed

lemma nul_in_range: "(0::byte) \<in> set (drop p s) \<Longrightarrow> p < length s"
  by (cases "p < length s") auto

lemma strn_conv_run:
  assumes "0 \<in> set (drop i s)" "int (i + length (cstr (drop i s))) \<le> maxlen"
  shows "strn_conv f s maxlen i =
    Some (take i s @ map f (cstr (drop i s)) @ drop (i + length (cstr (drop i s))) s)"
  using assms
proof (induction f s maxlen i rule: strn_conv.induct)
  case (1 f s maxlen i)
  have i: "i < length s" using "1.prems"(1) by (rule nul_in_range)
  have im: "int i \<le> maxlen" using "1.prems"(2) by simp
  show ?case
  proof (cases "s ! i = 0")
    case True
    then show ?thesis using i im
      by (simp add: strn_conv.simps [of f s maxlen i] cstr_drop_0)
  next
    case False
    let ?s = "s[i := f (s ! i)]"
    have c: "cstr (drop i s) = s ! i # cstr (drop (Suc i) s)" using i False by (rule cstr_drop_Cons)
    have d: "drop (Suc i) ?s = drop (Suc i) s" by simp
    have "strn_conv f ?s maxlen (Suc i) = Some (take (Suc i) ?s @
        map f (cstr (drop (Suc i) ?s)) @ drop (Suc i + length (cstr (drop (Suc i) ?s))) ?s)"
      using "1.IH" [of "s ! i" ?s] im i False "1.prems" c nul_drop_Suc [OF "1.prems"(1) False]
      by simp
    then show ?thesis using i im False c
      by (simp add: strn_conv.simps [of f s maxlen i] drop_update_cancel)
  qed
qed

lemma strnlwr_cstr [lib_simps]:
  assumes "0 \<in> set s" "int (length (cstr s)) \<le> maxlen"
  shows "strnlwr s maxlen = Some (map c_tolower (cstr s) @ drop (length (cstr s)) s)"
  using strn_conv_run [of 0 s maxlen] assms by (simp add: strnlwr_def)

lemma strnupr_cstr [lib_simps]:
  assumes "0 \<in> set s" "int (length (cstr s)) \<le> maxlen"
  shows "strnupr s maxlen = Some (map c_toupper (cstr s) @ drop (length (cstr s)) s)"
  using strn_conv_run [of 0 s maxlen] assms by (simp add: strnupr_def)

lemma strn_conv_overrun:
  assumes "0 \<notin> set (drop i s)" "int (length s) \<le> maxlen" "i \<le> length s"
  shows "strn_conv f s maxlen i = None"
  using assms
proof (induction f s maxlen i rule: strn_conv.induct)
  case (1 f s maxlen i)
  show ?case
  proof (cases "i < length s")
    case True
    then have nz: "s ! i \<noteq> 0" using "1.prems"(1)
      by (auto simp: Cons_nth_drop_Suc [symmetric])
    have "strn_conv f (s[i := f (s ! i)]) maxlen (Suc i) = None"
      using "1.IH" [of "s ! i" "s[i := f (s ! i)]"] True nz "1.prems"
      by (simp add: Cons_nth_drop_Suc [symmetric])
    then show ?thesis using True nz "1.prems"(2) by (simp add: strn_conv.simps [of f s maxlen i])
  next
    case False
    then show ?thesis using "1.prems" by (auto simp: strn_conv.simps [of f s maxlen "length s"])
  qed
qed

text \<open>
  The bound of the case conversions is inclusive: a buffer of exactly \<open>maxlen\<close> bytes that
  holds no NUL is read at index \<open>maxlen\<close>, one byte behind its end.
\<close>

lemma strnlwr_overrun: "0 \<notin> set s \<Longrightarrow> strnlwr s (int (length s)) = None"
  by (simp add: strnlwr_def strn_conv_overrun)

lemma skip_ws_run [lib_simps]:
  assumes "0 \<in> set (drop p s)"
  shows "skip_ws s p = Some (p + length (takeWhile (\<lambda>c. c = 32 \<or> c = 9) (drop p s)))"
  using assms
proof (induction s p rule: skip_ws.induct)
  case (1 s p)
  have p: "p < length s" using "1.prems" by (rule nul_in_range)
  show ?case
  proof (cases "s ! p = 32 \<or> s ! p = 9")
    case True
    then have "0 \<in> set (drop (Suc p) s)" using nul_drop_Suc [OF "1.prems"] by auto
    then have "skip_ws s (Suc p) =
        Some (Suc p + length (takeWhile (\<lambda>c. c = 32 \<or> c = 9) (drop (Suc p) s)))"
      using "1.IH" [of "s ! p"] p True by simp
    then show ?thesis using p True
      by (simp add: skip_ws.simps [of s p] Cons_nth_drop_Suc [symmetric])
  next
    case False
    then show ?thesis using p
      by (simp add: skip_ws.simps [of s p] Cons_nth_drop_Suc [symmetric])
  qed
qed

text \<open>A word is a maximal run of bytes above 32.\<close>

definition word_rest :: "bytes \<Rightarrow> bytes" where
  "word_rest u = dropWhile (\<lambda>c. c \<noteq> 0 \<and> c \<le> 32) u"

definition word_of :: "bytes \<Rightarrow> bytes" where
  "word_of u = takeWhile (\<lambda>c. 32 < c) u"

lemma word_char: "(c = 0 \<or> c = 32 \<or> c = 9 \<or> c < 32) \<longleftrightarrow> \<not> 32 < (c::byte)"
  by (auto simp: word_less_nat_alt word_le_nat_alt word_unat_eq_iff)

lemma word_skip_run:
  assumes "0 \<in> set (drop p s)"
  shows "\<exists>p'. word_skip s p = Some p' \<and> p \<le> p' \<and> drop p' s = word_rest (drop p s) \<and> 0 \<in> set (drop p' s)"
  using assms
proof (induction s p rule: word_skip.induct)
  case (1 s p)
  have p: "p < length s" using "1.prems" by (rule nul_in_range)
  show ?case
  proof (cases "s ! p \<noteq> 0 \<and> s ! p \<le> 32")
    case True
    have n: "0 \<in> set (drop (Suc p) s)" using nul_drop_Suc [OF "1.prems"] True by blast
    obtain p' where "word_skip s (Suc p) = Some p'" "Suc p \<le> p'"
      "drop p' s = word_rest (drop (Suc p) s)" "0 \<in> set (drop p' s)"
      using "1.IH" [of "s ! p"] p True n by auto
    then show ?thesis using p True
      by (intro exI [of _ p']) (simp add: word_skip.simps [of s p] word_rest_def Cons_nth_drop_Suc [symmetric])
  next
    case False
    then show ?thesis using p "1.prems"
      by (intro exI [of _ p]) (auto simp: word_skip.simps [of s p] word_rest_def Cons_nth_drop_Suc [symmetric])
  qed
qed

lemma word_copy_run:
  assumes "0 \<in> set (drop p s)" "0 \<le> m" "nat m \<le> length to" "k \<le> nat m"
  shows "\<exists>to' k'. word_copy s p to k m = Some (p + length (word_of (drop p s)), to', k') \<and>
    length to' = length to \<and> k' = k + min (nat m - k) (length (word_of (drop p s))) \<and>
    take k' to' = take k to @ take (nat m - k) (word_of (drop p s))"
  using assms
proof (induction s p to k m rule: word_copy.induct)
  case (1 s p to k m)
  have p: "p < length s" using "1.prems"(1) by (rule nul_in_range)
  have dp: "drop p s = s ! p # drop (Suc p) s" using p by (simp add: Cons_nth_drop_Suc)
  show ?case
  proof (cases "s ! p = 0 \<or> s ! p = 32 \<or> s ! p = 9 \<or> s ! p < 32")
    case True
    then have "word_of (drop p s) = []" using word_char [of "s ! p"] dp by (simp add: word_of_def)
    then show ?thesis using p True by (simp add: word_copy.simps [of s p])
  next
    case False
    then have w: "word_of (drop p s) = s ! p # word_of (drop (Suc p) s)"
      using word_char [of "s ! p"] dp by (simp add: word_of_def)
    have n: "0 \<in> set (drop (Suc p) s)" using nul_drop_Suc [OF "1.prems"(1)] False by blast
    show ?thesis
    proof (cases "int k < m")
      case True
      let ?to = "to[k := s ! p]"
      have k: "k < length to" using True "1.prems"(3) by linarith
      have "\<exists>to' k'. word_copy s (Suc p) ?to (Suc k) m =
            Some (Suc p + length (word_of (drop (Suc p) s)), to', k') \<and>
          length to' = length ?to \<and> k' = Suc k + min (nat m - Suc k) (length (word_of (drop (Suc p) s))) \<and>
          take k' to' = take (Suc k) ?to @ take (nat m - Suc k) (word_of (drop (Suc p) s))"
        by (rule "1.IH"(1) [of "s ! p" ?to]) (use p False True k n "1.prems" in auto)
      then obtain to' k' where r: "word_copy s (Suc p) ?to (Suc k) m =
          Some (Suc p + length (word_of (drop (Suc p) s)), to', k')"
        "length to' = length to" "k' = Suc k + min (nat m - Suc k) (length (word_of (drop (Suc p) s)))"
        "take k' to' = take (Suc k) ?to @ take (nat m - Suc k) (word_of (drop (Suc p) s))"
        by (metis length_list_update)
      moreover have "nat m - k = Suc (nat m - Suc k)" using True by linarith
      ultimately show ?thesis using p False True k w
        by (simp add: word_copy.simps [of s p])
    next
      case F: False
      then have km: "k = nat m" using "1.prems"(2,4) by linarith
      obtain to' k' where "word_copy s (Suc p) to k m =
          Some (Suc p + length (word_of (drop (Suc p) s)), to', k')"
        "length to' = length to" "k' = k + min (nat m - k) (length (word_of (drop (Suc p) s)))"
        "take k' to' = take k to @ take (nat m - k) (word_of (drop (Suc p) s))"
        using "1.IH"(2) [of "s ! p"] p False F n "1.prems" by auto
      then show ?thesis using p False F w km
        by (simp add: word_copy.simps [of s p])
    qed
  qed
qed

text \<open>
  \<open>get_word\<close> delivers the next word, cut to \<open>maxlen - 2\<close> bytes, leaves the cursor behind
  the whole word, and writes only into the \<open>maxlen\<close> bytes of its buffer.
\<close>

lemma get_word_spec:
  assumes "0 \<in> set (drop p s)" "2 \<le> maxlen" "maxlen \<le> length to"
  defines "u \<equiv> word_rest (drop p s)"
  shows "\<exists>p' to'. get_word s p to (int maxlen) = Some (p', to') \<and> p \<le> p' \<and>
    drop p' s = drop (length (word_of u)) u \<and> 0 \<in> set (drop p' s) \<and>
    length to' = length to \<and> 0 \<in> set (take maxlen to') \<and> cstr to' = take (maxlen - 2) (word_of u)"
proof -
  obtain p1 where p1: "word_skip s p = Some p1" "p \<le> p1" "drop p1 s = u" "0 \<in> set (drop p1 s)"
    using word_skip_run [OF assms(1)] u_def by blast
  let ?to = "to[0 := 0]" and ?m = "int maxlen - 2"
  have "0 \<le> ?m" "nat ?m \<le> length ?to" "0 \<le> nat ?m" using assms(2,3) by auto
  from word_copy_run [OF p1(4) this] obtain to' k where
    c: "word_copy s p1 ?to 0 ?m = Some (p1 + length (word_of u), to', k)"
    "length to' = length to" "k = min (nat ?m) (length (word_of u))"
    "take k to' = take (nat ?m) (word_of u)"
    using p1(3) by (metis add_0 append_Nil diff_zero length_list_update take0)
  have k: "k < length to'" using c(2,3) assms(2,3) by linarith
  have nz: "0 \<notin> set (take (nat ?m) (word_of u))"
    unfolding word_of_def by (auto dest!: in_set_takeD set_takeWhileD simp: word_less_nat_alt)
  have "to'[k := 0] = take k to' @ 0 # drop (Suc k) to'" using k by (rule upd_conv_take_nth_drop)
  then have cs: "cstr (to'[k := 0]) = take (nat ?m) (word_of u)" using nz c(4) by simp
  have "k < maxlen" using c(3) assms(2) by linarith
  then have z: "0 \<in> set (take maxlen (to'[k := 0]))"
    using k by (auto simp: in_set_conv_nth intro!: exI [of _ k])
  have pos: "drop (p1 + length (word_of u)) s = drop (length (word_of u)) u"
    using p1(3) by (metis add.commute drop_drop)
  have "u = word_of u @ drop (length (word_of u)) u"
    unfolding word_of_def by (metis takeWhile_eq_take append_take_drop_id)
  moreover have "0 \<in> set u" using p1(3,4) by simp
  moreover have "0 \<notin> set (word_of u)"
    unfolding word_of_def by (auto dest!: set_takeWhileD simp: word_less_nat_alt)
  ultimately have n: "0 \<in> set (drop (length (word_of u)) u)" by (metis Un_iff set_append)
  have "0 < length to" using assms(2,3) by linarith
  then have "get_word s p to (int maxlen) = Some (p1 + length (word_of u), to'[k := 0])"
    using p1(1) c(1) k by (simp add: get_word_def wr_def)
  moreover have "nat ?m = maxlen - 2" by linarith
  ultimately show ?thesis using cs z pos n p1(2) c(2) by simp
qed

text \<open>
  The hash depends on a name only up to case, so the comparison of hashes that precedes
  \<open>strcmp\<close> and \<open>strcasecmp\<close> in the lookups never rejects an equal name.
\<close>

lemma stringcode_loop_tolower: "stringcode_loop code (map c_tolower s) = stringcode_loop code s"
proof (induction s arbitrary: code)
  case Nil
  then show ?case by simp
next
  case (Cons c s)
  have "\<not> c_isupper (c_tolower c)"
    by (auto simp: c_isupper_def word_le_nat_alt unat_c_tolower split: if_splits)
  moreover have "c_tolower c = c" if "\<not> c_isupper c" using that by (simp add: c_tolower_def)
  ultimately show ?case using Cons by simp
qed

lemma get_stringcode_caseeq:
  assumes "c_strcaseeq a b"
  shows "get_stringcode a = get_stringcode b"
proof -
  have m: "map c_tolower a = map c_tolower b" using assms by (simp add: c_strcaseeq_def)
  then have "length a = length b" by (metis length_map)
  moreover have "stringcode_loop 0 a = stringcode_loop 0 b"
    using m by (metis stringcode_loop_tolower)
  ultimately show ?thesis by (simp add: get_stringcode_def)
qed

end
