(* ===== verification/Dns.thy ===== *)
theory Dns
  imports Lib
begin

text \<open>
  The packet decoder of src/dns.c: the table of valid name characters, packed names with
  compression pointers (\<open>get_objname\<close>), resource records (\<open>read_record\<close>), packet headers
  and the question section (\<open>parse_query\<close>).

  Message lengths are natural numbers: they are results of \<open>recvfrom\<close> or \<open>recvmsg\<close> that
  the callers have found non-negative. A destination buffer is a region of memory
  together with the offset \<open>base\<close> of the buffer in it, because \<open>get_objname\<close> can write to
  \<open>dest[-1]\<close>; with \<open>base = 0\<close> nothing is known of the bytes before the buffer and that
  write is undefined. In \<open>rr_t\<close> the name is preceded by the two bytes of \<open>flags\<close>, low byte
  first. Local variables of type \<open>rr_t\<close> are not initialised by the code; their first
  content is an argument.
\<close>

named_theorems dns_simps \<open>results of the decoder\<close>

section \<open>Flags\<close>

definition MASK_RCODE :: u16 where "MASK_RCODE = 0x000f"
definition MASK_Z :: u16 where "MASK_Z = 0x0040"
definition MASK_RA :: u16 where "MASK_RA = 0x0080"
definition MASK_RD :: u16 where "MASK_RD = 0x0100"
definition MASK_TC :: u16 where "MASK_TC = 0x0200"
definition MASK_AA :: u16 where "MASK_AA = 0x0400"
definition MASK_OPCODE :: u16 where "MASK_OPCODE = 0xe800"
definition MASK_QR :: u16 where "MASK_QR = 0x8000"

lemmas masks = MASK_RCODE_def MASK_Z_def MASK_RA_def MASK_RD_def MASK_TC_def MASK_AA_def
  MASK_OPCODE_def MASK_QR_def

definition GET_RCODE :: "u16 \<Rightarrow> u16" where "GET_RCODE x = x AND MASK_RCODE"
definition GET_OPCODE :: "u16 \<Rightarrow> u16" where "GET_OPCODE x = drop_bit 11 (x AND MASK_OPCODE)"
definition GET_QR :: "u16 \<Rightarrow> u16" where "GET_QR x = drop_bit 15 (x AND MASK_QR)"

definition SET_RCODE :: "u16 \<Rightarrow> u16 \<Rightarrow> u16" where
  "SET_RCODE x y = (x AND NOT MASK_RCODE) OR (y AND MASK_RCODE)"
definition SET_AA :: "u16 \<Rightarrow> u16 \<Rightarrow> u16" where
  "SET_AA x y = (x AND NOT MASK_AA) OR (push_bit 10 y AND MASK_AA)"
definition SET_QR :: "u16 \<Rightarrow> u16 \<Rightarrow> u16" where
  "SET_QR x y = (x AND NOT MASK_QR) OR (push_bit 15 y AND MASK_QR)"

definition DNS_CLASS_INET :: u32 where "DNS_CLASS_INET = 1"
definition PACKET_DATABEGIN :: nat where "PACKET_DATABEGIN = 12"
definition UDP_MAXSIZE :: nat where "UDP_MAXSIZE = 512"
definition RR_NAMESIZE :: nat where "RR_NAMESIZE = 256"

section \<open>Records and headers\<close>

record rr_t =
  rr_flags :: u16
  rr_name :: bytes
  rr_type :: u32
  rr_class :: u32
  rr_ttl :: u32
  rr_len :: nat
  rr_data :: bytes

text \<open>\<open>here\<close> and \<open>rdata\<close> point into \<open>packet\<close>: they are offsets.\<close>

record dnsheader_t =
  h_id :: u16
  h_u :: u16
  h_qdcount :: u16
  h_ancount :: u16
  h_nscount :: u16
  h_arcount :: u16
  h_here :: nat
  h_packet :: bytes
  h_len :: nat
  h_rdata :: "nat option"

section \<open>The table of valid characters\<close>

definition init_dns :: "byte \<Rightarrow> bytes" where
  "init_dns tolerant_mode =
     (let t0 = replicate 256 tolerant_mode;
          t1 = fold (\<lambda>i t. t[i := 1]) [48..<58] t0;
          t2 = fold (\<lambda>i t. t[i := 1]) [65..<91] t1;
          t3 = fold (\<lambda>i t. t[i := 1]) [97..<123] t2
      in t3[45 := 1])"

section \<open>Packed names\<close>

text \<open>
  The inner loop of \<open>get_objname\<close>: copies the \<open>c\<close> bytes of a label; the first component
  of the result is \<open>False\<close> when it meets a character that is not valid.
\<close>

fun copy_label :: "bytes \<Rightarrow> bytes \<Rightarrow> nat \<Rightarrow> nat \<Rightarrow> nat \<Rightarrow> nat \<Rightarrow> bytes \<Rightarrow> (bool \<times> nat \<times> nat \<times> bytes) option" where
  "copy_label vc msg base 0 i j mem = Some (True, i, j, mem)"
| "copy_label vc msg base (Suc c) i j mem = do {
     b \<leftarrow> rd msg (int i);
     v \<leftarrow> rd vc (uint b);
     if v \<noteq> 0 then do {
       mem' \<leftarrow> wr mem (int base + int j) b;
       copy_label vc msg base c (Suc i) (Suc j) mem'
     } else Some (False, i, j, mem)
   }"

lemma copy_label_True:
  "copy_label vc msg base c i j mem = Some (True, i', j', mem') \<Longrightarrow>
     i' = i + c \<and> j' = j + c \<and> length mem' = length mem"
  by (induction c arbitrary: i j mem)
    (fastforce split: if_splits bind_splits dest: wr_length)+

function get_objname_loop :: "bytes \<Rightarrow> bytes \<Rightarrow> nat \<Rightarrow> nat \<Rightarrow> nat \<Rightarrow> nat \<Rightarrow> nat \<Rightarrow> nat \<Rightarrow> nat \<Rightarrow> bytes \<Rightarrow> (int \<times> bytes) option" where
  "get_objname_loop vc msg msgsize base destsize i j depth compressed mem =
     (case rd msg (int i) of None \<Rightarrow> None
      | Some c \<Rightarrow>
        if c = 0 then
          (if int destsize \<le> int j - 1 then Some (-1, mem)
           else do {
             mem' \<leftarrow> wr mem (int base + (int j - 1)) 0;
             Some (int (if compressed \<noteq> 0 then compressed else Suc i), mem')
           })
        else if msgsize \<le> Suc i then Some (-1, mem)
        else if c AND 0xc0 = 0xc0 then
          (if msgsize \<le> Suc depth \<or> UDP_MAXSIZE < Suc depth then Some (-1, mem)
           else case rd msg (int (Suc i)) of None \<Rightarrow> None
             | Some p \<Rightarrow>
               let compressed' = (if compressed = 0 then Suc (Suc i) else compressed);
                   i' = unat (c AND 0x3f) * 256 + unat p
               in if msgsize \<le> i' then Some (-1, mem)
                  else get_objname_loop vc msg msgsize base destsize i' j (Suc depth) compressed' mem)
        else if unat c < 64 then
          (if destsize \<le> j + unat c + 1 \<or> msgsize \<le> Suc i + unat c then Some (-1, mem)
           else case copy_label vc msg base (unat c) (Suc i) j mem of None \<Rightarrow> None
             | Some (ok, i', j', mem') \<Rightarrow>
               if ok then
                 (case wr mem' (int base + int j') 46 of None \<Rightarrow> None
                  | Some mem'' \<Rightarrow>
                      get_objname_loop vc msg msgsize base destsize i' (Suc j') depth compressed mem'')
               else Some (-1, mem'))
        else Some (-1, mem))"
  by pat_completeness auto
termination
  by (relation "measures [\<lambda>(vc, msg, msgsize, base, destsize, i, j, depth, compressed, mem).
        Suc UDP_MAXSIZE - depth,
      \<lambda>(vc, msg, msgsize, base, destsize, i, j, depth, compressed, mem). length msg - i]")
    (auto dest: copy_label_True split: if_splits)

declare get_objname_loop.simps [simp del]

definition get_objname :: "bytes \<Rightarrow> bytes \<Rightarrow> nat \<Rightarrow> int \<Rightarrow> nat \<Rightarrow> nat \<Rightarrow> bytes \<Rightarrow> (int \<times> bytes) option" where
  "get_objname vc msg msgsize index base destsize mem =
     (if index < int PACKET_DATABEGIN \<or> int msgsize \<le> index then Some (-1, mem)
      else get_objname_loop vc msg msgsize base destsize (nat index) 0 0 0 mem)"

text \<open>The call \<open>get_objname (..., y->name, sizeof (y->name))\<close> on the name inside a record.\<close>

definition objname_rr :: "bytes \<Rightarrow> bytes \<Rightarrow> nat \<Rightarrow> int \<Rightarrow> rr_t \<Rightarrow> (int \<times> rr_t) option" where
  "objname_rr vc msg msgsize index y = do {
     (i, mem) \<leftarrow> get_objname vc msg msgsize index 2 RR_NAMESIZE
                   (lo8 (rr_flags y) # hi8 (rr_flags y) # rr_name y);
     Some (i, y\<lparr>rr_flags := be16 (mem ! 1) (mem ! 0), rr_name := drop 2 mem\<rparr>)
   }"

text \<open>\<open>strncpy\<close>: at most \<open>n\<close> bytes of a string, padded with NULs.\<close>

definition c_strncpy :: "bytes \<Rightarrow> bytes \<Rightarrow> nat \<Rightarrow> bytes option" where
  "c_strncpy dst src n =
     (if n \<le> length dst then Some (take n (src @ replicate n 0) @ drop n dst) else None)"

definition malformatted :: bytes where
  "malformatted = bstr ''(malformatted)''"

definition snprintf_cname :: "bytes \<Rightarrow> bytes \<Rightarrow> nat \<Rightarrow> int \<Rightarrow> bytes \<Rightarrow> nat \<Rightarrow> (int \<times> bytes) option" where
  "snprintf_cname vc msg msgsize index dest destsize = do {
     (r, dest') \<leftarrow> get_objname vc msg msgsize index 0 destsize dest;
     if r < 0 then do {
       dest'' \<leftarrow> c_strncpy dest' malformatted destsize;
       Some (-1, dest'')
     } else Some (0, dest')
   }"

section \<open>Resource records\<close>

definition rd_be32 :: "bytes \<Rightarrow> int \<Rightarrow> u32 option" where
  "rd_be32 m i = do {
     a \<leftarrow> rd_be16 m i;
     b \<leftarrow> rd_be16 m (i + 2);
     Some (push_bit 16 (ucast a) OR ucast b)
   }"

definition read_record :: "bytes \<Rightarrow> dnsheader_t \<Rightarrow> rr_t \<Rightarrow> int \<Rightarrow> bool \<Rightarrow> nat \<Rightarrow> (int \<times> rr_t) option" where
  "read_record vc x y index question packetsize = do {
     (i, y1) \<leftarrow> objname_rr vc (h_packet x) packetsize index y;
     if i < 0 \<or> int packetsize < i + 4 then Some (-1, y1)
     else do {
       t \<leftarrow> rd_be16 (h_packet x) i;
       c \<leftarrow> rd_be16 (h_packet x) (i + 2);
       let y2 = y1\<lparr>rr_type := ucast t, rr_class := ucast c\<rparr>;
       if question then Some (i + 4, y2)
       else if int packetsize < i + 10 then Some (-1, y2)
       else do {
         ttl \<leftarrow> rd_be32 (h_packet x) (i + 4);
         l \<leftarrow> rd_be16 (h_packet x) (i + 8);
         let y3 = y2\<lparr>rr_ttl := ttl, rr_len := unat l\<rparr>;
         if int packetsize < i + 10 + int (unat l) then Some (-1, y3)
         else do {
           let n = (if RR_NAMESIZE - 4 < unat l then RR_NAMESIZE - 4 else unat l);
           let d = take n (drop (nat (i + 10)) (h_packet x)) @ drop n (rr_data y3);
           d' \<leftarrow> wr d (int n) 0;
           Some (i + 10 + int n, y3\<lparr>rr_len := n, rr_data := d'\<rparr>)
         }
       }
     }
   }"

section \<open>Headers\<close>

text \<open>
  \<open>alloc_packet\<close> copies \<open>len\<close> bytes into a zeroed object of \<open>len + 2\<close> bytes;
  \<open>decode_header\<close> reads six 16 bit words from it, which needs \<open>len\<close> to be at least 10.
\<close>

definition alloc_packet :: "bytes \<Rightarrow> nat \<Rightarrow> dnsheader_t option" where
  "alloc_packet packet len =
     (if len \<le> length packet then
        Some \<lparr>h_id = 0, h_u = 0, h_qdcount = 0, h_ancount = 0, h_nscount = 0, h_arcount = 0,
              h_here = 0, h_packet = take len packet @ [0, 0], h_len = len, h_rdata = None\<rparr>
      else None)"

definition decode_header :: "bytes \<Rightarrow> nat \<Rightarrow> dnsheader_t option" where
  "decode_header packet len = do {
     x \<leftarrow> alloc_packet packet len;
     p0 \<leftarrow> rd_be16 (h_packet x) 0;
     p1 \<leftarrow> rd_be16 (h_packet x) 2;
     p2 \<leftarrow> rd_be16 (h_packet x) 4;
     p3 \<leftarrow> rd_be16 (h_packet x) 6;
     p4 \<leftarrow> rd_be16 (h_packet x) 8;
     p5 \<leftarrow> rd_be16 (h_packet x) 10;
     Some (x\<lparr>h_id := p0, h_u := p1, h_qdcount := p2, h_ancount := p3, h_nscount := p4,
             h_arcount := p5, h_here := 12\<rparr>)
   }"

definition parse_packet :: "bytes \<Rightarrow> nat \<Rightarrow> dnsheader_t option" where
  "parse_packet packet len = decode_header packet len"

definition check_replycode :: "bytes \<Rightarrow> nat \<Rightarrow> u16 option" where
  "check_replycode packet len = do {
     x \<leftarrow> decode_header packet len;
     Some (GET_RCODE (h_u x))
   }"

text \<open>
  \<open>dump_dnspacket\<close> walks over all records of a packet and prints them; what it prints is not
  modelled, only the walk, its result, and that each name that is printed is read up to its NUL. The
  counts are \<open>short int\<close>s: a negative one ends its loop at once.
\<close>

fun dump_records :: "bytes \<Rightarrow> dnsheader_t \<Rightarrow> rr_t \<Rightarrow> int \<Rightarrow> nat \<Rightarrow> nat \<Rightarrow> (int \<times> rr_t) option" where
  "dump_records vc x y index len 0 = Some (index, y)"
| "dump_records vc x y index len (Suc n) = do {
     (i, y') \<leftarrow> read_record vc x y index False len;
     if i < 0 then Some (-1, y')
     else do {
       k \<leftarrow> c_strlen (rr_name y');
       dump_records vc x y' i len n
     }
   }"

text \<open>The three sections behind the question, which ends at \<open>index\<close>.\<close>

definition dump_sections :: "bytes \<Rightarrow> dnsheader_t \<Rightarrow> rr_t \<Rightarrow> int \<Rightarrow> nat \<Rightarrow> int option" where
  "dump_sections vc x y index len = do {
     (i1, y1) \<leftarrow> dump_records vc x y index len (nat (sint (h_ancount x)));
     if i1 < 0 then Some (-1) else do {
     (i2, y2) \<leftarrow> dump_records vc x y1 i1 len (nat (sint (h_nscount x)));
     if i2 < 0 then Some (-1) else do {
     (i3, y3) \<leftarrow> dump_records vc x y2 i2 len (nat (sint (h_arcount x)));
     Some (if i3 < 0 then -1 else 0) }}}"

definition dump_dnspacket :: "bytes \<Rightarrow> nat \<Rightarrow> rr_t \<Rightarrow> bytes \<Rightarrow> nat \<Rightarrow> int option" where
  "dump_dnspacket vc opt_debug y packet len =
     (if opt_debug < 4 then Some 0
      else do {
        x \<leftarrow> decode_header packet len;
        (i0, y0) \<leftarrow> read_record vc x y (int PACKET_DATABEGIN) True len;
        if i0 < 0 then Some (-1)
        else do {
          k \<leftarrow> c_strlen (rr_name y0);
          dump_sections vc x y0 i0 len
        }
      })"

section \<open>The question section\<close>

definition parse_query :: "bytes \<Rightarrow> rr_t \<Rightarrow> bytes \<Rightarrow> nat \<Rightarrow> (int \<times> rr_t) option" where
  "parse_query vc y msg len = do {
     qd \<leftarrow> rd_be16 msg 4;
     if qd = 0 then Some (-1, y)
     else do {
       fl \<leftarrow> rd_be16 msg 2;
       (i, y1) \<leftarrow> objname_rr vc msg len (int PACKET_DATABEGIN) (y\<lparr>rr_flags := fl\<rparr>);
       if i < 0 then Some (-1, y1)
       else if int len < i + 4 then Some (-1, y1)
       else do {
         t \<leftarrow> rd_be16 msg i;
         c \<leftarrow> rd_be16 msg (i + 2);
         k \<leftarrow> c_strlen (rr_name y1);
         let n1 = (if k \<noteq> 0 \<and> rr_name y1 ! (k - 1) = 46 then (rr_name y1)[k - 1 := 0] else rr_name y1);
         n2 \<leftarrow> strnlwr n1 (int RR_NAMESIZE);
         Some (0, y1\<lparr>rr_type := ucast t, rr_class := ucast c, rr_name := n2\<rparr>)
       }
     }
   }"

section \<open>Memory safety of the decoder\<close>

text \<open>
  What a write into the destination buffer leaves alone: \<open>frame lo hi m m'\<close> says that two
  memories of the same size agree outside the offsets \<open>lo..<hi\<close>.
\<close>

definition frame :: "nat \<Rightarrow> nat \<Rightarrow> 'a list \<Rightarrow> 'a list \<Rightarrow> bool" where
  "frame lo hi m m' \<longleftrightarrow> length m' = length m \<and> take lo m' = take lo m \<and> drop hi m' = drop hi m"

lemma frame_refl [simp]: "frame lo hi m m"
  by (simp add: frame_def)

lemma frame_trans: "frame lo hi m m' \<Longrightarrow> frame lo hi m' m'' \<Longrightarrow> frame lo hi m m''"
  by (simp add: frame_def)

lemma frame_update: "lo \<le> k \<Longrightarrow> k < hi \<Longrightarrow> frame lo hi m (m[k := v])"
  by (simp add: frame_def)

lemma frame_length: "frame lo hi m m' \<Longrightarrow> length m' = length m"
  by (simp add: frame_def)

lemma frame_weaken:
  assumes "frame lo hi m m'" "lo' \<le> lo" "hi \<le> hi'"
  shows "frame lo' hi' m m'"
proof -
  have "take lo' m' = take lo' m"
    using assms(1,2) unfolding frame_def by (metis min.absorb1 take_take)
  moreover have "drop hi' m' = drop hi' m"
    using assms(1,3) unfolding frame_def by (metis drop_drop le_add_diff_inverse2)
  ultimately show ?thesis using assms(1) by (simp add: frame_def)
qed

lemma copy_label_safe:
  assumes "length vc = 256" "i + c \<le> length msg" "base + j + c \<le> length mem" "b0 \<le> base + j"
  shows "\<exists>ok i' j' mem'. copy_label vc msg base c i j mem = Some (ok, i', j', mem') \<and>
           frame b0 (base + j + c) mem mem'"
  using assms
proof (induction c arbitrary: i j mem)
  case 0
  show ?case by (simp, blast)
next
  case (Suc c)
  have v: "0 \<le> uint (msg ! i) \<and> uint (msg ! i) < 256" using uint_lt2p [of "msg ! i"] by simp
  let ?m = "mem[base + j := msg ! i]"
  have w: "wr mem (int base + int j) (msg ! i) = Some ?m"
    using Suc.prems by (simp add: wr_def nat_int_add)
  obtain ok i' j' mem' where r: "copy_label vc msg base c (Suc i) (Suc j) ?m = Some (ok, i', j', mem')"
    "frame b0 (base + Suc j + c) ?m mem'"
    using Suc.IH [of "Suc i" "Suc j" ?m] Suc.prems by auto
  have "frame b0 (base + Suc j + c) mem ?m" using Suc.prems by (intro frame_update) auto
  then have "frame b0 (base + Suc j + c) mem mem'" using r(2) by (rule frame_trans)
  then show ?case using r(1) Suc.prems v w by (auto simp: rd_def)
qed

text \<open>
  The invariant of the decoder's loop: the read position is inside the message, the write
  position leaves room for the NUL and, unless a label comes next, has a byte in front of it, and a
  recorded end position is behind the header.
\<close>

definition objname_inv :: "bytes \<Rightarrow> bytes \<Rightarrow> nat \<Rightarrow> nat \<Rightarrow> nat \<Rightarrow> nat \<Rightarrow> nat \<Rightarrow> nat \<Rightarrow> bytes \<Rightarrow> bool" where
  "objname_inv vc msg msgsize base destsize i j compressed mem \<longleftrightarrow>
     length vc = 256 \<and> i < msgsize \<and> msgsize \<le> length msg \<and> j < destsize \<and>
     (1 \<le> base + j \<or> msg ! i \<noteq> 0 \<and> msg ! i AND 0xc0 \<noteq> 0xc0) \<and>
     base + destsize \<le> length mem \<and>
     (if compressed = 0 then 12 \<le> i else 12 < compressed \<and> compressed \<le> msgsize)"

definition objname_post :: "nat \<Rightarrow> nat \<Rightarrow> nat \<Rightarrow> nat \<Rightarrow> bytes \<Rightarrow> int \<times> bytes \<Rightarrow> bool" where
  "objname_post msgsize base destsize j mem = (\<lambda>(r, mem').
     frame (base - 1) (base + destsize) mem mem' \<and>
     (r = -1 \<or> 12 < r \<and> r \<le> int msgsize \<and>
        (0 \<in> set (take destsize (drop base mem')) \<or>
         j = 0 \<and> mem' ! (base - 1) = 0 \<and> drop base mem' = drop base mem)))"

lemma objname_post_fail: "frame (base - 1) (base + destsize) mem mem' \<Longrightarrow>
    objname_post msgsize base destsize j mem (-1, mem')"
  by (simp add: objname_post_def)

lemma objname_post_trans:
  assumes "objname_post msgsize base destsize j' mem' r" "frame (base - 1) (base + destsize) mem mem'"
    and "j' = 0 \<Longrightarrow> j = 0 \<and> mem' = mem"
  shows "objname_post msgsize base destsize j mem r"
  using assms by (cases r) (auto simp: objname_post_def intro: frame_trans)

lemma objname_end:
  assumes "objname_inv vc msg msgsize base destsize i j compressed mem" "msg ! i = 0"
  shows "\<exists>mem'. wr mem (int base + (int j - 1)) 0 = Some mem' \<and>
    objname_post msgsize base destsize j mem
      (int (if compressed \<noteq> 0 then compressed else Suc i), mem')"
proof -
  note a = assms(1) [unfolded objname_inv_def] and b = assms(2)
  let ?k = "base + j - 1" and ?r = "int (if compressed \<noteq> 0 then compressed else Suc i)"
  let ?m = "mem[?k := 0]"
  have k: "?k < length mem" "int base + (int j - 1) = int ?k" using a b by auto
  then have w: "wr mem (int base + (int j - 1)) 0 = Some ?m" by (simp only: k(2) wr_nat if_True)
  have f: "frame (base - 1) (base + destsize) mem ?m" using a b by (intro frame_update) auto
  have z: "0 \<in> set (take destsize (drop base ?m)) \<or>
      j = 0 \<and> ?m ! (base - 1) = 0 \<and> drop base ?m = drop base mem"
  proof (cases "j = 0")
    case True
    then show ?thesis using k a by simp
  next
    case False
    have "take destsize (drop base ?m) ! (j - 1) = 0" "j - 1 < length (take destsize (drop base ?m))"
      using a False k by auto
    then show ?thesis by (metis nth_mem)
  qed
  have "12 < ?r \<and> ?r \<le> int msgsize" using a by (auto split: if_splits)
  then have "objname_post msgsize base destsize j mem (?r, ?m)"
    using f z by (simp add: objname_post_def)
  with w show ?thesis by blast
qed

text \<open>Behind a label there is a byte of the name, as if one had been written before.\<close>

definition behind_label :: "bytes \<Rightarrow> nat \<Rightarrow> nat \<Rightarrow> nat" where
  "behind_label msg i j = (if msg ! i = 0 \<or> msg ! i AND 0xc0 = 0xc0 then j else Suc j)"

lemma get_objname_loop_safe:
  assumes "objname_inv vc msg msgsize base destsize i j compressed mem"
  shows "\<exists>r. get_objname_loop vc msg msgsize base destsize i j depth compressed mem = Some r \<and>
           objname_post msgsize base destsize (behind_label msg i j) mem r"
  using assms
proof (induction vc msg msgsize base destsize i j depth compressed mem rule: get_objname_loop.induct)
  case (1 vc msg msgsize base destsize i j depth compressed mem)
  note inv = "1.prems"
  note a = inv [unfolded objname_inv_def]
  let ?c = "msg ! i"
  let ?L = "get_objname_loop vc msg msgsize base destsize i j depth compressed mem"
  have rdi: "rd msg (int i) = Some ?c" using a by simp
  note unf = get_objname_loop.simps [of vc msg msgsize base destsize i j depth compressed mem]
  let ?j = "behind_label msg i j"
  have fail: "objname_post msgsize base destsize ?j mem (-1, mem)" by (simp add: objname_post_fail)
  consider (stop) "?c = 0" | (early) "?c \<noteq> 0" "msgsize \<le> Suc i"
    | (pointer) "?c \<noteq> 0" "Suc i < msgsize" "?c AND 0xc0 = 0xc0"
    | (label) "?c \<noteq> 0" "Suc i < msgsize" "?c AND 0xc0 \<noteq> 0xc0" by linarith
  then show ?case
  proof cases
    case stop
    have "\<not> int destsize \<le> int j - 1" using a by linarith
    moreover have "?j = j" using stop by (simp add: behind_label_def)
    ultimately show ?thesis using objname_end [OF inv stop] rdi stop unf by auto
  next
    case early
    then show ?thesis using rdi unf fail by simp
  next
    case pointer
    let ?p = "msg ! Suc i" and ?cp = "if compressed = 0 then Suc (Suc i) else compressed"
    let ?i = "unat (?c AND 0x3f) * 256 + unat ?p"
    have rdp: "rd msg (int (Suc i)) = Some ?p" using a pointer(2) by (simp only: rd_nat) simp
    show ?thesis
    proof (cases "msgsize \<le> Suc depth \<or> UDP_MAXSIZE < Suc depth \<or> msgsize \<le> ?i")
      case True
      then show ?thesis using rdi rdp pointer unf fail by (auto simp del: rd_nat simp: Let_def)
    next
      case False
      have inv': "objname_inv vc msg msgsize base destsize ?i j ?cp mem"
        using a False pointer(2,3) by (auto simp: objname_inv_def)
      have "\<exists>r. get_objname_loop vc msg msgsize base destsize ?i j (Suc depth) ?cp mem = Some r \<and>
          objname_post msgsize base destsize (behind_label msg ?i j) mem r"
        by (rule "1.IH"(1) [OF rdi _ _ _ _ rdp]) (use pointer False inv' in auto)
      moreover have "?L = get_objname_loop vc msg msgsize base destsize ?i j (Suc depth) ?cp mem"
        using False rdi rdp pointer unf by (simp del: rd_nat add: Let_def)
      moreover have "?j = j" using pointer(3) by (simp add: behind_label_def)
      moreover have "behind_label msg ?i j = 0 \<Longrightarrow> j = 0" by (simp add: behind_label_def split: if_splits)
      ultimately show ?thesis using objname_post_trans [OF _ frame_refl, of msgsize base destsize _ mem _ j] by auto
    qed
  next
    case label
    show ?thesis
    proof (cases "unat ?c < 64 \<and> \<not> (destsize \<le> j + unat ?c + 1 \<or> msgsize \<le> Suc i + unat ?c)")
      case False
      then show ?thesis using rdi label unf fail by auto
    next
      case True
      have lim: "length vc = 256" "Suc i + unat ?c \<le> length msg" "base + j + unat ?c \<le> length mem"
        "base - 1 \<le> base + j" using a True by auto
      obtain ok i' j' mem' where cl: "copy_label vc msg base (unat ?c) (Suc i) j mem = Some (ok, i', j', mem')"
        "frame (base - 1) (base + j + unat ?c) mem mem'"
        using copy_label_safe [OF lim] by blast
      have fr: "frame (base - 1) (base + destsize) mem mem'"
        using cl(2) True by (elim frame_weaken) auto
      show ?thesis
      proof (cases ok)
        case False
        then show ?thesis using rdi label True unf cl(1) fr by (auto intro: objname_post_fail)
      next
        case ok: True
        have ij: "i' = Suc i + unat ?c" "j' = j + unat ?c" "length mem' = length mem"
          using copy_label_True [of vc msg base "unat ?c" "Suc i" j mem i' j' mem'] cl(1) ok
          by simp_all
        let ?m = "mem'[base + j' := 46]"
        have "base + j' < length mem'" using a True ij by linarith
        then have w: "wr mem' (int base + int j') 46 = Some ?m"
          by (simp only: of_nat_add [symmetric] wr_nat if_True)
        have fr': "frame (base - 1) (base + destsize) mem ?m"
          using fr by (rule frame_trans) (use ij True in \<open>auto intro!: frame_update\<close>)
        have inv': "objname_inv vc msg msgsize base destsize i' (Suc j') compressed ?m"
          using a True ij label(2) by (auto simp: objname_inv_def)
        have "\<exists>r. get_objname_loop vc msg msgsize base destsize i' (Suc j') depth compressed ?m = Some r \<and>
            objname_post msgsize base destsize (behind_label msg i' (Suc j')) ?m r"
          by (rule "1.IH"(2) [OF rdi _ _ _ _ _ cl(1) _ _ _ _ w]) (use label True inv' ok in auto)
        then obtain r where r: "get_objname_loop vc msg msgsize base destsize i' (Suc j') depth compressed ?m = Some r"
          "objname_post msgsize base destsize (behind_label msg i' (Suc j')) ?m r" by blast
        have "objname_post msgsize base destsize ?j mem r"
          by (rule objname_post_trans [OF r(2) fr']) (simp add: behind_label_def split: if_splits)
        moreover have "?L = Some r" using rdi label True unf cl(1) ok w r(1) by simp
        ultimately show ?thesis by blast
      qed
    qed
  qed
qed

lemma get_objname_safe:
  assumes "length vc = 256" "msgsize \<le> length msg" "1 \<le> base" "0 < destsize" "base + destsize \<le> length mem"
  shows "\<exists>r mem'. get_objname vc msg msgsize index base destsize mem = Some (r, mem') \<and>
    frame (base - 1) (base + destsize) mem mem' \<and>
    (r = -1 \<or> 12 < r \<and> r \<le> int msgsize \<and>
       (0 \<in> set (take destsize (drop base mem')) \<or>
        mem' ! (base - 1) = 0 \<and> drop base mem' = drop base mem))"
proof (cases "index < int PACKET_DATABEGIN \<or> int msgsize \<le> index")
  case True
  then show ?thesis by (simp add: get_objname_def)
next
  case False
  then have "objname_inv vc msg msgsize base destsize (nat index) 0 0 mem"
    using assms by (auto simp: objname_inv_def PACKET_DATABEGIN_def)
  from get_objname_loop_safe [OF this, of 0] show ?thesis
    using False by (auto simp: get_objname_def objname_post_def)
qed

text \<open>
  Into a buffer with nothing known of the bytes in front of it the decoder writes safely when the name begins with
  a label: then the NUL has a byte of the name in front of it.
\<close>

definition named :: "bytes \<Rightarrow> bool" where
  "named d \<longleftrightarrow> (12 < length d \<longrightarrow> d ! 12 \<noteq> 0 \<and> d ! 12 AND 0xc0 \<noteq> 0xc0)"

lemma get_objname_named:
  assumes "length vc = 256" "named (take msgsize msg)" "msgsize \<le> length msg" "0 < destsize" "base + destsize \<le> length mem"
  shows "\<exists>r mem'. get_objname vc msg msgsize 12 base destsize mem = Some (r, mem') \<and> length mem' = length mem \<and>
    (r = -1 \<or> 12 < r \<and> r \<le> int msgsize \<and> 0 \<in> set (take destsize (drop base mem')))"
proof (cases "msgsize \<le> 12")
  case True
  then show ?thesis by (simp add: get_objname_def PACKET_DATABEGIN_def)
next
  case False
  then have "objname_inv vc msg msgsize base destsize 12 0 0 mem" "behind_label msg 12 0 = 1"
    using assms by (auto simp: objname_inv_def named_def behind_label_def)
  with get_objname_loop_safe [OF this(1), of 0] show ?thesis
    using False by (auto simp: get_objname_def objname_post_def frame_def PACKET_DATABEGIN_def)
qed

lemma snprintf_cname_named:
  assumes "length vc = 256" "named (take msgsize msg)" "msgsize \<le> length msg" "0 < destsize" "destsize \<le> length dest"
  shows "\<exists>r. snprintf_cname vc msg msgsize 12 dest destsize = Some r"
proof -
  obtain r d where d: "get_objname vc msg msgsize 12 0 destsize dest = Some (r, d)" "length d = length dest"
    using get_objname_named [OF assms(1-4), of 0 dest] assms(5) by auto
  then show ?thesis using assms(5) by (auto simp: snprintf_cname_def c_strncpy_def)
qed

text \<open>For the root the NUL is written in front of the buffer.\<close>

lemma snprintf_cname_root:
  assumes "msg ! 12 = 0" "12 < msgsize" "msgsize \<le> length msg"
  shows "snprintf_cname vc msg msgsize 12 dest destsize = None"
proof -
  have "rd msg (int 12) = Some 0" using assms by simp
  then have "get_objname vc msg msgsize 12 0 destsize dest = None"
    using assms(2) by (simp add: get_objname_def PACKET_DATABEGIN_def get_objname_loop.simps [of vc msg] wr_def)
  then show ?thesis by (simp add: snprintf_cname_def)
qed

lemma objname_rr_named:
  assumes "length vc = 256" "named (take msgsize msg)" "msgsize \<le> length msg" "length (rr_name y) = RR_NAMESIZE"
    and "objname_rr vc msg msgsize (int PACKET_DATABEGIN) y = Some (r, y')" "r \<noteq> -1"
  shows "0 \<in> set (rr_name y')"
  using get_objname_named [OF assms(1-3), of RR_NAMESIZE 2 "lo8 (rr_flags y) # hi8 (rr_flags y) # rr_name y"] assms(4-6)
  by (auto simp: objname_rr_def PACKET_DATABEGIN_def RR_NAMESIZE_def dest: in_set_takeD)

lemma objname_rr_safe:
  assumes "length vc = 256" "msgsize \<le> length msg" "length (rr_name y) = RR_NAMESIZE"
  shows "\<exists>r y'. objname_rr vc msg msgsize index y = Some (r, y') \<and>
    y' = y\<lparr>rr_flags := rr_flags y', rr_name := rr_name y'\<rparr> \<and>
    length (rr_name y') = RR_NAMESIZE \<and> (r = -1 \<or> 12 < r \<and> r \<le> int msgsize \<and>
      (0 \<in> set (rr_name y') \<or> rr_name y' = rr_name y))"
proof -
  let ?mem = "lo8 (rr_flags y) # hi8 (rr_flags y) # rr_name y"
  have lim: "(1::nat) \<le> 2" "0 < RR_NAMESIZE" "2 + RR_NAMESIZE \<le> length ?mem"
    using assms(3) by (simp_all add: RR_NAMESIZE_def)
  obtain r mem where m: "get_objname vc msg msgsize index 2 RR_NAMESIZE ?mem = Some (r, mem)"
    "length mem = length ?mem" "r = -1 \<or> 12 < r \<and> r \<le> int msgsize \<and>
       (0 \<in> set (take RR_NAMESIZE (drop 2 mem)) \<or> drop 2 mem = rr_name y)"
    using get_objname_safe [OF assms(1,2) lim, of index] by (auto simp: frame_def)
  then show ?thesis using assms(3)
    by (auto simp: objname_rr_def dest: in_set_takeD)
qed

section \<open>What the decoder computes\<close>

text \<open>
  A packed name at an offset of a message: a root byte, a label in front of a packed name,
  or a compression pointer to one; the last argument counts the pointers.
\<close>

inductive packed :: "bytes \<Rightarrow> nat \<Rightarrow> nat \<Rightarrow> bytes list \<Rightarrow> nat \<Rightarrow> bool" for msg n where
  packed_root: "i < n \<Longrightarrow> msg ! i = 0 \<Longrightarrow> packed msg n i [] 0"
| packed_label: "l \<noteq> [] \<Longrightarrow> length l < 64 \<Longrightarrow> msg ! i = of_nat (length l) \<Longrightarrow>
    Suc i + length l < n \<Longrightarrow> take (length l) (drop (Suc i) msg) = l \<Longrightarrow>
    packed msg n (Suc i + length l) ls h \<Longrightarrow> packed msg n i (l # ls) h"
| packed_pointer: "Suc i < n \<Longrightarrow> msg ! i AND 0xc0 = 0xc0 \<Longrightarrow>
    t = unat (msg ! i AND 0x3f) * 256 + unat (msg ! Suc i) \<Longrightarrow> t < n \<Longrightarrow>
    packed msg n t ls h \<Longrightarrow> packed msg n i ls (Suc h)"

text \<open>Where the name at \<open>i\<close> ends in the message, the first pointer counting as the end.\<close>

fun name_end :: "bytes \<Rightarrow> nat \<Rightarrow> bytes list \<Rightarrow> nat" where
  "name_end msg i [] = (if msg ! i = 0 then i + 1 else i + 2)"
| "name_end msg i (l # ls) =
     (if msg ! i AND 0xc0 = 0xc0 then i + 2 else name_end msg (Suc i + length l) ls)"

definition dotted :: "bytes list \<Rightarrow> bytes" where
  "dotted ls = concat (map (\<lambda>l. l @ [46]) ls)"

lemma dotted_Nil [simp]: "dotted [] = []"
  by (simp add: dotted_def)

lemma dotted_Cons [simp]: "dotted (l # ls) = l @ 46 # dotted ls"
  by (simp add: dotted_def)

definition all_valid :: "bytes \<Rightarrow> bool" where
  "all_valid vc \<longleftrightarrow> length vc = 256 \<and> (\<forall>v \<in> set vc. v \<noteq> 0)"

lemma all_valid_rd: "all_valid vc \<Longrightarrow> \<exists>v. rd vc (uint (b :: byte)) = Some v \<and> v \<noteq> 0"
proof -
  assume v: "all_valid vc"
  have "uint b < 256" using uint_lt2p [of b] by simp
  moreover have "unat b < 2 ^ LENGTH(8)" by (rule unsigned_less)
  ultimately show ?thesis using v nth_mem [of "unat b" vc]
    by (auto simp: all_valid_def rd_def)
qed

text \<open>In the tolerant mode that the program is built with every character is valid.\<close>

lemma replicate_update_same: "(replicate n v)[i := v] = replicate n v"
  by (cases "i < n") (simp_all add: list_eq_iff_nth_eq nth_list_update)

lemma fold_update_same:
  "fold (\<lambda>i t. t[i := v]) is (replicate n v) = replicate n v"
  by (induction "is") (simp_all add: replicate_update_same)

lemma init_dns_tolerant: "init_dns 1 = replicate 256 1"
  by (simp only: init_dns_def Let_def fold_update_same replicate_update_same)

lemma all_valid_init_dns: "all_valid (init_dns 1)"
  by (simp add: init_dns_tolerant all_valid_def)

lemma copy_label_ok:
  assumes "all_valid vc" "i + length l \<le> length msg" "take (length l) (drop i msg) = l"
    and "base + j + length l \<le> length mem"
  shows "copy_label vc msg base (length l) i j mem = Some (True, i + length l, j + length l,
           take (base + j) mem @ l @ drop (base + j + length l) mem)"
  using assms
proof (induction l arbitrary: i j mem)
  case Nil
  then show ?case by simp
next
  case (Cons c l)
  have i: "i < length msg" using Cons.prems(2) by simp
  have mc: "msg ! i = c" "take (length l) (drop (Suc i) msg) = l"
    using Cons.prems(3) i by (simp_all add: Cons_nth_drop_Suc [symmetric])
  obtain v where v: "rd vc (uint c) = Some v" "v \<noteq> 0" using all_valid_rd [OF Cons.prems(1)] by blast
  let ?m = "mem[base + j := c]"
  have bj: "base + j < length mem" using Cons.prems(4) by simp
  then have w: "wr mem (int base + int j) c = Some ?m"
    by (simp only: of_nat_add [symmetric] wr_nat if_True)
  have "copy_label vc msg base (length l) (Suc i) (Suc j) ?m = Some (True, Suc i + length l, Suc j + length l,
      take (base + Suc j) ?m @ l @ drop (base + Suc j + length l) ?m)"
    by (rule Cons.IH) (use Cons.prems mc in auto)
  then show ?case using i mc v w bj by simp
qed

lemma small_label: "n < 64 \<Longrightarrow> (of_nat n :: byte) AND 0xc0 \<noteq> 0xc0"
proof
  assume n: "n < 64" and e: "(of_nat n :: byte) AND 0xc0 = 0xc0"
  then have "(0xc0 :: byte) \<le> of_nat n" by (metis word_and_le2)
  then show False using n by (simp add: word_le_nat_alt unat_of_nat)
qed

text \<open>
  The decoder writes the labels of a packed name with a dot between them and a NUL behind
  them and reports where the name ends, as long as the name fits and has few enough
  pointers.
\<close>

lemma get_objname_loop_packed:
  assumes "packed msg msgsize i ls h" "all_valid vc" "msgsize \<le> length msg"
    and "depth + h < msgsize" "depth + h \<le> UDP_MAXSIZE"
    and "j + length (dotted ls) < destsize" "1 \<le> base + j \<or> ls \<noteq> []" "base + destsize \<le> length mem"
  shows "get_objname_loop vc msg msgsize base destsize i j depth compressed mem =
    Some (int (if compressed \<noteq> 0 then compressed else name_end msg i ls),
      (take (base + j) mem @ dotted ls @ drop (base + j + length (dotted ls)) mem)
        [base + j + length (dotted ls) - 1 := 0])"
  using assms
proof (induction i ls h arbitrary: j depth compressed mem rule: packed.induct)
  case (packed_root i)
  then have k: "int base + (int j - 1) = int (base + j - 1)" "base + j - 1 < length mem" by auto
  then have "wr mem (int base + (int j - 1)) 0 = Some (mem[base + j - 1 := 0])"
    by (simp only: k wr_nat if_True)
  then show ?case using packed_root
    by (subst get_objname_loop.simps) simp
next
  case (packed_label l i ls h)
  let ?n = "length l"
  have un: "unat (of_nat ?n :: byte) = ?n"
    using packed_label.hyps(2) by (simp add: unat_of_nat)
  have c0: "(of_nat ?n :: byte) \<noteq> 0"
    using un packed_label.hyps(1) by (metis length_0_conv unat_0)
  have cl: "copy_label vc msg base ?n (Suc i) j mem = Some (True, Suc i + ?n, j + ?n,
      take (base + j) mem @ l @ drop (base + j + ?n) mem)"
    by (rule copy_label_ok) (use packed_label in auto)
  let ?ma = "take (base + j) mem @ l @ drop (base + j + ?n) mem"
  let ?m = "?ma[base + (j + ?n) := 46]"
  have lm: "base + j + ?n < length mem" using packed_label.prems by simp
  then have "base + (j + ?n) < length ?ma" by simp
  then have w: "wr ?ma (int base + int (j + ?n)) 46 = Some ?m"
    by (simp only: of_nat_add [symmetric] wr_nat if_True)
  have mm: "?m = take (base + j) mem @ (l @ [46]) @ drop (base + Suc (j + ?n)) mem"
  proof -
    have "drop (base + j + ?n) mem = mem ! (base + j + ?n) # drop (Suc (base + j + ?n)) mem"
      using lm by (simp add: Cons_nth_drop_Suc)
    then show ?thesis using lm by (simp add: list_update_append add.assoc)
  qed
  have rest: "get_objname_loop vc msg msgsize base destsize (Suc i + ?n) (Suc (j + ?n)) depth compressed ?m =
     Some (int (if compressed \<noteq> 0 then compressed else name_end msg (Suc i + ?n) ls),
      (take (base + Suc (j + ?n)) ?m @ dotted ls @ drop (base + Suc (j + ?n) + length (dotted ls)) ?m)
        [base + Suc (j + ?n) + length (dotted ls) - 1 := 0])"
    by (rule packed_label.IH) (use packed_label.prems lm in auto)
  have tk: "take (base + Suc (j + ?n)) ?m = take (base + j) mem @ l @ [46]"
    unfolding mm using lm by simp
  have dr: "drop (base + Suc (j + ?n) + length (dotted ls)) ?m =
      drop (base + Suc (j + ?n) + length (dotted ls)) mem"
    unfolding mm using lm by (simp add: ac_simps)
  have "get_objname_loop vc msg msgsize base destsize i j depth compressed mem =
      get_objname_loop vc msg msgsize base destsize (Suc i + ?n) (Suc (j + ?n)) depth compressed ?m"
    using packed_label.hyps(1-5) packed_label.prems(2,5) un c0 cl small_label [OF packed_label.hyps(2)]
    by (subst get_objname_loop.simps) (simp del: of_nat_add wr_add wr_nat add: w)
  then show ?case unfolding rest tk dr
    using packed_label.hyps(3) small_label [OF packed_label.hyps(2)]
    by (simp add: add.assoc)
next
  case (packed_pointer i t ls h)
  have c0: "msg ! i \<noteq> 0" using packed_pointer.hyps(2) by auto
  have rest: "get_objname_loop vc msg msgsize base destsize t j (Suc depth)
      (if compressed = 0 then Suc (Suc i) else compressed) mem =
     Some (int (if compressed = 0 then Suc (Suc i) else compressed),
      (take (base + j) mem @ dotted ls @ drop (base + j + length (dotted ls)) mem)
        [base + j + length (dotted ls) - 1 := 0])"
    using packed_pointer.IH [of "Suc depth" j mem "if compressed = 0 then Suc (Suc i) else compressed"]
      packed_pointer.prems by (simp split: if_splits)
  have "get_objname_loop vc msg msgsize base destsize i j depth compressed mem =
      get_objname_loop vc msg msgsize base destsize t j (Suc depth)
        (if compressed = 0 then Suc (Suc i) else compressed) mem"
    using packed_pointer.hyps packed_pointer.prems c0
    by (subst get_objname_loop.simps) (simp add: Let_def)
  moreover have "name_end msg i ls = Suc (Suc i)"
    using packed_pointer.hyps(2) c0 by (cases ls) auto
  ultimately show ?case unfolding rest by simp
qed

text \<open>Names in wire format, without compression, and their text.\<close>

definition wire_name :: "bytes list \<Rightarrow> bytes" where
  "wire_name ls = concat (map (\<lambda>l. of_nat (length l) # l) ls) @ [0]"

definition wf_labels :: "bytes list \<Rightarrow> bool" where
  "wf_labels ls \<longleftrightarrow> (\<forall>l \<in> set ls. l \<noteq> [] \<and> length l < 64 \<and> 0 \<notin> set l \<and> 46 \<notin> set l)"

definition name_text :: "bytes list \<Rightarrow> bytes" where
  "name_text ls = butlast (dotted ls)"

lemma wire_name_Nil [simp]: "wire_name [] = [0]"
  by (simp add: wire_name_def)

lemma wire_name_Cons [simp]: "wire_name (l # ls) = of_nat (length l) # l @ wire_name ls"
  by (simp add: wire_name_def)

lemma wf_labels_Nil [simp]: "wf_labels []"
  by (simp add: wf_labels_def)

lemma wf_labels_Cons [simp]: "wf_labels (l # ls) \<longleftrightarrow>
    l \<noteq> [] \<and> length l < 64 \<and> 0 \<notin> set l \<and> 46 \<notin> set l \<and> wf_labels ls"
  by (auto simp: wf_labels_def)

lemma length_wire_name: "length (wire_name ls) = Suc (length (dotted ls))"
  by (induction ls) auto

lemma packed_wire:
  assumes "wf_labels ls" "length pre + length (wire_name ls) \<le> n" "msg = pre @ wire_name ls @ post"
  shows "packed msg n (length pre) ls 0 \<and>
    name_end msg (length pre) ls = length pre + length (wire_name ls)"
  using assms
proof (induction ls arbitrary: pre)
  case Nil
  then show ?case by (auto intro!: packed.intros simp: nth_append)
next
  case (Cons l ls)
  let ?pre = "pre @ of_nat (length l) # l"
  have IH: "packed msg n (length ?pre) ls 0 \<and>
      name_end msg (length ?pre) ls = length ?pre + length (wire_name ls)"
    by (rule Cons.IH) (use Cons.prems in auto)
  have m: "msg ! length pre = of_nat (length l)" unfolding Cons.prems(3) by simp
  have "Suc (length pre) + length l < n" using Cons.prems(2) by (simp add: length_wire_name)
  then have "packed msg n (length pre) (l # ls) 0"
    using IH m Cons.prems by (intro packed_label) auto
  moreover have "msg ! length pre AND 0xc0 \<noteq> 0xc0"
    unfolding m using Cons.prems(1) by (intro small_label) simp
  ultimately show ?case using IH by simp
qed

lemma get_objname_packed:
  assumes "packed msg msgsize i ls h" "12 \<le> i" "i < msgsize" "all_valid vc" "msgsize \<le> length msg"
    and "h < msgsize" "h \<le> UDP_MAXSIZE"
    and "length (dotted ls) < destsize" "1 \<le> base \<or> ls \<noteq> []" "base + destsize \<le> length mem"
  shows "get_objname vc msg msgsize (int i) base destsize mem =
    Some (int (name_end msg i ls),
      (take base mem @ dotted ls @ drop (base + length (dotted ls)) mem)
        [base + length (dotted ls) - 1 := 0])"
  using get_objname_loop_packed [OF assms(1,4,5), of 0 0 destsize base mem 0] assms
  by (simp add: get_objname_def PACKET_DATABEGIN_def)

lemma dotted_snoc: "dotted (ls @ [l]) = dotted ls @ l @ [46]"
  by (simp add: dotted_def)

lemma dotted_append: "dotted (ls @ ls') = dotted ls @ dotted ls'"
  by (simp add: dotted_def)

lemma name_text_snoc [simp]: "name_text (ls @ [l]) = dotted ls @ l"
  by (simp add: name_text_def dotted_snoc butlast_append)

lemma length_name_text: "length (name_text ls) = length (dotted ls) - 1"
  by (simp add: name_text_def)

lemma dotted_no_nul: "wf_labels ls \<Longrightarrow> 0 \<notin> set (dotted ls)"
  by (induction ls) auto

lemma name_text_no_nul: "wf_labels ls \<Longrightarrow> 0 \<notin> set (name_text ls)"
  unfolding name_text_def using dotted_no_nul by (metis in_set_butlastD)

lemma dotted_eq_Nil: "dotted ls = [] \<longleftrightarrow> ls = []"
  by (cases ls) auto

lemma name_text_last:
  assumes "wf_labels ls" "ls \<noteq> []"
  shows "name_text ls \<noteq> [] \<and> last (name_text ls) \<noteq> 46"
proof -
  obtain ms l where ls: "ls = ms @ [l]" using assms(2) by (metis rev_exhaust)
  then have l: "l \<noteq> []" "46 \<notin> set l" using assms(1) by (auto simp: wf_labels_def)
  then have "last l \<noteq> 46" using last_in_set [OF l(1)] by metis
  then show ?thesis using ls l(1) by simp
qed

lemma dotted_name_text: "ls \<noteq> [] \<Longrightarrow> dotted ls = name_text ls @ [46]"
  by (cases ls rule: rev_cases) (simp_all add: dotted_snoc)

text \<open>The buffer then holds the text of the name, where it may also begin at the start of the memory.\<close>

lemma get_objname_text:
  assumes "packed msg msgsize i ls h" "wf_labels ls" "ls \<noteq> []" "12 \<le> i" "i < msgsize" "all_valid tbl"
    and "msgsize \<le> length msg" "h < msgsize" "h \<le> UDP_MAXSIZE" "length (dotted ls) < destsize"
    and "base + destsize \<le> length mem"
  shows "\<exists>mem'. get_objname tbl msg msgsize (int i) base destsize mem = Some (int (name_end msg i ls), mem') \<and>
    mem' = take base mem @ name_text ls @ 0 # drop (base + length (dotted ls)) mem \<and> cstr (drop base mem') = name_text ls"
proof -
  let ?d = "dotted ls" and ?m = "take base mem @ dotted ls @ drop (base + length (dotted ls)) mem"
  have n: "?d = name_text ls @ [46]" using assms(3) by (rule dotted_name_text)
  have m: "?m[base + length ?d - 1 := 0] = take base mem @ name_text ls @ 0 # drop (base + length ?d) mem"
    using assms(11) n by (simp add: list_update_append)
  then have "cstr (drop base (?m[base + length ?d - 1 := 0])) = name_text ls"
    using name_text_no_nul [OF assms(2)] assms(11) by simp
  then show ?thesis using get_objname_packed [OF assms(1,4-10) disjI2 [OF assms(3)] assms(11)] m by simp
qed

lemma objname_rr_packed:
  assumes "packed msg msgsize i ls h" "12 \<le> i" "i < msgsize" "all_valid vc" "msgsize \<le> length msg"
    and "h < msgsize" "h \<le> UDP_MAXSIZE"
    and "ls \<noteq> []" "length (dotted ls) < RR_NAMESIZE" "length (rr_name y) = RR_NAMESIZE"
  shows "objname_rr vc msg msgsize (int i) y = Some (int (name_end msg i ls),
    y\<lparr>rr_name := name_text ls @ 0 # drop (length (dotted ls)) (rr_name y)\<rparr>)"
proof -
  let ?d = "dotted ls" and ?f = "[lo8 (rr_flags y), hi8 (rr_flags y)]"
  let ?mem = "lo8 (rr_flags y) # hi8 (rr_flags y) # rr_name y"
  have d: "?d = name_text ls @ [46]" using assms(8) by (rule dotted_name_text)
  have "(take 2 ?mem @ ?d @ drop (2 + length ?d) ?mem)[2 + length ?d - 1 := 0] =
      ?f @ name_text ls @ 0 # drop (length ?d) (rr_name y)"
    by (simp add: d numeral_2_eq_2)
  then have "get_objname vc msg msgsize (int i) 2 RR_NAMESIZE ?mem =
      Some (int (name_end msg i ls), ?f @ name_text ls @ 0 # drop (length ?d) (rr_name y))"
    using get_objname_packed [OF assms(1-7,9), of 2 ?mem] assms(10) by simp
  then show ?thesis by (simp add: objname_rr_def)
qed

lemma rd_be16_int: "Suc k < length m \<Longrightarrow> rd_be16 m (int k) = Some (be16 (m ! k) (m ! Suc k))"
  by (simp add: rd_be16_def add.commute)

lemma rd_be16_int2: "k + 3 < length m \<Longrightarrow> rd_be16 m (int k + 2) = Some (be16 (m ! (k + 2)) (m ! (k + 3)))"
  using rd_be16_int [of "k + 2" m] by (simp add: add.commute numeral_3_eq_3)

lemma rd_be16_numeral [simp]: "Suc (numeral k) < length m \<Longrightarrow>
    rd_be16 m (numeral k) = Some (be16 (m ! numeral k) (m ! Suc (numeral k)))"
  using rd_be16_int [of "numeral k" m] by simp

text \<open>
  The question of a packet: \<open>parse_query\<close> delivers the flags, the type and the class of the
  packet and the name in lower case.
\<close>

lemma parse_query_packed:
  assumes "packed msg len 12 ls h" "wf_labels ls" "ls \<noteq> []" "length (dotted ls) < RR_NAMESIZE"
    and "h < len" "h \<le> UDP_MAXSIZE" "all_valid vc" "len \<le> length msg" "length (rr_name y) = RR_NAMESIZE"
    and "be16 (msg ! 4) (msg ! 5) \<noteq> 0" "name_end msg 12 ls + 4 \<le> len" "12 < len"
  defines "e \<equiv> name_end msg 12 ls"
  shows "parse_query vc y msg len = Some (0, y\<lparr>rr_flags := be16 (msg ! 2) (msg ! 3),
    rr_name := map c_tolower (name_text ls) @ 0 # drop (length (dotted ls)) (rr_name y),
    rr_type := ucast (be16 (msg ! e) (msg ! Suc e)),
    rr_class := ucast (be16 (msg ! (e + 2)) (msg ! (e + 3)))\<rparr>)"
proof -
  let ?y = "y\<lparr>rr_flags := be16 (msg ! 2) (msg ! 3)\<rparr>"
  let ?t = "name_text ls" and ?r = "drop (length (dotted ls)) (rr_name y)"
  have o: "objname_rr vc msg len (int PACKET_DATABEGIN) ?y =
      Some (int e, ?y\<lparr>rr_name := ?t @ 0 # ?r\<rparr>)"
    using objname_rr_packed [OF assms(1) _ assms(12,7,8,5,6,3,4), of ?y] assms(9) e_def
    by (simp add: PACKET_DATABEGIN_def)
  have hdr: "rd_be16 msg 4 = Some (be16 (msg ! 4) (msg ! 5))"
    "rd_be16 msg 2 = Some (be16 (msg ! 2) (msg ! 3))"
    using assms(8,12) by simp_all
  have tc: "rd_be16 msg (int e) = Some (be16 (msg ! e) (msg ! Suc e))"
    "rd_be16 msg (int e + 2) = Some (be16 (msg ! (e + 2)) (msg ! (e + 3)))"
    using assms(8,11) e_def by (simp_all add: rd_be16_int rd_be16_int2)
  have cs: "cstr (?t @ 0 # ?r) = ?t" using name_text_no_nul [OF assms(2)] by simp
  have nt: "?t \<noteq> []" "(?t @ 0 # ?r) ! (length ?t - 1) \<noteq> 46"
    using name_text_last [OF assms(2,3)] by (auto simp: last_conv_nth nth_append)
  have "length ?t \<le> RR_NAMESIZE" using assms(4) by (simp add: length_name_text)
  then have lw: "strnlwr (?t @ 0 # ?r) (int RR_NAMESIZE) = Some (map c_tolower ?t @ 0 # ?r)"
    using strnlwr_cstr [of "?t @ 0 # ?r" "int RR_NAMESIZE"] cs by simp
  have "int e + 4 \<le> int len" using assms(11) e_def by simp
  then show ?thesis using assms(10) hdr o tc nt
    by (simp add: parse_query_def c_strlen_def cs lw)
qed

text \<open>
  The question for the root of the name space has an empty name. The decoder then writes
  its NUL in front of the buffer, which in \<open>rr_t\<close> is the high byte of the flags; the name
  stays what the stack held.
\<close>

lemma get_objname_root:
  assumes "msg ! i = 0" "12 \<le> i" "i < msgsize" "msgsize \<le> length msg" "1 \<le> base" "base \<le> length mem"
    and "0 < destsize"
  shows "get_objname vc msg msgsize (int i) base destsize mem = Some (int i + 1, mem[base - 1 := 0])"
proof -
  have "int base + - 1 = int (base - 1)" "base - 1 < length mem" using assms by auto
  then have "wr mem (int base - 1) 0 = Some (mem[base - 1 := 0])"
    by (metis uminus_add_conv_diff wr_nat add.commute)
  then show ?thesis using assms
    by (simp add: get_objname_def PACKET_DATABEGIN_def get_objname_loop.simps)
qed

lemma objname_rr_root:
  assumes "msg ! 12 = 0" "12 < msgsize" "msgsize \<le> length msg"
  shows "objname_rr vc msg msgsize (int PACKET_DATABEGIN) y =
    Some (13, y\<lparr>rr_flags := be16 0 (lo8 (rr_flags y))\<rparr>)"
  using get_objname_root [OF assms(1) _ assms(2,3), of 2 "lo8 (rr_flags y) # hi8 (rr_flags y) # rr_name y"
      RR_NAMESIZE vc]
  by (simp add: objname_rr_def PACKET_DATABEGIN_def RR_NAMESIZE_def)

section \<open>Memory safety of the callers of the decoder\<close>

text \<open>
  The objects of a local \<open>rr_t\<close>: a name of 256 bytes that happens to hold a NUL (which the
  root question relies on) and 256 bytes of data.
\<close>

definition rr_ok :: "rr_t \<Rightarrow> bool" where
  "rr_ok y \<longleftrightarrow> length (rr_name y) = RR_NAMESIZE \<and> length (rr_data y) = RR_NAMESIZE \<and> 0 \<in> set (rr_name y)"

lemma objname_rr_ok:
  assumes "length vc = 256" "msgsize \<le> length msg" "length (rr_name y) = RR_NAMESIZE"
    and "length (rr_data y) = RR_NAMESIZE"
  obtains r y' where "objname_rr vc msg msgsize index y = Some (r, y')"
    "length (rr_name y') = RR_NAMESIZE" "length (rr_data y') = RR_NAMESIZE"
    "r = -1 \<or> 12 < r \<and> r \<le> int msgsize" "r \<noteq> -1 \<Longrightarrow> 0 \<in> set (rr_name y) \<Longrightarrow> 0 \<in> set (rr_name y')"
proof -
  obtain r y' where o: "objname_rr vc msg msgsize index y = Some (r, y')"
    "y' = y\<lparr>rr_flags := rr_flags y', rr_name := rr_name y'\<rparr>"
    "length (rr_name y') = RR_NAMESIZE" "r = -1 \<or> 12 < r \<and> r \<le> int msgsize \<and>
      (0 \<in> set (rr_name y') \<or> rr_name y' = rr_name y)"
    using objname_rr_safe [OF assms(1-3)] by blast
  have "length (rr_data y') = RR_NAMESIZE"
    using assms(4) by (subst o(2)) simp
  then show thesis using that [OF o(1,3)] o(4) by auto
qed

lemma rd_be16_ex: "0 \<le> i \<Longrightarrow> i + 1 < int (length m) \<Longrightarrow> \<exists>w. rd_be16 m i = Some w"
  by (simp add: rd_be16_eq)

lemma rd_be32_ex: "0 \<le> i \<Longrightarrow> i + 3 < int (length m) \<Longrightarrow> \<exists>w. rd_be32 m i = Some w"
  unfolding rd_be32_def using rd_be16_ex [of i m] rd_be16_ex [of "i + 2" m] by auto

lemma set_update_ok: "0 \<in> set (xs::bytes) \<Longrightarrow> 0 \<in> set (xs[k := 0])"
  by (cases "k < length xs") (auto simp: set_update_memI list_update_beyond)

text \<open>The record of a question: of its size, with a name that ends and is in lower case.\<close>

lemma parse_query_record:
  assumes "length vc = 256" "len \<le> length msg" "6 \<le> length msg" "length (rr_name y) = RR_NAMESIZE"
    and "length (rr_data y) = RR_NAMESIZE" "0 \<in> set (rr_name y) \<or> named (take len msg)"
  shows "\<exists>r y'. parse_query vc y msg len = Some (r, y') \<and> (r = 0 \<or> r = -1) \<and>
    length (rr_name y') = RR_NAMESIZE \<and> length (rr_data y') = RR_NAMESIZE \<and>
    (r = 0 \<longrightarrow> 0 \<in> set (rr_name y') \<and> map c_tolower (cstr (rr_name y')) = cstr (rr_name y'))"
proof -
  note ok = assms(4,5)
  obtain qd where qd: "rd_be16 msg 4 = Some qd" using assms(3) by (simp add: rd_be16_eq)
  obtain fl where fl: "rd_be16 msg 2 = Some fl" using assms(3) by (simp add: rd_be16_eq)
  obtain i y1 where o: "objname_rr vc msg len (int PACKET_DATABEGIN) (y\<lparr>rr_flags := fl\<rparr>) = Some (i, y1)"
    "length (rr_name y1) = RR_NAMESIZE" "length (rr_data y1) = RR_NAMESIZE" "i = -1 \<or> 12 < i \<and> i \<le> int len"
    "i \<noteq> -1 \<Longrightarrow> 0 \<in> set (rr_name (y\<lparr>rr_flags := fl\<rparr>)) \<Longrightarrow> 0 \<in> set (rr_name y1)"
    by (rule objname_rr_ok [OF assms(1,2), of "y\<lparr>rr_flags := fl\<rparr>" "int PACKET_DATABEGIN"]) (use ok in simp_all)
  show ?thesis
  proof (cases "qd = 0 \<or> i < 0 \<or> int len < i + 4")
    case True
    then show ?thesis using qd fl o ok by (auto simp: parse_query_def)
  next
    case False
    then have i: "12 < i" "i + 4 \<le> int (length msg)" using o(4) assms(2) by auto
    obtain t where t: "rd_be16 msg i = Some t" using rd_be16_ex [of i msg] i by auto
    obtain c where c: "rd_be16 msg (i + 2) = Some c" using rd_be16_ex [of "i + 2" msg] i by auto
    have z: "0 \<in> set (rr_name y1)"
      using o(5) False assms(6) objname_rr_named [OF assms(1) _ assms(2) _ o(1)] ok(1) by auto
    let ?k = "length (cstr (rr_name y1))"
    let ?n = "if ?k \<noteq> 0 \<and> rr_name y1 ! (?k - 1) = 46 then (rr_name y1)[?k - 1 := 0] else rr_name y1"
    have zn: "0 \<in> set ?n" and ln: "length ?n = RR_NAMESIZE" using z o(2) by (auto simp: set_update_ok)
    have "int (length (cstr ?n)) \<le> int RR_NAMESIZE" using cstr_length_less [OF zn] ln by linarith
    then have lw: "strnlwr ?n (int RR_NAMESIZE) =
        Some (map c_tolower (cstr ?n) @ drop (length (cstr ?n)) ?n)"
      using zn by (intro strnlwr_cstr)
    have d: "drop (length (cstr ?n)) ?n = 0 # drop (Suc (length (cstr ?n))) ?n" using cstr_nth [OF zn] cstr_length_less [OF zn]
      by (metis Cons_nth_drop_Suc)
    let ?y = "y1\<lparr>rr_type := ucast t, rr_class := ucast c, rr_name := map c_tolower (cstr ?n) @ drop (length (cstr ?n)) ?n\<rparr>"
    have "parse_query vc y msg len = Some (0, ?y)"
      using qd fl o(1) False t c z lw by (simp add: parse_query_def c_strlen_def)
    moreover have "cstr (rr_name ?y) = map c_tolower (cstr ?n)"
    proof -
      have "0 \<notin> set (map c_tolower (cstr ?n))" using cstr_no_nul [of ?n] by auto
      then show ?thesis unfolding d by simp
    qed
    moreover have "0 \<in> set (rr_name ?y)" unfolding d by simp
    moreover have "length (rr_name ?y) = RR_NAMESIZE" using ln cstr_length_less [OF zn] by simp
    ultimately show ?thesis using o(3) by simp
  qed
qed

lemma parse_query_safe:
  assumes "length vc = 256" "len \<le> length msg" "6 \<le> length msg" "rr_ok y"
  shows "\<exists>r y'. parse_query vc y msg len = Some (r, y') \<and> (r = 0 \<or> r = -1) \<and>
    length (rr_name y') = RR_NAMESIZE \<and> (r = 0 \<longrightarrow> 0 \<in> set (rr_name y'))"
  using parse_query_record [OF assms(1-3), of y] assms(4) unfolding rr_ok_def by blast

text \<open>The root question leaves the name as it was, and the parser then looks for its NUL.\<close>

lemma parse_query_root:
  assumes "len \<le> length msg" "17 \<le> len" "msg ! 12 = 0" "be16 (msg ! 4) (msg ! 5) \<noteq> 0" "0 \<notin> set (rr_name y)"
  shows "parse_query vc y msg len = None"
proof -
  obtain fl where fl: "rd_be16 msg 2 = Some fl" using rd_be16_ex [of 2 msg] assms(1,2) by auto
  have qd: "rd_be16 msg 4 = Some (be16 (msg ! 4) (msg ! 5))" using assms(1,2) by (simp add: rd_be16_eq)
  obtain t where t: "rd_be16 msg 13 = Some t" using rd_be16_ex [of 13 msg] assms(1,2) by auto
  obtain c where c: "rd_be16 msg 15 = Some c" using rd_be16_ex [of 15 msg] assms(1,2) by auto
  have "objname_rr vc msg len (int PACKET_DATABEGIN) (y\<lparr>rr_flags := fl\<rparr>) =
      Some (13, (y\<lparr>rr_flags := fl\<rparr>)\<lparr>rr_flags := be16 0 (lo8 fl)\<rparr>)"
    using objname_rr_root [OF assms(3) _ assms(1), of vc "y\<lparr>rr_flags := fl\<rparr>"] assms(2) by simp
  then show ?thesis using qd fl t c assms(2,4,5) by (simp add: parse_query_def c_strlen_def)
qed

lemma read_record_safe:
  assumes "length vc = 256" "packetsize \<le> length (h_packet x)"
    and "length (rr_name y) = RR_NAMESIZE" "length (rr_data y) = RR_NAMESIZE"
  shows "\<exists>r y'. read_record vc x y index question packetsize = Some (r, y') \<and>
    (r = -1 \<or> 12 < r \<and> r \<le> int packetsize) \<and>
    length (rr_name y') = RR_NAMESIZE \<and> length (rr_data y') = RR_NAMESIZE \<and>
    (r \<noteq> -1 \<longrightarrow> 0 \<in> set (rr_name y) \<longrightarrow> 0 \<in> set (rr_name y'))"
proof -
  let ?m = "h_packet x"
  obtain i y1 where o: "objname_rr vc ?m packetsize index y = Some (i, y1)"
    "length (rr_name y1) = RR_NAMESIZE" "length (rr_data y1) = RR_NAMESIZE"
    "i = -1 \<or> 12 < i \<and> i \<le> int packetsize" "i \<noteq> -1 \<Longrightarrow> 0 \<in> set (rr_name y) \<Longrightarrow> 0 \<in> set (rr_name y1)"
    by (rule objname_rr_ok [OF assms, of index]) (rule that, assumption+)
  show ?thesis
  proof (cases "i < 0 \<or> int packetsize < i + 4")
    case True
    then show ?thesis using o by (auto simp: read_record_def)
  next
    case False
    then have i: "12 < i" "i + 4 \<le> int (length ?m)" using o(4) assms(2) by auto
    obtain t where t: "rd_be16 ?m i = Some t" using rd_be16_ex [of i ?m] i by auto
    obtain c where c: "rd_be16 ?m (i + 2) = Some c" using rd_be16_ex [of "i + 2" ?m] i by auto
    show ?thesis
    proof (cases "question \<or> int packetsize < i + 10")
      case True
      then show ?thesis using o False t c i by (auto simp: read_record_def Let_def)
    next
      case F2: False
      then have i10: "i + 10 \<le> int (length ?m)" using assms(2) by auto
      obtain ttl where ttl: "rd_be32 ?m (i + 4) = Some ttl" using rd_be32_ex [of "i + 4" ?m] i i10 by auto
      obtain l where l: "rd_be16 ?m (i + 8) = Some l" using rd_be16_ex [of "i + 8" ?m] i i10 by auto
      define n where "n = (if RR_NAMESIZE - 4 < unat l then RR_NAMESIZE - 4 else unat l)"
      have n: "n \<le> unat l" "n < RR_NAMESIZE" by (auto simp: n_def RR_NAMESIZE_def)
      let ?d = "take n (drop (nat (i + 10)) ?m) @ drop n (rr_data y1)"
      show ?thesis
      proof (cases "int packetsize < i + 10 + int (unat l)")
        case True
        then show ?thesis using o False F2 t c ttl l by (simp add: read_record_def)
      next
        case F3: False
        then have "n \<le> length ?m - nat (i + 10)" "i + 10 + int n \<le> int packetsize"
          using i i10 assms(2) n(1) by linarith+
        moreover from this(1) have ld: "length ?d = RR_NAMESIZE" using o(3) n(2) by auto
        ultimately show ?thesis using o False F2 F3 t c ttl l n(2) i
          by (simp add: read_record_def Let_def n_def [symmetric])
      qed
    qed
  qed
qed

lemma read_record_rr_ok:
  assumes "length vc = 256" "packetsize \<le> length (h_packet x)" "rr_ok y"
  obtains r y' where "read_record vc x y index question packetsize = Some (r, y')" "r = -1 \<or> 0 \<le> r \<and> rr_ok y'"
  using read_record_safe [OF assms(1,2), of y index question] assms(3) unfolding rr_ok_def by fastforce

lemma dump_records_safe:
  assumes "length vc = 256" "len \<le> length (h_packet x)" "rr_ok y"
  shows "\<exists>r y'. dump_records vc x y index len n = Some (r, y') \<and> (r < 0 \<or> rr_ok y')"
  using assms(3)
proof (induction n arbitrary: y index)
  case 0
  then show ?case by simp
next
  case (Suc n)
  obtain r y' where r: "read_record vc x y index False len = Some (r, y')" "r = -1 \<or> 0 \<le> r \<and> rr_ok y'"
    using read_record_rr_ok [OF assms(1,2) Suc.prems] by blast
  show ?case
  proof (cases "r = -1")
    case True
    then show ?thesis using r(1) by simp
  next
    case False
    then have y: "rr_ok y'" "0 \<le> r" using r(2) by auto
    then have "c_strlen (rr_name y') = Some (length (cstr (rr_name y')))" by (simp add: c_strlen_def rr_ok_def)
    then show ?thesis using Suc.IH [OF y(1), of r] r(1) y(2) by simp
  qed
qed

lemma decode_header_Some:
  assumes "10 \<le> len" "len \<le> length packet"
  obtains x where "decode_header packet len = Some x" "h_packet x = take len packet @ [0, 0]"
    "h_len x = len"
  using assms by (simp add: decode_header_def alloc_packet_def rd_be16_eq)

lemma dump_sections_ok:
  assumes "length vc = 256" "len \<le> length (h_packet x)" "rr_ok y"
  shows "\<exists>r. dump_sections vc x y index len = Some r \<and> (r = 0 \<or> r = -1)"
proof -
  note safe = dump_records_safe [OF assms(1,2)]
  obtain i1 y1 where 1: "dump_records vc x y index len (nat (sint (h_ancount x))) = Some (i1, y1)" "i1 < 0 \<or> rr_ok y1"
    using safe [OF assms(3)] by blast
  show ?thesis
  proof (cases "i1 < 0")
    case True
    then show ?thesis using 1(1) by (simp add: dump_sections_def)
  next
    case i1: False
    then have y1: "rr_ok y1" using 1(2) by auto
    obtain i2 y2 where 2: "dump_records vc x y1 i1 len (nat (sint (h_nscount x))) = Some (i2, y2)" "i2 < 0 \<or> rr_ok y2"
      using safe [OF y1] by blast
    show ?thesis
    proof (cases "i2 < 0")
      case True
      then show ?thesis using i1 1(1) 2(1) by (simp add: dump_sections_def)
    next
      case i2: False
      then have y2: "rr_ok y2" using 2(2) by auto
      obtain i3 y3 where "dump_records vc x y2 i2 len (nat (sint (h_arcount x))) = Some (i3, y3)"
        using safe [OF y2] by blast
      then show ?thesis using i1 i2 1(1) 2(1) by (simp add: dump_sections_def)
    qed
  qed
qed

text \<open>The dump ends in bounds when the record of the question is well formed once it is read.\<close>

lemma dump_dnspacket_question:
  assumes "length vc = 256" "12 \<le> len" "len \<le> length packet"
    and "\<And>x. h_packet x = take len packet @ [0, 0] \<Longrightarrow>
      \<exists>r y'. read_record vc x y (int PACKET_DATABEGIN) True len = Some (r, y') \<and> (r = -1 \<or> 0 \<le> r \<and> rr_ok y')"
  shows "\<exists>r. dump_dnspacket vc dbg y packet len = Some r \<and> (r = 0 \<or> r = -1)"
proof (cases "dbg < 4")
  case True
  then show ?thesis by (simp add: dump_dnspacket_def)
next
  case False
  obtain x where x: "decode_header packet len = Some x" "h_packet x = take len packet @ [0, 0]"
    by (rule decode_header_Some [of len packet]) (use assms(2,3) in auto)
  obtain i0 y0 where 0: "read_record vc x y (int PACKET_DATABEGIN) True len = Some (i0, y0)" "i0 = -1 \<or> 0 \<le> i0 \<and> rr_ok y0"
    using assms(4) [OF x(2)] by blast
  have l: "len \<le> length (h_packet x)" using assms(3) x(2) by simp
  show ?thesis
  proof (cases "i0 < 0")
    case True
    then show ?thesis using False x(1) 0(1) by (simp add: dump_dnspacket_def)
  next
    case i0: False
    then have y0: "rr_ok y0" using 0(2) by auto
    then have "c_strlen (rr_name y0) = Some (length (cstr (rr_name y0)))" by (simp add: c_strlen_def rr_ok_def)
    then show ?thesis using dump_sections_ok [OF assms(1) l y0, of i0] False x(1) 0(1) i0 by (simp add: dump_dnspacket_def)
  qed
qed

lemma dump_dnspacket_ok:
  assumes "length vc = 256" "12 \<le> len" "len \<le> length packet" "rr_ok y"
  shows "\<exists>r. dump_dnspacket vc dbg y packet len = Some r \<and> (r = 0 \<or> r = -1)"
proof (rule dump_dnspacket_question [OF assms(1-3)])
  show "\<exists>r y'. read_record vc x y (int PACKET_DATABEGIN) True len = Some (r, y') \<and> (r = -1 \<or> 0 \<le> r \<and> rr_ok y')"
    if "h_packet x = take len packet @ [0, 0]" for x
  proof -
    have "len \<le> length (h_packet x)" using assms(3) that by simp
    then show ?thesis using read_record_rr_ok [OF assms(1) _ assms(4), of len x "int PACKET_DATABEGIN" True] by blast
  qed
qed

text \<open>The same when nothing is known of what the name of the record held before, but the question has a name.\<close>

lemma packed_take:
  assumes "packed msg n i ls h" "n \<le> length msg"
  shows "packed (take n msg @ z) n i ls h"
  using assms
proof (induction rule: packed.induct)
  case (packed_root i)
  then show ?case by (intro packed.packed_root) (simp_all add: nth_append)
next
  case (packed_label l i ls h)
  have "take (length l) (drop (Suc i) (take n msg @ z)) = take (length l) (drop (Suc i) msg)"
  proof -
    have "length l \<le> n - Suc i" "length l \<le> length msg - Suc i" "Suc i \<le> n"
      using packed_label(4) packed_label.prems by linarith+
    then show ?thesis by (simp add: drop_take min_def)
  qed
  then show ?case using packed_label by (intro packed.packed_label) (simp_all add: nth_append)
next
  case (packed_pointer i t ls h)
  then show ?case by (intro packed.packed_pointer [of i]) (simp_all add: nth_append)
qed

lemma dump_dnspacket_packed:
  assumes "packed packet len 12 ls h" "all_valid vc" "12 < len" "len \<le> length packet" "h < len" "h \<le> UDP_MAXSIZE"
    and "ls \<noteq> []" "length (dotted ls) < RR_NAMESIZE" "length (rr_name y) = RR_NAMESIZE"
    and "dbg < 4 \<or> length (rr_data y) = RR_NAMESIZE"
  shows "\<exists>r. dump_dnspacket vc dbg y packet len = Some r \<and> (r = 0 \<or> r = -1)"
proof (cases "dbg < 4")
  case True
  then show ?thesis by (simp add: dump_dnspacket_def)
next
  case False
  then have d: "length (rr_data y) = RR_NAMESIZE" using assms(10) by simp
  have v: "length vc = 256" "12 \<le> len" using assms(2,3) by (simp_all add: all_valid_def)
  show ?thesis
  proof (rule dump_dnspacket_question [OF v assms(4)])
    fix x :: dnsheader_t
    assume x: "h_packet x = take len packet @ [0, 0]"
    have l: "len \<le> length (h_packet x)" using assms(4) x by simp
    have "packed (h_packet x) len 12 ls h" unfolding x by (rule packed_take [OF assms(1,4)])
    from objname_rr_packed [OF this _ assms(3,2) l assms(5-9)] obtain i y1 where
      o: "objname_rr vc (h_packet x) len (int PACKET_DATABEGIN) y = Some (i, y1)" "0 \<le> i" "rr_data y1 = rr_data y"
        "rr_name y1 = name_text ls @ 0 # drop (length (dotted ls)) (rr_name y)"
      by (simp add: PACKET_DATABEGIN_def)
    have y1: "rr_ok y1"
      using o(3,4) d assms(8,9) dotted_name_text [OF assms(7)] by (simp add: rr_ok_def)
    show "\<exists>r y'. read_record vc x y (int PACKET_DATABEGIN) True len = Some (r, y') \<and> (r = -1 \<or> 0 \<le> r \<and> rr_ok y')"
    proof (cases "int len < i + 4")
      case True
      then show ?thesis using o(1) by (simp add: read_record_def)
    next
      case False
      obtain t c where "rd_be16 (h_packet x) i = Some t" "rd_be16 (h_packet x) (i + 2) = Some c"
        using rd_be16_ex [of i "h_packet x"] rd_be16_ex [of "i + 2" "h_packet x"] o(2) l False by auto
      then show ?thesis using o(1,2) y1 False by (simp add: read_record_def rr_ok_def)
    qed
  qed
qed

end
