(* ===== verification/Cache.thy ===== *)
theory Cache
  imports Infnode Dns "HOL-Library.Multiset"
begin

text \<open>
  The cache of replies, src/cache.c: a doubly linked list of entries, appended at the end,
  searched from the front, expired by age and by number. The state extends the one of the
  interfaces by the heap of entries and the static variables. An entry owns its name and
  its packet, so they are values in it. The times are \<open>unsigned long\<close>s of 32 bits and the
  comparisons with \<open>time_t\<close> values are unsigned. The semaphore \<open>dnrd_sem\<close> is never
  contended in the single threaded program and is left out.

  \<open>vc\<close> is the table of src/dns.c that \<open>init_dns\<close> fills, and \<open>rr_garbage\<close> what an
  uninitialised local variable of type \<open>rr_t\<close> holds.
\<close>

definition CACHE_TIMEUNIT :: int where "CACHE_TIMEUNIT = 60"
definition CACHE_NEGTIME :: int where "CACHE_NEGTIME = 5 * CACHE_TIMEUNIT"
definition CACHE_TIME :: int where "CACHE_TIME = 60 * CACHE_TIMEUNIT"
definition CACHE_MAXTIME :: int where "CACHE_MAXTIME = 6 * 60 * CACHE_TIMEUNIT"
definition CACHE_MINCYCLE :: int where "CACHE_MINCYCLE = 5 * CACHE_TIMEUNIT"
definition CACHE_HIGHWATER :: int where "CACHE_HIGHWATER = 1000"
definition CACHE_LOWWATER :: int where "CACHE_LOWWATER = 800"

lemmas cache_times = CACHE_TIMEUNIT_def CACHE_NEGTIME_def CACHE_TIME_def CACHE_MAXTIME_def CACHE_MINCYCLE_def

record cache_t =
  c_code :: u32
  c_name :: bytes
  c_type :: u32
  c_class :: u32
  c_positive :: int
  c_created :: u32
  c_lastused :: u32
  c_expires :: u32
  c_p :: dnsheader_t
  c_server :: ptr
  c_next :: ptr
  c_prev :: ptr

record cache_state = inf_state +
  cxs :: "ptr \<rightharpoonup> cache_t"
  cachelist :: ptr
  lastcache :: ptr
  cache_param :: bytes
  cache_onoff :: int
  cache_highwater :: int
  cache_lowwater :: int
  cache_hits :: int
  cache_misses :: int
  lastexpire :: int
  ignore_inactive_cache_hits :: int
  vc :: bytes
  rr_garbage :: rr_t

section \<open>Operations on the list\<close>

definition upd_cx :: "ptr \<Rightarrow> (cache_t \<Rightarrow> cache_t) \<Rightarrow> 'a cache_state_scheme \<Rightarrow> 'a cache_state_scheme option" where
  "upd_cx p f s = (case cxs s p of None \<Rightarrow> None | Some c \<Rightarrow> Some (s\<lparr>cxs := (cxs s)(p \<mapsto> f c)\<rparr>))"

definition free_cx :: "ptr \<Rightarrow> 'a cache_state_scheme \<Rightarrow> 'a cache_state_scheme option" where
  "free_cx p s = (case cxs s p of None \<Rightarrow> None | Some c \<Rightarrow> Some (s\<lparr>cxs := (cxs s)(p := None)\<rparr>))"

definition create_cx :: "dnsheader_t \<Rightarrow> rr_t \<Rightarrow> ptr \<Rightarrow> 'a cache_state_scheme \<Rightarrow> ptr \<times> 'a cache_state_scheme" where
  "create_cx x query server s =
     (let p = brk s; name = cstr (rr_name query)
      in (p, s\<lparr>brk := Suc p, cxs := (cxs s)(p \<mapsto>
            \<lparr>c_code = get_stringcode name, c_name = name, c_type = rr_type query, c_class = rr_class query,
             c_positive = sint (h_ancount x), c_created = 0, c_lastused = of_int (clock s), c_expires = 0,
             c_p = x, c_server = server, c_next = NULL, c_prev = NULL\<rparr>)\<rparr>))"

definition append_cx :: "ptr \<Rightarrow> 'a cache_state_scheme \<Rightarrow> 'a cache_state_scheme option" where
  "append_cx cx s = do {
     s1 \<leftarrow> (if lastcache s = NULL then Some (s\<lparr>cachelist := cx, lastcache := cx\<rparr>)
           else do {
             sa \<leftarrow> upd_cx (lastcache s) (\<lambda>c. c\<lparr>c_next := cx\<rparr>) s;
             sb \<leftarrow> upd_cx cx (\<lambda>c. c\<lparr>c_prev := lastcache s\<rparr>) sa;
             Some (sb\<lparr>lastcache := cx\<rparr>)
           });
     upd_cx cx (\<lambda>c. c\<lparr>c_created := of_int (clock s)\<rparr>) s1
   }"

definition remove_cx :: "ptr \<Rightarrow> 'a cache_state_scheme \<Rightarrow> 'a cache_state_scheme option" where
  "remove_cx cx s = do {
     c \<leftarrow> cxs s cx;
     s1 \<leftarrow> (if c_next c \<noteq> NULL then upd_cx (c_next c) (\<lambda>d. d\<lparr>c_prev := c_prev c\<rparr>) s
           else Some (s\<lparr>lastcache := c_prev c\<rparr>));
     c' \<leftarrow> cxs s1 cx;
     if c_prev c' \<noteq> NULL then upd_cx (c_prev c') (\<lambda>d. d\<lparr>c_next := c_next c'\<rparr>) s1
     else Some (s1\<lparr>cachelist := c_next c'\<rparr>)
   }"

section \<open>Storing and finding replies\<close>

definition cache_dnspacket :: "bytes \<Rightarrow> nat \<Rightarrow> ptr \<Rightarrow> 'a cache_state_scheme \<Rightarrow> 'a cache_state_scheme option" where
  "cache_dnspacket packet len server s =
     (if cache_onoff s = 0 then Some s else do {
        (r, query) \<leftarrow> parse_query (vc s) (rr_garbage s) packet len;
        if r \<noteq> 0 \<or> GET_QR (rr_flags query) = 0 \<or> hd (rr_name query) = 0 then Some s
        else do {
          x \<leftarrow> parse_packet packet len;
          let (p, s1) = create_cx x query server s;
          s2 \<leftarrow> append_cx p s1;
          upd_cx p (\<lambda>c. c\<lparr>c_lastused := of_int (clock s),
            c_expires := of_int (clock s) + of_int (if sint (h_ancount (c_p c)) > 0 then CACHE_TIME else CACHE_NEGTIME)\<rparr>) s2
        }
      })"

definition cx_matches :: "u32 \<Rightarrow> rr_t \<Rightarrow> cache_t \<Rightarrow> bool" where
  "cx_matches code query c \<longleftrightarrow> c_code c = code \<and> c_type c = rr_type query \<and> c_class c = rr_class query \<and>
     c_strcaseeq (c_name c) (cstr (rr_name query))"

text \<open>The search loop: the first entry that matches, or \<open>NULL\<close>.\<close>

partial_function (option) cache_find :: "'a cache_state_scheme \<Rightarrow> u32 \<Rightarrow> rr_t \<Rightarrow> ptr \<Rightarrow> ptr option" where
  "cache_find s code query cx =
     (if cx = NULL then Some NULL else do {
        c \<leftarrow> cxs s cx;
        if cx_matches code query c then Some cx else cache_find s code query (c_next c)
      })"

declare cache_find.simps [code]

text \<open>\<open>memcpy (packet + 2, src + 2, n)\<close>.\<close>

definition copy_from_2 :: "bytes \<Rightarrow> bytes \<Rightarrow> nat \<Rightarrow> bytes option" where
  "copy_from_2 packet src n =
     (if n + 2 \<le> length packet \<and> n + 2 \<le> length src then Some (overlay packet 2 (take n (drop 2 src))) else None)"

text \<open>The length of a reply is \<open>0\<close> when there is none; the packet may have been overwritten.\<close>

definition cache_lookup ::
    "bytes \<Rightarrow> nat \<Rightarrow> 'a cache_state_scheme \<Rightarrow> (nat \<times> bytes \<times> 'a cache_state_scheme) option" where
  "cache_lookup packet len s =
     (if cache_onoff s = 0 then Some (0, packet, s) else do {
        (r, query) \<leftarrow> parse_query (vc s) (rr_garbage s) packet len;
        if r \<noteq> 0 \<or> GET_QR (rr_flags query) = 1 \<or> hd (rr_name query) = 0 \<or> rr_class query \<noteq> DNS_CLASS_INET
        then Some (0, packet, s)
        else do {
          cx \<leftarrow> cache_find s (get_stringcode (cstr (rr_name query))) query (cachelist s);
          if cx = NULL then Some (0, packet, s\<lparr>cache_misses := cache_misses s + 1\<rparr>)
          else do {
            c \<leftarrow> cxs s cx;
            s1 \<leftarrow> (if c_positive c > 0
                  then upd_cx cx (\<lambda>c. c\<lparr>c_lastused := of_int (clock s),
                                        c_expires := of_int (clock s) + of_int CACHE_TIME\<rparr>) s
                  else Some s);
            packet1 \<leftarrow> (if 2 \<le> h_len (c_p c) then copy_from_2 packet (h_packet (c_p c)) (h_len (c_p c) - 2) else None);
            let s2 = s1\<lparr>cache_hits := cache_hits s + 1\<rparr>;
            ina \<leftarrow> (if ignore_inactive_cache_hits s \<noteq> 0
                   then map_option (\<lambda>n. inactive n \<noteq> 0) (get_srv s (c_server c)) else Some False);
            if ina then Some (0, packet1, s2) else Some (h_len (c_p c), packet1, s2)
          }
        }
      })"

section \<open>Expiration\<close>

text \<open>The difference of two \<open>unsigned long\<close>s, converted to \<open>int\<close>.\<close>

definition cmp_cachemru :: "cache_t \<Rightarrow> cache_t \<Rightarrow> int" where
  "cmp_cachemru cx cy = sint (c_lastused cy - c_lastused cx)"

fun isort_insert :: "('a \<Rightarrow> 'a \<Rightarrow> int) \<Rightarrow> 'a \<Rightarrow> 'a list \<Rightarrow> 'a list" where
  "isort_insert cmp x [] = [x]"
| "isort_insert cmp x (y # ys) = (if cmp x y \<le> 0 then x # y # ys else y # isort_insert cmp x ys)"

text \<open>
  \<open>qsort\<close> of the C library. It promises nothing for equal elements; the one of glibc is a
  merge sort, so equal elements keep their order as they do here.
\<close>

definition c_qsort :: "('a \<Rightarrow> 'a \<Rightarrow> int) \<Rightarrow> 'a list \<Rightarrow> 'a list" where
  "c_qsort cmp xs = foldr (isort_insert cmp) xs []"

fun collect_cx :: "'a cache_state_scheme \<Rightarrow> nat \<Rightarrow> ptr \<Rightarrow> (ptr \<times> cache_t) list option" where
  "collect_cx s 0 cx = Some []"
| "collect_cx s (Suc n) cx = do {
     c \<leftarrow> cxs s cx;
     r \<leftarrow> collect_cx s n (c_next c);
     Some ((cx, c) # r)
   }"

fun drop_cxs :: "ptr list \<Rightarrow> 'a cache_state_scheme \<Rightarrow> 'a cache_state_scheme option" where
  "drop_cxs [] s = Some s"
| "drop_cxs (p # ps) s = do { s1 \<leftarrow> remove_cx p s; s2 \<leftarrow> free_cx p s1; drop_cxs ps s2 }"

text \<open>Reading \<open>cv[i]\<close> for \<open>i\<close> beyond the array is undefined.\<close>

definition expire_oldest :: "nat \<Rightarrow> 'a cache_state_scheme \<Rightarrow> 'a cache_state_scheme option" where
  "expire_oldest itemcount s =
     (let n = int itemcount - cache_lowwater s in
      if n < 0 then Some s else do {
        cv \<leftarrow> collect_cx s itemcount (cachelist s);
        let cv1 = c_qsort (\<lambda>x y. cmp_cachemru (snd x) (snd y)) cv;
        if nat n \<le> itemcount then drop_cxs (map fst (take (nat n) cv1)) s else None
      })"

definition cx_expired :: "int \<Rightarrow> cache_t \<Rightarrow> bool" where
  "cx_expired now c \<longleftrightarrow> c_expires c < of_int now \<or> of_int now - c_created c > of_int CACHE_MAXTIME"

text \<open>The walk over the list: the number of entries, the number of expired ones and the new state.\<close>

partial_function (option) expire_loop ::
    "int \<Rightarrow> ptr \<Rightarrow> nat \<Rightarrow> nat \<Rightarrow> 'a cache_state_scheme \<Rightarrow> (nat \<times> nat \<times> 'a cache_state_scheme) option" where
  "expire_loop now cx tot expired s =
     (if cx = NULL then Some (tot, expired, s) else do {
        c \<leftarrow> cxs s cx;
        if cx_expired now c then do {
          s1 \<leftarrow> remove_cx cx s;
          s2 \<leftarrow> free_cx cx s1;
          expire_loop now (c_next c) (tot + 1) (expired + 1) s2
        } else expire_loop now (c_next c) (tot + 1) expired s
      })"

declare expire_loop.simps [code]

definition cache_expire :: "'a cache_state_scheme \<Rightarrow> 'a cache_state_scheme option" where
  "cache_expire s =
     (if cache_onoff s = 0 then Some s
      else let s1 = (if lastexpire s = 0 then s\<lparr>lastexpire := clock s\<rparr> else s); now = clock s in
        if now - lastexpire s1 < CACHE_MINCYCLE then Some s1
        else do {
          (tot, expired, s2) \<leftarrow> expire_loop now (cachelist s1) 0 0 s1;
          let tot' = tot - expired;
          s3 \<leftarrow> (if int tot' > cache_highwater s2 then expire_oldest tot' s2 else Some s2);
          Some (s3\<lparr>lastexpire := now\<rparr>)
        })"

section \<open>Initialisation\<close>

definition three_quarters :: "int \<Rightarrow> int option" where
  "three_quarters h = (if - (2 ^ 31) \<le> h * 75 \<and> h * 75 < 2 ^ 31 then Some ((h * 75) div 100) else None)"

definition cache_init :: "'a cache_state_scheme \<Rightarrow> 'a cache_state_scheme option" where
  "cache_init s = do {
     let prm = cstr (cache_param s);
     s1 \<leftarrow> (if prm = [] then Some s
           else if prm = bstr ''off'' then Some (s\<lparr>cache_onoff := 0\<rparr>)
           else if c_isdigit (hd prm) then
             (if 58 \<notin> set prm then do {
                l \<leftarrow> three_quarters (atoi prm);
                Some (s\<lparr>cache_highwater := atoi prm, cache_lowwater := l\<rparr>)
              } else Some (s\<lparr>cache_param := takeWhile ((\<noteq>) 58) prm @ 0 # drop (Suc (length (takeWhile ((\<noteq>) 58) prm))) (cache_param s),
                             cache_lowwater := atoi (takeWhile ((\<noteq>) 58) prm),
                             cache_highwater := atoi (tl (dropWhile ((\<noteq>) 58) prm))\<rparr>))
           else Some s);
     if cache_onoff s1 = 0 then Some s1
     else if cache_highwater s1 < 0 then Some (s1\<lparr>cache_highwater := CACHE_HIGHWATER, cache_lowwater := CACHE_LOWWATER\<rparr>)
     else if cache_lowwater s1 > cache_highwater s1 then do {
       l \<leftarrow> three_quarters (cache_highwater s1);
       Some (s1\<lparr>cache_lowwater := l\<rparr>)
     } else Some s1
   }"

section \<open>The list of entries\<close>

text \<open>\<open>dseg m p xs q\<close>: the entries \<open>xs\<close> are linked both ways, with \<open>p\<close> before and \<open>q\<close> after them.\<close>

fun dseg :: "(ptr \<rightharpoonup> cache_t) \<Rightarrow> ptr \<Rightarrow> ptr list \<Rightarrow> ptr \<Rightarrow> bool" where
  "dseg m p [] q = True"
| "dseg m p (x # xs) q = (\<exists>c. m x = Some c \<and> c_prev c = p \<and> c_next c = hd (xs @ [q]) \<and> dseg m x xs q)"

definition cache_at :: "'a cache_state_scheme \<Rightarrow> ptr list \<Rightarrow> bool" where
  "cache_at s xs \<longleftrightarrow> distinct xs \<and> NULL \<notin> set xs \<and> cachelist s = hd (xs @ [NULL]) \<and>
     lastcache s = last (NULL # xs) \<and> dseg (cxs s) NULL xs NULL"

text \<open>An entry without its links, and the operations that touch nothing but the list.\<close>

definition centry :: "cache_t \<Rightarrow> cache_t" where
  "centry c = c\<lparr>c_next := NULL, c_prev := NULL\<rparr>"

definition cval :: "'a cache_state_scheme \<Rightarrow> ptr \<rightharpoonup> cache_t" where
  "cval s = (\<lambda>p. map_option centry (cxs s p))"

definition cx_frame :: "'a cache_state_scheme \<Rightarrow> 'a cache_state_scheme \<Rightarrow> bool" where
  "cx_frame s t \<longleftrightarrow> t = s\<lparr>cxs := cxs t, cachelist := cachelist t, lastcache := lastcache t\<rparr>"

lemma cx_frame_refl [simp, intro]: "cx_frame s s"
  by (simp add: cx_frame_def)

lemma cx_frame_upd [simp, intro]: "cx_frame s (s\<lparr>cxs := m\<rparr>)" "cx_frame s (s\<lparr>cachelist := p\<rparr>)" "cx_frame s (s\<lparr>lastcache := p\<rparr>)"
  by (simp_all add: cx_frame_def)

lemma cx_frame_trans [trans]: "cx_frame s t \<Longrightarrow> cx_frame t u \<Longrightarrow> cx_frame s u"
proof -
  assume a: "cx_frame s t" "cx_frame t u"
  have "u = t\<lparr>cxs := cxs u, cachelist := cachelist u, lastcache := lastcache u\<rparr>" using a(2) by (simp add: cx_frame_def)
  also have "\<dots> = (s\<lparr>cxs := cxs t, cachelist := cachelist t, lastcache := lastcache t\<rparr>)
      \<lparr>cxs := cxs u, cachelist := cachelist u, lastcache := lastcache u\<rparr>"
    using a(1) unfolding cx_frame_def by metis
  also have "\<dots> = s\<lparr>cxs := cxs u, cachelist := cachelist u, lastcache := lastcache u\<rparr>" by simp
  finally show ?thesis by (simp add: cx_frame_def)
qed

lemma cx_frame_fields:
  assumes "cx_frame s t"
  shows "srvs t = srvs s" "infs t = infs s" "brk t = brk s" "clock t = clock s" "inf_list t = inf_list s"
    "cache_lowwater t = cache_lowwater s" "cache_highwater t = cache_highwater s" "vc t = vc s"
    "rr_garbage t = rr_garbage s" "cache_onoff t = cache_onoff s" "cache_hits t = cache_hits s"
    "cache_misses t = cache_misses s" "ignore_inactive_cache_hits t = ignore_inactive_cache_hits s"
    "lastexpire t = lastexpire s"
proof -
  obtain a b c where t: "t = s\<lparr>cxs := a, cachelist := b, lastcache := c\<rparr>"
    using assms unfolding cx_frame_def by blast
  show "srvs t = srvs s" "infs t = infs s" "brk t = brk s" "clock t = clock s" "inf_list t = inf_list s"
    "cache_lowwater t = cache_lowwater s" "cache_highwater t = cache_highwater s" "vc t = vc s"
    "rr_garbage t = rr_garbage s" "cache_onoff t = cache_onoff s" "cache_hits t = cache_hits s"
    "cache_misses t = cache_misses s" "ignore_inactive_cache_hits t = ignore_inactive_cache_hits s"
    "lastexpire t = lastexpire s"
    unfolding t by simp_all
qed

lemma centry_sel [simp]: "c_code (centry c) = c_code c" "c_name (centry c) = c_name c"
  "c_type (centry c) = c_type c" "c_class (centry c) = c_class c" "c_positive (centry c) = c_positive c"
  "c_created (centry c) = c_created c" "c_lastused (centry c) = c_lastused c"
  "c_expires (centry c) = c_expires c" "c_p (centry c) = c_p c" "c_server (centry c) = c_server c"
  "c_next (centry c) = NULL" "c_prev (centry c) = NULL"
  by (simp_all add: centry_def)

lemma centry_links [simp]: "centry (c\<lparr>c_next := p\<rparr>) = centry c" "centry (c\<lparr>c_prev := p\<rparr>) = centry c"
  by (simp_all add: centry_def)

lemma dseg_append: "dseg m p (xs @ ys) q \<longleftrightarrow> dseg m p xs (hd (ys @ [q])) \<and> dseg m (last (p # xs)) ys q"
proof (induction xs arbitrary: p)
  case Nil
  then show ?case by simp
next
  case (Cons x xs)
  have "hd ((xs @ ys) @ [q]) = hd (xs @ [hd (ys @ [q])])" by (cases xs) (auto simp: hd_append)
  then show ?case using Cons [of x] by auto
qed

lemma dseg_upd_notin [simp]: "u \<notin> set xs \<Longrightarrow> dseg (m(u := v)) p xs q = dseg m p xs q"
  by (induction xs arbitrary: p) auto

lemma dseg_live: "dseg m p xs q \<Longrightarrow> x \<in> set xs \<Longrightarrow> \<exists>c. m x = Some c"
  by (induction xs arbitrary: p) auto

text \<open>Redirecting the link out of the last entry and the link into the first one.\<close>

lemma dseg_last:
  assumes "dseg m p (as @ [z]) q" "z \<notin> set as" "m z = Some c"
  shows "dseg (m(z \<mapsto> c\<lparr>c_next := r\<rparr>)) p (as @ [z]) r"
  using assms by (auto simp: dseg_append)

lemma dseg_first:
  assumes "dseg m p (b # bs) q" "b \<notin> set bs" "m b = Some c"
  shows "dseg (m(b \<mapsto> c\<lparr>c_prev := r\<rparr>)) r (b # bs) q"
  using assms by auto

lemma cache_live: "cache_at s xs \<Longrightarrow> x \<in> set xs \<Longrightarrow> \<exists>c. cxs s x = Some c"
  unfolding cache_at_def using dseg_live by blast

lemma cache_next:
  assumes "cache_at s (as @ x # bs)" "cxs s x = Some c"
  shows "c_next c = hd (bs @ [NULL])" "c_prev c = last (NULL # as)"
  using assms by (auto simp: cache_at_def dseg_append)

text \<open>
  Removal: in every one of its four cases the entry is taken out and no other entry
  changes but in its links.
\<close>

lemma remove_cx_list:
  assumes "cache_at s (as @ x # bs)"
  shows "\<exists>s'. remove_cx x s = Some s' \<and> cache_at s' (as @ bs) \<and> cval s' = cval s \<and> cx_frame s s'"
proof -
  obtain c where c: "cxs s x = Some c" using cache_live [OF assms] by auto
  note cn = cache_next [OF assms c]
  have d: "distinct (as @ x # bs)" "NULL \<notin> set (as @ x # bs)" "dseg (cxs s) NULL (as @ x # bs) NULL"
    "cachelist s = hd ((as @ x # bs) @ [NULL])" "lastcache s = last (NULL # as @ x # bs)"
    using assms by (auto simp: cache_at_def)
  have seg: "dseg (cxs s) NULL as x" "dseg (cxs s) x bs NULL" using d(3) c by (auto simp: dseg_append)
  define m1 where "m1 = (case bs of [] \<Rightarrow> cxs s | b # _ \<Rightarrow> (cxs s)(b \<mapsto> (the (cxs s b))\<lparr>c_prev := c_prev c\<rparr>))"
  define s1 where "s1 = s\<lparr>cxs := m1, lastcache := (case bs of [] \<Rightarrow> c_prev c | _ \<Rightarrow> lastcache s)\<rparr>"
  have st1: "(if c_next c \<noteq> NULL then upd_cx (c_next c) (\<lambda>d. d\<lparr>c_prev := c_prev c\<rparr>) s
           else Some (s\<lparr>lastcache := c_prev c\<rparr>)) = Some s1"
  proof (cases bs)
    case Nil
    then show ?thesis using cn by (simp add: s1_def m1_def)
  next
    case (Cons b bs')
    then obtain cb where "cxs s b = Some cb" using seg(2) by auto
    then show ?thesis using Cons cn d(2) by (simp add: s1_def m1_def upd_cx_def)
  qed
  have m1x: "m1 x = Some c" using c d(1) by (cases bs) (auto simp: m1_def)
  have m1as: "dseg m1 NULL as x" using seg(1) d(1) by (cases bs) (auto simp: m1_def)
  have m1bs: "dseg m1 (last (NULL # as)) bs NULL"
  proof (cases bs)
    case (Cons b bs')
    then obtain cb where "cxs s b = Some cb" using seg(2) by auto
    then show ?thesis using dseg_first [of "cxs s" x b bs' NULL cb] seg(2) Cons d(1) cn(2)
      by (simp add: m1_def)
  qed simp
  have v1: "map_option centry \<circ> m1 = map_option centry \<circ> cxs s"
    using seg(2) by (cases bs) (auto simp: m1_def fun_eq_iff)
  define m2 where "m2 = (if as = [] then m1 else m1(last as \<mapsto> (the (m1 (last as)))\<lparr>c_next := c_next c\<rparr>))"
  define s2 where "s2 = s1\<lparr>cxs := m2, cachelist := (if as = [] then c_next c else cachelist s1)\<rparr>"
  have r: "remove_cx x s = Some s2"
  proof (cases as rule: rev_cases)
    case Nil
    then show ?thesis using c st1 m1x cn by (simp add: remove_cx_def s1_def s2_def m2_def)
  next
    case (snoc as' a)
    then obtain ca where "m1 a = Some ca" using dseg_live [OF m1as] by fastforce
    then show ?thesis using snoc c st1 m1x cn d(2) by (simp add: remove_cx_def s1_def s2_def m2_def upd_cx_def)
  qed
  have seg2: "dseg m2 NULL (as @ bs) NULL"
  proof (cases as rule: rev_cases)
    case Nil
    then show ?thesis using m1bs by (simp add: m2_def)
  next
    case (snoc as' a)
    then obtain ca where ca: "m1 a = Some ca" using dseg_live [OF m1as] by fastforce
    have "dseg (m1(a \<mapsto> ca\<lparr>c_next := c_next c\<rparr>)) NULL (as' @ [a]) (c_next c)"
      using dseg_last [of m1 NULL as' a x ca] m1as ca snoc d(1) by auto
    moreover have "dseg (m1(a \<mapsto> ca\<lparr>c_next := c_next c\<rparr>)) a bs NULL"
      using m1bs snoc d(1) by auto
    moreover have "m2 = m1(a \<mapsto> ca\<lparr>c_next := c_next c\<rparr>)" using snoc ca by (simp add: m2_def)
    ultimately have "dseg m2 NULL as (hd (bs @ [NULL])) \<and> dseg m2 (last (NULL # as)) bs NULL"
      using snoc cn(1) by simp
    then show ?thesis by (simp only: dseg_append)
  qed
  have v2: "map_option centry \<circ> m2 = map_option centry \<circ> cxs s"
  proof (cases as rule: rev_cases)
    case (snoc as' a)
    then obtain ca where "m1 a = Some ca" using dseg_live [OF m1as] by fastforce
    then show ?thesis using snoc v1 by (auto simp: m2_def fun_eq_iff) (metis option.simps(9))+
  qed (simp add: m2_def v1)
  have cl: "cachelist s2 = hd ((as @ bs) @ [NULL])" using d(4) cn by (cases as) (auto simp: s2_def s1_def)
  have lc: "lastcache s2 = last (NULL # as @ bs)" using d(5) cn by (cases bs) (auto simp: s2_def s1_def)
  have "cache_at s2 (as @ bs)" using d(1,2) seg2 cl lc by (simp add: cache_at_def s2_def)
  moreover have "cval s2 = cval s" using v2 by (simp add: cval_def s2_def comp_def)
  moreover have "cx_frame s s2" by (simp add: cx_frame_def s2_def s1_def)
  ultimately show ?thesis using r by blast
qed

text \<open>Removing and freeing an entry.\<close>

lemma drop_one:
  assumes "cache_at s (as @ x # bs)"
  shows "\<exists>s1 s2. remove_cx x s = Some s1 \<and> free_cx x s1 = Some s2 \<and> cache_at s2 (as @ bs) \<and>
    cval s2 = (cval s)(x := None) \<and> cx_frame s s2"
proof -
  obtain s1 where s1: "remove_cx x s = Some s1" "cache_at s1 (as @ bs)" "cval s1 = cval s" "cx_frame s s1"
    using remove_cx_list [OF assms] by blast
  obtain c where "cxs s x = Some c" using cache_live [OF assms] by auto
  then have "cval s x \<noteq> None" by (simp add: cval_def)
  then obtain c1 where c1: "cxs s1 x = Some c1" 
    by (metis s1(3) cval_def option.map_disc_iff not_None_eq)
  let ?s2 = "s1\<lparr>cxs := (cxs s1)(x := None)\<rparr>"
  have "free_cx x s1 = Some ?s2" using c1 by (simp add: free_cx_def)
  moreover have "x \<notin> set (as @ bs)" using assms by (auto simp: cache_at_def)
  then have "cache_at ?s2 (as @ bs)" using s1(2) by (simp add: cache_at_def)
  moreover have "cval ?s2 = (cval s)(x := None)" unfolding s1(3) [symmetric] by (auto simp: cval_def fun_eq_iff)
  moreover have "cx_frame s ?s2" by (rule cx_frame_trans [OF s1(4)]) simp
  ultimately show ?thesis using s1(1) by blast
qed

text \<open>Appending an entry, and changing the data of one.\<close>

lemma upd_cx_live: "cxs s p = Some c \<Longrightarrow> upd_cx p f s = Some (s\<lparr>cxs := (cxs s)(p \<mapsto> f c)\<rparr>)"
  by (simp add: upd_cx_def)

lemma cval_upd: "cval (s\<lparr>cxs := (cxs s)(p \<mapsto> c)\<rparr>) = (cval s)(p \<mapsto> centry c)"
  by (auto simp: cval_def fun_eq_iff)

lemma dseg_data:
  assumes "m x = Some c" "c_next d = c_next c" "c_prev d = c_prev c"
  shows "dseg (m(x \<mapsto> d)) p xs q = dseg m p xs q"
  using assms by (induction xs arbitrary: p) auto

lemma cache_at_data:
  assumes "cache_at s xs" "cxs s x = Some c" "c_next d = c_next c" "c_prev d = c_prev c"
  shows "cache_at (s\<lparr>cxs := (cxs s)(x \<mapsto> d)\<rparr>) xs"
  using assms dseg_data [of "cxs s" x c d NULL xs NULL] by (simp add: cache_at_def)

lemma append_cx_list:
  assumes "cache_at s xs" "x \<notin> set xs" "x \<noteq> NULL" "cxs s x = Some c" "c_next c = NULL" "c_prev c = NULL"
  shows "\<exists>s'. append_cx x s = Some s' \<and> cache_at s' (xs @ [x]) \<and> cx_frame s s' \<and>
    cval s' = (cval s)(x \<mapsto> centry (c\<lparr>c_created := of_int (clock s)\<rparr>))"
proof (cases xs rule: rev_cases)
  case Nil
  let ?s1 = "s\<lparr>cachelist := x, lastcache := x\<rparr>"
  let ?d = "c\<lparr>c_created := of_int (clock s)\<rparr>"
  let ?s2 = "?s1\<lparr>cxs := (cxs ?s1)(x \<mapsto> ?d)\<rparr>"
  have "lastcache s = NULL" using assms(1) Nil by (simp add: cache_at_def)
  then have "append_cx x s = Some ?s2" using assms(4) by (simp add: append_cx_def upd_cx_def)
  moreover have "cache_at ?s2 (xs @ [x])" using Nil assms by (simp add: cache_at_def)
  moreover have "cval ?s2 = (cval s)(x \<mapsto> centry ?d)" by (auto simp: cval_def fun_eq_iff)
  ultimately show ?thesis by (auto simp: cx_frame_def)
next
  case (snoc ys z)
  obtain cz where cz: "cxs s z = Some cz" using cache_live [OF assms(1), of z] snoc by auto
  have a: "distinct xs" "NULL \<notin> set xs" "cachelist s = hd (xs @ [NULL])" "lastcache s = z"
    "dseg (cxs s) NULL (ys @ [z]) NULL"
    using assms(1) snoc by (auto simp: cache_at_def)
  have xz: "x \<noteq> z" "z \<notin> set ys" "x \<notin> set ys" "z \<noteq> NULL" using assms(2) a(1,2) snoc by auto
  let ?m = "(cxs s)(z \<mapsto> cz\<lparr>c_next := x\<rparr>, x \<mapsto> c\<lparr>c_prev := z\<rparr>)"
  let ?d = "c\<lparr>c_prev := z, c_created := of_int (clock s)\<rparr>"
  let ?s2 = "s\<lparr>cxs := ?m(x \<mapsto> ?d), lastcache := x\<rparr>"
  have "append_cx x s = Some ?s2" using a(4) xz cz assms(4) by (simp add: append_cx_def upd_cx_def)
  moreover have "cache_at ?s2 (xs @ [x])"
  proof -
    have "dseg ((cxs s)(z \<mapsto> cz\<lparr>c_next := x\<rparr>)) NULL (ys @ [z]) x"
      by (rule dseg_last [OF a(5) xz(2) cz])
    then have "dseg (?m(x \<mapsto> ?d)) NULL (ys @ [z]) x" using xz by simp
    moreover have "dseg (?m(x \<mapsto> ?d)) z [x] NULL" using assms(5) by simp
    ultimately have "dseg (?m(x \<mapsto> ?d)) NULL ((ys @ [z]) @ [x]) NULL"
      unfolding dseg_append [of _ _ "ys @ [z]"] by simp
    moreover have "hd ((xs @ [x]) @ [NULL]) = cachelist s" using a(3) snoc by (cases ys) auto
    ultimately show ?thesis using a snoc assms(2,3) by (simp add: cache_at_def)
  qed
  moreover have "cval ?s2 = (cval s)(x \<mapsto> centry (c\<lparr>c_created := of_int (clock s)\<rparr>))"
    using cz xz by (auto simp: cval_def fun_eq_iff centry_def)
  ultimately show ?thesis by (auto simp: cx_frame_def)
qed

section \<open>Searching\<close>

lemma cache_find_seg:
  assumes "dseg (cxs s) p xs NULL" "NULL \<notin> set xs"
  shows "cache_find s code query (hd (xs @ [NULL])) =
    Some (case find (\<lambda>x. cx_matches code query (the (cxs s x))) xs of Some x \<Rightarrow> x | None \<Rightarrow> NULL)"
  using assms
proof (induction xs arbitrary: p)
  case Nil
  then show ?case by (subst cache_find.simps) simp
next
  case (Cons x xs)
  obtain c where c: "cxs s x = Some c" "c_next c = hd (xs @ [NULL])" "dseg (cxs s) x xs NULL"
    using Cons.prems(1) by auto
  show ?case using Cons.IH [OF c(3)] Cons.prems(2) c by (subst cache_find.simps) simp
qed

lemma cache_find_list:
  assumes "cache_at s xs"
  shows "cache_find s code query (cachelist s) =
    Some (case find (\<lambda>x. cx_matches code query (the (cval s x))) xs of Some x \<Rightarrow> x | None \<Rightarrow> NULL)"
proof -
  have "find (\<lambda>x. cx_matches code query (the (cval s x))) xs = find (\<lambda>x. cx_matches code query (the (cxs s x))) xs"
  proof (rule find_cong [OF refl])
    fix x
    assume "x \<in> set xs"
    then obtain c where "cxs s x = Some c" using cache_live [OF assms] by blast
    then show "cx_matches code query (the (cval s x)) = cx_matches code query (the (cxs s x))"
      by (simp add: cval_def cx_matches_def)
  qed
  then show ?thesis using cache_find_seg [of s NULL xs] assms by (simp add: cache_at_def)
qed

section \<open>Expiration\<close>

lemma expire_loop_list:
  assumes "cache_at s (as @ xs)"
  shows "\<exists>s'. expire_loop now (hd (xs @ [NULL])) t e s =
      Some (t + length xs, e + length (filter (\<lambda>x. cx_expired now (the (cval s x))) xs), s') \<and>
    cache_at s' (as @ filter (\<lambda>x. \<not> cx_expired now (the (cval s x))) xs) \<and>
    cval s' = cval s |` (- {x \<in> set xs. cx_expired now (the (cval s x))}) \<and> cx_frame s s'"
  using assms
proof (induction xs arbitrary: as t e s)
  case Nil
  then show ?case by (subst expire_loop.simps) (simp add: restrict_map_def)
next
  case (Cons x xs)
  obtain c where c: "cxs s x = Some c" using cache_live [OF Cons.prems] by auto
  have x0: "x \<noteq> NULL" "x \<notin> set xs" using Cons.prems by (auto simp: cache_at_def)
  have nx: "c_next c = hd (xs @ [NULL])" by (rule cache_next(1) [OF Cons.prems c])
  have cv: "cval s x = Some (centry c)" using c by (simp add: cval_def)
  have ex: "cx_expired now (centry c) = cx_expired now c" by (simp add: cx_expired_def)
  show ?case
  proof (cases "cx_expired now c")
    case True
    obtain s1 s2 where d: "remove_cx x s = Some s1" "free_cx x s1 = Some s2" "cache_at s2 (as @ xs)"
      "cval s2 = (cval s)(x := None)" "cx_frame s s2" using drop_one [OF Cons.prems] by blast
    have same: "the (cval s2 y) = the (cval s y)" if "y \<in> set xs" for y using that x0 d(4) by auto
    obtain s' where ih: "expire_loop now (hd (xs @ [NULL])) (t + 1) (e + 1) s2 =
        Some (t + 1 + length xs, e + 1 + length (filter (\<lambda>x. cx_expired now (the (cval s2 x))) xs), s')"
      "cache_at s' (as @ filter (\<lambda>x. \<not> cx_expired now (the (cval s2 x))) xs)"
      "cval s' = cval s2 |` (- {x \<in> set xs. cx_expired now (the (cval s2 x))})" "cx_frame s2 s'"
      using Cons.IH [OF d(3)] by blast
    have f: "filter (\<lambda>x. cx_expired now (the (cval s2 x))) xs = filter (\<lambda>x. cx_expired now (the (cval s x))) xs"
      "filter (\<lambda>x. \<not> cx_expired now (the (cval s2 x))) xs = filter (\<lambda>x. \<not> cx_expired now (the (cval s x))) xs"
      by (rule filter_cong; simp add: same)+
    have "cval s' = cval s |` (- {y \<in> set (x # xs). cx_expired now (the (cval s y))})"
      unfolding ih(3) using d(4) True cv ex x0 by (auto simp: restrict_map_def fun_eq_iff)
    moreover have "cx_frame s s'" by (rule cx_frame_trans [OF d(5) ih(4)])
    moreover have "expire_loop now (hd ((x # xs) @ [NULL])) t e s =
        Some (t + 1 + length xs, e + 1 + length (filter (\<lambda>x. cx_expired now (the (cval s x))) xs), s')"
      using ih(1) f True c nx d(1,2) x0 by (subst expire_loop.simps) simp
    ultimately show ?thesis using ih(2) f cv ex True by simp
  next
    case False
    have at: "cache_at s ((as @ [x]) @ xs)" using Cons.prems by simp
    obtain s' where ih: "expire_loop now (hd (xs @ [NULL])) (t + 1) e s =
        Some (t + 1 + length xs, e + length (filter (\<lambda>x. cx_expired now (the (cval s x))) xs), s')"
      "cache_at s' ((as @ [x]) @ filter (\<lambda>x. \<not> cx_expired now (the (cval s x))) xs)"
      "cval s' = cval s |` (- {x \<in> set xs. cx_expired now (the (cval s x))})" "cx_frame s s'"
      using Cons.IH [OF at] by blast
    have "expire_loop now (hd ((x # xs) @ [NULL])) t e s =
        Some (t + 1 + length xs, e + length (filter (\<lambda>x. cx_expired now (the (cval s x))) xs), s')"
      using ih(1) False c nx x0 by (subst expire_loop.simps) simp
    moreover have "{y \<in> set (x # xs). cx_expired now (the (cval s y))} = {y \<in> set xs. cx_expired now (the (cval s y))}"
      using False cv ex by auto
    ultimately show ?thesis using ih(2-4) False cv ex by simp
  qed
qed

lemma drop_cxs_list:
  assumes "cache_at s xs" "set ps \<subseteq> set xs" "distinct ps"
  shows "\<exists>s'. drop_cxs ps s = Some s' \<and> cache_at s' (filter (\<lambda>x. x \<notin> set ps) xs) \<and>
    cval s' = cval s |` (- set ps) \<and> cx_frame s s'"
  using assms
proof (induction ps arbitrary: s xs)
  case Nil
  then show ?case by (auto simp: restrict_map_def)
next
  case (Cons p ps)
  obtain as bs where xs: "xs = as @ p # bs" using Cons.prems(2) by (auto dest: split_list)
  obtain s1 s2 where d: "remove_cx p s = Some s1" "free_cx p s1 = Some s2" "cache_at s2 (as @ bs)"
    "cval s2 = (cval s)(p := None)" "cx_frame s s2" using drop_one [of s as p bs] Cons.prems(1) xs by blast
  have di: "p \<notin> set as" "p \<notin> set bs" using Cons.prems(1) xs by (auto simp: cache_at_def)
  have sub: "set ps \<subseteq> set (as @ bs)" "distinct ps" using Cons.prems(2,3) xs by auto
  obtain s' where ih: "drop_cxs ps s2 = Some s'" "cache_at s' (filter (\<lambda>x. x \<notin> set ps) (as @ bs))"
    "cval s' = cval s2 |` (- set ps)" "cx_frame s2 s'" using Cons.IH [OF d(3) sub] by blast
  have "filter (\<lambda>x. x \<notin> set ps) (as @ bs) = filter (\<lambda>x. x \<notin> set (p # ps)) xs"
    using di unfolding xs by (simp add: filter_neq_notin)
  moreover have "cval s' = cval s |` (- set (p # ps))"
    unfolding ih(3) using d(4) by (auto simp: restrict_map_def fun_eq_iff)
  moreover have "cx_frame s s'" by (rule cx_frame_trans [OF d(5) ih(4)])
  ultimately show ?case using d(1,2) ih(1,2) by (metis drop_cxs.simps(2) bind.bind_lunit)
qed

lemma collect_cx_seg:
  assumes "dseg (cxs s) p xs NULL"
  shows "collect_cx s (length xs) (hd (xs @ [NULL])) = Some (map (\<lambda>x. (x, the (cxs s x))) xs)"
  using assms by (induction xs arbitrary: p) auto

text \<open>
  What \<open>qsort\<close> promises: a permutation of the array, in order when the comparison function
  is a total preorder on its elements. Nothing is said about equal elements.
\<close>

locale qsort_contract =
  fixes qs :: "('a \<Rightarrow> 'a \<Rightarrow> int) \<Rightarrow> 'a list \<Rightarrow> 'a list"
  assumes qs_mset: "mset (qs cmp xs) = mset xs"
    and qs_sorted: "(\<And>x y. x \<in> set xs \<Longrightarrow> y \<in> set xs \<Longrightarrow> cmp x y \<le> 0 \<or> cmp y x \<le> 0) \<Longrightarrow>
      (\<And>x y z. x \<in> set xs \<Longrightarrow> y \<in> set xs \<Longrightarrow> z \<in> set xs \<Longrightarrow> cmp x y \<le> 0 \<Longrightarrow> cmp y z \<le> 0 \<Longrightarrow> cmp x z \<le> 0) \<Longrightarrow>
      sorted_wrt (\<lambda>x y. cmp x y \<le> 0) (qs cmp xs)"
begin

lemma qs_length [simp]: "length (qs cmp xs) = length xs"
  using qs_mset by (metis size_mset)

lemma qs_set [simp]: "set (qs cmp xs) = set xs"
  using qs_mset by (metis set_mset_mset)

lemma qs_distinct: "distinct (map f (qs cmp xs)) = distinct (map f xs)"
  using qs_mset by (metis mset_eq_imp_distinct_iff mset_map)

text \<open>Whatever is in front is no larger than what is behind, when a key orders the elements.\<close>

lemma qs_front:
  fixes key :: "'a \<Rightarrow> int"
  assumes "\<And>x y. x \<in> set xs \<Longrightarrow> y \<in> set xs \<Longrightarrow> cmp x y = key x - key y"
    and "x \<in> set (take n (qs cmp xs))" "y \<in> set (drop n (qs cmp xs))"
  shows "key x \<le> key y"
proof -
  have tot: "cmp x y \<le> 0 \<or> cmp y x \<le> 0" if "x \<in> set xs" "y \<in> set xs" for x y
    using assms(1) [OF that] assms(1) [OF that(2,1)] by linarith
  have trs: "cmp x z \<le> 0" if "x \<in> set xs" "y \<in> set xs" "z \<in> set xs" "cmp x y \<le> 0" "cmp y z \<le> 0" for x y z
    using that assms(1) [of x y] assms(1) [of y z] assms(1) [of x z] by linarith
  have "sorted_wrt (\<lambda>x y. cmp x y \<le> 0) (qs cmp xs)" using tot trs by (rule qs_sorted)
  then have "sorted_wrt (\<lambda>x y. cmp x y \<le> 0) (take n (qs cmp xs) @ drop n (qs cmp xs))" by simp
  then have "cmp x y \<le> 0" using assms(2,3) unfolding sorted_wrt_append by blast
  moreover have "x \<in> set xs" "y \<in> set xs" using assms(2,3) by (auto dest: in_set_takeD in_set_dropD)
  ultimately show ?thesis using assms(1) by fastforce
qed

end

lemma isort_insert_mset: "mset (isort_insert cmp x xs) = add_mset x (mset xs)"
  by (induction xs) auto

lemma c_qsort_mset: "mset (c_qsort cmp xs) = mset xs"
  by (induction xs) (auto simp: c_qsort_def isort_insert_mset)

lemma isort_insert_sorted:
  assumes "sorted_wrt (\<lambda>x y. cmp x y \<le> 0) xs"
    and "\<And>x y. x \<in> S \<Longrightarrow> y \<in> S \<Longrightarrow> cmp x y \<le> 0 \<or> cmp y x \<le> (0 :: int)"
    and "\<And>x y z. x \<in> S \<Longrightarrow> y \<in> S \<Longrightarrow> z \<in> S \<Longrightarrow> cmp x y \<le> 0 \<Longrightarrow> cmp y z \<le> 0 \<Longrightarrow> cmp x z \<le> 0"
    and "x \<in> S" "set xs \<subseteq> S"
  shows "sorted_wrt (\<lambda>x y. cmp x y \<le> 0) (isort_insert cmp x xs)"
  using assms(1,5)
proof (induction xs)
  case Nil
  then show ?case by simp
next
  case (Cons y ys)
  have y: "y \<in> S" "set ys \<subseteq> S" using Cons.prems(2) by auto
  show ?case
  proof (cases "cmp x y \<le> 0")
    case True
    then have "cmp x z \<le> 0" if "z \<in> set ys" for z
      using assms(3) [OF assms(4) y(1)] that y(2) Cons.prems(1) by auto
    then show ?thesis using True Cons.prems(1) by simp
  next
    case False
    then have "cmp y x \<le> 0" using assms(2) [OF assms(4) y(1)] by blast
    moreover have "set (isort_insert cmp x ys) = insert x (set ys)"
      using isort_insert_mset [of cmp x ys] by (metis set_mset_add_mset_insert set_mset_mset)
    ultimately show ?thesis using False Cons.IH Cons.prems(1) y(2) by auto
  qed
qed

lemma c_qsort_sorted:
  assumes "\<And>x y. x \<in> set xs \<Longrightarrow> y \<in> set xs \<Longrightarrow> cmp x y \<le> 0 \<or> cmp y x \<le> (0 :: int)"
    and "\<And>x y z. x \<in> set xs \<Longrightarrow> y \<in> set xs \<Longrightarrow> z \<in> set xs \<Longrightarrow> cmp x y \<le> 0 \<Longrightarrow> cmp y z \<le> 0 \<Longrightarrow> cmp x z \<le> 0"
  shows "sorted_wrt (\<lambda>x y. cmp x y \<le> 0) (c_qsort cmp xs)"
proof -
  have "set ys \<subseteq> set xs \<Longrightarrow> sorted_wrt (\<lambda>x y. cmp x y \<le> 0) (c_qsort cmp ys)" for ys
  proof (induction ys)
    case Nil
    then show ?case by (simp add: c_qsort_def)
  next
    case (Cons y ys)
    have st: "set (c_qsort cmp ys) = set ys" by (metis c_qsort_mset set_mset_mset)
    have "sorted_wrt (\<lambda>x y. cmp x y \<le> 0) (isort_insert cmp y (c_qsort cmp ys))"
    proof (rule isort_insert_sorted [where S = "set xs"])
      show "sorted_wrt (\<lambda>x y. cmp x y \<le> 0) (c_qsort cmp ys)" using Cons by simp
      show "y \<in> set xs" "set (c_qsort cmp ys) \<subseteq> set xs" using Cons.prems st by auto
    qed (fact assms)+
    then show ?case by (simp add: c_qsort_def)
  qed
  then show ?thesis by simp
qed

interpretation cq: qsort_contract c_qsort
proof
  show "mset (c_qsort cmp xs) = mset xs" for cmp :: "'a \<Rightarrow> 'a \<Rightarrow> int" and xs by (rule c_qsort_mset)
  show "sorted_wrt (\<lambda>x y. cmp x y \<le> 0) (c_qsort cmp xs)"
    if "\<And>x y. x \<in> set xs \<Longrightarrow> y \<in> set xs \<Longrightarrow> cmp x y \<le> 0 \<or> cmp y x \<le> 0"
      and "\<And>x y z. x \<in> set xs \<Longrightarrow> y \<in> set xs \<Longrightarrow> z \<in> set xs \<Longrightarrow> cmp x y \<le> 0 \<Longrightarrow> cmp y z \<le> 0 \<Longrightarrow> cmp x z \<le> 0"
    for cmp :: "'a \<Rightarrow> 'a \<Rightarrow> int" and xs
    using that by (rule c_qsort_sorted)
qed

section \<open>The entries that are dropped\<close>

text \<open>The entries that \<open>expire_oldest\<close> drops: the first \<open>n\<close> after sorting.\<close>

definition oldest_cxs :: "nat \<Rightarrow> 'a cache_state_scheme \<Rightarrow> ptr list \<Rightarrow> ptr list" where
  "oldest_cxs n s xs = map fst (take n (c_qsort (\<lambda>x y. cmp_cachemru (snd x) (snd y)) (map (\<lambda>x. (x, the (cxs s x))) xs)))"

lemma oldest_cxs_basic:
  assumes "distinct xs"
  shows "set (oldest_cxs n s xs) \<subseteq> set xs" "distinct (oldest_cxs n s xs)" "length (oldest_cxs n s xs) = min n (length xs)"
proof -
  let ?q = "c_qsort (\<lambda>x y. cmp_cachemru (snd x) (snd y)) (map (\<lambda>x. (x, the (cxs s x))) xs)"
  have "set ?q = (\<lambda>x. (x, the (cxs s x))) ` set xs" by simp
  then show "set (oldest_cxs n s xs) \<subseteq> set xs"
    unfolding oldest_cxs_def by (auto dest!: in_set_takeD)
  have "distinct (map fst ?q)" using assms by (simp add: cq.qs_distinct comp_def)
  then show "distinct (oldest_cxs n s xs)" unfolding oldest_cxs_def take_map [symmetric] by simp
  show "length (oldest_cxs n s xs) = min n (length xs)" by (simp add: oldest_cxs_def)
qed

lemma expire_oldest_list:
  assumes "cache_at s xs" "0 \<le> cache_lowwater s" "n = length xs - nat (cache_lowwater s)"
  shows "\<exists>s'. expire_oldest (length xs) s = Some s' \<and>
    cache_at s' (filter (\<lambda>x. x \<notin> set (oldest_cxs n s xs)) xs) \<and>
    cval s' = cval s |` (- set (oldest_cxs n s xs)) \<and> cx_frame s s'"
proof (cases "int (length xs) - cache_lowwater s < 0")
  case True
  then have "n = 0" using assms(3) by simp
  then have "oldest_cxs n s xs = []" by (simp add: oldest_cxs_def)
  then show ?thesis using True assms(1) by (auto simp: expire_oldest_def restrict_map_def)
next
  case False
  then have n: "nat (int (length xs) - cache_lowwater s) = n" using assms(2,3) by simp
  have d: "distinct xs" using assms(1) by (simp add: cache_at_def)
  have c: "collect_cx s (length xs) (cachelist s) = Some (map (\<lambda>x. (x, the (cxs s x))) xs)"
    using collect_cx_seg [of s NULL xs] assms(1) by (simp add: cache_at_def)
  obtain s' where "drop_cxs (oldest_cxs n s xs) s = Some s'"
    "cache_at s' (filter (\<lambda>x. x \<notin> set (oldest_cxs n s xs)) xs)"
    "cval s' = cval s |` (- set (oldest_cxs n s xs))" "cx_frame s s'"
    using drop_cxs_list [OF assms(1) oldest_cxs_basic(1,2) [OF d]] by blast
  then show ?thesis using False n c assms(3) by (simp add: expire_oldest_def Let_def oldest_cxs_def)
qed

text \<open>As long as no time has its highest bit set, the entries that are dropped are the ones used last.\<close>

lemma cmp_cachemru_diff:
  assumes "unat (c_lastused cx) < 2 ^ 31" "unat (c_lastused cy) < 2 ^ 31"
  shows "cmp_cachemru cx cy = int (unat (c_lastused cy)) - int (unat (c_lastused cx))"
proof -
  let ?a = "uint (c_lastused cx)" and ?b = "uint (c_lastused cy)"
  have b: "0 \<le> ?a" "?a < 2 ^ 31" "0 \<le> ?b" "?b < 2 ^ 31" 
    using assms by (auto simp del: of_nat_unat simp: uint_nat intro: order_less_le_trans)
  have "sint (c_lastused cy - c_lastused cx) = signed_take_bit 31 (?b - ?a)"
  proof -
    have "c_lastused cy - c_lastused cx = word_of_int (?b - ?a)" by simp
    moreover have "sint (word_of_int i :: u32) = signed_take_bit 31 i" for i
      using signed_of_int [of i, where 'b = 32 and 'a = int] by simp
    ultimately show ?thesis by (simp only:)
  qed
  also have "\<dots> = ?b - ?a" 
  proof (rule signed_take_bit_int_eq_self)
    show "- (2 ^ 31) \<le> ?b - ?a" "?b - ?a < 2 ^ 31" using b by linarith+
  qed
  finally show ?thesis by (simp add: cmp_cachemru_def)
qed

lemma oldest_cxs_mru:
  assumes "\<forall>x \<in> set xs. unat (c_lastused (the (cxs s x))) < 2 ^ 31" "distinct xs"
    and "v \<in> set (oldest_cxs n s xs)" "k \<in> set xs - set (oldest_cxs n s xs)"
  shows "c_lastused (the (cxs s k)) \<le> c_lastused (the (cxs s v))"
proof -
  let ?cmp = "\<lambda>x y. cmp_cachemru (snd x) (snd y)"
  let ?ps = "map (\<lambda>x. (x, the (cxs s x))) xs"
  define q where "q = c_qsort ?cmp ?ps"
  have qs: "set q = set ?ps" unfolding q_def by (rule cq.qs_set)
  have old: "oldest_cxs n s xs = map fst (take n q)" unfolding q_def oldest_cxs_def ..
  obtain cv where v: "(v, cv) \<in> set (take n q)" using assms(3) unfolding old by auto
  have "(k, the (cxs s k)) \<in> set q" using assms(4) unfolding qs by auto
  moreover have "set q = set (take n q) \<union> set (drop n q)" by (metis append_take_drop_id set_append)
  moreover have "(k, the (cxs s k)) \<notin> set (take n q)"
  proof
    assume "(k, the (cxs s k)) \<in> set (take n q)"
    then have "k \<in> set (map fst (take n q))" by (metis fst_conv image_eqI set_map)
    then show False using assms(4) unfolding old by blast
  qed
  ultimately have k: "(k, the (cxs s k)) \<in> set (drop n q)" by blast
  have "(v, cv) \<in> set ?ps" using in_set_takeD [OF v] unfolding qs .
  then have cv: "cv = the (cxs s v)" by auto
  let ?key = "\<lambda>x :: ptr \<times> cache_t. - int (unat (c_lastused (snd x)))"
  have key: "?cmp x y = ?key x - ?key y" if "x \<in> set ?ps" "y \<in> set ?ps" for x y
  proof -
    have "unat (c_lastused (snd x)) < 2 ^ 31" "unat (c_lastused (snd y)) < 2 ^ 31" using that assms(1) by auto
    from cmp_cachemru_diff [OF this] show ?thesis by linarith
  qed
  have "?key (v, cv) \<le> ?key (k, the (cxs s k))" 
    by (rule cq.qs_front [OF key v [unfolded q_def] k [unfolded q_def]])
  then have "unat (c_lastused (the (cxs s k))) \<le> unat (c_lastused (the (cxs s v)))" 
    unfolding cv snd_conv by linarith
  then show ?thesis by (simp only: word_le_nat_alt)
qed

section \<open>The invariant of the cache\<close>

text \<open>
  The cache holds a proper list of entries, each with a packet that fits the message buffer,
  the code of its name and a server that is live.
\<close>

definition centry_ok :: "'a cache_state_scheme \<Rightarrow> cache_t \<Rightarrow> bool" where
  "centry_ok s c \<longleftrightarrow> 12 \<le> h_len (c_p c) \<and> h_len (c_p c) \<le> UDP_MAXSIZE \<and>
     length (h_packet (c_p c)) = h_len (c_p c) + 2 \<and> c_code c = get_stringcode (c_name c) \<and>
     (\<exists>n. srvs s (c_server c) = Some n)"

definition cache_inv :: "'a cache_state_scheme \<Rightarrow> ptr list \<Rightarrow> bool" where
  "cache_inv s xs \<longleftrightarrow> cache_at s xs \<and> (\<forall>x \<in> set xs. centry_ok s (the (cval s x))) \<and>
     0 < brk s \<and> (\<forall>p \<in> dom (cxs s). p < brk s) \<and>
     0 \<le> cache_lowwater s \<and> cache_lowwater s \<le> cache_highwater s \<and>
     length (vc s) = 256 \<and> rr_ok (rr_garbage s)"

lemma centry_ok_links [simp]: "centry_ok s (centry c) = centry_ok s c"
  by (simp add: centry_ok_def)

lemma cval_live: "cache_at s xs \<Longrightarrow> x \<in> set xs \<Longrightarrow> \<exists>c. cval s x = Some c"
  using cache_live [of s xs x] by (auto simp: cval_def)

text \<open>Removing entries keeps the invariant.\<close>

lemma cache_inv_drop:
  assumes "cache_inv s xs" "cache_at t ys" "cval t = cval s |` D" "cx_frame s t" "set ys \<subseteq> set xs"
  shows "cache_inv t ys"
proof -
  note t = cx_frame_fields [OF assms(4)]
  have "dom (cxs t) \<subseteq> dom (cxs s)"
  proof
    fix p
    assume "p \<in> dom (cxs t)"
    then have "cval t p \<noteq> None" by (auto simp: cval_def)
    then have "cval s p \<noteq> None" unfolding assms(3) by (auto simp: restrict_map_def split: if_splits)
    then show "p \<in> dom (cxs s)" by (auto simp: cval_def)
  qed
  moreover have "centry_ok t (the (cval t x))" if "x \<in> set ys" for x
  proof -
    have "cval t x = cval s x" using cval_live [OF assms(2) that] unfolding assms(3)
      by (auto simp: restrict_map_def split: if_splits)
    then show ?thesis using assms(1,5) that t(1) by (auto simp: cache_inv_def centry_ok_def)
  qed
  moreover have "\<forall>p \<in> dom (cxs s). p < brk s" using assms(1) by (simp add: cache_inv_def)
  ultimately have "\<forall>p \<in> dom (cxs t). p < brk t" "\<forall>x \<in> set ys. centry_ok t (the (cval t x))"
    unfolding t(3) by blast+
  then show ?thesis using assms(1,2) t by (simp add: cache_inv_def)
qed

text \<open>What an expiration run leaves of the list.\<close>

definition fresh_cxs :: "int \<Rightarrow> 'a cache_state_scheme \<Rightarrow> ptr list \<Rightarrow> ptr list" where
  "fresh_cxs now s xs = filter (\<lambda>x. \<not> cx_expired now (the (cval s x))) xs"

definition expire_due :: "'a cache_state_scheme \<Rightarrow> bool" where
  "expire_due s \<longleftrightarrow> cache_onoff s \<noteq> 0 \<and>
     CACHE_MINCYCLE \<le> clock s - (if lastexpire s = 0 then clock s else lastexpire s)"

lemma cache_expire_run:
  assumes "cache_at s xs" "0 \<le> cache_lowwater s" "expire_due s"
  defines "ys \<equiv> fresh_cxs (clock s) s xs"
  shows "\<exists>s' vs. cache_expire s = Some s' \<and> cache_at s' (filter (\<lambda>x. x \<notin> set vs) ys) \<and>
    cval s' = cval s |` (- ({x \<in> set xs. cx_expired (clock s) (the (cval s x))} \<union> set vs)) \<and>
    cx_frame (s\<lparr>lastexpire := clock s\<rparr>) s' \<and> set vs \<subseteq> set ys \<and> distinct vs \<and>
    (if int (length ys) > cache_highwater s
     then length vs = length ys - nat (cache_lowwater s) \<and>
       ((\<forall>x \<in> set ys. unat (c_lastused (the (cval s x))) < 2 ^ 31) \<longrightarrow>
        (\<forall>v \<in> set vs. \<forall>k \<in> set ys - set vs. c_lastused (the (cval s k)) \<le> c_lastused (the (cval s v))))
     else vs = [])"
proof -
  have l0: "lastexpire s \<noteq> 0" using assms(3) by (auto simp: expire_due_def CACHE_MINCYCLE_def CACHE_TIMEUNIT_def)
  have due: "cache_onoff s \<noteq> 0" "\<not> clock s - lastexpire s < CACHE_MINCYCLE"
    using assms(3) l0 by (auto simp: expire_due_def)
  let ?ex = "\<lambda>x. cx_expired (clock s) (the (cval s x))"
  obtain s2 where e: "expire_loop (clock s) (hd (xs @ [NULL])) 0 0 s =
      Some (0 + length xs, 0 + length (filter ?ex xs), s2)"
    "cache_at s2 ([] @ filter (\<lambda>x. \<not> ?ex x) xs)"
    "cval s2 = cval s |` (- {x \<in> set xs. ?ex x})" "cx_frame s s2"
    using expire_loop_list [of s "[]" xs "clock s" 0 0] assms(1) by auto
  have at2: "cache_at s2 ys" using e(2) by (simp add: ys_def fresh_cxs_def)
  have cl: "cachelist s = hd (xs @ [NULL])" using assms(1) by (simp add: cache_at_def)
  have tot: "length xs - length (filter ?ex xs) = length ys"
    using sum_length_filter_compl [of ?ex xs] by (simp add: ys_def fresh_cxs_def)
  have fr: "cache_highwater s2 = cache_highwater s" "cache_lowwater s2 = cache_lowwater s"
    using cx_frame_fields [OF e(4)] by blast+
  have sub: "set ys \<subseteq> set xs" by (auto simp: ys_def fresh_cxs_def)
  have frame: "cx_frame (s\<lparr>lastexpire := clock s\<rparr>) (t\<lparr>lastexpire := clock s\<rparr>)" if "cx_frame s t" for t :: "'a cache_state_scheme"
  proof -
    from that have "t = s\<lparr>cxs := cxs t, cachelist := cachelist t, lastcache := lastcache t\<rparr>" by (simp add: cx_frame_def)
    then have "t\<lparr>lastexpire := clock s\<rparr> = (s\<lparr>cxs := cxs t, cachelist := cachelist t, lastcache := lastcache t\<rparr>)\<lparr>lastexpire := clock s\<rparr>"
      by (rule arg_cong)
    then show ?thesis by (simp add: cx_frame_def)
  qed
  have same: "cval s2 x = cval s x" if "x \<in> set ys" for x
    using that unfolding e(3) by (auto simp: ys_def fresh_cxs_def restrict_map_def)
  show ?thesis
  proof (cases "int (length ys) > cache_highwater s")
    case False
    then have "cache_expire s = Some (s2\<lparr>lastexpire := clock s\<rparr>)"
      using due l0 e(1) cl tot fr by (simp add: cache_expire_def Let_def)
    moreover have "cache_at (s2\<lparr>lastexpire := clock s\<rparr>) ys" using at2 by (simp add: cache_at_def)
    moreover have "cval (s2\<lparr>lastexpire := clock s\<rparr>) = cval s2" by (simp add: cval_def)
    ultimately show ?thesis using False e(3) frame [OF e(4)]
      by (intro exI [of _ "s2\<lparr>lastexpire := clock s\<rparr>"] exI [of _ "[]"]) simp
  next
    case True
    let ?n = "length ys - nat (cache_lowwater s)"
    define vs where "vs = oldest_cxs ?n s2 ys"
    obtain s3 where x: "expire_oldest (length ys) s2 = Some s3" "cache_at s3 (filter (\<lambda>x. x \<notin> set vs) ys)"
      "cval s3 = cval s2 |` (- set vs)" "cx_frame s2 s3"
      using expire_oldest_list [OF at2, of ?n] assms(2) fr(2) unfolding vs_def by auto
    have d: "distinct ys" using at2 by (simp add: cache_at_def)
    have vs: "set vs \<subseteq> set ys" "distinct vs" "length vs = ?n"
      unfolding vs_def using oldest_cxs_basic [OF d, of ?n s2] by simp_all
    have "cache_expire s = Some (s3\<lparr>lastexpire := clock s\<rparr>)"
      using True due l0 e(1) cl tot fr x(1) by (simp add: cache_expire_def Let_def)
    moreover have "cache_at (s3\<lparr>lastexpire := clock s\<rparr>) (filter (\<lambda>x. x \<notin> set vs) ys)"
      using x(2) by (simp add: cache_at_def)
    moreover have "cval (s3\<lparr>lastexpire := clock s\<rparr>) = cval s |` (- ({x \<in> set xs. ?ex x} \<union> set vs))"
      using x(3) e(3) by (auto simp: cval_def restrict_map_def fun_eq_iff)
    moreover have "cx_frame (s\<lparr>lastexpire := clock s\<rparr>) (s3\<lparr>lastexpire := clock s\<rparr>)"
      by (rule frame, rule cx_frame_trans [OF e(4) x(4)])
    moreover have "\<forall>v \<in> set vs. \<forall>k \<in> set ys - set vs. c_lastused (the (cval s k)) \<le> c_lastused (the (cval s v))"
      if small: "\<forall>x \<in> set ys. unat (c_lastused (the (cval s x))) < 2 ^ 31"
    proof (intro ballI)
      fix v k
      assume vk: "v \<in> set vs" "k \<in> set ys - set vs"
      have lu: "c_lastused (the (cxs s2 x)) = c_lastused (the (cval s x))" if x: "x \<in> set ys" for x
      proof -
        obtain c where "cxs s2 x = Some c" using cache_live [OF at2 x] by blast
        then show ?thesis unfolding same [OF x, symmetric] by (simp add: cval_def)
      qed
      have "c_lastused (the (cxs s2 k)) \<le> c_lastused (the (cxs s2 v))"
        using oldest_cxs_mru [of ys s2 v ?n k] small lu d vk unfolding vs_def by auto
      then show "c_lastused (the (cval s k)) \<le> c_lastused (the (cval s v))"
        using lu vk vs(1) by auto
    qed
    ultimately show ?thesis using True vs by (intro exI [of _ "s3\<lparr>lastexpire := clock s\<rparr>"] exI [of _ vs]) simp
  qed
qed

lemma cache_expire_idle:
  assumes "\<not> expire_due s"
  shows "cache_expire s = Some (if cache_onoff s \<noteq> 0 \<and> lastexpire s = 0 then s\<lparr>lastexpire := clock s\<rparr> else s)"
  using assms by (auto simp: cache_expire_def expire_due_def Let_def CACHE_MINCYCLE_def CACHE_TIMEUNIT_def)

section \<open>Storing a reply\<close>

text \<open>The entry that a reply gives, and when a reply is stored at all.\<close>

definition new_entry :: "dnsheader_t \<Rightarrow> rr_t \<Rightarrow> ptr \<Rightarrow> int \<Rightarrow> cache_t" where
  "new_entry x query server now =
     \<lparr>c_code = get_stringcode (cstr (rr_name query)), c_name = cstr (rr_name query), c_type = rr_type query,
      c_class = rr_class query, c_positive = sint (h_ancount x), c_created = of_int now, c_lastused = of_int now,
      c_expires = of_int now + of_int (if sint (h_ancount x) > 0 then CACHE_TIME else CACHE_NEGTIME),
      c_p = x, c_server = server, c_next = NULL, c_prev = NULL\<rparr>"

definition cacheable :: "rr_t \<Rightarrow> bool" where
  "cacheable query \<longleftrightarrow> GET_QR (rr_flags query) \<noteq> 0 \<and> hd (rr_name query) \<noteq> 0"

lemma cache_dnspacket_store:
  assumes "cache_inv s xs" "cache_onoff s \<noteq> 0" "12 \<le> len" "len \<le> UDP_MAXSIZE" "len \<le> length packet"
    and "parse_query (vc s) (rr_garbage s) packet len = Some (0, query)" "cacheable query" "srvs s server = Some n"
  shows "\<exists>s' p x. cache_dnspacket packet len server s = Some s' \<and> parse_packet packet len = Some x \<and>
    p = brk s \<and> cache_inv s' (xs @ [p]) \<and> cval s' = (cval s)(p \<mapsto> new_entry x query server (clock s)) \<and>
    h_packet x = take len packet @ [0, 0] \<and> h_len x = len \<and> cx_frame (s\<lparr>brk := Suc (brk s)\<rparr>) s'"
proof -
  obtain x where x: "parse_packet packet len = Some x" "h_packet x = take len packet @ [0, 0]" "h_len x = len"
    using decode_header_Some [of len packet] assms(3,5) unfolding parse_packet_def by auto
  let ?p = "brk s"
  let ?c = "\<lparr>c_code = get_stringcode (cstr (rr_name query)), c_name = cstr (rr_name query), c_type = rr_type query,
      c_class = rr_class query, c_positive = sint (h_ancount x), c_created = 0, c_lastused = of_int (clock s),
      c_expires = 0, c_p = x, c_server = server, c_next = NULL, c_prev = NULL\<rparr>"
  let ?s1 = "s\<lparr>brk := Suc ?p, cxs := (cxs s)(?p \<mapsto> ?c)\<rparr>"
  have cr: "create_cx x query server s = (?p, ?s1)" by (simp add: create_cx_def Let_def)
  have inv: "cache_at s xs" "\<forall>p \<in> dom (cxs s). p < brk s" "0 < brk s" using assms(1) by (auto simp: cache_inv_def)
  have fresh: "?p \<notin> dom (cxs s)" using inv(2) by blast
  then have px: "?p \<notin> set xs" using cache_live [OF inv(1), of ?p] by auto
  have at1: "cache_at ?s1 xs" using inv(1) px by (simp add: cache_at_def)
  obtain s2 where s2: "append_cx ?p ?s1 = Some s2" "cache_at s2 (xs @ [?p])" "cx_frame ?s1 s2"
    "cval s2 = (cval ?s1)(?p \<mapsto> centry (?c\<lparr>c_created := of_int (clock ?s1)\<rparr>))"
    using append_cx_list [OF at1 px] inv(3) by auto
  obtain d where d: "cxs s2 ?p = Some d" using cache_live [OF s2(2), of ?p] by auto
  have "cval s2 ?p = Some (centry d)" using d by (simp add: cval_def)
  then have dc: "centry d = centry (?c\<lparr>c_created := of_int (clock s)\<rparr>)" using s2(4) by simp
  then have cp: "c_p d = x" by (metis centry_sel(9) cache_t.simps(9) cache_t.update_convs(6))
  let ?e = "d\<lparr>c_lastused := of_int (clock s),
            c_expires := of_int (clock s) + of_int (if sint (h_ancount (c_p d)) > 0 then CACHE_TIME else CACHE_NEGTIME)\<rparr>"
  let ?s3 = "s2\<lparr>cxs := (cxs s2)(?p \<mapsto> ?e)\<rparr>"
  have st: "cache_dnspacket packet len server s = Some ?s3"
    using assms(2,6,7) x(1) cr s2(1) d by (simp add: cache_dnspacket_def cacheable_def upd_cx_def)
  have "centry ?e = (centry d)\<lparr>c_lastused := of_int (clock s),
            c_expires := of_int (clock s) + of_int (if sint (h_ancount x) > 0 then CACHE_TIME else CACHE_NEGTIME)\<rparr>"
    using cp by (simp add: centry_def)
  also have "\<dots> = new_entry x query server (clock s)" unfolding dc by (simp add: centry_def new_entry_def)
  finally have ce: "centry ?e = new_entry x query server (clock s)" .
  have v1: "(cval ?s1)(?p \<mapsto> a) = (cval s)(?p \<mapsto> a)" for a by (auto simp: cval_def fun_eq_iff)
  have val: "cval ?s3 = (cval s)(?p \<mapsto> new_entry x query server (clock s))"
    unfolding cval_upd ce s2(4) v1 by simp
  have at3: "cache_at ?s3 (xs @ [?p])" using s2(2) d by (intro cache_at_data) auto
  have fr: "cx_frame ?s1 ?s3" by (rule cx_frame_trans [OF s2(3)]) simp
  note f = cx_frame_fields [OF fr]
  have fr2: "cx_frame (s\<lparr>brk := Suc (brk s)\<rparr>) ?s3"
    by (rule cx_frame_trans [OF _ fr]) (simp add: cx_frame_def)
  have "dom (cval ?s3) = insert ?p (dom (cval s))" unfolding val by simp
  then have "dom (cxs ?s3) = insert ?p (dom (cxs s))" unfolding cval_def dom_def by simp
  then have "\<forall>q \<in> dom (cxs ?s3). q < brk ?s3" using inv(2) f(3) by (auto simp: less_Suc_eq)
  moreover have "\<forall>q \<in> set (xs @ [?p]). centry_ok ?s3 (the (cval ?s3 q))"
  proof
    fix q
    assume q: "q \<in> set (xs @ [?p])"
    show "centry_ok ?s3 (the (cval ?s3 q))"
    proof (cases "q = ?p")
      case True
      then show ?thesis using f(1) assms(3-5,8) x unfolding val
        by (simp add: centry_ok_def new_entry_def)
    next
      case False
      then have "q \<in> set xs" using q by simp
      then show ?thesis using False assms(1) f(1) unfolding val by (simp add: cache_inv_def centry_ok_def)
    qed
  qed
  ultimately have "cache_inv ?s3 (xs @ [?p])"
    using assms(1) at3 f by (simp add: cache_inv_def)
  then show ?thesis using st x val fr2 by blast
qed

lemma cache_dnspacket_skip:
  assumes "cache_onoff s = 0 \<or> (\<exists>r query. parse_query (vc s) (rr_garbage s) packet len = Some (r, query) \<and>
      (r \<noteq> 0 \<or> \<not> cacheable query))"
  shows "cache_dnspacket packet len server s = Some s"
  using assms by (auto simp: cache_dnspacket_def cacheable_def)

lemma cache_dnspacket_safe:
  assumes "cache_inv s xs" "12 \<le> len" "len \<le> UDP_MAXSIZE" "len \<le> length packet" "srvs s server = Some n"
  shows "\<exists>s' ys. cache_dnspacket packet len server s = Some s' \<and> cache_inv s' ys \<and> brk s \<le> brk s' \<and>
    (\<exists>b. cx_frame (s\<lparr>brk := b\<rparr>) s')"
proof (cases "cache_onoff s = 0")
  case True
  then show ?thesis using assms(1) cache_dnspacket_skip [of s packet len server]
    by (metis cx_frame_refl order_refl srv_state.surjective srv_state.update_convs(1))
next
  case False
  obtain r query where q: "parse_query (vc s) (rr_garbage s) packet len = Some (r, query)" "r = 0 \<or> r = -1"
    using parse_query_safe [of "vc s" len packet "rr_garbage s"] assms(1-4) by (auto simp: cache_inv_def)
  show ?thesis
  proof (cases "r = 0 \<and> cacheable query")
    case True
    then obtain s' p x where c: "cache_dnspacket packet len server s = Some s'" "cache_inv s' (xs @ [p])"
      "cx_frame (s\<lparr>brk := Suc (brk s)\<rparr>) s'"
      using cache_dnspacket_store [OF assms(1) False assms(2-4) _ _ assms(5), of query] q(1) by blast
    then show ?thesis using cx_frame_fields(3) [OF c(3)] by auto
  next
    case nc: False
    then have "cache_dnspacket packet len server s = Some s" using q(1) by (intro cache_dnspacket_skip) auto
    then show ?thesis using assms(1)
      by (metis cx_frame_refl order_refl srv_state.surjective srv_state.update_convs(1))
  qed
qed

section \<open>Answering from the cache\<close>

text \<open>What is asked for and what an entry answers, without the code that speeds up the search.\<close>

definition lookable :: "rr_t \<Rightarrow> bool" where
  "lookable query \<longleftrightarrow> GET_QR (rr_flags query) \<noteq> 1 \<and> hd (rr_name query) \<noteq> 0 \<and> rr_class query = DNS_CLASS_INET"

definition answers :: "rr_t \<Rightarrow> cache_t \<Rightarrow> bool" where
  "answers query c \<longleftrightarrow> c_type c = rr_type query \<and> c_class c = rr_class query \<and>
     c_strcaseeq (c_name c) (cstr (rr_name query))"

lemma cx_matches_answers:
  "c_code c = get_stringcode (c_name c) \<Longrightarrow>
     cx_matches (get_stringcode (cstr (rr_name query))) query c = answers query c"
  using get_stringcode_caseeq by (auto simp: cx_matches_def answers_def)

definition cache_hit :: "'a cache_state_scheme \<Rightarrow> ptr list \<Rightarrow> rr_t \<Rightarrow> ptr option" where
  "cache_hit s xs query = find (\<lambda>x. answers query (the (cval s x))) xs"

text \<open>The state after a hit: a positive entry has its times renewed.\<close>

definition hit_state :: "'a cache_state_scheme \<Rightarrow> ptr \<Rightarrow> 'a cache_state_scheme" where
  "hit_state s p =
     (let c = the (cxs s p) in
      s\<lparr>cxs := (if c_positive c > 0 then (cxs s)(p \<mapsto> c\<lparr>c_lastused := of_int (clock s),
                  c_expires := of_int (clock s) + of_int CACHE_TIME\<rparr>) else cxs s),
        cache_hits := cache_hits s + 1\<rparr>)"

lemma cache_lookup_miss:
  assumes "cache_inv s xs" "cache_onoff s \<noteq> 0" "parse_query (vc s) (rr_garbage s) packet len = Some (0, query)"
    and "lookable query" "cache_hit s xs query = None"
  shows "cache_lookup packet len s = Some (0, packet, s\<lparr>cache_misses := cache_misses s + 1\<rparr>)"
proof -
  have at: "cache_at s xs" using assms(1) by (simp add: cache_inv_def)
  have "find (\<lambda>x. cx_matches (get_stringcode (cstr (rr_name query))) query (the (cval s x))) xs = cache_hit s xs query"
    unfolding cache_hit_def using assms(1)
    by (intro find_cong refl cx_matches_answers) (simp add: cache_inv_def centry_ok_def)
  then show ?thesis using assms(2-5) cache_find_list [OF at]
    by (simp add: cache_lookup_def lookable_def)
qed

lemma cache_lookup_hit:
  assumes "cache_inv s xs" "cache_onoff s \<noteq> 0" "parse_query (vc s) (rr_garbage s) packet len = Some (0, query)"
    and "lookable query" "cache_hit s xs query = Some p" "UDP_MAXSIZE \<le> length packet"
  shows "\<exists>c n. cval s p = Some c \<and> answers query c \<and> srvs s (c_server c) = Some n \<and>
    cache_lookup packet len s =
      Some (if ignore_inactive_cache_hits s \<noteq> 0 \<and> inactive n \<noteq> 0 then 0 else h_len (c_p c),
        overlay packet 2 (take (h_len (c_p c) - 2) (drop 2 (h_packet (c_p c)))), hit_state s p) \<and>
    cache_inv (hit_state s p) xs"
proof -
  have at: "cache_at s xs" using assms(1) by (simp add: cache_inv_def)
  have f: "find (\<lambda>x. cx_matches (get_stringcode (cstr (rr_name query))) query (the (cval s x))) xs = Some p"
    unfolding assms(5) [symmetric] cache_hit_def using assms(1)
    by (intro find_cong refl cx_matches_answers) (simp add: cache_inv_def centry_ok_def)
  have p: "p \<in> set xs" "answers query (the (cval s p))"
    using find_Some_in [OF assms(5) [unfolded cache_hit_def]] by auto
  obtain c where c: "cxs s p = Some c" using cache_live [OF at p(1)] by blast
  have cv: "cval s p = Some (centry c)" using c by (simp add: cval_def)
  have p0: "p \<noteq> NULL" using at p(1) unfolding cache_at_def by metis
  have ok: "centry_ok s c" using assms(1) p(1) cv by (auto simp: cache_inv_def)
  then obtain n where n: "srvs s (c_server c) = Some n" by (auto simp: centry_ok_def)
  have len: "12 \<le> h_len (c_p c)" "h_len (c_p c) \<le> UDP_MAXSIZE" "length (h_packet (c_p c)) = h_len (c_p c) + 2"
    using ok by (auto simp: centry_ok_def)
  let ?d = "c\<lparr>c_lastused := of_int (clock s), c_expires := of_int (clock s) + of_int CACHE_TIME\<rparr>"
  have cp: "copy_from_2 packet (h_packet (c_p c)) (h_len (c_p c) - 2) =
      Some (overlay packet 2 (take (h_len (c_p c) - 2) (drop 2 (h_packet (c_p c)))))"
    using len assms(6) by (simp add: copy_from_2_def)
  have st: "(if c_positive c > 0 then upd_cx p (\<lambda>c. c\<lparr>c_lastused := of_int (clock s),
        c_expires := of_int (clock s) + of_int CACHE_TIME\<rparr>) s else Some s) =
      Some (s\<lparr>cxs := (if c_positive c > 0 then (cxs s)(p \<mapsto> ?d) else cxs s)\<rparr>)"
    using c by (simp add: upd_cx_def)
  have lk: "cache_lookup packet len s =
      Some (if ignore_inactive_cache_hits s \<noteq> 0 \<and> inactive n \<noteq> 0 then 0 else h_len (c_p c),
        overlay packet 2 (take (h_len (c_p c) - 2) (drop 2 (h_packet (c_p c)))), hit_state s p)"
    using assms(2-4) cache_find_list [OF at] f p0 c st cp len(1) n
    by (simp add: cache_lookup_def lookable_def hit_state_def Let_def get_srv_def)
  have inv: "cache_inv (hit_state s p) xs"
  proof -
    have at2: "cache_at (hit_state s p) xs"
      using at cache_at_data [OF at c, of ?d] c by (simp add: hit_state_def cache_at_def Let_def)
    have "centry_ok (hit_state s p) (the (cval (hit_state s p) x))" if "x \<in> set xs" for x
    proof (cases "x = p")
      case True
      then show ?thesis using ok c by (simp add: centry_ok_def hit_state_def cval_def Let_def)
    next
      case False
      then have "cval (hit_state s p) x = cval s x" by (simp add: hit_state_def cval_def Let_def)
      then show ?thesis using assms(1) that by (simp add: cache_inv_def centry_ok_def hit_state_def Let_def)
    qed
    moreover have "dom (cxs (hit_state s p)) = dom (cxs s)" using c by (auto simp: hit_state_def dom_def Let_def)
    ultimately show ?thesis using assms(1) at2 by (simp add: cache_inv_def hit_state_def Let_def)
  qed
  show ?thesis using cv p(2) n lk inv by (intro exI [of _ "centry c"] exI [of _ n]) simp
qed

lemma cache_lookup_skip:
  assumes "cache_onoff s = 0 \<or> (\<exists>r query. parse_query (vc s) (rr_garbage s) packet len = Some (r, query) \<and>
      (r \<noteq> 0 \<or> \<not> lookable query))"
  shows "cache_lookup packet len s = Some (0, packet, s)"
  using assms by (auto simp: cache_lookup_def lookable_def)

lemma lookup_frame_refl: "\<exists>h m. cx_frame (s\<lparr>cache_hits := h, cache_misses := m\<rparr>) s"
  by (intro exI [of _ "cache_hits s"] exI [of _ "cache_misses s"]) simp

lemma cache_lookup_safe:
  assumes "cache_inv s xs" "len \<le> length packet" "UDP_MAXSIZE \<le> length packet"
  shows "\<exists>n packet' s'. cache_lookup packet len s = Some (n, packet', s') \<and> n \<le> UDP_MAXSIZE \<and>
    length packet' = length packet \<and> take 2 packet' = take 2 packet \<and> cache_inv s' xs \<and>
    (\<exists>h m. cx_frame (s\<lparr>cache_hits := h, cache_misses := m\<rparr>) s') \<and>
    (n = 0 \<longrightarrow> ignore_inactive_cache_hits s = 0 \<longrightarrow> packet' = packet)"
proof (cases "cache_onoff s = 0")
  case True
  then have "cache_lookup packet len s = Some (0, packet, s)" by (intro cache_lookup_skip) simp
  then show ?thesis using assms(1)
    by (intro exI [of _ 0] exI [of _ packet] exI [of _ s]) (simp add: lookup_frame_refl)
next
  case on: False
  have l6: "6 \<le> length packet" using assms(3) by (simp add: UDP_MAXSIZE_def)
  obtain r query where q: "parse_query (vc s) (rr_garbage s) packet len = Some (r, query)" "r = 0 \<or> r = -1"
    using parse_query_safe [of "vc s" len packet "rr_garbage s"] assms(1,2) l6 by (auto simp: cache_inv_def)
  show ?thesis
  proof (cases "r = 0 \<and> lookable query")
    case False
    then have "cache_lookup packet len s = Some (0, packet, s)" using q(1) by (intro cache_lookup_skip) auto
    then show ?thesis using assms(1)
      by (intro exI [of _ 0] exI [of _ packet] exI [of _ s]) (simp add: lookup_frame_refl)
  next
    case True
    then have q0: "parse_query (vc s) (rr_garbage s) packet len = Some (0, query)" "lookable query" using q(1) by auto
    show ?thesis
    proof (cases "cache_hit s xs query")
      case None
      have "cache_inv (s\<lparr>cache_misses := cache_misses s + 1\<rparr>) xs"
        using assms(1) by (simp add: cache_inv_def cache_at_def centry_ok_def cval_def)
      moreover have "cx_frame (s\<lparr>cache_hits := cache_hits s, cache_misses := cache_misses s + 1\<rparr>)
          (s\<lparr>cache_misses := cache_misses s + 1\<rparr>)" by (simp add: cx_frame_def)
      ultimately show ?thesis using cache_lookup_miss [OF assms(1) on q0 None]
        by (intro exI [of _ 0] exI [of _ packet] exI [of _ "s\<lparr>cache_misses := cache_misses s + 1\<rparr>"]) blast
    next
      case (Some p)
      obtain c and n :: srvnode where c: "cval s p = Some c" "cache_lookup packet len s =
        Some (if ignore_inactive_cache_hits s \<noteq> 0 \<and> inactive n \<noteq> 0 then 0 else h_len (c_p c),
          overlay packet 2 (take (h_len (c_p c) - 2) (drop 2 (h_packet (c_p c)))), hit_state s p)"
        "cache_inv (hit_state s p) xs"
        using cache_lookup_hit [OF assms(1) on q0 Some assms(3)] by blast
      have "p \<in> set xs" using find_Some_in [OF Some [unfolded cache_hit_def]] by blast
      then have ok: "centry_ok s c" using assms(1) c(1) by (auto simp: cache_inv_def)
      let ?d = "take (h_len (c_p c) - 2) (drop 2 (h_packet (c_p c)))"
      have l: "2 + length ?d \<le> length packet" "h_len (c_p c) \<le> UDP_MAXSIZE"
        using ok assms(3) by (auto simp: centry_ok_def)
      have pos: "h_len (c_p c) \<noteq> 0" using ok by (auto simp: centry_ok_def)
      have "length (overlay packet 2 ?d) = length packet" by (rule length_overlay [OF l(1)])
      moreover have "take 2 (overlay packet 2 ?d) = take 2 packet" using l6 by (simp add: overlay_def)
      moreover have "cx_frame (s\<lparr>cache_hits := cache_hits s + 1, cache_misses := cache_misses s\<rparr>) (hit_state s p)"
        by (simp add: cx_frame_def hit_state_def Let_def)
      moreover have "(if ignore_inactive_cache_hits s \<noteq> 0 \<and> inactive n \<noteq> 0 then 0 else h_len (c_p c)) \<le> UDP_MAXSIZE"
        using l(2) by simp
      moreover have "(if ignore_inactive_cache_hits s \<noteq> 0 \<and> inactive n \<noteq> 0 then 0 else h_len (c_p c)) = 0 \<longrightarrow>
          ignore_inactive_cache_hits s = 0 \<longrightarrow> overlay packet 2 ?d = packet" using pos by simp
      ultimately show ?thesis using c(2,3) by - (assumption | rule exI conjI)+
    qed
  qed
qed

section \<open>The water marks\<close>

text \<open>The upper mark in the option \<open>-c\<close> is such that 75 times it fits an \<open>int\<close>.\<close>

definition marks_fit :: "bytes \<Rightarrow> bool" where
  "marks_fit prm \<longleftrightarrow> (prm \<noteq> [] \<and> c_isdigit (hd prm) \<longrightarrow>
     (if 58 \<notin> set prm then atoi prm else atoi (tl (dropWhile ((\<noteq>) 58) prm))) \<le> 28633115)"

lemma three_quarters_fit: "0 \<le> h \<Longrightarrow> h \<le> 28633115 \<Longrightarrow>
    \<exists>l. three_quarters h = Some l \<and> 0 \<le> l \<and> l \<le> h"
proof -
  assume h: "0 \<le> h" "h \<le> 28633115"
  define l where "l = h * 75 div 100"
  have "0 \<le> l" "l \<le> h" unfolding l_def using h(1) by simp_all
  moreover have "three_quarters h = Some l" using h by (simp add: three_quarters_def l_def)
  ultimately show ?thesis by blast
qed

lemma cache_init_marks:
  assumes "cache_onoff s = 1" "0 \<le> cache_lowwater s" "cache_lowwater s \<le> cache_highwater s" "marks_fit (cstr (cache_param s))"
  shows "\<exists>a b c d. cache_init s = Some (s\<lparr>cache_param := a, cache_onoff := b, cache_highwater := c, cache_lowwater := d\<rparr>) \<and>
    0 \<le> d \<and> d \<le> c"
proof -
  let ?p = "cstr (cache_param s)"
  define lw where "lw = atoi (takeWhile ((\<noteq>) 58) ?p)"
  define hw where "hw = atoi (tl (dropWhile ((\<noteq>) 58) ?p))"
  have h1: "0 \<le> cache_highwater s" using assms(2,3) by simp
  have same: "s = s\<lparr>cache_param := cache_param s, cache_onoff := cache_onoff s, cache_highwater := cache_highwater s,
      cache_lowwater := cache_lowwater s\<rparr>" by simp
  consider (empty) "?p = []" | (off) "?p = bstr ''off''" | (other) "?p \<noteq> []" "?p \<noteq> bstr ''off''" "\<not> c_isdigit (hd ?p)"
    | (one) "?p \<noteq> []" "?p \<noteq> bstr ''off''" "c_isdigit (hd ?p)" "58 \<notin> set ?p"
    | (two) "?p \<noteq> []" "?p \<noteq> bstr ''off''" "c_isdigit (hd ?p)" "58 \<in> set ?p" by blast
  then show ?thesis
  proof cases
    case empty
    then have "cache_init s = Some s" using assms(1,3) h1 by (simp add: cache_init_def)
    then show ?thesis using assms(2,3) same by metis
  next
    case off
    then have "cache_init s = Some (s\<lparr>cache_param := cache_param s, cache_onoff := 0, cache_highwater := cache_highwater s,
        cache_lowwater := cache_lowwater s\<rparr>)" by (simp add: cache_init_def bstr_def)
    then show ?thesis using assms(2,3) by blast
  next
    case other
    then have "cache_init s = Some s" using assms(1,3) h1 by (simp add: cache_init_def)
    then show ?thesis using assms(2,3) same by metis
  next
    case one
    have h: "0 \<le> atoi ?p" using atoi_digit_nonneg [of "hd ?p" "tl ?p"] one(1,3) by simp
    obtain l where l: "three_quarters (atoi ?p) = Some l" "0 \<le> l" "l \<le> atoi ?p"
      using three_quarters_fit [OF h] assms(4) one by (auto simp: marks_fit_def)
    have "cache_init s = Some (s\<lparr>cache_param := cache_param s, cache_onoff := cache_onoff s, cache_highwater := atoi ?p,
        cache_lowwater := l\<rparr>)" using one l h assms(1) by (simp add: cache_init_def)
    then show ?thesis using l by blast
  next
    case two
    obtain c cs where p: "?p = c # cs" using two(1) by (cases ?p) auto
    have "c \<noteq> 58" using two(3) p by (auto simp: c_isdigit_def word_le_nat_alt)
    then have lw: "0 \<le> lw" unfolding lw_def using atoi_digit_nonneg [of c "takeWhile ((\<noteq>) 58) cs"] two(3) p by simp
    let ?s = "s\<lparr>cache_param := takeWhile ((\<noteq>) 58) ?p @ 0 # drop (Suc (length (takeWhile ((\<noteq>) 58) ?p))) (cache_param s),
       cache_lowwater := lw, cache_highwater := hw\<rparr>"
    have i: "cache_init s = (if hw < 0 then Some (?s\<lparr>cache_highwater := CACHE_HIGHWATER, cache_lowwater := CACHE_LOWWATER\<rparr>)
        else if lw > hw then do { l \<leftarrow> three_quarters hw; Some (?s\<lparr>cache_lowwater := l\<rparr>) } else Some ?s)"
      using two assms(1) by (simp add: cache_init_def lw_def hw_def Let_def)
    consider (neg) "hw < 0" | (less) "0 \<le> hw" "lw > hw" | (fit) "0 \<le> hw" "lw \<le> hw" by linarith
    then show ?thesis
    proof cases
      case neg
      then have "cache_init s = Some (s\<lparr>cache_param := cache_param ?s, cache_onoff := cache_onoff s, cache_highwater := CACHE_HIGHWATER,
        cache_lowwater := CACHE_LOWWATER\<rparr>)" using i by simp
      moreover have "0 \<le> CACHE_LOWWATER \<and> CACHE_LOWWATER \<le> CACHE_HIGHWATER" by (simp add: CACHE_HIGHWATER_def CACHE_LOWWATER_def)
      ultimately show ?thesis by blast
    next
      case less
      obtain l where l: "three_quarters hw = Some l" "0 \<le> l" "l \<le> hw"
        using three_quarters_fit [OF less(1)] assms(4) two by (auto simp: marks_fit_def hw_def)
      have "cache_init s = Some (s\<lparr>cache_param := cache_param ?s, cache_onoff := cache_onoff s, cache_highwater := hw,
        cache_lowwater := l\<rparr>)" using i less l by simp
      then show ?thesis using l by blast
    next
      case fit
      have "cache_init s = Some (s\<lparr>cache_param := cache_param ?s, cache_onoff := cache_onoff s, cache_highwater := hw,
        cache_lowwater := lw\<rparr>)" using i fit by simp
      then show ?thesis using fit lw by blast
    qed
  qed
qed

end
