(* ===== verification/Rand.thy ===== *)
theory Rand
  imports Prelude
begin

text \<open>
  The random number generator of src/rand.c and src/rand.h: ISAAC with \<open>RANDSIZL = 4\<close>, so
  with 16 words of state. \<open>ub4\<close> is \<open>unsigned long\<close>, 32 bits wide on i686. The pointers \<open>m\<close>,
  \<open>m2\<close> and \<open>r\<close> of \<open>isaac\<close> are indices; every access to the two arrays is checked.
\<close>

section \<open>The generator\<close>

definition RANDSIZL :: nat where "RANDSIZL = 4"
definition RANDSIZ :: nat where "RANDSIZ = 16"

record randctx =
  randcnt :: u32
  randrsl :: "u32 list"
  randmem :: "u32 list"
  randa :: u32
  randb :: u32
  randc :: u32

text \<open>\<open>ind\<close> masks a byte offset into the array, a multiple of four.\<close>

definition ind_off :: "u32 \<Rightarrow> u32" where
  "ind_off x = drop_bit 2 (x AND push_bit 2 (of_nat (RANDSIZ - 1)))"

definition ind :: "u32 list \<Rightarrow> u32 \<Rightarrow> u32 option" where
  "ind mm x = rd mm (uint (ind_off x))"

record isaac_vars =
  va :: u32
  vb :: u32
  vmm :: "u32 list"
  vr :: "u32 list"
  vm :: nat
  vm2 :: nat
  vri :: nat

definition rngstep :: "(u32 \<Rightarrow> u32) \<Rightarrow> isaac_vars \<Rightarrow> isaac_vars option" where
  "rngstep mixf s = do {
     x \<leftarrow> rd (vmm s) (int (vm s));
     w \<leftarrow> rd (vmm s) (int (vm2 s));
     let a = (va s XOR mixf (va s)) + w;
     i1 \<leftarrow> ind (vmm s) x;
     let y = i1 + a + vb s;
     mm1 \<leftarrow> wr (vmm s) (int (vm s)) y;
     i2 \<leftarrow> ind mm1 (drop_bit RANDSIZL y);
     let b = i2 + x;
     r1 \<leftarrow> wr (vr s) (int (vri s)) b;
     Some (s\<lparr>va := a, vb := b, vmm := mm1, vr := r1, vm := Suc (vm s), vm2 := Suc (vm2 s),
             vri := Suc (vri s)\<rparr>)
   }"

definition rngsteps :: "isaac_vars \<Rightarrow> isaac_vars option" where
  "rngsteps s = do {
     s1 \<leftarrow> rngstep (\<lambda>a. push_bit 13 a) s;
     s2 \<leftarrow> rngstep (\<lambda>a. drop_bit 6 a) s1;
     s3 \<leftarrow> rngstep (\<lambda>a. push_bit 2 a) s2;
     rngstep (\<lambda>a. drop_bit 16 a) s3
   }"

lemma rngstep_idx: "rngstep f s = Some s' \<Longrightarrow>
    vm s' = Suc (vm s) \<and> vm2 s' = Suc (vm2 s) \<and> vri s' = Suc (vri s)"
  by (auto simp: rngstep_def Let_def split: bind_splits)

lemma rngsteps_idx: "rngsteps s = Some s' \<Longrightarrow> vm s' = vm s + 4 \<and> vm2 s' = vm2 s + 4"
  by (auto simp: rngsteps_def split: bind_splits dest!: rngstep_idx)

function isaac_loop1 :: "nat \<Rightarrow> isaac_vars \<Rightarrow> isaac_vars option" where
  "isaac_loop1 mend s =
     (if vm s < mend then (case rngsteps s of None \<Rightarrow> None | Some s' \<Rightarrow> isaac_loop1 mend s')
      else Some s)"
  by pat_completeness auto
termination
  by (relation "measure (\<lambda>(mend, s). mend - vm s)") (auto dest: rngsteps_idx)

function isaac_loop2 :: "nat \<Rightarrow> isaac_vars \<Rightarrow> isaac_vars option" where
  "isaac_loop2 mend s =
     (if vm2 s < mend then (case rngsteps s of None \<Rightarrow> None | Some s' \<Rightarrow> isaac_loop2 mend s')
      else Some s)"
  by pat_completeness auto
termination
  by (relation "measure (\<lambda>(mend, s). mend - vm2 s)") (auto dest: rngsteps_idx)

declare isaac_loop1.simps [simp del] isaac_loop2.simps [simp del]

definition isaac :: "randctx \<Rightarrow> randctx option" where
  "isaac ctx = do {
     let c = randc ctx + 1;
     let mend = RANDSIZ div 2;
     s1 \<leftarrow> isaac_loop1 mend \<lparr>va = randa ctx, vb = randb ctx + c, vmm = randmem ctx,
             vr = randrsl ctx, vm = 0, vm2 = mend, vri = 0\<rparr>;
     s2 \<leftarrow> isaac_loop2 mend (s1\<lparr>vm2 := 0\<rparr>);
     Some (ctx\<lparr>randrsl := vr s2, randmem := vmm s2, randa := va s2, randb := vb s2, randc := c\<rparr>)
   }"

section \<open>Seeding\<close>

type_synonym octet = "u32 \<times> u32 \<times> u32 \<times> u32 \<times> u32 \<times> u32 \<times> u32 \<times> u32"

definition mix :: "octet \<Rightarrow> octet" where
  "mix = (\<lambda>(a, b, c, d, e, f, g, h).
     let a = a XOR push_bit 11 b; d = d + a; b = b + c;
         b = b XOR drop_bit 2 c; e = e + b; c = c + d;
         c = c XOR push_bit 8 d; f = f + c; d = d + e;
         d = d XOR drop_bit 16 e; g = g + d; e = e + f;
         e = e XOR push_bit 10 f; h = h + e; f = f + g;
         f = f XOR drop_bit 4 g; a = a + f; g = g + h;
         g = g XOR push_bit 8 h; b = b + g; h = h + a;
         h = h XOR drop_bit 9 a; c = c + h; a = a + b
     in (a, b, c, d, e, f, g, h))"

text \<open>\<open>a += r[i]; \<dots>; h += r[i+7]\<close>, and the stores \<open>m[i] = a; \<dots>; m[i+7] = h\<close>.\<close>

definition add8 :: "u32 list \<Rightarrow> nat \<Rightarrow> octet \<Rightarrow> octet option" where
  "add8 r i = (\<lambda>(a, b, c, d, e, f, g, h). do {
     r0 \<leftarrow> rd r (int i); r1 \<leftarrow> rd r (int (i + 1)); r2 \<leftarrow> rd r (int (i + 2)); r3 \<leftarrow> rd r (int (i + 3));
     r4 \<leftarrow> rd r (int (i + 4)); r5 \<leftarrow> rd r (int (i + 5)); r6 \<leftarrow> rd r (int (i + 6)); r7 \<leftarrow> rd r (int (i + 7));
     Some (a + r0, b + r1, c + r2, d + r3, e + r4, f + r5, g + r6, h + r7)
   })"

definition put8 :: "u32 list \<Rightarrow> nat \<Rightarrow> octet \<Rightarrow> u32 list option" where
  "put8 m i = (\<lambda>(a, b, c, d, e, f, g, h). do {
     m0 \<leftarrow> wr m (int i) a; m1 \<leftarrow> wr m0 (int (i + 1)) b; m2 \<leftarrow> wr m1 (int (i + 2)) c;
     m3 \<leftarrow> wr m2 (int (i + 3)) d; m4 \<leftarrow> wr m3 (int (i + 4)) e; m5 \<leftarrow> wr m4 (int (i + 5)) f;
     m6 \<leftarrow> wr m5 (int (i + 6)) g; wr m6 (int (i + 7)) h
   })"

text \<open>The three loops over \<open>i = 0, 8\<close>; \<open>src = None\<close> is the loop that adds nothing.\<close>

fun seed_loop :: "nat list \<Rightarrow> u32 list option \<Rightarrow> octet \<Rightarrow> u32 list \<Rightarrow> (octet \<times> u32 list) option" where
  "seed_loop [] src o8 m = Some (o8, m)"
| "seed_loop (i # is) src o8 m = do {
     o1 \<leftarrow> (case src of Some r \<Rightarrow> add8 r i o8 | None \<Rightarrow> Some o8);
     let o2 = mix o1;
     m1 \<leftarrow> put8 m i o2;
     seed_loop is src o2 m1
   }"

text \<open>The second pass reads the array \<open>m\<close> that it also overwrites, each word before its store.\<close>

fun seed_pass2 :: "nat list \<Rightarrow> octet \<Rightarrow> u32 list \<Rightarrow> (octet \<times> u32 list) option" where
  "seed_pass2 [] o8 m = Some (o8, m)"
| "seed_pass2 (i # is) o8 m = do {
     o1 \<leftarrow> add8 m i o8;
     let o2 = mix o1;
     m1 \<leftarrow> put8 m i o2;
     seed_pass2 is o2 m1
   }"

definition randinit :: "randctx \<Rightarrow> bool \<Rightarrow> randctx option" where
  "randinit ctx flag = do {
     let g = 0x9e3779b9;
     let o0 = mix (mix (mix (mix (g, g, g, g, g, g, g, g))));
     m \<leftarrow> (if flag then do {
               (o1, m1) \<leftarrow> seed_loop [0, 8] (Some (randrsl ctx)) o0 (randmem ctx);
               (o2, m2) \<leftarrow> seed_pass2 [0, 8] o1 m1;
               Some m2
             } else do {
               (o1, m1) \<leftarrow> seed_loop [0, 8] None o0 (randmem ctx);
               Some m1
             });
     ctx' \<leftarrow> isaac (ctx\<lparr>randa := 0, randb := 0, randc := 0, randmem := m\<rparr>);
     Some (ctx'\<lparr>randcnt := of_nat RANDSIZ\<rparr>)
   }"

section \<open>Drawing a number\<close>

definition c_rand :: "randctx \<Rightarrow> (u32 \<times> randctx) option" where
  "c_rand ctx =
     (let ctx1 = ctx\<lparr>randcnt := randcnt ctx - 1\<rparr>
      in if randcnt ctx = 0 then do {
           ctx2 \<leftarrow> isaac ctx1;
           let ctx3 = ctx2\<lparr>randcnt := of_nat (RANDSIZ - 1)\<rparr>;
           v \<leftarrow> rd (randrsl ctx3) (uint (randcnt ctx3));
           Some (v, ctx3)
         } else do {
           v \<leftarrow> rd (randrsl ctx1) (uint (randcnt ctx1));
           Some (v, ctx1)
         })"

section \<open>Safety\<close>

definition ctx_arrays :: "randctx \<Rightarrow> bool" where
  "ctx_arrays ctx \<longleftrightarrow> length (randrsl ctx) = RANDSIZ \<and> length (randmem ctx) = RANDSIZ"

definition ctx_ok :: "randctx \<Rightarrow> bool" where
  "ctx_ok ctx \<longleftrightarrow> ctx_arrays ctx \<and> unat (randcnt ctx) \<le> RANDSIZ"

text \<open>The masked index is always inside the state.\<close>

lemma ind_off_bound: "unat (ind_off x) < RANDSIZ"
proof -
  have "of_nat (RANDSIZ - 1) = (mask 4 :: u32)"
    by (simp add: RANDSIZ_def mask_eq_exp_minus_1)
  then have "ind_off x = take_bit 4 (drop_bit 2 x)"
    unfolding ind_off_def by (intro bit_word_eqI) (auto simp: bit_simps)
  moreover have "unat (take_bit 4 (drop_bit 2 x)) = take_bit 4 (unat (drop_bit 2 x))"
    by (simp add: unsigned_take_bit_eq)
  ultimately show ?thesis using take_bit_nat_less_exp [of 4 "unat (drop_bit 2 x)"]
    by (simp add: RANDSIZ_def)
qed

lemma ind_Some: "length mm = RANDSIZ \<Longrightarrow> \<exists>v. ind mm x = Some v"
  using ind_off_bound [of x] by (simp add: ind_def)

lemma rngstep_safe:
  assumes "length (vmm s) = RANDSIZ" "length (vr s) = RANDSIZ" "vm s < RANDSIZ" "vm2 s < RANDSIZ" "vri s < RANDSIZ"
  shows "\<exists>s'. rngstep f s = Some s' \<and> length (vmm s') = RANDSIZ \<and> length (vr s') = RANDSIZ \<and>
    vm s' = Suc (vm s) \<and> vm2 s' = Suc (vm2 s) \<and> vri s' = Suc (vri s)"
proof -
  let ?x = "vmm s ! vm s"
  obtain i1 where i1: "ind (vmm s) ?x = Some i1" using ind_Some assms(1) by blast
  let ?a = "(va s XOR f (va s)) + vmm s ! vm2 s"
  let ?y = "i1 + ?a + vb s"
  let ?mm = "(vmm s)[vm s := ?y]"
  obtain i2 where i2: "ind ?mm (drop_bit RANDSIZL ?y) = Some i2" using ind_Some [of ?mm] assms(1) by auto
  show ?thesis using assms i1 i2 by (simp add: rngstep_def Let_def)
qed

lemma rngsteps_safe:
  assumes "length (vmm s) = RANDSIZ" "length (vr s) = RANDSIZ" "vm s + 4 \<le> RANDSIZ" "vm2 s + 4 \<le> RANDSIZ" "vri s + 4 \<le> RANDSIZ"
  shows "\<exists>s'. rngsteps s = Some s' \<and> length (vmm s') = RANDSIZ \<and> length (vr s') = RANDSIZ \<and>
    vm s' = vm s + 4 \<and> vm2 s' = vm2 s + 4 \<and> vri s' = vri s + 4"
proof -
  obtain s1 where s1: "rngstep (\<lambda>a. push_bit 13 a) s = Some s1" "length (vmm s1) = RANDSIZ" "length (vr s1) = RANDSIZ"
    "vm s1 = Suc (vm s)" "vm2 s1 = Suc (vm2 s)" "vri s1 = Suc (vri s)"
    using rngstep_safe [of s] assms by fastforce
  obtain s2 where s2: "rngstep (\<lambda>a. drop_bit 6 a) s1 = Some s2" "length (vmm s2) = RANDSIZ" "length (vr s2) = RANDSIZ"
    "vm s2 = Suc (vm s1)" "vm2 s2 = Suc (vm2 s1)" "vri s2 = Suc (vri s1)"
    using rngstep_safe [of s1] assms s1 by fastforce
  obtain s3 where s3: "rngstep (\<lambda>a. push_bit 2 a) s2 = Some s3" "length (vmm s3) = RANDSIZ" "length (vr s3) = RANDSIZ"
    "vm s3 = Suc (vm s2)" "vm2 s3 = Suc (vm2 s2)" "vri s3 = Suc (vri s2)"
    using rngstep_safe [of s2] assms s1 s2 by fastforce
  obtain s4 where s4: "rngstep (\<lambda>a. drop_bit 16 a) s3 = Some s4" "length (vmm s4) = RANDSIZ" "length (vr s4) = RANDSIZ"
    "vm s4 = Suc (vm s3)" "vm2 s4 = Suc (vm2 s3)" "vri s4 = Suc (vri s3)"
    using rngstep_safe [of s3] assms s1 s2 s3 by fastforce
  show ?thesis using s1 s2 s3 s4 by (simp add: rngsteps_def)
qed

lemma isaac_loop1_safe:
  assumes "length (vmm s) = RANDSIZ" "length (vr s) = RANDSIZ" "vm s + 4 * k = RANDSIZ div 2"
    and "vm2 s = vm s + 8" "vri s = vm s"
  shows "\<exists>s'. isaac_loop1 (RANDSIZ div 2) s = Some s' \<and> length (vmm s') = RANDSIZ \<and> length (vr s') = RANDSIZ \<and>
    vm s' = RANDSIZ div 2 \<and> vri s' = RANDSIZ div 2"
  using assms
proof (induction k arbitrary: s)
  case 0
  then show ?case by (simp add: isaac_loop1.simps)
next
  case (Suc k)
  obtain s1 where s1: "rngsteps s = Some s1" "length (vmm s1) = RANDSIZ" "length (vr s1) = RANDSIZ"
    "vm s1 = vm s + 4" "vm2 s1 = vm2 s + 4" "vri s1 = vri s + 4"
    using rngsteps_safe [of s] Suc.prems by (auto simp: RANDSIZ_def)
  have "\<exists>s'. isaac_loop1 (RANDSIZ div 2) s1 = Some s' \<and> length (vmm s') = RANDSIZ \<and> length (vr s') = RANDSIZ \<and>
      vm s' = RANDSIZ div 2 \<and> vri s' = RANDSIZ div 2"
    by (rule Suc.IH) (use Suc.prems s1 in auto)
  then show ?case using s1(1) Suc.prems(3) by (subst isaac_loop1.simps) simp
qed

lemma isaac_loop2_safe:
  assumes "length (vmm s) = RANDSIZ" "length (vr s) = RANDSIZ" "vm2 s + 4 * k = RANDSIZ div 2"
    and "vm s = vm2 s + 8" "vri s = vm2 s + 8"
  shows "\<exists>s'. isaac_loop2 (RANDSIZ div 2) s = Some s' \<and> length (vmm s') = RANDSIZ \<and> length (vr s') = RANDSIZ"
  using assms
proof (induction k arbitrary: s)
  case 0
  then show ?case by (simp add: isaac_loop2.simps)
next
  case (Suc k)
  obtain s1 where s1: "rngsteps s = Some s1" "length (vmm s1) = RANDSIZ" "length (vr s1) = RANDSIZ"
    "vm s1 = vm s + 4" "vm2 s1 = vm2 s + 4" "vri s1 = vri s + 4"
    using rngsteps_safe [of s] Suc.prems by (auto simp: RANDSIZ_def)
  have "\<exists>s'. isaac_loop2 (RANDSIZ div 2) s1 = Some s' \<and> length (vmm s') = RANDSIZ \<and> length (vr s') = RANDSIZ"
    by (rule Suc.IH) (use Suc.prems s1 in auto)
  then show ?case using s1(1) Suc.prems(3) by (subst isaac_loop2.simps) simp
qed

lemma isaac_safe:
  assumes "ctx_arrays ctx"
  shows "\<exists>ctx'. isaac ctx = Some ctx' \<and> ctx_arrays ctx' \<and> randcnt ctx' = randcnt ctx"
proof -
  let ?s = "\<lparr>va = randa ctx, vb = randb ctx + (randc ctx + 1), vmm = randmem ctx,
             vr = randrsl ctx, vm = 0, vm2 = RANDSIZ div 2, vri = 0\<rparr>"
  obtain s1 where s1: "isaac_loop1 (RANDSIZ div 2) ?s = Some s1" "length (vmm s1) = RANDSIZ"
    "length (vr s1) = RANDSIZ" "vm s1 = RANDSIZ div 2" "vri s1 = RANDSIZ div 2"
    using isaac_loop1_safe [of ?s 2] assms by (auto simp: ctx_arrays_def RANDSIZ_def)
  obtain s2 where "isaac_loop2 (RANDSIZ div 2) (s1\<lparr>vm2 := 0\<rparr>) = Some s2" "length (vmm s2) = RANDSIZ"
    "length (vr s2) = RANDSIZ"
    using isaac_loop2_safe [of "s1\<lparr>vm2 := 0\<rparr>" 2] s1 by (auto simp: RANDSIZ_def)
  then show ?thesis using s1(1) by (simp add: isaac_def Let_def ctx_arrays_def)
qed

lemma octet_cases: obtains a b c d e f g h where "(x :: octet) = (a, b, c, d, e, f, g, h)"
  by (cases x rule: prod_cases7) (metis surj_pair)

lemma add8_safe: "length r = RANDSIZ \<Longrightarrow> i + 7 < RANDSIZ \<Longrightarrow> \<exists>o1. add8 r i o8 = Some o1"
  by (cases o8 rule: octet_cases) (simp add: add8_def)

lemma put8_safe: "length m = RANDSIZ \<Longrightarrow> i + 7 < RANDSIZ \<Longrightarrow> \<exists>m1. put8 m i o8 = Some m1 \<and> length m1 = RANDSIZ"
  by (cases o8 rule: octet_cases) (simp add: put8_def)

lemma seed_loop_safe:
  assumes "\<forall>i \<in> set is. i + 7 < RANDSIZ" "length m = RANDSIZ" "\<And>r. src = Some r \<Longrightarrow> length r = RANDSIZ"
  shows "\<exists>o1 m1. seed_loop is src o8 m = Some (o1, m1) \<and> length m1 = RANDSIZ"
  using assms
proof (induction "is" arbitrary: o8 m)
  case Nil
  then show ?case by (cases o8 rule: octet_cases) simp
next
  case (Cons i "is")
  have i: "i + 7 < RANDSIZ" using Cons.prems(1) by simp
  obtain o1 where o1: "(case src of Some r \<Rightarrow> add8 r i o8 | None \<Rightarrow> Some o8) = Some o1"
  proof (cases src)
    case None
    then show ?thesis using that by simp
  next
    case (Some r)
    obtain o1 where "add8 r i o8 = Some o1" using add8_safe [OF Cons.prems(3) [OF Some] i] by blast
    then show ?thesis using that [of o1] Some by simp
  qed
  obtain m1 where m1: "put8 m i (mix o1) = Some m1" "length m1 = RANDSIZ"
    using put8_safe [OF Cons.prems(2) i] by blast
  show ?case using Cons.IH [of m1 "mix o1"] Cons.prems m1 o1
    by (simp add: Let_def)
qed

lemma seed_pass2_safe:
  assumes "\<forall>i \<in> set is. i + 7 < RANDSIZ" "length m = RANDSIZ"
  shows "\<exists>o1 m1. seed_pass2 is o8 m = Some (o1, m1) \<and> length m1 = RANDSIZ"
  using assms
proof (induction "is" arbitrary: o8 m)
  case Nil
  then show ?case by (cases o8 rule: octet_cases) simp
next
  case (Cons i "is")
  have i: "i + 7 < RANDSIZ" using Cons.prems(1) by simp
  obtain o1 where o1: "add8 m i o8 = Some o1" using add8_safe [OF Cons.prems(2) i] by blast
  obtain m1 where m1: "put8 m i (mix o1) = Some m1" "length m1 = RANDSIZ"
    using put8_safe [OF Cons.prems(2) i] by blast
  show ?case using Cons.IH [of m1 "mix o1"] Cons.prems m1 o1
    by (simp add: Let_def)
qed

lemma randinit_safe:
  assumes "ctx_arrays ctx"
  shows "\<exists>ctx'. randinit ctx flag = Some ctx' \<and> ctx_ok ctx'"
proof -
  let ?o = "mix (mix (mix (mix (0x9e3779b9, 0x9e3779b9, 0x9e3779b9, 0x9e3779b9, 0x9e3779b9, 0x9e3779b9, 0x9e3779b9, 0x9e3779b9))))"
  have is8: "\<forall>i \<in> set [0, 8]. i + 7 < RANDSIZ" by (simp add: RANDSIZ_def)
  have lm: "length (randmem ctx) = RANDSIZ" "length (randrsl ctx) = RANDSIZ"
    using assms by (simp_all add: ctx_arrays_def)
  note [simp del] = seed_loop.simps seed_pass2.simps
  obtain o1 m1 where p1: "seed_loop [0, 8] (Some (randrsl ctx)) ?o (randmem ctx) = Some (o1, m1)" "length m1 = RANDSIZ"
    using seed_loop_safe [OF is8 lm(1), of "Some (randrsl ctx)"] lm(2) by blast
  obtain o2 m2 where p2: "seed_pass2 [0, 8] o1 m1 = Some (o2, m2)" "length m2 = RANDSIZ"
    using seed_pass2_safe [OF is8 p1(2)] by blast
  obtain o3 m3 where p3: "seed_loop [0, 8] None ?o (randmem ctx) = Some (o3, m3)" "length m3 = RANDSIZ"
    using seed_loop_safe [OF is8 lm(1), of None] by blast
  let ?m = "if flag then m2 else m3"
  have "ctx_arrays (ctx\<lparr>randa := 0, randb := 0, randc := 0, randmem := ?m\<rparr>)"
    using lm p2 p3 by (simp add: ctx_arrays_def)
  then obtain ctx' where c: "isaac (ctx\<lparr>randa := 0, randb := 0, randc := 0, randmem := ?m\<rparr>) = Some ctx'"
    "ctx_arrays ctx'" using isaac_safe by blast
  have "randinit ctx flag = Some (ctx'\<lparr>randcnt := of_nat RANDSIZ\<rparr>)"
    using p1(1) p2(1) p3(1) c(1) by (cases flag) (simp_all add: randinit_def Let_def)
  then show ?thesis using c(2) by (simp add: ctx_ok_def ctx_arrays_def RANDSIZ_def)
qed

lemma c_rand_safe:
  assumes "ctx_ok ctx"
  shows "\<exists>v ctx'. c_rand ctx = Some (v, ctx') \<and> ctx_ok ctx'"
proof (cases "randcnt ctx = 0")
  case True
  have "ctx_arrays (ctx\<lparr>randcnt := randcnt ctx - 1\<rparr>)"
    using assms by (simp add: ctx_ok_def ctx_arrays_def)
  then obtain ctx2 where c2: "isaac (ctx\<lparr>randcnt := randcnt ctx - 1\<rparr>) = Some ctx2" "ctx_arrays ctx2"
    using isaac_safe by blast
  then show ?thesis using True
    by (simp add: c_rand_def Let_def ctx_ok_def ctx_arrays_def RANDSIZ_def)
next
  case False
  then have "unat (randcnt ctx - 1) = unat (randcnt ctx) - 1" "0 < unat (randcnt ctx)"
    by (simp_all add: unat_minus_one unat_gt_0)
  then have "unat (randcnt ctx - 1) < RANDSIZ" using assms unfolding ctx_ok_def by linarith
  then show ?thesis using False assms
    by (simp add: c_rand_def Let_def ctx_ok_def ctx_arrays_def)
qed

end
