(* ===== verification/Qid.thy ===== *)
theory Qid
  imports Rand "HOL-Library.Signed_Division" "HOL-Library.Multiset"
begin

text \<open>
  The pool of query identifiers of src/qid.c. \<open>qid_pool\<close> holds the free identifiers in its
  first \<open>pool_ptr + 1\<close> entries; \<open>qid_get\<close> takes a random one and closes the gap with the last,
  \<open>qid_return\<close> appends one. The remainder \<open>%\<close> of C is \<open>smod\<close>, truncated toward zero.

  \<open>myrand\<close> computes with the x87 unit of the i686 build, whose 64 bit significand holds the
  product of a 16 bit and a 32 bit integer and its quotient by \<open>2^32\<close> exactly.
\<close>

section \<open>Operations\<close>

definition QID_POOL_SIZE :: int where "QID_POOL_SIZE = 65536"

record qid_state =
  qid_pool :: "u16 list"
  pool_ptr :: int
  isaac_ctx :: randctx

text \<open>The static variables before \<open>main\<close>: \<open>pool_ptr\<close> is initialised, the rest is zero.\<close>

definition qid_static :: qid_state where
  "qid_static = \<lparr>qid_pool = replicate 65536 0, pool_ptr = QID_POOL_SIZE - 1,
     isaac_ctx = \<lparr>randcnt = 0, randrsl = replicate RANDSIZ 0, randmem = replicate RANDSIZ 0,
                  randa = 0, randb = 0, randc = 0\<rparr>\<rparr>"

definition myrand :: "int \<Rightarrow> qid_state \<Rightarrow> (int \<times> qid_state) option" where
  "myrand mx s = do {
     (r, ctx) \<leftarrow> c_rand (isaac_ctx s);
     Some ((mx * uint r) sdiv 2 ^ 32, s\<lparr>isaac_ctx := ctx\<rparr>)
   }"

text \<open>\<open>tv i\<close> is what the \<open>i\<close>-th call of \<open>gettimeofday\<close> returns (seconds, microseconds).\<close>

definition qid_init_pool :: "(nat \<Rightarrow> u32 \<times> u32) \<Rightarrow> qid_state \<Rightarrow> qid_state option" where
  "qid_init_pool tv s = do {
     let s1 = s\<lparr>qid_pool := map of_nat [0..<65536]\<rparr>;
     let rsl = map (\<lambda>i. fst (tv i) + snd (tv i)) [0..<RANDSIZ];
     ctx \<leftarrow> randinit ((isaac_ctx s)\<lparr>randrsl := rsl\<rparr>) True;
     Some (s1\<lparr>isaac_ctx := ctx\<rparr>)
   }"

definition qid_get :: "qid_state \<Rightarrow> (u16 \<times> qid_state) option" where
  "qid_get s = do {
     (r, s1) \<leftarrow> myrand (pool_ptr s) s;
     let i = r smod QID_POOL_SIZE;
     t \<leftarrow> rd (qid_pool s1) i;
     l \<leftarrow> rd (qid_pool s1) (pool_ptr s1 smod QID_POOL_SIZE);
     p \<leftarrow> wr (qid_pool s1) i l;
     Some (t, s1\<lparr>qid_pool := p, pool_ptr := pool_ptr s1 - 1\<rparr>)
   }"

definition qid_return :: "u16 \<Rightarrow> qid_state \<Rightarrow> (u16 \<times> qid_state) option" where
  "qid_return qid s = do {
     p \<leftarrow> wr (qid_pool s) ((pool_ptr s + 1) smod QID_POOL_SIZE) qid;
     Some (qid, s\<lparr>qid_pool := p, pool_ptr := pool_ptr s + 1\<rparr>)
   }"

section \<open>The interface of an identifier pool\<close>

text \<open>
  What the query list relies on: \<open>get\<close> hands out an identifier of the pool unless it is empty,
  \<open>put\<close> takes back one that is not in the pool. \<open>balanced s out\<close> says that exactly the
  identifiers \<open>out\<close> are handed out.
\<close>

locale id_pool =
  fixes inv :: "'s \<Rightarrow> bool"
    and avail :: "'s \<Rightarrow> 'i set"
    and get :: "'s \<Rightarrow> ('i \<times> 's) option"
    and put :: "'i \<Rightarrow> 's \<Rightarrow> ('i \<times> 's) option"
  assumes get_avail: "inv s \<Longrightarrow> avail s \<noteq> {} \<Longrightarrow>
      \<exists>q s'. get s = Some (q, s') \<and> q \<in> avail s \<and> inv s' \<and> avail s' = avail s - {q}"
    and put_fresh: "inv s \<Longrightarrow> q \<notin> avail s \<Longrightarrow>
      \<exists>s'. put q s = Some (q, s') \<and> inv s' \<and> avail s' = insert q (avail s)"
begin

definition balanced :: "'s \<Rightarrow> 'i set \<Rightarrow> bool" where
  "balanced s out \<longleftrightarrow> inv s \<and> avail s = - out"

lemma balanced_get:
  assumes "balanced s out" "out \<noteq> UNIV"
  shows "\<exists>q s'. get s = Some (q, s') \<and> q \<notin> out \<and> balanced s' (insert q out)"
proof -
  have "inv s" "avail s = - out" "avail s \<noteq> {}" using assms by (auto simp: balanced_def)
  from get_avail [OF this(1,3)] show ?thesis
    using \<open>avail s = - out\<close> by (auto simp: balanced_def)
qed

lemma balanced_put:
  assumes "balanced s out" "q \<in> out"
  shows "\<exists>s'. put q s = Some (q, s') \<and> balanced s' (out - {q})"
proof -
  have "inv s" "q \<notin> avail s" using assms by (auto simp: balanced_def)
  from put_fresh [OF this] show ?thesis
    using assms by (auto simp: balanced_def)
qed

text \<open>Giving an identifier out and taking it back restores the pool.\<close>

lemma balanced_get_put:
  assumes "balanced s out" "get s = Some (q, s1)" "out \<noteq> UNIV"
  shows "\<exists>s2. put q s1 = Some (q, s2) \<and> balanced s2 out"
proof -
  have q: "q \<notin> out" "balanced s1 (insert q out)" using balanced_get [OF assms(1,3)] assms(2) by auto
  have "insert q out - {q} = out" using q(1) by blast
  then show ?thesis using balanced_put [OF q(2), of q] by simp
qed

end

section \<open>The pool of the program\<close>

definition qid_free :: "qid_state \<Rightarrow> u16 list" where
  "qid_free s = take (nat (pool_ptr s + 1)) (qid_pool s)"

definition qid_avail :: "qid_state \<Rightarrow> u16 set" where
  "qid_avail s = set (qid_free s)"

definition qid_inv :: "qid_state \<Rightarrow> bool" where
  "qid_inv s \<longleftrightarrow> length (qid_pool s) = 65536 \<and> - 1 \<le> pool_ptr s \<and> pool_ptr s < 65536 \<and>
     distinct (qid_free s) \<and> ctx_ok (isaac_ctx s)"

lemma scaled_bound:
  fixes r :: u32
  assumes "0 \<le> mx"
  shows "0 \<le> (mx * uint r) sdiv 2 ^ 32" "(mx * uint r) sdiv 2 ^ 32 \<le> mx"
proof -
  have r: "uint r < 2 ^ 32" "0 \<le> uint r" using uint_bounded [of r] by simp_all
  have e: "(mx * uint r) sdiv 2 ^ 32 = (mx * uint r) div 2 ^ 32"
    using assms by (cases "mx = 0"; cases "r = 0") (simp_all add: signed_divide_int_def sgn_mult)
  show "0 \<le> (mx * uint r) sdiv 2 ^ 32" using assms unfolding e by (simp add: pos_imp_zdiv_nonneg_iff)
  have "mx * uint r \<le> mx * 2 ^ 32" using assms r by (intro mult_left_mono) simp_all
  then have "(mx * uint r) div 2 ^ 32 \<le> (mx * 2 ^ 32) div 2 ^ 32" by (rule zdiv_mono1) simp
  then show "(mx * uint r) sdiv 2 ^ 32 \<le> mx" unfolding e by simp
qed

lemma smod_small: "0 \<le> i \<Longrightarrow> i < n \<Longrightarrow> (i :: int) smod n = i"
  by (cases "i = 0") (simp_all add: signed_modulo_int_def signed_divide_int_def)

lemma myrand_safe:
  assumes "ctx_ok (isaac_ctx s)" "0 \<le> mx"
  shows "\<exists>v s'. myrand mx s = Some (v, s') \<and> 0 \<le> v \<and> v \<le> mx \<and> ctx_ok (isaac_ctx s') \<and>
    qid_pool s' = qid_pool s \<and> pool_ptr s' = pool_ptr s"
  using c_rand_safe [OF assms(1)] scaled_bound [OF assms(2)] by (auto simp: myrand_def)

text \<open>Overwriting entry \<open>i\<close> of the free part with its last entry removes the old entry.\<close>

lemma swap_last_mset:
  assumes "i \<le> k" "k < length xs"
  shows "mset (take k (xs[i := xs ! k])) + {#xs ! i#} = mset (take (Suc k) xs)"
proof (cases "i = k")
  case True
  then show ?thesis using assms by (simp add: take_Suc_conv_app_nth)
next
  case False
  then have "take k (xs[i := xs ! k]) = (take k xs)[i := xs ! k]" "i < length (take k xs)"
    using assms by (simp_all add: take_update_swap)
  then have "mset (take k (xs[i := xs ! k])) + {#xs ! i#} = mset (take k xs) + {#xs ! k#}"
    using False assms by (simp add: mset_update nth_mem_mset multi_member_split) (metis in_multiset_in_set insert_DiffM nth_mem nth_take length_take min.absorb4 le_neq_implies_less)
  then show ?thesis using assms by (simp add: take_Suc_conv_app_nth)
qed

lemma qid_get_law:
  assumes "qid_inv s" "qid_avail s \<noteq> {}"
  shows "\<exists>q s'. qid_get s = Some (q, s') \<and> q \<in> qid_avail s \<and> qid_inv s' \<and> qid_avail s' = qid_avail s - {q}"
proof -
  have i: "length (qid_pool s) = 65536" "pool_ptr s < 65536" "distinct (qid_free s)" "ctx_ok (isaac_ctx s)"
    "0 \<le> pool_ptr s"
    using assms by (auto simp: qid_inv_def qid_avail_def qid_free_def)
  obtain v s1 where v: "myrand (pool_ptr s) s = Some (v, s1)" "0 \<le> v" "v \<le> pool_ptr s"
    "ctx_ok (isaac_ctx s1)" "qid_pool s1 = qid_pool s" "pool_ptr s1 = pool_ptr s"
    using myrand_safe [OF i(4,5)] by blast
  define k where "k = nat (pool_ptr s)"
  define j where "j = nat v"
  have k: "pool_ptr s = int k" "k < length (qid_pool s)" "v = int j" "j \<le> k"
    using i v by (auto simp: k_def j_def)
  have sm: "v smod QID_POOL_SIZE = int j" "pool_ptr s smod QID_POOL_SIZE = int k"
    using i v k by (auto simp: QID_POOL_SIZE_def smod_small)
  let ?p = "(qid_pool s)[j := qid_pool s ! k]"
  let ?s' = "s1\<lparr>qid_pool := ?p, pool_ptr := int k - 1\<rparr>"
  have get: "qid_get s = Some (qid_pool s ! j, ?s')"
    using v sm k by (simp add: qid_get_def)
  have fr: "qid_free s = take (Suc k) (qid_pool s)" "qid_free ?s' = take k ?p"
    using k by (simp_all add: qid_free_def nat_add_distrib)
  have ms: "mset (qid_free ?s') + {#qid_pool s ! j#} = mset (qid_free s)"
    unfolding fr using k by (intro swap_last_mset) simp_all
  have mset_d: "mset (qid_pool s ! j # qid_free ?s') = mset (qid_free s)" using ms by simp
  then have d: "distinct (qid_pool s ! j # qid_free ?s')" using i(3) by (metis mset_eq_imp_distinct_iff)
  have st: "set (qid_free s) = insert (qid_pool s ! j) (set (qid_free ?s'))"
    using mset_d by (metis list.simps(15) mset_eq_setD)
  have "qid_inv ?s'" using d i v k by (simp add: qid_inv_def)
  then show ?thesis using get st d by (auto simp: qid_avail_def)
qed

lemma qid_return_law:
  assumes "qid_inv s" "q \<notin> qid_avail s"
  shows "\<exists>s'. qid_return q s = Some (q, s') \<and> qid_inv s' \<and> qid_avail s' = insert q (qid_avail s)"
proof -
  have i: "length (qid_pool s) = 65536" "- 1 \<le> pool_ptr s" "pool_ptr s < 65536" "distinct (qid_free s)"
    "ctx_ok (isaac_ctx s)" using assms by (auto simp: qid_inv_def)
  define k where "k = nat (pool_ptr s + 1)"
  have k: "pool_ptr s + 1 = int k" "k \<le> 65536" using i by (auto simp: k_def)
  have "card (set (q # qid_free s)) \<le> card (UNIV :: u16 set)" by (rule card_mono) simp_all
  moreover have "card (set (q # qid_free s)) = Suc (length (qid_free s))"
    using i(4) assms(2) by (simp add: qid_avail_def distinct_card)
  ultimately have "Suc (length (qid_free s)) \<le> 65536" by (simp add: card_word)
  moreover have "length (qid_free s) = k" using i k by (simp add: qid_free_def)
  ultimately have kl: "k < 65536" by simp
  have sm: "(pool_ptr s + 1) smod QID_POOL_SIZE = int k"
    unfolding k(1) using kl by (simp add: QID_POOL_SIZE_def smod_small)
  let ?s' = "s\<lparr>qid_pool := (qid_pool s)[k := q], pool_ptr := pool_ptr s + 1\<rparr>"
  have r: "qid_return q s = Some (q, ?s')" using sm kl i by (simp add: qid_return_def)
  have fr: "qid_free ?s' = qid_free s @ [q]"
    using kl i k by (simp add: qid_free_def nat_add_distrib)
  have "qid_inv ?s'" using i k kl fr assms(2) by (simp add: qid_inv_def qid_avail_def)
  then show ?thesis using r fr by (auto simp: qid_avail_def)
qed

interpretation qp: id_pool qid_inv qid_avail qid_get qid_return
  by unfold_locales (blast intro: qid_get_law, blast intro: qid_return_law)

text \<open>After \<open>qid_init_pool\<close> no identifier is handed out.\<close>

lemma qid_init_pool_balanced:
  assumes "pool_ptr s = 65535" "length (randmem (isaac_ctx s)) = RANDSIZ"
  shows "\<exists>s'. qid_init_pool tv s = Some s' \<and> qp.balanced s' {}"
proof -
  let ?rsl = "map (\<lambda>i. fst (tv i) + snd (tv i)) [0..<RANDSIZ]"
  have "ctx_arrays ((isaac_ctx s)\<lparr>randrsl := ?rsl\<rparr>)" using assms(2) by (simp add: ctx_arrays_def)
  then obtain ctx where c: "randinit ((isaac_ctx s)\<lparr>randrsl := ?rsl\<rparr>) True = Some ctx" "ctx_ok ctx"
    using randinit_safe by blast
  let ?ids = "map of_nat [0..<65536] :: u16 list"
  let ?s' = "s\<lparr>qid_pool := ?ids, isaac_ctx := ctx\<rparr>"
  have inj: "inj_on (of_nat :: nat \<Rightarrow> u16) {0..<65536}"
  proof (rule inj_onI)
    fix x y :: nat
    assume "x \<in> {0..<65536}" "y \<in> {0..<65536}" "(of_nat x :: u16) = of_nat y"
    then show "x = y" by (simp add: word_of_nat_eq_iff take_bit_nat_eq_self)
  qed
  have all: "set ?ids = UNIV"
  proof
    show "UNIV \<subseteq> set ?ids"
    proof
      fix w :: u16
      have "unat w < 65536" using unsigned_less [of w, where ?'a = nat] by simp
      then have "of_nat (unat w) \<in> set ?ids" unfolding set_map set_upt by (intro imageI) simp
      then show "w \<in> set ?ids" by simp
    qed
  qed simp
  have fr: "qid_free ?s' = ?ids" using assms(1) by (simp add: qid_free_def)
  have "distinct ?ids" unfolding distinct_map set_upt using inj by simp
  then have "qid_inv ?s'" using assms(1) c(2) fr by (simp add: qid_inv_def)
  then have "qp.balanced ?s' {}" using all fr by (simp add: qp.balanced_def qid_avail_def)
  moreover have "qid_init_pool tv s = Some ?s'" using c(1) by (simp add: qid_init_pool_def Let_def)
  ultimately show ?thesis by blast
qed

end
