(* ===== verification/Query.thy ===== *)
theory Query
  imports Cache Qid
begin

text \<open>
  The open queries, src/query.c: a circular list whose head is the global variable \<open>qlist\<close>
  (here the node at the fixed address \<open>QLIST\<close>) and whose last node is \<open>qlist_tail\<close>. Each query
  owns sockets and an identifier of the pool of src/qid.c. The state extends the one of the
  cache.

  The kernel is part of the state: the open file descriptors, the outcome of the calls it
  may refuse (\<open>env_sock\<close>, \<open>env_bind\<close>, \<open>env_send\<close>, \<open>env_recv\<close>, indexed by the number \<open>io\<close> of the call)
  and the packets that were handed to it. \<open>socket\<close> returns the lowest free descriptor, as
  POSIX says. Descriptors outside an \<open>fd_set\<close> are undefined behaviour. A 16 bit number that
  the code copies between packets and variables without \<open>ntohs\<close> is read low byte first; a
  port is written in host order.
\<close>

definition QLIST :: ptr where "QLIST = 1"
definition FD_SETSIZE :: int where "FD_SETSIZE = 1024"

record query_t =
  sock_arr :: "int list"
  q_srv :: ptr
  is_dummy :: int
  my_qid :: u16
  client_qid :: u16
  client :: sockaddr_in
  serv_sent_cnt :: int
  cached_fail_msg :: bytes
  fail_msg_len :: nat
  resp_sent :: int
  client_time :: int
  client_count :: int
  ttl :: int
  srv_list :: "ptr list"
  q_next :: ptr

text \<open>A control message of \<open>recvmsg\<close>: the interface, with what \<open>if_indextoname\<close> makes of its index, or another one.\<close>

datatype cmsg = Pktinfo "bytes option" | Other_cmsg

datatype recv_result =
    Recv_error
  | Recv_msg bytes sockaddr_in "cmsg list"

record query_state = cache_state +
  queries :: "ptr \<rightharpoonup> query_t"
  qlist_tail :: ptr
  total_queries :: u32
  total_timeouts :: u32
  upstream_sockets :: int
  qids :: qid_state
  max_sockets :: int
  forward_timeout :: int
  reactivate_interval :: int
  exc_port :: "int list"
  exc_port_ofst :: nat
  isock :: int
  fdmaster :: "int list"
  maxsock :: int
  open_fds :: "int list"
  env_sock :: "nat \<Rightarrow> bool"
  env_bind :: "nat \<Rightarrow> bool"
  env_send :: "nat \<Rightarrow> int"
  env_recv :: "nat \<Rightarrow> recv_result"
  io :: nat
  bound :: "(int \<times> u16) list"
  sent :: "(int \<times> sockaddr_in \<times> bytes) list"

section \<open>The kernel\<close>

definition lowest_free :: "int list \<Rightarrow> int" where
  "lowest_free fds = hd (filter (\<lambda>n. n \<notin> set fds) (map int [0..<Suc (length fds)]))"

definition os_socket :: "'a query_state_scheme \<Rightarrow> int \<times> 'a query_state_scheme" where
  "os_socket s =
     (let s1 = s\<lparr>io := Suc (io s)\<rparr>
      in if env_sock s (io s) then (let fd = lowest_free (open_fds s) in (fd, s1\<lparr>open_fds := fd # open_fds s\<rparr>))
         else (- 1, s1))"

text \<open>\<open>bind\<close> to a port; a refusal is only logged, and the kernel then chooses the port when the socket first sends.\<close>

definition os_bind :: "int \<Rightarrow> u16 \<Rightarrow> 'a query_state_scheme \<Rightarrow> 'a query_state_scheme" where
  "os_bind fd port s =
     (let s1 = s\<lparr>io := Suc (io s)\<rparr>
      in if env_bind s (io s) then s1\<lparr>bound := (fd, port) # bound s\<rparr> else s1)"

definition os_close :: "int \<Rightarrow> 'a query_state_scheme \<Rightarrow> 'a query_state_scheme" where
  "os_close fd s = s\<lparr>open_fds := filter (\<lambda>x. x \<noteq> fd) (open_fds s)\<rparr>"

definition fd_add :: "int \<Rightarrow> 'a query_state_scheme \<Rightarrow> 'a query_state_scheme option" where
  "fd_add fd s = (if 0 \<le> fd \<and> fd < FD_SETSIZE then Some (s\<lparr>fdmaster := List.insert fd (fdmaster s)\<rparr>) else None)"

definition fd_clr :: "int \<Rightarrow> 'a query_state_scheme \<Rightarrow> 'a query_state_scheme option" where
  "fd_clr fd s = (if 0 \<le> fd \<and> fd < FD_SETSIZE then Some (s\<lparr>fdmaster := filter (\<lambda>x. x \<noteq> fd) (fdmaster s)\<rparr>) else None)"

text \<open>\<open>sendto\<close>: the packet is handed over, the result is the environment's.\<close>

definition os_sendto :: "int \<Rightarrow> bytes \<Rightarrow> sockaddr_in \<Rightarrow> 'a query_state_scheme \<Rightarrow> int \<times> 'a query_state_scheme" where
  "os_sendto fd msg to s = (env_send s (io s), s\<lparr>io := Suc (io s), sent := sent s @ [(fd, to, msg)]\<rparr>)"

section \<open>The store of queries\<close>

definition upd_query :: "ptr \<Rightarrow> (query_t \<Rightarrow> query_t) \<Rightarrow> 'a query_state_scheme \<Rightarrow> 'a query_state_scheme option" where
  "upd_query p f s = (case queries s p of None \<Rightarrow> None | Some q \<Rightarrow> Some (s\<lparr>queries := (queries s)(p \<mapsto> f q)\<rparr>))"

definition free_query :: "ptr \<Rightarrow> 'a query_state_scheme \<Rightarrow> 'a query_state_scheme option" where
  "free_query p s = (case queries s p of None \<Rightarrow> None | Some q \<Rightarrow> Some (s\<lparr>queries := (queries s)(p := None)\<rparr>))"

definition q_nxt :: "'a query_state_scheme \<Rightarrow> ptr \<rightharpoonup> ptr" where
  "q_nxt s = (\<lambda>p. map_option q_next (queries s p))"

definition q_link :: "ptr \<Rightarrow> ptr \<Rightarrow> 'a query_state_scheme \<Rightarrow> 'a query_state_scheme option" where
  "q_link p q s = upd_query p (\<lambda>n. n\<lparr>q_next := q\<rparr>) s"

definition query_zero :: query_t where
  "query_zero = \<lparr>sock_arr = [0, 0, 0], q_srv = NULL, is_dummy = 0, my_qid = 0, client_qid = 0,
     client = sockaddr_zero, serv_sent_cnt = 0, cached_fail_msg = [], fail_msg_len = 0, resp_sent = 0,
     client_time = 0, client_count = 0, ttl = 0, srv_list = [NULL, NULL, NULL], q_next = NULL\<rparr>"

section \<open>Creating and destroying queries\<close>

definition query_init :: "'a query_state_scheme \<Rightarrow> 'a query_state_scheme option" where
  "query_init s = do { s1 \<leftarrow> q_link QLIST QLIST s; Some (s1\<lparr>qlist_tail := QLIST\<rparr>) }"

fun port_excluded_loop :: "int list \<Rightarrow> nat \<Rightarrow> nat \<Rightarrow> u16 \<Rightarrow> bool option" where
  "port_excluded_loop ps c 0 port = Some False"
| "port_excluded_loop ps c (Suc n) port = do {
     p \<leftarrow> rd ps (int c);
     if port = of_int p then Some True else port_excluded_loop ps (Suc c) n port
   }"

definition is_port_excluded :: "u16 \<Rightarrow> 'a query_state_scheme \<Rightarrow> bool option" where
  "is_port_excluded port s = port_excluded_loop (exc_port s) 0 (exc_port_ofst s) port"

text \<open>The \<open>do \<dots> while\<close> loop that picks a random source port.\<close>

partial_function (option) pick_port :: "'a query_state_scheme \<Rightarrow> (u16 \<times> 'a query_state_scheme) option" where
  "pick_port s = do {
     (r, qs) \<leftarrow> myrand (65536 - 1026) (qids s);
     let port = of_int (r + 1025);
     let s1 = s\<lparr>qids := qs\<rparr>;
     ex \<leftarrow> is_port_excluded port s1;
     if ex then pick_port s1 else Some (port, s1)
   }"

declare pick_port.simps [code]

fun open_sockets :: "nat list \<Rightarrow> ptr \<Rightarrow> 'a query_state_scheme \<Rightarrow> (bool \<times> 'a query_state_scheme) option" where
  "open_sockets [] q s = Some (True, s)"
| "open_sockets (c # cs) q s =
     (let (fd, s1) = os_socket s in do {
        s2 \<leftarrow> upd_query q (\<lambda>n. n\<lparr>sock_arr := (sock_arr n)[c := fd]\<rparr>) s1;
        if fd < 0 then do { s3 \<leftarrow> free_query q s2; Some (False, s3) }
        else do {
          let s3 = s2\<lparr>upstream_sockets := upstream_sockets s2 + 1\<rparr>;
          (port, s4) \<leftarrow> pick_port s3;
          s5 \<leftarrow> fd_add fd (os_bind fd port s4);
          let s6 = (if fd > maxsock s5 then s5\<lparr>maxsock := fd\<rparr> else s5);
          n \<leftarrow> queries s6 q;
          if is_dummy n = 1 then Some (True, s6) else open_sockets cs q s6
        }
      })"

definition query_create :: "ptr \<Rightarrow> ptr \<Rightarrow> 'a query_state_scheme \<Rightarrow> (ptr \<times> 'a query_state_scheme) option" where
  "query_create i srv s =
     (if srv = NULL then None
      else if upstream_sockets s \<ge> max_sockets s then Some (NULL, s)
      else do {
        let q = brk s;
        let s1 = s\<lparr>brk := Suc q, queries := (queries s)(q \<mapsto> query_zero\<lparr>q_next := q,
                     is_dummy := (if i = NULL then 1 else 0), q_srv := srv, ttl := forward_timeout s\<rparr>)\<rparr>;
        (ok, s2) \<leftarrow> open_sockets [0, 1, 2] q s1;
        if ok then do {
          (t, qs) \<leftarrow> qid_get (qids s2);
          s3 \<leftarrow> upd_query q (\<lambda>n. n\<lparr>my_qid := t\<rparr>) (s2\<lparr>qids := qs\<rparr>);
          Some (q, s3)
        } else Some (NULL, s2)
      })"

fun close_sockets :: "nat list \<Rightarrow> query_t \<Rightarrow> 'a query_state_scheme \<Rightarrow> 'a query_state_scheme option" where
  "close_sockets [] n s = Some s"
| "close_sockets (i # is) n s = do {
     fd \<leftarrow> rd (sock_arr n) (int i);
     s1 \<leftarrow> fd_clr fd s;
     let s2 = (os_close fd s1)\<lparr>upstream_sockets := upstream_sockets s1 - 1\<rparr>;
     if is_dummy n = 1 then Some s2 else close_sockets is n s2
   }"

definition query_destroy :: "ptr \<Rightarrow> 'a query_state_scheme \<Rightarrow> 'a query_state_scheme option" where
  "query_destroy q s = do {
     n \<leftarrow> queries s q;
     (t, qs) \<leftarrow> qid_return (my_qid n) (qids s);
     s1 \<leftarrow> close_sockets [0, 1, 2] n (s\<lparr>qids := qs\<rparr>);
     free_query q (s1\<lparr>total_queries := total_queries s1 + 1\<rparr>)
   }"

definition query_get_new :: "ptr \<Rightarrow> ptr \<Rightarrow> 'a query_state_scheme \<Rightarrow> (ptr \<times> 'a query_state_scheme) option" where
  "query_get_new i srv s =
     (if srv = NULL then None else do {
        v \<leftarrow> get_srv s srv;
        (q, s1) \<leftarrow> (if newquery v = NULL then query_create i srv s else Some (newquery v, s));
        if q = NULL then Some (NULL, s1)
        else do {
          s2 \<leftarrow> upd_srv srv (\<lambda>m. m\<lparr>newquery := NULL\<rparr>) s1;
          s3 \<leftarrow> upd_query q (\<lambda>n. n\<lparr>q_srv := srv\<rparr>) s2;
          Some (q, s3)
        }
      })"

section \<open>The list of queries\<close>

text \<open>The search of \<open>query_add\<close>: the node before the first query with the client's identifier.\<close>

partial_function (option) query_find :: "'a query_state_scheme \<Rightarrow> u16 \<Rightarrow> ptr \<Rightarrow> ptr option" where
  "query_find s qid p = do {
     n \<leftarrow> queries s p;
     if q_next n \<noteq> QLIST then do {
       m \<leftarrow> queries s (q_next n);
       if client_qid m = qid then Some p else query_find s qid (q_next n)
     } else Some NULL
   }"

declare query_find.simps [code]

text \<open>\<open>*((unsigned short *)msg)\<close> on the little endian machine, and the store through it.\<close>

definition get_le16 :: "bytes \<Rightarrow> u16 option" where
  "get_le16 msg = do { a \<leftarrow> rd msg 0; b \<leftarrow> rd msg 1; Some (be16 b a) }"

definition put_le16 :: "bytes \<Rightarrow> u16 \<Rightarrow> bytes option" where
  "put_le16 msg w = do { m \<leftarrow> wr msg 0 (lo8 w); wr m 1 (hi8 w) }"

definition c_htons :: "u16 \<Rightarrow> u16" where
  "c_htons w = be16 (lo8 w) (hi8 w)"

text \<open>
  The result is the node before the query, \<open>NULL\<close> when none could be created, with the
  message in which the identifier is replaced.
\<close>

definition query_add ::
    "ptr \<Rightarrow> ptr \<Rightarrow> sockaddr_in \<Rightarrow> bytes \<Rightarrow> 'a query_state_scheme \<Rightarrow> (ptr \<times> bytes \<times> 'a query_state_scheme) option" where
  "query_add i srv from msg s = do {
     qid \<leftarrow> get_le16 msg;
     let now = clock s;
     p \<leftarrow> query_find s qid QLIST;
     if p \<noteq> NULL then do {
       n \<leftarrow> queries s p;
       m \<leftarrow> queries s (q_next n);
       msg1 \<leftarrow> put_le16 msg (my_qid m);
       s1 \<leftarrow> upd_query (q_next n) (\<lambda>k. k\<lparr>client_time := now, client_count := client_count k + 1\<rparr>) s;
       Some (p, msg1, s1)
     } else do {
       (q, s1) \<leftarrow> query_get_new i srv s;
       if q = NULL then Some (NULL, msg, s1)
       else do {
         s2 \<leftarrow> upd_query q (\<lambda>k. k\<lparr>client_qid := qid, client := from, client_time := now, client_count := 1\<rparr>) s1;
         k \<leftarrow> queries s2 q;
         msg1 \<leftarrow> put_le16 msg (c_htons (my_qid k));
         t \<leftarrow> queries s2 (qlist_tail s2);
         s3 \<leftarrow> q_link q (q_next t) s2;
         s4 \<leftarrow> q_link (qlist_tail s3) q s3;
         Some (qlist_tail s4, msg1, s4\<lparr>qlist_tail := q\<rparr>)
       }
     }
   }"

definition query_delete_next :: "ptr \<Rightarrow> 'a query_state_scheme \<Rightarrow> 'a query_state_scheme option" where
  "query_delete_next q s = do {
     n \<leftarrow> queries s q;
     let tmp = q_next n;
     m \<leftarrow> queries s tmp;
     s1 \<leftarrow> q_link q (q_next m) s;
     let s2 = (if qlist_tail s1 = tmp then s1\<lparr>qlist_tail := q\<rparr> else s1);
     query_destroy tmp s2
   }"

section \<open>Timeouts\<close>

text \<open>The failure reply that is sent for a query that times out.\<close>

definition send_cached_failure :: "ptr \<Rightarrow> 'a query_state_scheme \<Rightarrow> 'a query_state_scheme option" where
  "send_cached_failure q s = do {
     n \<leftarrow> queries s q;
     if fail_msg_len n > 0 \<and> resp_sent n = 0 then do {
       m \<leftarrow> put_le16 (cached_fail_msg n) (client_qid n);
       s1 \<leftarrow> upd_query q (\<lambda>k. k\<lparr>cached_fail_msg := m\<rparr>) s;
       if fail_msg_len n \<le> length m
       then Some (snd (os_sendto (isock s1) (take (fail_msg_len n) m) (client n) s1)) else None
     } else Some s
   }"

partial_function (option) timeout_loop ::
    "int \<Rightarrow> ptr \<Rightarrow> nat \<Rightarrow> 'a query_state_scheme \<Rightarrow> (nat \<times> 'a query_state_scheme) option" where
  "timeout_loop now q cnt s = do {
     n \<leftarrow> queries s q;
     if q_next n \<noteq> QLIST then do {
       m \<leftarrow> queries s (q_next n);
       if client_time m < now - ttl m then do {
         s1 \<leftarrow> send_cached_failure (q_next n) s;
         s2 \<leftarrow> query_delete_next q s1;
         n2 \<leftarrow> queries s2 q;
         timeout_loop now (q_next n2) (cnt + 1) s2
       } else timeout_loop now (q_next n) cnt s
     } else Some (cnt, s)
   }"

declare timeout_loop.simps [code]

definition query_timeout :: "'a query_state_scheme \<Rightarrow> 'a query_state_scheme option" where
  "query_timeout s = do {
     (cnt, s1) \<leftarrow> timeout_loop (clock s) QLIST 0 s;
     Some (s1\<lparr>total_timeouts := total_timeouts s1 + of_nat cnt\<rparr>)
   }"

partial_function (option) count_loop :: "'a query_state_scheme \<Rightarrow> ptr \<Rightarrow> nat \<Rightarrow> nat option" where
  "count_loop s q cnt = do {
     n \<leftarrow> queries s q;
     if q_next n \<noteq> QLIST then count_loop s (q_next n) (cnt + 1) else Some cnt
   }"

declare count_loop.simps [code]

definition query_count :: "'a query_state_scheme \<Rightarrow> nat option" where
  "query_count s = count_loop s QLIST 0"

section \<open>The store provides linked nodes\<close>

lemma q_nxt_Some [simp]: "q_nxt s p = Some q \<longleftrightarrow> (\<exists>n. queries s p = Some n \<and> q_next n = q)"
  by (auto simp: q_nxt_def)

lemma q_nxt_None [simp]: "q_nxt s p = None \<longleftrightarrow> queries s p = None"
  by (simp add: q_nxt_def)

lemma upd_query_live: "queries s p = Some n \<Longrightarrow> upd_query p f s = Some (s\<lparr>queries := (queries s)(p \<mapsto> f n)\<rparr>)"
  by (simp add: upd_query_def)

interpretation qv: node_heap q_nxt q_link free_query
proof
  show "q_nxt s p = Some r \<Longrightarrow> \<exists>s'. q_link p q s = Some s' \<and> q_nxt s' = (q_nxt s)(p \<mapsto> q)"
    for s :: "'b query_state_scheme" and p q r
    by (auto simp: q_link_def upd_query_def q_nxt_def fun_eq_iff)
  show "q_nxt s p = None \<Longrightarrow> q_link p q s = None" for s :: "'b query_state_scheme" and p q
    by (simp add: q_link_def upd_query_def)
  show "q_nxt s p = Some r \<Longrightarrow> \<exists>s'. free_query p s = Some s' \<and> q_nxt s' = (q_nxt s)(p := None)"
    for s :: "'b query_state_scheme" and p r
    by (auto simp: free_query_def q_nxt_def fun_eq_iff)
qed

lemma q_link_frame: "q_link p q s = Some s' \<Longrightarrow> \<exists>n. queries s p = Some n \<and>
    s' = s\<lparr>queries := (queries s)(p \<mapsto> n\<lparr>q_next := q\<rparr>)\<rparr>"
  by (auto simp: q_link_def upd_query_def split: option.splits)

section \<open>Descriptors\<close>

lemma lowest_free_spec: "lowest_free fds \<notin> set fds \<and> 0 \<le> lowest_free fds \<and> lowest_free fds \<le> int (length fds)"
proof -
  let ?c = "map int [0..<Suc (length fds)]"
  let ?f = "filter (\<lambda>n. n \<notin> set fds) ?c"
  have "?f \<noteq> []"
  proof
    assume "?f = []"
    then have "set ?c \<subseteq> set fds" by (auto simp: filter_empty_conv simp del: upt_Suc)
    then have "card (set ?c) \<le> card (set fds)" by (intro card_mono) auto
    moreover have "card (set ?c) = Suc (length fds)" by (subst distinct_card) (auto simp: distinct_map inj_on_def simp del: upt_Suc)
    ultimately show False using card_length [of fds] by simp
  qed
  then have "lowest_free fds \<in> set ?f" unfolding lowest_free_def by (rule hd_in_set)
  then show ?thesis by (auto simp: less_Suc_eq_le simp del: upt_Suc)
qed

text \<open>
  The descriptors \<open>own\<close> that the queries hold are open and belong to one query each; together
  with the sockets that may still be opened all descriptors fit an \<open>fd_set\<close>.
\<close>

definition fd_inv :: "'a query_state_scheme \<Rightarrow> int list \<Rightarrow> bool" where
  "fd_inv s own \<longleftrightarrow> distinct own \<and> set own \<subseteq> set (open_fds s) \<and> distinct (open_fds s) \<and>
     (\<forall>fd \<in> set (open_fds s). 0 \<le> fd \<and> fd < FD_SETSIZE) \<and>
     int (length (open_fds s)) - upstream_sockets s + max_sockets s + 2 \<le> FD_SETSIZE"

section \<open>The random source port\<close>

definition excluded :: "'a query_state_scheme \<Rightarrow> u16 \<Rightarrow> bool" where
  "excluded s port \<longleftrightarrow> (\<exists>c < exc_port_ofst s. port = of_int (exc_port s ! c))"

lemma port_excluded_loop_spec:
  "c + n \<le> length ps \<Longrightarrow> port_excluded_loop ps c n port = Some (\<exists>i. c \<le> i \<and> i < c + n \<and> port = of_int (ps ! i))"
proof (induction n arbitrary: c)
  case 0
  then show ?case by auto
next
  case (Suc n)
  have "(\<exists>i\<ge>c. i < c + Suc n \<and> port = of_int (ps ! i)) \<longleftrightarrow>
      port = of_int (ps ! c) \<or> (\<exists>i\<ge>Suc c. i < Suc c + n \<and> port = of_int (ps ! i))"
    by (metis Suc_leD add_Suc_right add_Suc_shift le_add1 le_eq_less_or_eq less_eq_Suc_le less_add_Suc1)
  then show ?case using Suc by auto
qed

lemma is_port_excluded_spec:
  "exc_port_ofst s \<le> length (exc_port s) \<Longrightarrow> is_port_excluded port s = Some (excluded s port)"
  using port_excluded_loop_spec [of 0 "exc_port_ofst s" "exc_port s" port]
  by (simp add: is_port_excluded_def excluded_def)

text \<open>\<open>port_after ex k qs\<close>: one of the next \<open>k\<close> ports drawn is not excluded.\<close>

fun port_after :: "(u16 \<Rightarrow> bool) \<Rightarrow> nat \<Rightarrow> qid_state \<Rightarrow> bool" where
  "port_after ex 0 qs \<longleftrightarrow> False"
| "port_after ex (Suc k) qs \<longleftrightarrow>
     (case myrand (65536 - 1026) qs of None \<Rightarrow> False
      | Some (r, qs') \<Rightarrow> \<not> ex (of_int (r + 1025)) \<or> port_after ex k qs')"

definition ports_avail :: "'a query_state_scheme \<Rightarrow> bool" where
  "ports_avail s \<longleftrightarrow> exc_port_ofst s \<le> length (exc_port s) \<and>
     (\<forall>qs. ctx_ok (isaac_ctx qs) \<longrightarrow> (\<exists>k. port_after (excluded s) k qs))"

lemma ports_avail_default: "exc_port_ofst s = 0 \<Longrightarrow> ports_avail s"
proof -
  assume "exc_port_ofst s = 0"
  then have "\<not> excluded s port" for port by (simp add: excluded_def)
  then have "port_after (excluded s) 1 qs" if "ctx_ok (isaac_ctx qs)" for qs :: qid_state
    using myrand_safe [OF that, of "65536 - 1026"] by auto
  then show ?thesis using \<open>exc_port_ofst s = 0\<close> unfolding ports_avail_def by (metis le0)
qed

definition same_pool :: "qid_state \<Rightarrow> qid_state \<Rightarrow> bool" where
  "same_pool a b \<longleftrightarrow> qid_pool b = qid_pool a \<and> pool_ptr b = pool_ptr a \<and> ctx_ok (isaac_ctx b)"

lemma same_pool_balanced: "same_pool a b \<Longrightarrow> qp.balanced a out \<Longrightarrow> qp.balanced b out"
  by (simp add: same_pool_def qp.balanced_def qid_inv_def qid_avail_def qid_free_def)

lemma pick_port_draw:
  assumes "port_after (excluded s) k (qids s)" "ctx_ok (isaac_ctx (qids s))" "exc_port_ofst s \<le> length (exc_port s)"
  shows "\<exists>port qs. pick_port s = Some (port, s\<lparr>qids := qs\<rparr>) \<and> same_pool (qids s) qs \<and>
    \<not> excluded s port \<and> 1025 \<le> unat port"
  using assms
proof (induction k arbitrary: s)
  case 0
  then show ?case by simp
next
  case (Suc k)
  obtain r qs where r: "myrand (65536 - 1026) (qids s) = Some (r, qs)" "0 \<le> r" "r \<le> 65536 - 1026"
    "ctx_ok (isaac_ctx qs)" "qid_pool qs = qid_pool (qids s)" "pool_ptr qs = pool_ptr (qids s)"
    using myrand_safe [OF Suc.prems(2), of "65536 - 1026"] by auto
  let ?port = "of_int (r + 1025) :: u16"
  let ?s1 = "s\<lparr>qids := qs\<rparr>"
  have sp: "same_pool (qids s) qs" using r by (simp add: same_pool_def)
  have ex1: "excluded ?s1 = excluded s" by (simp add: excluded_def fun_eq_iff)
  have ex: "is_port_excluded ?port ?s1 = Some (excluded s ?port)"
    using is_port_excluded_spec [of ?s1 ?port] Suc.prems(3) ex1 by simp
  show ?case
  proof (cases "excluded s ?port")
    case False
    have "uint ?port = take_bit 16 (r + 1025)" by (simp only: unsigned_of_int len_num1 len_bit0 len_bit1, simp)
    also have "\<dots> = r + 1025" using r(2,3) by (intro take_bit_int_eq_self) auto
    finally have "uint ?port = r + 1025" .
    then have "1025 \<le> unat ?port" using r(2) by (simp add: unat_eq_nat_uint le_nat_iff)
    then show ?thesis using r(1) ex False sp by (subst pick_port.simps) (auto simp: Let_def)
  next
    case True
    have "port_after (excluded ?s1) k (qids ?s1)" using Suc.prems(1) r(1) True ex1 by simp
    then obtain port qs' where "pick_port ?s1 = Some (port, ?s1\<lparr>qids := qs'\<rparr>)" "same_pool qs qs'"
      "\<not> excluded s port" "1025 \<le> unat port"
      using Suc.IH [of ?s1] r(4) Suc.prems(3) ex1 by auto
    then show ?thesis using r(1) ex True sp by (subst pick_port.simps) (auto simp: Let_def same_pool_def)
  qed
qed

lemma pick_port_ok:
  assumes "ports_avail s" "ctx_ok (isaac_ctx (qids s))"
  shows "\<exists>port qs. pick_port s = Some (port, s\<lparr>qids := qs\<rparr>) \<and> same_pool (qids s) qs \<and>
    \<not> excluded s port \<and> 1025 \<le> unat port"
  using assms pick_port_draw unfolding ports_avail_def by blast

section \<open>The invariant of the queries\<close>

definition q_socks :: "query_t \<Rightarrow> int list" where
  "q_socks n = (if is_dummy n = 1 then [sock_arr n ! 0] else sock_arr n)"

definition srv_live :: "'a srv_state_scheme \<Rightarrow> ptr \<Rightarrow> bool" where
  "srv_live s p \<longleftrightarrow> p \<noteq> NULL \<and> (\<exists>v. srvs s p = Some v)"

definition query_ok :: "'a query_state_scheme \<Rightarrow> query_t \<Rightarrow> bool" where
  "query_ok s n \<longleftrightarrow> length (sock_arr n) = 3 \<and> (is_dummy n = 1 \<longrightarrow> drop 1 (sock_arr n) = [0, 0]) \<and>
     length (srv_list n) = 3 \<and> srv_live s (q_srv n) \<and>
     (\<forall>p \<in> set (srv_list n). p = NULL \<or> srv_live s p) \<and>
     (fail_msg_len n > 0 \<longrightarrow> 2 \<le> fail_msg_len n \<and> fail_msg_len n \<le> length (cached_fail_msg n))"

definition qrec :: "'a query_state_scheme \<Rightarrow> ptr \<Rightarrow> query_t" where
  "qrec s p = the (queries s p)"

definition socks_of :: "'a query_state_scheme \<Rightarrow> ptr list \<Rightarrow> int list" where
  "socks_of s ps = concat (map (\<lambda>p. q_socks (qrec s p)) ps)"

definition ids_of :: "'a query_state_scheme \<Rightarrow> ptr list \<Rightarrow> u16 list" where
  "ids_of s ps = map (\<lambda>p. my_qid (qrec s p)) ps"

text \<open>The head of the list is never filled.\<close>

definition head_ok :: "'a query_state_scheme \<Rightarrow> bool" where
  "head_ok s \<longleftrightarrow> map_option sock_arr (queries s QLIST) = Some [0, 0, 0]"

definition qlist_inv :: "'a query_state_scheme \<Rightarrow> ptr list \<Rightarrow> bool" where
  "qlist_inv s ps \<longleftrightarrow> circ (q_nxt s) QLIST ps \<and> NULL \<notin> set ps \<and> qlist_tail s = last (QLIST # ps) \<and>
     head_ok s \<and>
     (\<forall>p \<in> set ps. \<exists>n. queries s p = Some n \<and> query_ok s n) \<and>
     (\<forall>p \<in> dom (queries s). p < brk s) \<and> QLIST < brk s"

definition pool_inv :: "'a query_state_scheme \<Rightarrow> ptr list \<Rightarrow> bool" where
  "pool_inv s ps \<longleftrightarrow> distinct (ids_of s ps) \<and> qp.balanced (qids s) (set (ids_of s ps))"

definition query_inv :: "'a query_state_scheme \<Rightarrow> ptr list \<Rightarrow> bool" where
  "query_inv s ps \<longleftrightarrow> qlist_inv s ps \<and> pool_inv s ps \<and> fd_inv s (socks_of s ps)"

lemma q_socks_length: "length (sock_arr n) = 3 \<Longrightarrow> 1 \<le> length (q_socks n) \<and> length (q_socks n) \<le> 3"
  by (simp add: q_socks_def)

lemma socks_of_length:
  assumes "qlist_inv s ps"
  shows "length ps \<le> length (socks_of s ps)"
proof -
  have "\<forall>p \<in> set ps. 1 \<le> length (q_socks (qrec s p))"
    using assms q_socks_length by (fastforce simp: qlist_inv_def query_ok_def qrec_def)
  then show ?thesis by (induction ps) (auto simp: socks_of_def)
qed

text \<open>There are far fewer queries than identifiers, because each holds a socket.\<close>

lemma query_inv_bound:
  assumes "qlist_inv s ps" "fd_inv s (socks_of s ps)"
  shows "length ps \<le> 1024"
proof -
  have "card (set (open_fds s)) \<le> card {0..<FD_SETSIZE}"
    using assms(2) by (intro card_mono) (auto simp: fd_inv_def)
  moreover have "length (socks_of s ps) \<le> card (set (open_fds s))"
    using assms(2) unfolding fd_inv_def by (metis card_mono distinct_card List.finite_set)
  ultimately show ?thesis using socks_of_length [OF assms(1)] by (simp add: FD_SETSIZE_def)
qed

lemma ids_not_all:
  assumes "length ps \<le> 1024"
  shows "set (ids_of s ps) \<noteq> UNIV"
proof
  assume u: "set (ids_of s ps) = UNIV"
  have "card (set (ids_of s ps)) \<le> 1024"
    using card_length [of "ids_of s ps"] assms by (simp add: ids_of_def)
  then show False unfolding u by (simp add: card_word)
qed

text \<open>What the list looks like does not depend on nodes outside it or on anything else.\<close>

lemma q_nxt_cong: "(\<And>p. p \<in> set xs \<Longrightarrow> queries t p = queries s p) \<Longrightarrow> p \<in> set xs \<Longrightarrow> q_nxt t p = q_nxt s p"
  by (simp add: q_nxt_def)

lemma query_ok_live: "query_ok s n \<Longrightarrow> (\<And>p. srv_live s p \<Longrightarrow> srv_live t p) \<Longrightarrow> query_ok t n"
  by (auto simp: query_ok_def)

lemma qlist_inv_cong:
  assumes "qlist_inv s ps" "\<And>p. p \<in> set (QLIST # ps) \<Longrightarrow> queries t p = queries s p"
    and "qlist_tail t = qlist_tail s" "\<And>p. srv_live s p \<Longrightarrow> srv_live t p"
    and "\<And>p. p \<in> dom (queries t) \<Longrightarrow> p < brk t" "brk s \<le> brk t"
  shows "qlist_inv t ps" "socks_of t ps = socks_of s ps" "ids_of t ps = ids_of s ps"
proof -
  have "circ (q_nxt t) QLIST ps = circ (q_nxt s) QLIST ps"
    by (rule circ_cong) (simp add: q_nxt_def assms(2))
  moreover have "\<exists>n. queries t p = Some n \<and> query_ok t n" if p: "p \<in> set ps" for p
  proof -
    have "\<forall>p \<in> set ps. \<exists>n. queries s p = Some n \<and> query_ok s n" using assms(1) by (simp add: qlist_inv_def)
    then obtain n where n: "queries s p = Some n" "query_ok s n" using p by blast
    have "query_ok t n" by (rule query_ok_live [OF n(2)]) (rule assms(4))
    then show ?thesis using n(1) assms(2) p by simp
  qed
  moreover have "QLIST < brk t" using assms(1,6) by (simp add: qlist_inv_def)
  moreover have "head_ok t" using assms(1) assms(2) [of QLIST] by (simp add: qlist_inv_def head_ok_def)
  ultimately show "qlist_inv t ps" using assms(1,3,5) by (simp add: qlist_inv_def)
  show "socks_of t ps = socks_of s ps" "ids_of t ps = ids_of s ps"
    unfolding socks_of_def ids_of_def qrec_def
    by (intro arg_cong [where f = concat] map_cong refl; simp add: assms(2))+
qed

text \<open>The fields that the operations on queries write.\<close>

definition q_frame :: "'a query_state_scheme \<Rightarrow> 'a query_state_scheme \<Rightarrow> bool" where
  "q_frame s t \<longleftrightarrow> brk s \<le> brk t \<and> t = s\<lparr>brk := brk t, queries := queries t, qlist_tail := qlist_tail t,
     total_queries := total_queries t, total_timeouts := total_timeouts t, upstream_sockets := upstream_sockets t,
     qids := qids t, fdmaster := fdmaster t, maxsock := maxsock t, open_fds := open_fds t, io := io t,
     bound := bound t, sent := sent t\<rparr>"

lemma q_frame_refl [simp, intro]: "q_frame s s"
  by (simp add: q_frame_def)

lemma q_frame_upd [simp, intro]:
  "q_frame s (s\<lparr>queries := a\<rparr>)" "q_frame s (s\<lparr>qlist_tail := b\<rparr>)" "q_frame s (s\<lparr>total_queries := c\<rparr>)"
  "q_frame s (s\<lparr>total_timeouts := d\<rparr>)" "q_frame s (s\<lparr>upstream_sockets := e\<rparr>)" "q_frame s (s\<lparr>qids := f\<rparr>)"
  "q_frame s (s\<lparr>fdmaster := g\<rparr>)" "q_frame s (s\<lparr>maxsock := e\<rparr>)" "q_frame s (s\<lparr>open_fds := g\<rparr>)"
  "q_frame s (s\<lparr>io := h\<rparr>)" "q_frame s (s\<lparr>bound := i\<rparr>)" "q_frame s (s\<lparr>sent := j\<rparr>)"
  by (simp_all add: q_frame_def)

lemma q_frame_trans [trans]: "q_frame s t \<Longrightarrow> q_frame t u \<Longrightarrow> q_frame s u"
proof -
  assume a: "q_frame s t" "q_frame t u"
  have "u = t\<lparr>brk := brk u, queries := queries u, qlist_tail := qlist_tail u,
     total_queries := total_queries u, total_timeouts := total_timeouts u, upstream_sockets := upstream_sockets u,
     qids := qids u, fdmaster := fdmaster u, maxsock := maxsock u, open_fds := open_fds u, io := io u,
     bound := bound u, sent := sent u\<rparr>" using a(2) by (simp add: q_frame_def)
  moreover obtain b x1 x2 x3 x4 x5 x6 x7 x8 x9 x10 x11 x12 where
    t: "t = s\<lparr>brk := b, queries := x1, qlist_tail := x2, total_queries := x3, total_timeouts := x4,
      upstream_sockets := x5, qids := x6, fdmaster := x7, maxsock := x8, open_fds := x9, io := x10, bound := x11, sent := x12\<rparr>"
    using a(1) unfolding q_frame_def by blast
  ultimately have "u = s\<lparr>brk := brk u, queries := queries u, qlist_tail := qlist_tail u,
     total_queries := total_queries u, total_timeouts := total_timeouts u, upstream_sockets := upstream_sockets u,
     qids := qids u, fdmaster := fdmaster u, maxsock := maxsock u, open_fds := open_fds u, io := io u,
     bound := bound u, sent := sent u\<rparr>" unfolding t by simp
  moreover have "brk s \<le> brk u" using a by (simp add: q_frame_def)
  ultimately show ?thesis by (simp add: q_frame_def)
qed

lemma q_frame_fields:
  assumes "q_frame s t"
  shows "srvs t = srvs s" "infs t = infs s" "inf_list t = inf_list s" "clock t = clock s" "cxs t = cxs s"
    "cachelist t = cachelist s" "lastcache t = lastcache s" "vc t = vc s" "rr_garbage t = rr_garbage s"
    "cache_lowwater t = cache_lowwater s" "cache_highwater t = cache_highwater s" "isock t = isock s"
    "max_sockets t = max_sockets s" "exc_port t = exc_port s" "exc_port_ofst t = exc_port_ofst s" "brk s \<le> brk t"
    "reactivate_interval t = reactivate_interval s" "forward_timeout t = forward_timeout s"
    "env_recv t = env_recv s"
proof -
  obtain b x1 x2 x3 x4 x5 x6 x7 x8 x9 x10 x11 x12 where
    t: "t = s\<lparr>brk := b, queries := x1, qlist_tail := x2, total_queries := x3, total_timeouts := x4,
      upstream_sockets := x5, qids := x6, fdmaster := x7, maxsock := x8, open_fds := x9, io := x10, bound := x11, sent := x12\<rparr>"
    using assms unfolding q_frame_def by blast
  show "brk s \<le> brk t" using assms by (simp add: q_frame_def)
  show "srvs t = srvs s" "infs t = infs s" "inf_list t = inf_list s" "clock t = clock s" "cxs t = cxs s"
    "cachelist t = cachelist s" "lastcache t = lastcache s" "vc t = vc s" "rr_garbage t = rr_garbage s"
    "cache_lowwater t = cache_lowwater s" "cache_highwater t = cache_highwater s" "isock t = isock s"
    "max_sockets t = max_sockets s" "exc_port t = exc_port s" "exc_port_ofst t = exc_port_ofst s"
    "reactivate_interval t = reactivate_interval s" "forward_timeout t = forward_timeout s"
    "env_recv t = env_recv s"
    unfolding t by simp_all
qed

lemma ports_avail_frame: "q_frame s t \<Longrightarrow> ports_avail t = ports_avail s"
  using q_frame_fields [of s t] by (simp add: ports_avail_def excluded_def [abs_def])

lemma excluded_frame: "q_frame s t \<Longrightarrow> excluded t = excluded s"
  using q_frame_fields [of s t] by (simp add: excluded_def [abs_def])

section \<open>Creating a query\<close>

lemma same_pool_refl: "ctx_ok (isaac_ctx a) \<Longrightarrow> same_pool a a"
  by (simp add: same_pool_def)

lemma same_pool_trans: "same_pool a b \<Longrightarrow> same_pool b c \<Longrightarrow> same_pool a c"
  by (simp add: same_pool_def)

definition good_ports :: "'a query_state_scheme \<Rightarrow> 'a query_state_scheme \<Rightarrow> bool" where
  "good_ports s t \<longleftrightarrow> (\<exists>bs. bound t = bs @ bound s \<and> (\<forall>(fd, port) \<in> set bs. \<not> excluded s port \<and> 1025 \<le> unat port))"

text \<open>The state after one socket has been opened and bound for the query \<open>q\<close>.\<close>

lemma open_one_socket:
  assumes "queries s q = Some n" "fd_inv s own" "ports_avail s" "ctx_ok (isaac_ctx (qids s))"
    and "int (length (open_fds s)) < FD_SETSIZE" "env_sock s (io s)"
    and fd_eq: "fd = lowest_free (open_fds s)" and n1_eq: "n1 = n\<lparr>sock_arr := (sock_arr n)[c := fd]\<rparr>"
  shows "\<exists>s6. open_sockets (c # cs) q s = (if is_dummy n = 1 then Some (True, s6) else open_sockets cs q s6) \<and>
    queries s6 = (queries s)(q \<mapsto> n1) \<and> fd_inv s6 (fd # own) \<and> q_frame s s6 \<and> same_pool (qids s) (qids s6) \<and>
    qlist_tail s6 = qlist_tail s \<and> brk s6 = brk s \<and> sent s6 = sent s \<and> length (open_fds s6) = Suc (length (open_fds s)) \<and>
    upstream_sockets s6 = upstream_sockets s + 1 \<and> good_ports s s6"
proof -
  let ?s1 = "s\<lparr>io := Suc (io s), open_fds := fd # open_fds s\<rparr>"
  let ?s2 = "?s1\<lparr>queries := (queries ?s1)(q \<mapsto> n1)\<rparr>"
  let ?s3 = "?s2\<lparr>upstream_sockets := upstream_sockets ?s2 + 1\<rparr>"
  have sock: "os_socket s = (fd, ?s1)" using assms(6) by (simp add: os_socket_def Let_def fd_eq)
  have fd: "fd \<notin> set (open_fds s)" "0 \<le> fd" "fd < FD_SETSIZE"
    using lowest_free_spec [of "open_fds s"] assms(5) by (auto simp: fd_eq)
  have up: "upd_query q (\<lambda>n. n\<lparr>sock_arr := (sock_arr n)[c := fd]\<rparr>) ?s1 = Some ?s2"
    using assms(1) by (simp add: upd_query_def n1_eq)
  have pa: "ports_avail ?s3" using assms(3) by (simp add: ports_avail_def excluded_def [abs_def])
  obtain port qs where pp: "pick_port ?s3 = Some (port, ?s3\<lparr>qids := qs\<rparr>)" "same_pool (qids s) qs"
    "\<not> excluded s port" "1025 \<le> unat port"
    using pick_port_ok [OF pa] assms(4) by (auto simp: excluded_def)
  define bs where "bs = (if env_bind s (Suc (io s)) then [(fd, port)] else [])"
  let ?s4 = "?s3\<lparr>qids := qs, io := Suc (Suc (io s)), bound := bs @ bound s\<rparr>"
  have bind: "os_bind fd port (?s3\<lparr>qids := qs\<rparr>) = ?s4" by (simp add: os_bind_def Let_def bs_def)
  let ?s5 = "?s4\<lparr>fdmaster := List.insert fd (fdmaster ?s4)\<rparr>"
  define s6 where "s6 = (if fd > maxsock ?s5 then ?s5\<lparr>maxsock := fd\<rparr> else ?s5)"
  have add: "fd_add fd ?s4 = Some ?s5" using fd by (simp add: fd_add_def)
  have f6: "queries s6 = (queries s)(q \<mapsto> n1)" "open_fds s6 = fd # open_fds s" "qids s6 = qs"
    "qlist_tail s6 = qlist_tail s" "brk s6 = brk s" "sent s6 = sent s" "max_sockets s6 = max_sockets s"
    "upstream_sockets s6 = upstream_sockets s + 1" "bound s6 = bs @ bound s" "q_frame s s6"
    by (simp_all add: s6_def q_frame_def)
  have dm: "is_dummy n1 = is_dummy n" by (simp add: n1_eq)
  have run: "open_sockets (c # cs) q s = (if is_dummy n = 1 then Some (True, s6) else open_sockets cs q s6)"
    using sock up fd(2) pp(1) bind add f6(1) dm by (simp add: Let_def s6_def)
  have "fd \<notin> set own" using assms(2) fd(1) by (auto simp: fd_inv_def)
  then have "fd_inv s6 (fd # own)" using assms(2) fd f6 by (auto simp: fd_inv_def)
  moreover have "good_ports s s6" unfolding good_ports_def using pp(3,4) f6(9) by (intro exI [of _ bs]) (simp add: bs_def)
  moreover have "same_pool (qids s) (qids s6)" using pp(2) f6(3) by simp
  moreover have "length (open_fds s6) = Suc (length (open_fds s))" using f6(2) by simp
  ultimately show ?thesis using run f6(1,4-6,8,10) by blast
qed

lemma good_ports_trans:
  assumes "good_ports s t" "good_ports t u" "excluded t = excluded s"
  shows "good_ports s u"
proof -
  obtain bs where bs: "bound t = bs @ bound s" "\<forall>(fd, port) \<in> set bs. \<not> excluded s port \<and> 1025 \<le> unat port"
    using assms(1) unfolding good_ports_def by blast
  obtain cs where cs: "bound u = cs @ bound t" "\<forall>(fd, port) \<in> set cs. \<not> excluded s port \<and> 1025 \<le> unat port"
    using assms(2) unfolding good_ports_def assms(3) by blast
  show ?thesis unfolding good_ports_def using bs cs by (intro exI [of _ "cs @ bs"]) auto
qed

lemma open_sockets_ok:
  assumes "distinct cs" "set cs \<subseteq> {0, 1, 2}" "queries s q = Some n" "length (sock_arr n) = 3"
    and "fd_inv s own" "ports_avail s" "ctx_ok (isaac_ctx (qids s))"
    and "int (length (open_fds s)) + int (length cs) \<le> FD_SETSIZE"
  shows "\<exists>ok s' fds n'. open_sockets cs q s = Some (ok, s') \<and> fd_inv s' (fds @ own) \<and> q_frame s s' \<and>
    same_pool (qids s) (qids s') \<and> qlist_tail s' = qlist_tail s \<and> brk s' = brk s \<and> sent s' = sent s \<and> good_ports s s' \<and>
    (if ok then queries s' = (queries s)(q \<mapsto> n') \<and> n' = n\<lparr>sock_arr := sock_arr n'\<rparr> \<and> length (sock_arr n') = 3 \<and>
        (\<forall>i. i \<notin> (if is_dummy n = 1 then set (take 1 cs) else set cs) \<longrightarrow> sock_arr n' ! i = sock_arr n ! i) \<and>
        fds = (if is_dummy n = 1 \<and> cs \<noteq> [] then [sock_arr n' ! hd cs] else rev (map ((!) (sock_arr n')) cs))
     else queries s' = (queries s)(q := None))"
  using assms
proof (induction cs arbitrary: s n own)
  case Nil
  then show ?case
    by (intro exI [of _ True] exI [of _ s] exI [of _ "[]"] exI [of _ n]) (auto simp: same_pool_refl good_ports_def)
next
  case (Cons c cs)
  show ?case
  proof (cases "env_sock s (io s)")
    case False
    let ?s1 = "s\<lparr>io := Suc (io s)\<rparr>"
    let ?s3 = "?s1\<lparr>queries := (queries s)(q := None)\<rparr>"
    have "open_sockets (c # cs) q s = Some (False, ?s3)"
      using False Cons.prems(3) by (simp add: os_socket_def Let_def upd_query_def free_query_def)
    moreover have "fd_inv ?s3 ([] @ own)" using Cons.prems(5) by (simp add: fd_inv_def)
    moreover have "q_frame s ?s3" by (simp add: q_frame_def)
    moreover have "same_pool (qids s) (qids ?s3)" using Cons.prems(7) by (simp add: same_pool_refl)
    moreover have "good_ports s ?s3" by (simp add: good_ports_def)
    ultimately show ?thesis
      by (intro exI [of _ False] exI [of _ ?s3] exI [of _ "[]"] exI [of _ n]) simp
  next
    case True
    let ?fd = "lowest_free (open_fds s)"
    let ?n1 = "n\<lparr>sock_arr := (sock_arr n)[c := ?fd]\<rparr>"
    have room: "int (length (open_fds s)) < FD_SETSIZE" using Cons.prems(8) by simp
    obtain s6 where s6: "open_sockets (c # cs) q s = (if is_dummy n = 1 then Some (True, s6) else open_sockets cs q s6)"
      "queries s6 = (queries s)(q \<mapsto> ?n1)" "fd_inv s6 (?fd # own)" "q_frame s s6" "same_pool (qids s) (qids s6)"
      "qlist_tail s6 = qlist_tail s" "brk s6 = brk s" "sent s6 = sent s"
      "length (open_fds s6) = Suc (length (open_fds s))" "good_ports s s6"
      using open_one_socket [OF Cons.prems(3,5,6,7) room True refl refl, of c cs] by blast
    have c3: "c < 3" "c \<notin> set cs" "distinct cs" "set cs \<subseteq> {0, 1, 2}" using Cons.prems(1,2) by auto
    show ?thesis
    proof (cases "is_dummy n = 1")
      case True
      then show ?thesis using s6 c3 Cons.prems(4)
        by (intro exI [of _ True] exI [of _ s6] exI [of _ "[?fd]"] exI [of _ ?n1]) simp
    next
      case False
      have p6: "ports_avail s6" using Cons.prems(6) ports_avail_frame [OF s6(4)] by simp
      have c6: "ctx_ok (isaac_ctx (qids s6))" using s6(5) by (simp add: same_pool_def)
      have pm: "queries s6 q = Some ?n1" "length (sock_arr ?n1) = 3" "int (length (open_fds s6)) + int (length cs) \<le> FD_SETSIZE"
        using s6(2,9) Cons.prems(4,8) by simp_all
      note ih0 = Cons.IH [OF c3(3,4) pm(1,2) s6(3) p6 c6 pm(3)]
      obtain ok s' fds n' where ih: "open_sockets cs q s6 = Some (ok, s')" "fd_inv s' (fds @ ?fd # own)" "q_frame s6 s'"
        "same_pool (qids s6) (qids s')" "qlist_tail s' = qlist_tail s6" "brk s' = brk s6" "sent s' = sent s6" "good_ports s6 s'"
        "if ok then queries s' = (queries s6)(q \<mapsto> n') \<and> n' = ?n1\<lparr>sock_arr := sock_arr n'\<rparr> \<and> length (sock_arr n') = 3 \<and>
            (\<forall>i. i \<notin> (if is_dummy ?n1 = 1 then set (take 1 cs) else set cs) \<longrightarrow> sock_arr n' ! i = sock_arr ?n1 ! i) \<and>
            fds = (if is_dummy ?n1 = 1 \<and> cs \<noteq> [] then [sock_arr n' ! hd cs] else rev (map ((!) (sock_arr n')) cs))
         else queries s' = (queries s6)(q := None)"
        using ih0 by (elim exE conjE) (rule that, assumption+)
      have fr: "q_frame s s'" "same_pool (qids s) (qids s')" "good_ports s s'"
        using q_frame_trans [OF s6(4) ih(3)] same_pool_trans [OF s6(5) ih(4)]
          good_ports_trans [OF s6(10) ih(8) excluded_frame [OF s6(4)]] by auto
      show ?thesis
      proof (cases ok)
        case ok: True
        have n': "queries s' = (queries s6)(q \<mapsto> n')" "n' = ?n1\<lparr>sock_arr := sock_arr n'\<rparr>" "length (sock_arr n') = 3"
          "\<forall>i. i \<notin> set cs \<longrightarrow> sock_arr n' ! i = sock_arr ?n1 ! i" "fds = rev (map ((!) (sock_arr n')) cs)"
          using ih(9) ok False by simp_all
        have "sock_arr n' ! c = ?fd" using n'(4) c3(1,2) Cons.prems(4) by simp
        then have "fds @ [?fd] = rev (map ((!) (sock_arr n')) (c # cs))" using n'(5) by simp
        moreover have "n' = n\<lparr>sock_arr := sock_arr n'\<rparr>" using n'(2) by simp
        moreover have "queries s' = (queries s)(q \<mapsto> n')" using n'(1) s6(2) by simp
        moreover have "\<forall>i. i \<notin> set (c # cs) \<longrightarrow> sock_arr n' ! i = sock_arr n ! i" using n'(4) by simp
        ultimately show ?thesis using s6(1,6,7,8) ih(1,2,5-7) fr False ok n'(3)
          by (intro exI [of _ True] exI [of _ s'] exI [of _ "fds @ [?fd]"] exI [of _ n']) simp
      next
        case nok: False
        then show ?thesis using s6 ih fr False
          by (intro exI [of _ False] exI [of _ s'] exI [of _ "fds @ [?fd]"] exI [of _ n]) simp
      qed
    qed
  qed
qed

text \<open>
  \<open>pending s ps q n\<close>: besides the listed queries \<open>ps\<close> there is the new query \<open>q\<close>, with sockets and
  an identifier of its own.
\<close>

definition pending :: "'a query_state_scheme \<Rightarrow> ptr list \<Rightarrow> ptr \<Rightarrow> query_t \<Rightarrow> bool" where
  "pending s ps q n \<longleftrightarrow> qlist_inv s ps \<and> queries s q = Some n \<and> query_ok s n \<and> q \<notin> set (QLIST # ps) \<and> q \<noteq> NULL \<and>
     fd_inv s (q_socks n @ socks_of s ps) \<and> distinct (my_qid n # ids_of s ps) \<and>
     qp.balanced (qids s) (set (my_qid n # ids_of s ps))"

lemma fd_inv_perm: "fd_inv s own \<Longrightarrow> distinct own' \<Longrightarrow> set own' \<subseteq> set own \<Longrightarrow> fd_inv s own'"
  by (auto simp: fd_inv_def)

lemma query_create_full: "srv \<noteq> NULL \<Longrightarrow> max_sockets s \<le> upstream_sockets s \<Longrightarrow> query_create i srv s = Some (NULL, s)"
  by (simp add: query_create_def)

lemma query_create_ok:
  assumes "query_inv s ps" "srv_live s srv" "ports_avail s" "upstream_sockets s < max_sockets s"
  shows "\<exists>r s'. query_create i srv s = Some (r, s') \<and> q_frame s s' \<and> good_ports s s' \<and> sent s' = sent s \<and>
    (\<forall>p \<in> set ps. queries s' p = queries s p) \<and>
    (if r = NULL then query_inv s' ps
     else r = brk s \<and> (\<exists>n. pending s' ps r n \<and> q_srv n = srv \<and> is_dummy n = (if i = NULL then 1 else 0) \<and>
       ttl n = forward_timeout s \<and> fail_msg_len n = 0 \<and> resp_sent n = 0 \<and> serv_sent_cnt n = 0 \<and>
       srv_list n = [NULL, NULL, NULL]))"
proof -
  let ?q = "brk s"
  define n0 where "n0 = query_zero\<lparr>q_next := ?q, is_dummy := (if i = NULL then 1 else 0), q_srv := srv, ttl := forward_timeout s\<rparr>"
  define s1 where "s1 = s\<lparr>brk := Suc ?q, queries := (queries s)(?q \<mapsto> n0)\<rparr>"
  have inv: "qlist_inv s ps" "pool_inv s ps" "fd_inv s (socks_of s ps)" using assms(1) by (auto simp: query_inv_def)
  have b: "QLIST < ?q" "\<forall>p \<in> dom (queries s). p < ?q" "\<forall>p \<in> set ps. p \<in> dom (queries s)"
    using inv(1) by (auto simp: qlist_inv_def)
  have q: "?q \<notin> set (QLIST # ps)" "?q \<noteq> NULL" "?q \<notin> dom (queries s)" using b by (auto simp: QLIST_def)
  have room: "int (length (open_fds s1)) + int (length [0, 1, 2 :: nat]) \<le> FD_SETSIZE"
    using inv(3) assms(4) by (auto simp: fd_inv_def s1_def)
  have ctx: "ctx_ok (isaac_ctx (qids s))" using inv(2) by (simp add: pool_inv_def qp.balanced_def qid_inv_def)
  have d: "distinct [0, 1, 2 :: nat]" "set [0, 1, 2 :: nat] \<subseteq> {0, 1, 2}" by simp_all
  have o1: "queries s1 ?q = Some n0" "length (sock_arr n0) = 3" unfolding s1_def n0_def by (simp_all add: query_zero_def)
  have o2: "fd_inv s1 (socks_of s ps)" "ports_avail s1" "ctx_ok (isaac_ctx (qids s1))"
    "int (length (open_fds s1)) + int (length [0, 1, 2 :: nat]) \<le> FD_SETSIZE" "qids s1 = qids s"
    "qlist_tail s1 = qlist_tail s" "brk s1 = Suc ?q" "sent s1 = sent s"
    using inv(3) assms(3) ctx room by (simp_all add: s1_def fd_inv_def ports_avail_def excluded_def [abs_def])
  obtain ok s2 fds n' where o: "open_sockets [0, 1, 2] ?q s1 = Some (ok, s2)" "fd_inv s2 (fds @ socks_of s ps)"
    "q_frame s1 s2" "same_pool (qids s) (qids s2)" "qlist_tail s2 = qlist_tail s" "brk s2 = Suc ?q" "sent s2 = sent s"
    "good_ports s1 s2"
    "if ok then queries s2 = (queries s1)(?q \<mapsto> n') \<and> n' = n0\<lparr>sock_arr := sock_arr n'\<rparr> \<and> length (sock_arr n') = 3 \<and>
        (\<forall>i. i \<notin> (if is_dummy n0 = 1 then {0} else {0, 1, 2}) \<longrightarrow> sock_arr n' ! i = sock_arr n0 ! i) \<and>
        fds = (if is_dummy n0 = 1 then [sock_arr n' ! 0] else rev (map ((!) (sock_arr n')) [0, 1, 2]))
     else queries s2 = (queries s1)(?q := None)"
    using open_sockets_ok [OF d o1 o2(1-4)] unfolding o2(5-8)
    by (elim exE conjE) (rule that, simp_all del: open_sockets.simps cong: if_cong)
  have fr1: "q_frame s s1" by (simp add: q_frame_def s1_def)
  have fr2: "q_frame s s2" by (rule q_frame_trans [OF fr1 o(3)])
  have gp: "good_ports s s2" using o(8) by (simp add: good_ports_def excluded_def s1_def)
  have srv: "srv \<noteq> NULL" using assms(2) by (simp add: srv_live_def)
  have sl: "srv_live s2 p = srv_live s p" for p using q_frame_fields(1) [OF fr2] by (simp add: srv_live_def)
  have qs2: "queries s2 p = queries s p" if "p \<noteq> ?q" for p using o(9) that by (cases ok) (auto simp: s1_def)
  have unch: "\<forall>p \<in> set ps. queries s2 p = queries s p"
  proof
    fix p
    assume "p \<in> set ps"
    then have "p \<noteq> ?q" using q(1) by auto
    then show "queries s2 p = queries s p" by (rule qs2)
  qed
  have li: "qlist_inv s2 ps" "socks_of s2 ps = socks_of s ps" "ids_of s2 ps = ids_of s ps"
  proof -
    have 1: "queries s2 p = queries s p" if "p \<in> set (QLIST # ps)" for p using qs2 q(1) that by metis
    have 2: "p < brk s2" if p: "p \<in> dom (queries s2)" for p
    proof (cases "p = ?q")
      case False
      then have "p \<in> dom (queries s)" using p qs2 [of p] by (simp add: domIff)
      then show ?thesis using b(2) o(6) by (simp add: less_SucI)
    qed (simp add: o(6))
    show "qlist_inv s2 ps" "socks_of s2 ps = socks_of s ps" "ids_of s2 ps = ids_of s ps"
      using qlist_inv_cong [OF inv(1) 1 o(5) _ 2] sl o(6) by auto
  qed
  have bal: "qp.balanced (qids s2) (set (ids_of s ps))" using same_pool_balanced [OF o(4)] inv(2) by (simp add: pool_inv_def)
  show ?thesis
  proof (cases ok)
    case False
    have "query_create i srv s = Some (NULL, s2)"
      using srv assms(4) o(1) False by (simp add: query_create_def Let_def s1_def n0_def)
    moreover have "fd_inv s2 (socks_of s ps)"
      using fd_inv_perm [OF o(2), of "socks_of s ps"] inv(3) by (simp add: fd_inv_def [of s])
    then have "query_inv s2 ps" using li bal inv(2) by (simp add: query_inv_def pool_inv_def)
    ultimately show ?thesis using fr2 gp o(7) unch by auto
  next
    case True
    have n': "queries s2 ?q = Some n'" "n' = n0\<lparr>sock_arr := sock_arr n'\<rparr>" "length (sock_arr n') = 3"
      "fds = (if is_dummy n0 = 1 then [sock_arr n' ! 0] else rev (map ((!) (sock_arr n')) [0, 1, 2]))"
      "is_dummy n0 = 1 \<longrightarrow> sock_arr n' ! 1 = 0 \<and> sock_arr n' ! 2 = 0"
      using o(9) True by (auto simp: n0_def query_zero_def)
    have lp: "length ps \<le> 1024" by (rule query_inv_bound [OF inv(1,3)])
    obtain t qs where t: "qid_get (qids s2) = Some (t, qs)" "t \<notin> set (ids_of s ps)"
      "qp.balanced qs (insert t (set (ids_of s ps)))"
      using qp.balanced_get [OF bal ids_not_all [OF lp]] by blast
    let ?m = "n'\<lparr>my_qid := t\<rparr>"
    let ?s3 = "s2\<lparr>qids := qs, queries := (queries s2)(?q \<mapsto> ?m)\<rparr>"
    have cr: "query_create i srv s = Some (?q, ?s3)"
      using srv assms(4) o(1) True t(1) n'(1) by (simp add: query_create_def Let_def upd_query_def s1_def n0_def)
    have fld: "q_srv n' = srv" "is_dummy n' = (if i = NULL then 1 else 0)" "ttl n' = forward_timeout s" "fail_msg_len n' = 0"
      "resp_sent n' = 0" "serv_sent_cnt n' = 0" "srv_list n' = [NULL, NULL, NULL]"
      using arg_cong [OF n'(2), of q_srv] arg_cong [OF n'(2), of is_dummy] arg_cong [OF n'(2), of ttl]
        arg_cong [OF n'(2), of fail_msg_len] arg_cong [OF n'(2), of resp_sent] arg_cong [OF n'(2), of serv_sent_cnt]
        arg_cong [OF n'(2), of srv_list] by (simp_all add: query_zero_def n0_def)
    have socks: "set fds = set (q_socks ?m)" "length (q_socks ?m) = length fds"
    proof -
      obtain x y z where a: "sock_arr n' = [x, y, z]" using n'(3) by (auto simp: length_Suc_conv numeral_3_eq_3)
      show "set fds = set (q_socks ?m)" "length (q_socks ?m) = length fds"
        using n'(4) fld(2) a by (auto simp: q_socks_def query_zero_def numeral_2_eq_2 n0_def)
    qed
    have li3: "qlist_inv ?s3 ps" "socks_of ?s3 ps = socks_of s2 ps" "ids_of ?s3 ps = ids_of s2 ps"
    proof -
      have 1: "queries ?s3 p = queries s2 p" if "p \<in> set (QLIST # ps)" for p using q(1) that by auto
      have 2: "p < brk ?s3" if "p \<in> dom (queries ?s3)" for p
        using that li(1) o(6) by (cases "p = ?q") (auto simp: qlist_inv_def)
      show "qlist_inv ?s3 ps" "socks_of ?s3 ps = socks_of s2 ps" "ids_of ?s3 ps = ids_of s2 ps"
        using qlist_inv_cong [OF li(1) 1 _ _ 2] by (auto simp: srv_live_def)
    qed
    have d: "distinct fds" "set fds \<inter> set (socks_of s ps) = {}" "distinct (socks_of s ps)"
      using o(2) by (auto simp: fd_inv_def)
    have dq: "distinct (q_socks ?m)" using d(1) socks by (metis card_distinct distinct_card)
    have "fd_inv s2 (q_socks ?m @ socks_of s ps)"
      by (rule fd_inv_perm [OF o(2)]) (use socks d dq in auto)
    then have fd3: "fd_inv ?s3 (q_socks ?m @ socks_of s ps)" by (simp add: fd_inv_def)
    have "srv_live ?s3 srv" using assms(2) sl [of srv] by (simp add: srv_live_def)
    moreover have "is_dummy n' = 1 \<longrightarrow> drop 1 (sock_arr n') = [0, 0]"
    proof -
      obtain x y z where a: "sock_arr n' = [x, y, z]" using n'(3) by (auto simp: length_Suc_conv numeral_3_eq_3)
      show ?thesis using n'(5) fld(2) a by (auto simp: n0_def numeral_2_eq_2)
    qed
    ultimately have "query_ok ?s3 ?m" using fld n'(3) by (simp add: query_ok_def)
    then have "pending ?s3 ps ?q ?m"
      using li3 li fd3 q(1,2) t inv(2) by (simp add: pending_def pool_inv_def)
    moreover have "q_frame s ?s3" by (rule q_frame_trans [OF fr2]) (simp add: q_frame_def)
    moreover have "good_ports s ?s3" using gp by (simp add: good_ports_def)
    moreover have "sent ?s3 = sent s" using o(7) by simp
    moreover have "\<forall>p \<in> set ps. queries ?s3 p = queries s p" using unch q(1) by auto
    moreover have "\<exists>n. pending ?s3 ps ?q n \<and> q_srv n = srv \<and> is_dummy n = (if i = NULL then 1 else 0) \<and>
       ttl n = forward_timeout s \<and> fail_msg_len n = 0 \<and> resp_sent n = 0 \<and> serv_sent_cnt n = 0 \<and>
       srv_list n = [NULL, NULL, NULL]"
      by (rule exI [of _ ?m]) (use calculation(1) fld in simp)
    ultimately show ?thesis using cr
      by (intro exI [of _ ?q] exI [of _ ?s3]) (simp only: if_not_P [OF q(2)] simp_thms)
  qed
qed

definition no_newq :: "'a srv_state_scheme \<Rightarrow> bool" where
  "no_newq s \<longleftrightarrow> (\<forall>p v. srvs s p = Some v \<longrightarrow> newquery v = NULL)"

text \<open>No code of the program sets \<open>newquery\<close>, so \<open>query_get_new\<close> always creates.\<close>

lemma query_get_new_eq:
  assumes "query_inv s ps" "srv_live s srv" "ports_avail s" "no_newq s"
  shows "query_get_new i srv s = query_create i srv s"
proof -
  obtain v where v: "srvs s srv = Some v" "srv \<noteq> NULL" using assms(2) by (auto simp: srv_live_def)
  then have v0: "newquery v = NULL" using assms(4) by (auto simp: no_newq_def)
  show ?thesis
  proof (cases "upstream_sockets s < max_sockets s")
    case False
    then show ?thesis using v v0 by (simp add: query_get_new_def query_create_def get_srv_def)
  next
    case True
    obtain r s' where c: "query_create i srv s = Some (r, s')" "q_frame s s'"
      "r \<noteq> NULL \<longrightarrow> (\<exists>n. queries s' r = Some n \<and> q_srv n = srv)"
      using query_create_ok [OF assms(1-3) True, of i]
      by - (elim exE conjE, rule that, assumption, assumption, auto simp: pending_def split: if_splits)
    have sv: "srvs s' srv = Some v" using v(1) q_frame_fields(1) [OF c(2)] by simp
    have "v\<lparr>newquery := NULL\<rparr> = v" using v0 by simp
    then have "s'\<lparr>srvs := (srvs s')(srv \<mapsto> v\<lparr>newquery := NULL\<rparr>)\<rparr> = s'" using sv by (simp add: fun_upd_idem)
    then have u: "upd_srv srv (\<lambda>m. m\<lparr>newquery := NULL\<rparr>) s' = Some s'" using sv by (simp add: upd_srv_def)
    show ?thesis
    proof (cases "r = NULL")
      case True
      then show ?thesis using v v0 c(1) by (simp add: query_get_new_def get_srv_def)
    next
      case False
      then obtain n where n: "queries s' r = Some n" "q_srv n = srv" using c(3) by blast
      then have "n\<lparr>q_srv := srv\<rparr> = n" by simp
      then have "s'\<lparr>queries := (queries s')(r \<mapsto> n\<lparr>q_srv := srv\<rparr>)\<rparr> = s'" using n(1) by (simp add: fun_upd_idem)
      then have "upd_query r (\<lambda>n. n\<lparr>q_srv := srv\<rparr>) s' = Some s'" using n(1) by (simp add: upd_query_def)
      then show ?thesis using v v0 c(1) u False by (simp add: query_get_new_def get_srv_def)
    qed
  qed
qed

section \<open>Walking over the list\<close>

text \<open>A walk stands on the node before the current query.\<close>

lemma qlist_step:
  assumes "qlist_inv s (as @ bs)"
  shows "\<exists>n. queries s (last (QLIST # as)) = Some n \<and> q_next n = hd (bs @ [QLIST])"
    and "hd (bs @ [QLIST]) = QLIST \<longleftrightarrow> bs = []"
proof -
  have c: "circ (q_nxt s) QLIST (as @ bs)" using assms by (simp add: qlist_inv_def)
  show "\<exists>n. queries s (last (QLIST # as)) = Some n \<and> q_next n = hd (bs @ [QLIST])"
  proof (cases bs)
    case Nil
    then show ?thesis using circ_last [of "q_nxt s" QLIST as] c by simp
  next
    case (Cons b bs')
    then show ?thesis using circ_next_last [of "q_nxt s" QLIST as b bs'] c by simp
  qed
  show "hd (bs @ [QLIST]) = QLIST \<longleftrightarrow> bs = []" using c by (cases bs) (auto simp: circ_def)
qed

lemma qlist_member: "qlist_inv s ps \<Longrightarrow> p \<in> set ps \<Longrightarrow> \<exists>n. queries s p = Some n \<and> query_ok s n"
  by (simp add: qlist_inv_def)

lemma query_find_none:
  assumes "qlist_inv s (as @ cs)" "\<forall>c \<in> set cs. client_qid (qrec s c) \<noteq> qid"
  shows "query_find s qid (last (QLIST # as)) = Some NULL"
  using assms
proof (induction cs arbitrary: as)
  case Nil
  then show ?case using qlist_step [OF Nil.prems(1)] by (subst query_find.simps) auto
next
  case (Cons c cs)
  obtain n where n: "queries s (last (QLIST # as)) = Some n" "q_next n = c"
    using qlist_step(1) [OF Cons.prems(1)] by auto
  have ne: "c \<noteq> QLIST" using qlist_step(2) [OF Cons.prems(1)] by simp
  obtain m where m: "queries s c = Some m" using qlist_member [OF Cons.prems(1), of c] by auto
  have "client_qid m \<noteq> qid" using Cons.prems(2) m by (simp add: qrec_def)
  moreover have "query_find s qid (last (QLIST # as @ [c])) = Some NULL"
    using Cons.IH [of "as @ [c]"] Cons.prems by simp
  ultimately show ?case using n m ne by (subst query_find.simps) simp
qed

lemma query_find_some:
  assumes "qlist_inv s (as @ cs @ p # bs)" "\<forall>c \<in> set cs. client_qid (qrec s c) \<noteq> qid" "client_qid (qrec s p) = qid"
  shows "query_find s qid (last (QLIST # as)) = Some (last (QLIST # as @ cs))"
  using assms
proof (induction cs arbitrary: as)
  case Nil
  obtain n where n: "queries s (last (QLIST # as)) = Some n" "q_next n = p" using qlist_step(1) [OF Nil.prems(1)] by auto
  have ne: "p \<noteq> QLIST" using qlist_step(2) [OF Nil.prems(1)] by simp
  obtain m where m: "queries s p = Some m" using qlist_member [OF Nil.prems(1), of p] by auto
  then show ?case using n ne Nil.prems(3) by (subst query_find.simps) (simp add: qrec_def)
next
  case (Cons c cs)
  obtain n where n: "queries s (last (QLIST # as)) = Some n" "q_next n = c"
    using qlist_step(1) [OF Cons.prems(1)] by auto
  have ne: "c \<noteq> QLIST" using qlist_step(2) [OF Cons.prems(1)] by simp
  obtain m where m: "queries s c = Some m" using qlist_member [OF Cons.prems(1), of c] by auto
  have "client_qid m \<noteq> qid" using Cons.prems(2) m by (simp add: qrec_def)
  moreover have "query_find s qid (last (QLIST # as @ [c])) = Some (last (QLIST # (as @ [c]) @ cs))"
    using Cons.IH [of "as @ [c]"] Cons.prems by simp
  ultimately show ?case using n m ne by (subst query_find.simps) simp
qed

lemma query_count_list: "qlist_inv s ps \<Longrightarrow> query_count s = Some (length ps)"
proof -
  have "qlist_inv s (as @ bs) \<Longrightarrow> count_loop s (last (QLIST # as)) k = Some (k + length bs)" for as bs k
  proof (induction bs arbitrary: as k)
    case Nil
    then show ?case using qlist_step [OF Nil] by (subst count_loop.simps) auto
  next
    case (Cons b bs)
    have "count_loop s b (k + 1) = Some (k + 1 + length bs)" using Cons.IH [of "as @ [b]" "k + 1"] Cons.prems by simp
    then show ?case using qlist_step [OF Cons.prems] by (subst count_loop.simps) auto
  qed
  from this [of "[]" ps 0] show "qlist_inv s ps \<Longrightarrow> query_count s = Some (length ps)"
    by (simp add: query_count_def)
qed

text \<open>Changing the data of a query, but not its links, sockets, server and identifier.\<close>

definition same_core :: "query_t \<Rightarrow> query_t \<Rightarrow> bool" where
  "same_core n m \<longleftrightarrow> q_next m = q_next n \<and> my_qid m = my_qid n \<and> q_socks m = q_socks n"

lemma query_inv_data:
  assumes "query_inv s ps" "p \<in> set ps" "queries s p = Some n" "same_core n m" "query_ok s m"
  shows "query_inv (s\<lparr>queries := (queries s)(p \<mapsto> m)\<rparr>) ps"
proof -
  let ?t = "s\<lparr>queries := (queries s)(p \<mapsto> m)\<rparr>"
  have inv: "qlist_inv s ps" "pool_inv s ps" "fd_inv s (socks_of s ps)" using assms(1) by (auto simp: query_inv_def)
  have nx: "q_nxt ?t = q_nxt s" using assms(3,4) by (auto simp: q_nxt_def same_core_def fun_eq_iff)
  have ok: "\<exists>k. queries ?t x = Some k \<and> query_ok ?t k" if "x \<in> set ps" for x
  proof (cases "x = p")
    case True
    then show ?thesis using assms(5) by (simp add: query_ok_def srv_live_def)
  next
    case False
    then show ?thesis using qlist_member [OF inv(1) that] by (auto simp: query_ok_def srv_live_def)
  qed
  have "p \<noteq> QLIST" using inv(1) assms(2) by (auto simp: qlist_inv_def circ_def)
  then have "head_ok ?t" using inv(1) by (simp add: qlist_inv_def head_ok_def)
  then have "qlist_inv ?t ps" using inv(1) nx ok assms(3) by (auto simp: qlist_inv_def)
  moreover have "socks_of ?t ps = socks_of s ps" "ids_of ?t ps = ids_of s ps"
    using assms(3,4) unfolding socks_of_def ids_of_def qrec_def same_core_def
    by (auto intro!: arg_cong [where f = concat] map_cong)
  ultimately show ?thesis using inv(2,3) by (simp add: query_inv_def pool_inv_def fd_inv_def)
qed

section \<open>Adding a query\<close>

lemma get_le16_Cons [simp]: "get_le16 (a # b # r) = Some (be16 b a)"
  using rd_numeral [of "a # b # r"] by (simp add: get_le16_def rd_def)

lemma put_le16_Cons [simp]: "put_le16 (a # b # r) w = Some (lo8 w # hi8 w # r)"
  by (simp add: put_le16_def wr_def)

lemma lo8_htons [simp]: "lo8 (c_htons w) = hi8 w" "hi8 (c_htons w) = lo8 w"
  by (simp_all add: c_htons_def)

text \<open>A query with the client's identifier is already there: its identifier goes into the message unconverted.\<close>

lemma query_add_known:
  assumes "query_inv s (as @ p # bs)" "\<forall>c \<in> set as. client_qid (qrec s c) \<noteq> be16 b a"
    and "client_qid (qrec s p) = be16 b a"
  defines "w \<equiv> my_qid (qrec s p)"
  shows "\<exists>s' m. query_add i srv from (a # b # rest) s = Some (last (QLIST # as), lo8 w # hi8 w # rest, s') \<and>
    queries s p = Some m \<and>
    s' = s\<lparr>queries := (queries s)(p \<mapsto> m\<lparr>client_time := clock s, client_count := client_count m + 1\<rparr>)\<rparr> \<and>
    query_inv s' (as @ p # bs)"
proof -
  have inv: "qlist_inv s (as @ p # bs)" using assms(1) by (simp add: query_inv_def)
  obtain m where m: "queries s p = Some m" "query_ok s m" using qlist_member [OF inv, of p] by auto
  obtain n where n: "queries s (last (QLIST # as)) = Some n" "q_next n = p" using qlist_step(1) [OF inv] by auto
  have f: "query_find s (be16 b a) QLIST = Some (last (QLIST # as))"
    using query_find_some [of s "[]" as p bs "be16 b a"] inv assms(2,3) by simp
  have "last (QLIST # as) \<noteq> NULL" using inv by (cases as rule: rev_cases) (auto simp: qlist_inv_def QLIST_def)
  let ?m = "m\<lparr>client_time := clock s, client_count := client_count m + 1\<rparr>"
  let ?s' = "s\<lparr>queries := (queries s)(p \<mapsto> ?m)\<rparr>"
  have "query_add i srv from (a # b # rest) s = Some (last (QLIST # as), lo8 w # hi8 w # rest, ?s')"
    using f \<open>last (QLIST # as) \<noteq> NULL\<close> n m(1) by (simp add: query_add_def w_def qrec_def upd_query_def)
  moreover have "query_inv ?s' (as @ p # bs)"
    by (rule query_inv_data [OF assms(1) _ m(1)]) (use m(2) in \<open>auto simp: same_core_def q_socks_def query_ok_def\<close>)
  ultimately show ?thesis using m(1) by blast
qed

text \<open>Linking the new query behind the last one.\<close>

lemma link_pending:
  assumes "pending s ps q n"
  shows "\<exists>t s3 s4. queries s (qlist_tail s) = Some t \<and> q_link q (q_next t) s = Some s3 \<and>
    qlist_tail s3 = qlist_tail s \<and> q_link (qlist_tail s3) q s3 = Some s4 \<and> qlist_tail s4 = last (QLIST # ps) \<and>
    query_inv (s4\<lparr>qlist_tail := q\<rparr>) (ps @ [q]) \<and>
    s4 = s\<lparr>queries := (queries s)(q \<mapsto> n\<lparr>q_next := QLIST\<rparr>, qlist_tail s \<mapsto> t\<lparr>q_next := q\<rparr>)\<rparr>"
proof -
  have inv: "qlist_inv s ps" "queries s q = Some n" "query_ok s n" "q \<notin> set (QLIST # ps)" "q \<noteq> NULL"
    "fd_inv s (q_socks n @ socks_of s ps)" "distinct (my_qid n # ids_of s ps)"
    "qp.balanced (qids s) (set (my_qid n # ids_of s ps))"
    using assms by (auto simp: pending_def)
  have c: "circ (q_nxt s) QLIST (ps @ [])" "qlist_tail s = last (QLIST # ps)" using inv(1) by (auto simp: qlist_inv_def)
  obtain t where t: "queries s (last (QLIST # ps)) = Some t" "q_next t = QLIST"
    using qlist_step(1) [of s ps "[]"] inv(1) by auto
  have qt: "q \<noteq> last (QLIST # ps)" using inv(4) last_in_set [of "QLIST # ps"] by (auto simp del: last.simps)
  obtain s3 s4 where l: "q_link q QLIST s = Some s3" "q_link (last (QLIST # ps)) q s3 = Some s4"
    "circ (q_nxt s4) QLIST (ps @ q # [])"
    using qv.insert_after [OF c(1), of q "q_next n" QLIST] inv(2,4) t by auto
  have s3: "s3 = s\<lparr>queries := (queries s)(q \<mapsto> n\<lparr>q_next := QLIST\<rparr>)\<rparr>" using q_link_frame [OF l(1)] inv(2) by auto
  have s4: "s4 = s\<lparr>queries := (queries s)(q \<mapsto> n\<lparr>q_next := QLIST\<rparr>, last (QLIST # ps) \<mapsto> t\<lparr>q_next := q\<rparr>)\<rparr>"
    using q_link_frame [OF l(2)] t(1) qt unfolding s3 by auto
  let ?s5 = "s4\<lparr>qlist_tail := q\<rparr>"
  have q5: "queries ?s5 q = Some (n\<lparr>q_next := QLIST\<rparr>)" using s4 qt by simp
  have core: "\<exists>m m'. queries s p = Some m \<and> queries ?s5 p = Some m' \<and> same_core (m\<lparr>q_next := 0\<rparr>) (m'\<lparr>q_next := 0\<rparr>) \<and>
      (query_ok s m \<longrightarrow> query_ok ?s5 m')" if p: "p \<in> set ps" for p
  proof -
    obtain m where m: "queries s p = Some m" using qlist_member [OF inv(1) p] by blast
    have pq: "p \<noteq> q" using p inv(4) by auto
    show ?thesis
    proof (cases "p = last (QLIST # ps)")
      case True
      then show ?thesis using m t(1) s4 by (auto simp: same_core_def q_socks_def query_ok_def srv_live_def)
    next
      case False
      then show ?thesis using m pq s4 by (auto simp: same_core_def q_socks_def query_ok_def srv_live_def)
    qed
  qed
  have so: "socks_of ?s5 ps = socks_of s ps" "ids_of ?s5 ps = ids_of s ps"
    unfolding socks_of_def ids_of_def qrec_def
    using core by (fastforce simp: same_core_def q_socks_def intro!: arg_cong [where f = concat] map_cong)+
  have ok: "\<exists>m. queries ?s5 p = Some m \<and> query_ok ?s5 m" if "p \<in> set (ps @ [q])" for p
  proof (cases "p = q")
    case True
    then show ?thesis using q5 inv(3) s4 by (simp add: query_ok_def srv_live_def)
  next
    case False
    then have p: "p \<in> set ps" using that by simp
    show ?thesis using core [OF p] qlist_member [OF inv(1) p] by auto
  qed
  have dm: "dom (queries ?s5) = dom (queries s)" using s4 inv(2) t(1) by auto
  have "head_ok s" using inv(1) by (simp add: qlist_inv_def)
  then have "head_ok ?s5" using inv(4) t(1) s4 by (auto simp: head_ok_def)
  then have "qlist_inv ?s5 (ps @ [q])"
    using l(3) inv(1,5) ok dm s4 by (simp add: qlist_inv_def q_nxt_def)
  moreover have "socks_of ?s5 (ps @ [q]) = socks_of s ps @ q_socks n" "ids_of ?s5 (ps @ [q]) = ids_of s ps @ [my_qid n]"
    using so q5 by (simp_all add: socks_of_def ids_of_def qrec_def q_socks_def)
  moreover have "fd_inv ?s5 (socks_of s ps @ q_socks n)" using inv(6) s4 by (auto simp: fd_inv_def)
  ultimately have "query_inv ?s5 (ps @ [q])" using inv(7,8) s4 by (simp add: query_inv_def pool_inv_def)
  then show ?thesis using t l(1,2) s3 s4 c(2) by auto
qed

text \<open>A new query is created, its identifier goes into the message in network order, and it is the last of the list.\<close>

lemma query_add_new:
  assumes "query_inv s ps" "srv_live s srv" "ports_avail s" "no_newq s" "upstream_sockets s < max_sockets s"
    and "\<forall>c \<in> set ps. client_qid (qrec s c) \<noteq> be16 b a"
  shows "\<exists>r msg' s'. query_add i srv from (a # b # rest) s = Some (r, msg', s') \<and> q_frame s s' \<and> good_ports s s' \<and>
    sent s' = sent s \<and>
    (if r = NULL then msg' = a # b # rest \<and> query_inv s' ps
     else r = last (QLIST # ps) \<and> (\<exists>q n. query_inv s' (ps @ [q]) \<and> queries s' q = Some n \<and>
       msg' = hi8 (my_qid n) # lo8 (my_qid n) # rest \<and> my_qid n \<notin> set (ids_of s ps) \<and>
       client_qid n = be16 b a \<and> client n = from \<and> client_time n = clock s \<and> client_count n = 1 \<and>
       q_srv n = srv \<and> is_dummy n = (if i = NULL then 1 else 0) \<and> ttl n = forward_timeout s \<and>
       fail_msg_len n = 0 \<and> resp_sent n = 0 \<and> serv_sent_cnt n = 0 \<and> srv_list n = [NULL, NULL, NULL]))"
proof -
  have inv: "qlist_inv s ps" using assms(1) by (simp add: query_inv_def)
  have f: "query_find s (be16 b a) QLIST = Some NULL"
    using query_find_none [of s "[]" ps "be16 b a"] inv assms(6) by simp
  have gn: "query_get_new i srv s = query_create i srv s" by (rule query_get_new_eq [OF assms(1-4)])
  obtain r s1 where c: "query_create i srv s = Some (r, s1)" "q_frame s s1" "good_ports s s1" "sent s1 = sent s"
    "\<forall>p \<in> set ps. queries s1 p = queries s p"
    "if r = NULL then query_inv s1 ps
     else r = brk s \<and> (\<exists>n. pending s1 ps r n \<and> q_srv n = srv \<and> is_dummy n = (if i = NULL then 1 else 0) \<and>
       ttl n = forward_timeout s \<and> fail_msg_len n = 0 \<and> resp_sent n = 0 \<and> serv_sent_cnt n = 0 \<and>
       srv_list n = [NULL, NULL, NULL])"
    using query_create_ok [OF assms(1-3,5)] by blast
  show ?thesis
  proof (cases "r = NULL")
    case True
    then have "query_add i srv from (a # b # rest) s = Some (NULL, a # b # rest, s1)"
      using f gn c(1) by (simp add: query_add_def)
    then show ?thesis using True c by auto
  next
    case False
    then obtain n where n: "pending s1 ps r n" "q_srv n = srv" "is_dummy n = (if i = NULL then 1 else 0)"
       "ttl n = forward_timeout s" "fail_msg_len n = 0" "resp_sent n = 0" "serv_sent_cnt n = 0" "srv_list n = [NULL, NULL, NULL]"
      using c(6) by auto
    let ?k = "n\<lparr>client_qid := be16 b a, client := from, client_time := clock s, client_count := 1\<rparr>"
    let ?s2 = "s1\<lparr>queries := (queries s1)(r \<mapsto> ?k)\<rparr>"
    have p1: "qlist_inv s1 ps" "queries s1 r = Some n" "query_ok s1 n" "r \<notin> set (QLIST # ps)"
      "fd_inv s1 (q_socks n @ socks_of s1 ps)" "distinct (my_qid n # ids_of s1 ps)"
      "qp.balanced (qids s1) (set (my_qid n # ids_of s1 ps))"
      using n(1) by (auto simp: pending_def)
    have ids: "ids_of s1 ps = ids_of s ps" using c(5) by (simp add: ids_of_def qrec_def)
    have li: "qlist_inv ?s2 ps" "socks_of ?s2 ps = socks_of s1 ps" "ids_of ?s2 ps = ids_of s1 ps"
    proof -
      have 1: "queries ?s2 p = queries s1 p" if "p \<in> set (QLIST # ps)" for p using p1(4) that by auto
      have 2: "p < brk ?s2" if "p \<in> dom (queries ?s2)" for p
        using that p1(1,2) by (auto simp: qlist_inv_def split: if_splits)
      show "qlist_inv ?s2 ps" "socks_of ?s2 ps = socks_of s1 ps" "ids_of ?s2 ps = ids_of s1 ps"
        using qlist_inv_cong [OF p1(1) 1 _ _ 2] by (auto simp: srv_live_def)
    qed
    have ok2: "query_ok ?s2 ?k" using p1(3) by (simp add: query_ok_def srv_live_def)
    have so2: "q_socks ?k = q_socks n" by (simp add: q_socks_def)
    have "pending ?s2 ps r ?k"
      using li ok2 so2 p1 n(1) by (simp add: pending_def fd_inv_def)
    from link_pending [OF this] obtain t s3 s4 where l: "queries ?s2 (qlist_tail ?s2) = Some t"
      "q_link r (q_next t) ?s2 = Some s3" "qlist_tail s3 = qlist_tail ?s2" "q_link (qlist_tail s3) r s3 = Some s4"
      "qlist_tail s4 = last (QLIST # ps)" "query_inv (s4\<lparr>qlist_tail := r\<rparr>) (ps @ [r])"
      "s4 = ?s2\<lparr>queries := (queries ?s2)(r \<mapsto> ?k\<lparr>q_next := QLIST\<rparr>, qlist_tail ?s2 \<mapsto> t\<lparr>q_next := r\<rparr>)\<rparr>" by blast
    let ?s5 = "s4\<lparr>qlist_tail := r\<rparr>"
    have add: "query_add i srv from (a # b # rest) s =
        Some (last (QLIST # ps), hi8 (my_qid n) # lo8 (my_qid n) # rest, ?s5)"
      using f gn c(1) False p1(2) l(1-5) by (simp add: query_add_def upd_query_def)
    have "qlist_tail ?s2 \<noteq> r" using p1(1,4) last_in_set [of "QLIST # ps"] by (auto simp: qlist_inv_def simp del: last.simps)
    then have q5: "queries ?s5 r = Some (?k\<lparr>q_next := QLIST\<rparr>)" using l(7) by simp
    have fr: "q_frame s ?s5" by (rule q_frame_trans [OF c(2)]) (simp add: q_frame_def l(7))
    have nn: "last (QLIST # ps) \<noteq> NULL" using inv by (cases ps rule: rev_cases) (auto simp: qlist_inv_def QLIST_def)
    have "\<exists>q n'. query_inv ?s5 (ps @ [q]) \<and> queries ?s5 q = Some n' \<and>
       hi8 (my_qid n) # lo8 (my_qid n) # rest = hi8 (my_qid n') # lo8 (my_qid n') # rest \<and> my_qid n' \<notin> set (ids_of s ps) \<and>
       client_qid n' = be16 b a \<and> client n' = from \<and> client_time n' = clock s \<and> client_count n' = 1 \<and>
       q_srv n' = srv \<and> is_dummy n' = (if i = NULL then 1 else 0) \<and> ttl n' = forward_timeout s \<and>
       fail_msg_len n' = 0 \<and> resp_sent n' = 0 \<and> serv_sent_cnt n' = 0 \<and> srv_list n' = [NULL, NULL, NULL]"
      by (intro exI [of _ r] exI [of _ "?k\<lparr>q_next := QLIST\<rparr>"]) (use l(6) q5 n p1(6) ids in simp)
    moreover have "good_ports s ?s5" using c(3) l(7) by (simp add: good_ports_def)
    moreover have "sent ?s5 = sent s" using c(4) l(7) by simp
    ultimately show ?thesis using add fr
      by (intro exI [of _ "last (QLIST # ps)"] exI [of _ "hi8 (my_qid n) # lo8 (my_qid n) # rest"] exI [of _ ?s5])
        (simp only: if_not_P [OF nn] simp_thms)
  qed
qed

section \<open>Deleting a query\<close>

lemma length_filter_notin:
  assumes "distinct xs" "distinct ys" "set ys \<subseteq> set xs"
  shows "length (filter (\<lambda>x. x \<notin> set ys) xs) + length ys = length xs"
proof -
  have "length (filter (\<lambda>x. x \<notin> set ys) xs) = card (set xs - set ys)"
    using assms(1) by (subst distinct_card [symmetric]) (auto intro!: arg_cong [where f = card])
  moreover have "card (set xs - set ys) + card (set ys) = card (set xs)"
    using card_Diff_subset [OF _ assms(3)] card_mono [OF _ assms(3)] by simp
  ultimately show ?thesis using assms(1,2) by (simp add: distinct_card)
qed

text \<open>All sockets of the query are closed and leave the set that \<open>pselect\<close> watches.\<close>

lemma rd_1: "rd (x # y # xs) 1 = Some y"
  by (simp add: rd_def)

lemma close_sockets_ok:
  assumes "length (sock_arr n) = 3" "\<forall>fd \<in> set (q_socks n). 0 \<le> fd \<and> fd < FD_SETSIZE"
  shows "\<exists>fdm. close_sockets [0, 1, 2] n s = Some (s\<lparr>open_fds := filter (\<lambda>x. x \<notin> set (q_socks n)) (open_fds s),
     upstream_sockets := upstream_sockets s - int (length (q_socks n)), fdmaster := fdm\<rparr>) \<and>
     set fdm \<inter> set (q_socks n) = {}"
proof -
  obtain x y z where a: "sock_arr n = [x, y, z]" using assms(1) by (auto simp: length_Suc_conv numeral_3_eq_3)
  show ?thesis
  proof (cases "is_dummy n = 1")
    case True
    then show ?thesis using assms(2) a
      by (intro exI [of _ "filter (\<lambda>u. u \<noteq> x) (fdmaster s)"]) (simp add: q_socks_def fd_clr_def os_close_def)
  next
    case False
    then show ?thesis using assms(2) a
      by (intro exI [of _ "filter (\<lambda>u. u \<noteq> z) (filter (\<lambda>u. u \<noteq> y) (filter (\<lambda>u. u \<noteq> x) (fdmaster s)))"])
        (simp add: q_socks_def fd_clr_def os_close_def numeral_2_eq_2 rd_1 Let_def)
  qed
qed

lemma query_delete_next_ok:
  assumes "query_inv s (as @ p # bs)"
  shows "\<exists>s'. query_delete_next (last (QLIST # as)) s = Some s' \<and> query_inv s' (as @ bs) \<and> q_frame s s' \<and>
    queries s' p = None \<and> sent s' = sent s \<and> bound s' = bound s \<and> brk s' = brk s \<and> io s' = io s \<and>
    set (open_fds s') = set (open_fds s) - set (q_socks (qrec s p)) \<and>
    set (fdmaster s') \<inter> set (q_socks (qrec s p)) = {} \<and>
    (\<forall>x \<in> set (QLIST # as @ bs). \<exists>m m'. queries s x = Some m \<and> queries s' x = Some m' \<and> m'\<lparr>q_next := 0\<rparr> = m\<lparr>q_next := 0\<rparr>)"
proof -
  define lp where "lp = last (QLIST # as)"
  have inv: "qlist_inv s (as @ p # bs)" "pool_inv s (as @ p # bs)" "fd_inv s (socks_of s (as @ p # bs))"
    using assms by (auto simp: query_inv_def)
  have c: "circ (q_nxt s) QLIST (as @ p # bs)" "qlist_tail s = last (QLIST # as @ p # bs)"
    using inv(1) by (auto simp: qlist_inv_def)
  obtain n where n: "queries s p = Some n" "query_ok s n" using qlist_member [OF inv(1), of p] by auto
  obtain z s1 where d: "q_nxt s lp = Some p" "q_nxt s p = Some z" "q_link lp z s = Some s1"
    "circ (q_nxt s1) QLIST (as @ bs)"
    using qv.delete_after [OF c(1)] unfolding lp_def by blast
  obtain l where l: "queries s lp = Some l" "q_next l = p" using d(1) by auto
  have z: "z = q_next n" using d(2) n(1) by simp
  have s1: "s1 = s\<lparr>queries := (queries s)(lp \<mapsto> l\<lparr>q_next := z\<rparr>)\<rparr>" using q_link_frame [OF d(3)] l(1) by auto
  have dist: "distinct (QLIST # as @ p # bs)" using c(1) by (simp add: circ_def)
  have pl: "p \<noteq> lp" using dist last_in_set [of "QLIST # as"] by (auto simp del: last.simps simp: lp_def)
  define tl' where "tl' = (if qlist_tail s = p then lp else qlist_tail s)"
  define s2 where "s2 = s1\<lparr>qlist_tail := tl'\<rparr>"
  have tl_eq: "tl' = last (QLIST # as @ bs)"
  proof (cases bs rule: rev_cases)
    case Nil
    then show ?thesis using c(2) by (simp add: tl'_def lp_def)
  next
    case (snoc bs' b)
    then have "qlist_tail s = b" "b \<noteq> p" using c(2) dist by auto
    then show ?thesis using snoc by (simp add: tl'_def)
  qed
  have s2: "(if qlist_tail s1 = p then s1\<lparr>qlist_tail := lp\<rparr> else s1) = s2" by (simp add: tl'_def s1 s2_def)
  have n2: "queries s2 p = Some n" "qids s2 = qids s" using n(1) pl s1 by (simp_all add: s2_def)
  have del: "query_delete_next lp s = query_destroy p s2"
    using l n(1) d(3) z s2 by (simp add: query_delete_next_def Let_def)
  let ?ids = "ids_of s (as @ p # bs)"
  have ids: "?ids = ids_of s as @ my_qid n # ids_of s bs" using n(1) by (simp add: ids_of_def qrec_def)
  obtain qs where qs: "qid_return (my_qid n) (qids s) = Some (my_qid n, qs)" "qp.balanced qs (set ?ids - {my_qid n})"
    using qp.balanced_put [of "qids s" "set ?ids" "my_qid n"] inv(2) ids by (auto simp: pool_inv_def)
  have ids': "set ?ids - {my_qid n} = set (ids_of s (as @ bs))" "distinct (ids_of s (as @ bs))"
    using inv(2) ids by (auto simp: pool_inv_def ids_of_def)
  have socks: "socks_of s (as @ p # bs) = socks_of s as @ q_socks n @ socks_of s bs"
    using n(1) by (simp add: socks_of_def qrec_def)
  have fds: "\<forall>fd \<in> set (q_socks n). 0 \<le> fd \<and> fd < FD_SETSIZE" "set (q_socks n) \<subseteq> set (open_fds s)" "distinct (q_socks n)"
    using inv(3) socks by (auto simp: fd_inv_def)
  have l3: "length (sock_arr n) = 3" using n(2) by (simp add: query_ok_def)
  obtain s3 fdm where cl: "close_sockets [0, 1, 2] n (s2\<lparr>qids := qs\<rparr>) = Some s3"
     "s3 = s2\<lparr>qids := qs, open_fds := filter (\<lambda>x. x \<notin> set (q_socks n)) (open_fds s),
     upstream_sockets := upstream_sockets s - int (length (q_socks n)), fdmaster := fdm\<rparr>" "set fdm \<inter> set (q_socks n) = {}"
    using close_sockets_ok [OF l3 fds(1), of "s2\<lparr>qids := qs\<rparr>"] by (auto simp: s1 s2_def)
  define s' where "s' = s\<lparr>queries := (queries s)(lp \<mapsto> l\<lparr>q_next := z\<rparr>, p := None), qlist_tail := tl', qids := qs,
     open_fds := filter (\<lambda>x. x \<notin> set (q_socks n)) (open_fds s), total_queries := total_queries s + 1,
     upstream_sockets := upstream_sockets s - int (length (q_socks n)), fdmaster := fdm\<rparr>"
  have q3: "queries s3 = (queries s)(lp \<mapsto> l\<lparr>q_next := z\<rparr>)" "queries s3 p = Some n"
    using n(1) pl by (simp_all add: cl(2) s2_def s1)
  have "query_destroy p s2 = free_query p (s3\<lparr>total_queries := total_queries s3 + 1\<rparr>)"
    using n2 qs(1) cl(1) by (simp add: query_destroy_def del: close_sockets.simps)
  also have "\<dots> = Some s'" using q3 by (simp add: free_query_def s'_def) (simp add: cl(2) s2_def s1)
  finally have run: "query_delete_next lp s = Some s'" unfolding del .
  have q': "queries s' x = (if x = lp then Some (l\<lparr>q_next := z\<rparr>) else queries s x)" if "x \<noteq> p" for x
    using that by (simp add: s'_def)
  have nxt: "q_nxt s' = (q_nxt s1)(p := None)" using pl by (auto simp: q_nxt_def s'_def s1 fun_eq_iff)
  have circ': "circ (q_nxt s') QLIST (as @ bs)" unfolding nxt using d(4) dist by simp
  have core: "\<exists>m m'. queries s x = Some m \<and> queries s' x = Some m' \<and> m'\<lparr>q_next := 0\<rparr> = m\<lparr>q_next := 0\<rparr>"
    if x: "x \<in> set (QLIST # as @ bs)" for x
  proof -
    obtain m where m: "queries s x = Some m" using qlist_member [OF inv(1), of x] circ_next [OF c(1)] x by auto
    have "x \<noteq> p" using x dist by auto
    then show ?thesis using q' [of x] m l(1) by auto
  qed
  have sel: "q_socks m' = q_socks m" "my_qid m' = my_qid m" "query_ok s' m' = query_ok s m"
    if e: "m'\<lparr>q_next := 0\<rparr> = m\<lparr>q_next := 0\<rparr>" for m m'
    using arg_cong [OF e, of sock_arr] arg_cong [OF e, of is_dummy] arg_cong [OF e, of my_qid] arg_cong [OF e, of srv_list]
      arg_cong [OF e, of q_srv] arg_cong [OF e, of fail_msg_len] arg_cong [OF e, of cached_fail_msg]
    by (auto simp: q_socks_def query_ok_def srv_live_def s'_def)
  have mem: "\<forall>x \<in> set (as @ bs). \<exists>m. queries s' x = Some m \<and> query_ok s' m"
  proof
    fix x
    assume x: "x \<in> set (as @ bs)"
    obtain m m' where m: "queries s x = Some m" "queries s' x = Some m'" "m'\<lparr>q_next := 0\<rparr> = m\<lparr>q_next := 0\<rparr>"
      using core [of x] x by auto
    have "query_ok s m" using qlist_member [OF inv(1), of x] x m(1) by auto
    then show "\<exists>m. queries s' x = Some m \<and> query_ok s' m" using m(2) sel(3) [OF m(3)] by simp
  qed
  have dm: "dom (queries s') \<subseteq> dom (queries s)" using l(1) by (auto simp: s'_def split: if_splits)
  have "head_ok s'"
    using core [of QLIST] inv(1) by (auto simp: head_ok_def qlist_inv_def dest: arg_cong [of _ _ sock_arr])
  then have li: "qlist_inv s' (as @ bs)"
    using circ' inv(1) mem dm tl_eq by (auto simp: qlist_inv_def s'_def)
  have rec: "q_socks (qrec s' x) = q_socks (qrec s x) \<and> my_qid (qrec s' x) = my_qid (qrec s x)" if x: "x \<in> set (as @ bs)" for x
  proof -
    obtain m m' where m: "queries s x = Some m" "queries s' x = Some m'" "m'\<lparr>q_next := 0\<rparr> = m\<lparr>q_next := 0\<rparr>"
      using core [of x] x by auto
    show ?thesis using sel(1,2) [OF m(3)] m(1,2) by (simp add: qrec_def)
  qed
  have so: "socks_of s' (as @ bs) = socks_of s (as @ bs)" "ids_of s' (as @ bs) = ids_of s (as @ bs)"
  proof -
    have "map (\<lambda>p. q_socks (qrec s' p)) (as @ bs) = map (\<lambda>p. q_socks (qrec s p)) (as @ bs)"
      "map (\<lambda>p. my_qid (qrec s' p)) (as @ bs) = map (\<lambda>p. my_qid (qrec s p)) (as @ bs)"
      using rec by (intro map_cong refl; blast)+
    then show "socks_of s' (as @ bs) = socks_of s (as @ bs)" "ids_of s' (as @ bs) = ids_of s (as @ bs)"
      unfolding socks_of_def ids_of_def by presburger+
  qed
  have pool: "pool_inv s' (as @ bs)" using so(2) ids' qs(2) by (simp add: pool_inv_def s'_def)
  have "fd_inv s' (socks_of s (as @ bs))"
  proof -
    have "length (filter (\<lambda>x. x \<notin> set (q_socks n)) (open_fds s)) + length (q_socks n) = length (open_fds s)"
      using inv(3) fds by (intro length_filter_notin) (auto simp: fd_inv_def)
    moreover have "set (socks_of s (as @ bs)) \<inter> set (q_socks n) = {}" "distinct (socks_of s (as @ bs))"
      using inv(3) socks by (auto simp: fd_inv_def socks_of_def)
    moreover have "set (socks_of s (as @ bs)) \<subseteq> set (open_fds s)" using inv(3) socks by (auto simp: fd_inv_def socks_of_def)
    ultimately show ?thesis using inv(3) by (auto simp: fd_inv_def s'_def)
  qed
  then have "query_inv s' (as @ bs)" using li pool so(1) by (simp add: query_inv_def)
  moreover have "q_frame s s'" by (simp add: q_frame_def s'_def)
  moreover have "queries s' p = None" "sent s' = sent s" "bound s' = bound s" "brk s' = brk s" "io s' = io s"
    by (simp_all add: s'_def)
  moreover have "set (open_fds s') = set (open_fds s) - set (q_socks (qrec s p))"
    "set (fdmaster s') \<inter> set (q_socks (qrec s p)) = {}" using n(1) cl(3) by (auto simp: s'_def qrec_def)
  ultimately show ?thesis using run core unfolding lp_def by blast
qed

end
