(* ===== verification/Common.thy ===== *)
theory Common
  imports Dns
begin

text \<open>
  The name conversions of src/common.c: \<open>make_cname\<close> packs a dotted name, \<open>cname2asc\<close> is
  meant to be its inverse. Also the prefixes of log messages. Logging itself, the pid file
  and process exit are input and output and are not modelled.
\<close>

section \<open>Searching a string\<close>

text \<open>\<open>strchr (s + p, ch)\<close> as a position: \<open>Some None\<close> when the string ends first.\<close>

function strchr_pos :: "bytes \<Rightarrow> nat \<Rightarrow> byte \<Rightarrow> nat option option" where
  "strchr_pos s p ch = (case rd s (int p) of None \<Rightarrow> None
     | Some c \<Rightarrow> if c = ch then Some (Some p) else if c = 0 then Some None
                else strchr_pos s (Suc p) ch)"
  by pat_completeness auto
termination
  by (relation "measure (\<lambda>(s, p, ch). length s - p)") (auto split: if_splits)

declare strchr_pos.simps [simp del]

section \<open>Packing a name\<close>

text \<open>
  The loop of \<open>make_cname\<close>: \<open>e\<close> is \<open>end - asc\<close>, \<open>tp\<close> is \<open>tptr - asc\<close> and \<open>cp\<close> is
  \<open>cptr - cname\<close>. The label length is stored in a \<open>char\<close>. The inner \<open>None\<close> is the NULL that
  the function returns for an empty label. The test \<open>length asc < e'\<close> never holds; it shows
  that the walk stays inside the text.
\<close>

definition c_memcpy :: "bytes \<Rightarrow> nat \<Rightarrow> bytes \<Rightarrow> nat \<Rightarrow> nat \<Rightarrow> bytes option" where
  "c_memcpy dst d src p n =
     (if d + n \<le> length dst \<and> p + n \<le> length src then
        Some (take d dst @ take n (drop p src) @ drop (d + n) dst)
      else None)"

function make_cname_loop :: "bytes \<Rightarrow> nat \<Rightarrow> nat \<Rightarrow> nat \<Rightarrow> nat \<Rightarrow> bytes \<Rightarrow> (nat \<times> bytes) option option" where
  "make_cname_loop asc maxlen e tp cp cname =
     (case rd asc (int e) of None \<Rightarrow> None
      | Some c \<Rightarrow>
        if c = 0 then Some (Some (cp, cname))
        else case strchr_pos asc tp 46 of None \<Rightarrow> None
        | Some r \<Rightarrow>
          case (case r of Some q \<Rightarrow> Some q | None \<Rightarrow> c_strnlen asc maxlen) of None \<Rightarrow> None
          | Some e' \<Rightarrow>
            if e' \<le> tp then Some None
            else if length asc < e' then None
            else case wr cname (int cp) (of_nat (e' - tp)) of None \<Rightarrow> None
            | Some c1 \<Rightarrow>
              case c_memcpy c1 (Suc cp) asc tp (e' - tp) of None \<Rightarrow> None
              | Some c2 \<Rightarrow> make_cname_loop asc maxlen e' (Suc e') (Suc cp + (e' - tp)) c2)"
  by pat_completeness auto
termination
  by (relation "measure (\<lambda>(asc, maxlen, e, tp, cp, cname). Suc (length asc) - tp)")
    (auto split: option.splits if_splits)

declare make_cname_loop.simps [simp del]

definition make_cname :: "bytes \<Rightarrow> nat \<Rightarrow> bytes option option" where
  "make_cname asc maxlen = do {
     n \<leftarrow> c_strnlen asc maxlen;
     r \<leftarrow> make_cname_loop asc maxlen 0 0 0 (replicate (n + 2) 0);
     (case r of None \<Rightarrow> Some None
      | Some (cp, cname) \<Rightarrow> do {
          cname' \<leftarrow> wr cname (int cp) 0;
          if cp = n + 1 then Some (Some cname') else None
        })
   }"

text \<open>\<open>cname2asc\<close> fills a static buffer of 256 bytes; \<open>None\<close> as argument is NULL.\<close>

definition cname2asc :: "bytes \<Rightarrow> bytes \<Rightarrow> bytes option \<Rightarrow> bytes option" where
  "cname2asc vc buf cname =
     (case cname of
        Some s \<Rightarrow> do {
          n \<leftarrow> c_strlen s;
          (r, buf') \<leftarrow> snprintf_cname vc s n 0 buf 256;
          Some buf'
        }
      | None \<Rightarrow> c_strncpy buf (bstr ''(default)'') 256)"

definition get_typestr :: "nat \<Rightarrow> bytes" where
  "get_typestr type =
     (if type = 0 then bstr ''EMERG: '' else if type = 1 then bstr ''ALERT: ''
      else if type = 2 then bstr ''CRIT:  '' else if type = 3 then bstr ''ERROR: ''
      else if type = 4 then bstr ''Warning: '' else if type = 5 then bstr ''Notice: ''
      else if type = 6 then bstr ''Info:  '' else if type = 7 then bstr ''Debug: ''
      else [])"

section \<open>What the conversions compute\<close>

lemma strchr_pos_run:
  assumes "0 \<in> set (drop p s)" "ch \<noteq> 0"
  shows "strchr_pos s p ch = Some (if ch \<in> set (cstr (drop p s))
    then Some (p + length (takeWhile (\<lambda>c. c \<noteq> ch) (cstr (drop p s)))) else None)"
  using assms
proof (induction s p ch rule: strchr_pos.induct)
  case (1 s p ch)
  have p: "p < length s" using "1.prems"(1) by (rule nul_in_range)
  consider (hit) "s ! p = ch" | (nul) "s ! p = 0" | (go) "s ! p \<noteq> ch" "s ! p \<noteq> 0" by blast
  then show ?case
  proof cases
    case go
    have "0 \<in> set (drop (Suc p) s)" using nul_drop_Suc "1.prems"(1) go(2) by blast
    then show ?thesis using "1.IH" [of "s ! p"] "1.prems"(2) p go
      by (simp add: strchr_pos.simps [of s p] cstr_drop_Cons)
  qed (use p "1.prems"(2) in \<open>auto simp: strchr_pos.simps [of s p] cstr_drop_Cons cstr_drop_0\<close>)
qed

text \<open>
  \<open>cname2asc\<close> decodes at offset 0, which \<open>get_objname\<close> refuses because it lies in the packet
  header; so its result never depends on the name.
\<close>

lemma cname2asc_any:
  assumes "0 \<in> set cname" "256 \<le> length buf"
  shows "cname2asc vc buf (Some cname) =
    Some (malformatted @ replicate 242 0 @ drop 256 buf)"
proof -
  have "length malformatted = 14" by (simp add: malformatted_def bstr_def)
  then show ?thesis using assms
    by (simp add: cname2asc_def c_strlen_def snprintf_cname_def get_objname_def
        PACKET_DATABEGIN_def c_strncpy_def)
qed

text \<open>A name without empty labels is packed into its wire format.\<close>

lemma strchr_pos_label:
  assumes "drop p asc = l @ c # r" "0 \<notin> set l" "46 \<notin> set l" "c = 46 \<or> c = 0"
  shows "strchr_pos asc p 46 = Some (if c = 46 then Some (p + length l) else None)"
  using assms
proof (induction l arbitrary: p)
  case Nil
  then have p: "p < length asc" by (metis append_Nil drop_eq_Nil list.distinct(1) not_le)
  then have "asc ! p = c" using Nil.prems(1) by (simp add: Cons_nth_drop_Suc [symmetric])
  then show ?case using p Nil by (auto simp: strchr_pos.simps [of asc p])
next
  case (Cons a l)
  have p: "p < length asc" using Cons.prems(1) by (metis append_Cons drop_eq_Nil list.distinct(1) not_le)
  then have d: "asc ! p = a" "drop (Suc p) asc = l @ c # r"
    using Cons.prems(1) by (simp_all add: Cons_nth_drop_Suc [symmetric])
  have "strchr_pos asc (Suc p) 46 = Some (if c = 46 then Some (Suc p + length l) else None)"
    by (rule Cons.IH) (use Cons.prems d in auto)
  then show ?case using p d Cons.prems by (auto simp: strchr_pos.simps [of asc p])
qed

definition wire_body :: "bytes list \<Rightarrow> bytes" where
  "wire_body ls = concat (map (\<lambda>l. of_nat (length l) # l) ls)"

lemma wire_body_snoc: "wire_body (ls @ [l]) = wire_body ls @ of_nat (length l) # l"
  by (simp add: wire_body_def)

lemma length_wire_body: "length (wire_body ls) = length (dotted ls)"
  by (induction ls) (auto simp: wire_body_def)

lemma name_text_Cons: "ls \<noteq> [] \<Longrightarrow> name_text (l # ls) = l @ 46 # name_text ls"
  by (simp add: name_text_def dotted_eq_Nil butlast_append)

lemma name_text_Cons_ex: "\<exists>c t. name_text (l # ls) @ 0 # r = l @ c # t \<and> (c = (if ls = [] then 0 else 46))"
proof (cases "ls = []")
  case True
  then show ?thesis by (simp add: name_text_def)
next
  case False
  then show ?thesis by (simp add: name_text_Cons)
qed

lemma c_memcpy_fill:
  assumes "drop p src = l @ t" "length l < k" "l \<noteq> []"
  shows "c_memcpy ((d @ replicate k 0)[length d := x]) (Suc (length d)) src p (length l) =
    Some (d @ x # l @ replicate (k - Suc (length l)) 0)"
proof -
  have "length src - p = length l + length t" using assms(1) by (metis length_append length_drop)
  then have "p + length l \<le> length src" using assms(3) by (cases l) auto
  moreover obtain k' where "k = Suc k'" using assms(2) by (cases k) auto
  ultimately show ?thesis using assms by (simp add: c_memcpy_def)
qed

lemma make_cname_loop_labels:
  assumes "ls \<noteq> []" "wf_labels ls" "asc = dotted ds @ name_text ls @ 0 # r" "asc ! e \<noteq> 0" "e < length asc"
    and "length (dotted ls) \<le> k" "cstr asc = name_text (ds @ ls)" "length (cstr asc) < m"
  shows "make_cname_loop asc m e (length (dotted ds)) (length (dotted ds)) (wire_body ds @ replicate k 0) =
    Some (Some (length (dotted (ds @ ls)), wire_body (ds @ ls) @ replicate (k - length (dotted ls)) 0))"
  using assms
proof (induction ls arbitrary: ds e k)
  case Nil
  then show ?case by simp
next
  case (Cons l ls)
  let ?tp = "length (dotted ds)"
  obtain c t where ct: "name_text (l # ls) @ 0 # r = l @ c # t" "c = (if ls = [] then 0 else 46)"
    using name_text_Cons_ex by blast
  have d: "drop ?tp asc = l @ c # t" using Cons.prems(3) ct(1) by simp
  have lw: "l \<noteq> []" "0 \<notin> set l" "46 \<notin> set l" using Cons.prems(2) by auto
  have st: "strchr_pos asc ?tp 46 = Some (if c = 46 then Some (?tp + length l) else None)"
    by (rule strchr_pos_label [OF d lw(2,3)]) (use ct(2) in auto)
  have z: "0 \<in> set (take m asc)"
  proof -
    have "asc ! length (cstr asc) = 0" using Cons.prems(3) cstr_nth [of asc] by simp
    moreover have "length (cstr asc) < length asc" using Cons.prems(3) cstr_length_less [of asc] by simp
    ultimately show ?thesis using Cons.prems(8)
      by (auto simp: in_set_conv_nth intro!: exI [of _ "length (cstr asc)"])
  qed
  have nl: "c_strnlen asc m = Some (length (name_text (ds @ l # ls)))"
    using z Cons.prems(7) by (simp add: c_strnlen_def)
  have en: "ls = [] \<Longrightarrow> length (name_text (ds @ l # ls)) = ?tp + length l" by simp
  let ?e = "?tp + length l"
  have e': "(case (if c = 46 then Some ?e else None) of Some q \<Rightarrow> Some q | None \<Rightarrow> c_strnlen asc m) = Some ?e"
    using nl en ct(2) by auto
  have asc: "asc = (dotted ds @ l) @ c # t" using Cons.prems(3) ct(1) by simp
  have ae: "asc ! ?e = c" "?e < length asc"
    unfolding asc by (simp_all del: append_assoc add: nth_append)
  have lk: "length l < k" using Cons.prems(6) by simp
  have mc: "c_memcpy ((wire_body ds @ replicate k 0)[?tp := of_nat (length l)]) (Suc ?tp) asc ?tp (length l) =
      Some (wire_body (ds @ [l]) @ replicate (k - Suc (length l)) 0)"
    using c_memcpy_fill [OF d lk lw(1), of "wire_body ds" "of_nat (length l)"]
    by (simp add: length_wire_body wire_body_snoc)
  have step: "make_cname_loop asc m e ?tp ?tp (wire_body ds @ replicate k 0) =
      make_cname_loop asc m ?e (Suc ?e) (Suc ?tp + length l) (wire_body (ds @ [l]) @ replicate (k - Suc (length l)) 0)"
    using Cons.prems(4,5) st e' lw(1) ae(2) lk mc
    by (subst make_cname_loop.simps) (simp add: length_wire_body)
  show ?case
  proof (cases "ls = []")
    case True
    then show ?thesis unfolding step using ae ct(2)
      by (subst make_cname_loop.simps) (simp add: dotted_snoc)
  next
    case False
    have nt: "name_text (l # ls) = l @ 46 # name_text ls" using False by (rule name_text_Cons)
    have "make_cname_loop asc m ?e (length (dotted (ds @ [l]))) (length (dotted (ds @ [l])))
        (wire_body (ds @ [l]) @ replicate (k - Suc (length l)) 0) =
      Some (Some (length (dotted ((ds @ [l]) @ ls)),
        wire_body ((ds @ [l]) @ ls) @ replicate (k - Suc (length l) - length (dotted ls)) 0))"
      by (rule Cons.IH) (use False Cons.prems ae ct(2) nt in \<open>auto simp: dotted_snoc\<close>)
    then show ?thesis unfolding step by (simp add: dotted_snoc)
  qed
qed

lemma make_cname_wire:
  assumes "wf_labels ls" "ls \<noteq> []" "length (name_text ls) < maxlen"
  shows "make_cname (name_text ls @ 0 # r) maxlen = Some (Some (wire_name ls))"
proof -
  let ?asc = "name_text ls @ 0 # r"
  have cs: "cstr ?asc = name_text ls" using name_text_no_nul [OF assms(1)] by simp
  have dl: "length (dotted ls) = Suc (length (name_text ls))"
    using dotted_name_text [OF assms(2)] by (metis length_append_singleton)
  have "0 \<in> set (take maxlen ?asc)" using assms(3) by (simp add: take_Cons')
  then have nl: "c_strnlen ?asc maxlen = Some (length (name_text ls))" using cs by (simp add: c_strnlen_def)
  have "?asc ! 0 \<noteq> 0" "0 < length ?asc"
    using name_text_last [OF assms(1,2)] name_text_no_nul [OF assms(1)]
    by (metis hd_in_set hd_conv_nth nth_append length_greater_0_conv) simp
  then have "make_cname_loop ?asc maxlen 0 0 0 (replicate (length (name_text ls) + 2) 0) =
      Some (Some (length (dotted ls), wire_body ls @ [0]))"
    using make_cname_loop_labels [of ls ?asc "[]" r 0 "length (name_text ls) + 2" maxlen] assms cs dl
    by (simp add: wire_body_def)
  moreover have "(wire_body ls @ [0])[length (dotted ls) := 0] = wire_name ls"
    by (metis length_wire_body list_update_length wire_body_def wire_name_def)
  ultimately show ?thesis using nl dl
    by (simp add: make_cname_def length_wire_body)
qed

end
