(* ===== verification/Master.thy ===== *)
theory Master
  imports Common Libc
begin

text \<open>
  The small DNS server for local hosts, src/master.c: the database, its configuration files,
  the lookups and the assembly of answers. A record of the database owns its strings, so
  they are values in it, and the array \<open>dbv\<close> of \<open>dbc\<close> used elements is a list. A
  \<open>string_t\<close> holds the text without its NUL. The files are part of the state, from a name to
  the contents; \<open>domain_garbage\<close> is what the uninitialised local \<open>domain\<close> of
  \<open>read_configuration\<close> holds. The answer packet is assembled in a static buffer of
  \<open>PACKET_ASSEMBLYSIZE\<close> bytes that \<open>begin_assembly\<close> clears, so it is a value as well; a write
  behind its end is \<open>None\<close>.
\<close>

definition PACKET_ASSEMBLYSIZE :: nat where "PACKET_ASSEMBLYSIZE = 600"
definition ARPADOMAIN :: bytes where "ARPADOMAIN = bstr ''.in-addr.arpa''"
definition DNS_TYPE_A :: u32 where "DNS_TYPE_A = 1"
definition DNS_TYPE_NS :: u32 where "DNS_TYPE_NS = 2"
definition DNS_TYPE_PTR :: u32 where "DNS_TYPE_PTR = 12"
definition DEFAULT_TTL :: u32 where "DEFAULT_TTL = 60 * 60"

section \<open>The database\<close>

record string_t =
  st_code :: u32
  st_string :: bytes

datatype rec_data = Nameip string_t u32 | Dns_server string_t | Authority

record dnsrec =
  rec_object :: string_t
  rec_data :: rec_data

record master_state =
  master_onoff :: int
  master_initialised :: int
  master_reload :: int
  master_config :: bytes
  blacklist :: bytes
  auto_authority :: int
  dbmax :: int
  dbv :: "dnsrec list"
  files :: "bytes \<Rightarrow> bytes option"
  domain_garbage :: bytes

text \<open>The strings that are passed are buffers that hold a NUL.\<close>

definition mkstring :: "bytes \<Rightarrow> int \<Rightarrow> string_t option" where
  "mkstring name maxlen = do {
     n \<leftarrow> c_strlen name;
     t \<leftarrow> strnlwr (cstr name @ [0]) maxlen;
     Some \<lparr>st_code = get_stringcode (cstr t), st_string = cstr t\<rparr>
   }"

definition bswap32 :: "u32 \<Rightarrow> u32" where
  "bswap32 x = drop_bit 24 (x AND 0xff000000) OR drop_bit 8 (x AND 0x00ff0000) OR
     push_bit 8 (x AND 0x0000ff00) OR push_bit 24 (x AND 0x000000ff)"

text \<open>
  \<open>inet_aton\<close> yields the number in host order; \<open>raw\<close> is the field \<open>s_addr\<close> as this machine reads
  it. The inner \<open>None\<close> is the result 0.
\<close>

definition create_nameip :: "int \<Rightarrow> bytes \<Rightarrow> rec_data option option" where
  "create_nameip maxlen ip = do {
     n \<leftarrow> c_strlen ip;
     (case inet_aton (cstr ip) of
        None \<Rightarrow> Some None
      | Some a \<Rightarrow> do {
          let raw = bswap32 a;
          let num = bswap32 raw;
          let raw' = (if num = raw then bswap32 num else num);
          t \<leftarrow> mkstring (inet_ntoa (bswap32 raw') @ [0]) maxlen;
          Some (Some (Nameip t num))
        })
   }"

definition add_record :: "dnsrec \<Rightarrow> 'a master_state_scheme \<Rightarrow> 'a master_state_scheme" where
  "add_record r m = m\<lparr>dbmax := (if dbmax m \<le> int (length (dbv m)) then dbmax m + 10 else dbmax m),
     dbv := dbv m @ [r]\<rparr>"

definition add_nameip :: "bytes \<Rightarrow> int \<Rightarrow> bytes \<Rightarrow> 'a master_state_scheme \<Rightarrow> 'a master_state_scheme option" where
  "add_nameip name maxlen ip m = do {
     t \<leftarrow> mkstring name maxlen;
     d \<leftarrow> create_nameip maxlen ip;
     Some (case d of None \<Rightarrow> m | Some d \<Rightarrow> add_record \<lparr>rec_object = t, rec_data = d\<rparr> m)
   }"

definition add_dns :: "bytes \<Rightarrow> int \<Rightarrow> bytes \<Rightarrow> int \<Rightarrow> 'a master_state_scheme \<Rightarrow> 'a master_state_scheme option" where
  "add_dns domain maxdomainlen dns maxdnslen m = do {
     t \<leftarrow> mkstring domain maxdomainlen;
     d \<leftarrow> mkstring dns maxdnslen;
     Some (add_record \<lparr>rec_object = t, rec_data = Dns_server d\<rparr> m)
   }"

definition add_authority :: "bytes \<Rightarrow> int \<Rightarrow> 'a master_state_scheme \<Rightarrow> 'a master_state_scheme option" where
  "add_authority domain maxlen m = do {
     t \<leftarrow> mkstring domain maxlen;
     Some (add_record \<lparr>rec_object = t, rec_data = Authority\<rparr> m)
   }"

definition reset_master :: "'a master_state_scheme \<Rightarrow> 'a master_state_scheme" where
  "reset_master m = m\<lparr>dbv := [], dbmax := 0\<rparr>"

section \<open>Lookups\<close>

definition is_ptr :: "bytes \<Rightarrow> dnsrec \<Rightarrow> bool" where
  "is_ptr arpanum r = (case rec_data r of
     Nameip t ip \<Rightarrow> st_code t = get_stringcode arpanum \<and> st_string t = arpanum | _ \<Rightarrow> False)"

definition ptr_lookup :: "bytes \<Rightarrow> 'a master_state_scheme \<Rightarrow> dnsrec option" where
  "ptr_lookup arpanum m = find (is_ptr arpanum) (dbv m)"

definition is_name :: "bytes \<Rightarrow> dnsrec \<Rightarrow> bool" where
  "is_name name r = (case rec_data r of
     Nameip t ip \<Rightarrow> st_code (rec_object r) = get_stringcode name \<and> st_string (rec_object r) = name | _ \<Rightarrow> False)"

definition name_lookup :: "bytes \<Rightarrow> 'a master_state_scheme \<Rightarrow> dnsrec option" where
  "name_lookup name m = find (is_name name) (dbv m)"

definition dns_matches :: "bytes \<Rightarrow> dnsrec \<Rightarrow> bool" where
  "dns_matches name r = (case rec_data r of
     Dns_server t \<Rightarrow>
       (let obj = st_string (rec_object r); k = int (length name) - int (length obj)
        in if k < 0 then False
           else if 0 < k \<and> name ! nat (k - 1) = 46 \<and> drop (nat k) name = obj then True
           else k = 0 \<and> name = obj)
   | _ \<Rightarrow> False)"

function dns_from :: "bytes \<Rightarrow> dnsrec list \<Rightarrow> nat \<Rightarrow> (nat \<times> dnsrec) option" where
  "dns_from name db i =
     (if i < length db then if dns_matches name (db ! i) then Some (i, db ! i) else dns_from name db (Suc i) else None)"
  by pat_completeness auto
termination
  by (relation "measure (\<lambda>(name, db, i). length db - i)") auto

declare dns_from.simps [simp del]

text \<open>The record found, if any, and the new value of \<open>*last\<close>.\<close>

definition dns_lookup :: "bytes \<Rightarrow> int \<Rightarrow> 'a master_state_scheme \<Rightarrow> dnsrec option \<times> int" where
  "dns_lookup name lst m =
     (let l = (if lst < 0 then 0 else lst + 1)
      in case dns_from name (dbv m) (nat l) of None \<Rightarrow> (None, l) | Some (i, r) \<Rightarrow> (Some r, int i))"

definition is_authority :: "bytes \<Rightarrow> dnsrec \<Rightarrow> bool" where
  "is_authority domain r \<longleftrightarrow> rec_data r = Authority \<and> st_code (rec_object r) = get_stringcode domain \<and>
     st_string (rec_object r) = domain"

definition authority_lookup :: "bytes \<Rightarrow> 'a master_state_scheme \<Rightarrow> dnsrec option" where
  "authority_lookup domain m = find (is_authority domain) (rev (dbv m))"

section \<open>Assembling answers\<close>

text \<open>\<open>*x->here++ = b\<close>, and \<open>memcpy (x->here, bs, n); x->here += n\<close>.\<close>

definition emit :: "byte \<Rightarrow> dnsheader_t \<Rightarrow> dnsheader_t option" where
  "emit b x = do {
     p \<leftarrow> wr (h_packet x) (int (h_here x)) b;
     Some (x\<lparr>h_packet := p, h_here := h_here x + 1\<rparr>)
   }"

definition emits :: "bytes \<Rightarrow> dnsheader_t \<Rightarrow> dnsheader_t option" where
  "emits bs x = do {
     p \<leftarrow> c_memcpy (h_packet x) (h_here x) bs 0 (length bs);
     Some (x\<lparr>h_packet := p, h_here := h_here x + length bs\<rparr>)
   }"

text \<open>The text of the name without its NUL; the loop stops at an empty label.\<close>

function compile_labels :: "bytes \<Rightarrow> dnsheader_t \<Rightarrow> dnsheader_t option" where
  "compile_labels name x =
     (let l = takeWhile (\<lambda>c. c \<noteq> 46) name
      in if l = [] then Some x
         else case emit (of_nat (length l) AND 0x3F) x of None \<Rightarrow> None
         | Some x1 \<Rightarrow> case emits l x1 of None \<Rightarrow> None
           | Some x2 \<Rightarrow> compile_labels (drop (Suc (length l)) name) x2)"
  by pat_completeness auto
termination
  by (relation "measure (\<lambda>(name, x). length name)") (auto simp: Let_def takeWhile_eq_Nil_iff)

declare compile_labels.simps [simp del]

definition compile_name :: "bytes \<Rightarrow> dnsheader_t \<Rightarrow> (nat \<times> dnsheader_t) option" where
  "compile_name name x = do {
     x1 \<leftarrow> compile_labels name x;
     x2 \<leftarrow> emit 0 x1;
     Some (h_here x, x2)
   }"

definition compile_namepointer :: "nat \<Rightarrow> dnsheader_t \<Rightarrow> dnsheader_t option" where
  "compile_namepointer ofs x = do {
     x1 \<leftarrow> emit 0xC0 x;
     emit (of_nat ofs AND 0x3F) x1
   }"

definition compile_int :: "u32 \<Rightarrow> dnsheader_t \<Rightarrow> dnsheader_t option" where
  "compile_int number x = emits [hi8 (ucast number), lo8 (ucast number)] x"

definition compile_long :: "u32 \<Rightarrow> dnsheader_t \<Rightarrow> dnsheader_t option" where
  "compile_long number x = emits [ucast (drop_bit 24 number), ucast (drop_bit 16 number),
     ucast (drop_bit 8 number), ucast number] x"

definition compile_objectname :: "dnsheader_t \<Rightarrow> dnsheader_t option" where
  "compile_objectname x = do { x1 \<leftarrow> emit 0xC0 x; emit 0x0C x1 }"

definition end_rdata :: "dnsheader_t \<Rightarrow> dnsheader_t option" where
  "end_rdata x = (case h_rdata x of
       None \<Rightarrow> Some x
     | Some r \<Rightarrow> do {
         let rsize = of_int (int (h_here x) - int (r + 2));
         p \<leftarrow> c_memcpy (h_packet x) r [hi8 rsize, lo8 rsize] 0 2;
         Some (x\<lparr>h_packet := p, h_rdata := None\<rparr>)
       })"

definition start_rdata :: "dnsheader_t \<Rightarrow> dnsheader_t option" where
  "start_rdata x = compile_int 0 (x\<lparr>h_rdata := Some (h_here x)\<rparr>)"

definition header_words :: "dnsheader_t \<Rightarrow> bytes" where
  "header_words x = concat (map (\<lambda>w. [hi8 w, lo8 w]) [h_u x, h_qdcount x, h_ancount x, h_nscount x, h_arcount x])"

definition end_assembly :: "dnsheader_t \<Rightarrow> dnsheader_t option" where
  "end_assembly x = do {
     x1 \<leftarrow> end_rdata x;
     p \<leftarrow> c_memcpy (h_packet x1) 2 (header_words x1) 0 10;
     Some (x1\<lparr>h_packet := p, h_len := h_here x1\<rparr>)
   }"

definition begin_assembly :: "rr_t \<Rightarrow> dnsheader_t option" where
  "begin_assembly query = do {
     n \<leftarrow> c_strlen (rr_name query);
     let x = \<lparr>h_id = 0, h_u = SET_QR 0 1, h_qdcount = 1, h_ancount = 0, h_nscount = 0, h_arcount = 0,
              h_here = PACKET_DATABEGIN, h_packet = replicate PACKET_ASSEMBLYSIZE 0, h_len = 0, h_rdata = None\<rparr>;
     (i, x1) \<leftarrow> compile_name (cstr (rr_name query)) x;
     x2 \<leftarrow> compile_int (rr_type query) x1;
     compile_int (rr_class query) x2
   }"

text \<open>The common parts of the records that are assembled: the fixed fields, and a name as data.\<close>

definition compile_fixed :: "u32 \<Rightarrow> dnsheader_t \<Rightarrow> dnsheader_t option" where
  "compile_fixed t x = do {
     x1 \<leftarrow> compile_int t x;
     x2 \<leftarrow> compile_int DNS_CLASS_INET x1;
     x3 \<leftarrow> compile_long DEFAULT_TTL x2;
     start_rdata x3
   }"

definition compile_namedata :: "bytes \<Rightarrow> dnsheader_t \<Rightarrow> dnsheader_t option" where
  "compile_namedata name x = do { (i, x1) \<leftarrow> compile_name name x; end_rdata x1 }"

definition server_name :: "dnsrec \<Rightarrow> bytes" where
  "server_name r = (case rec_data r of Dns_server t \<Rightarrow> st_string t | _ \<Rightarrow> [])"

partial_function (option) dnsrecords_loop ::
    "bytes \<Rightarrow> 'a master_state_scheme \<Rightarrow> int \<Rightarrow> nat \<Rightarrow> dnsheader_t \<Rightarrow> dnsheader_t option" where
  "dnsrecords_loop object m lst pos x =
     (case dns_lookup object lst m of
        (None, l) \<Rightarrow> Some x
      | (Some r, l) \<Rightarrow> do {
          (pos1, x1) \<leftarrow> (if pos = 0 then compile_name (st_string (rec_object r)) x
                       else map_option (\<lambda>y. (pos, y)) (compile_namepointer pos x));
          x2 \<leftarrow> compile_fixed DNS_TYPE_NS x1;
          x3 \<leftarrow> compile_namedata (server_name r) x2;
          dnsrecords_loop object m l pos1 (x3\<lparr>h_nscount := h_nscount x3 + 1\<rparr>)
        })"

declare dnsrecords_loop.simps [code]

definition compile_dnsrecords :: "bytes \<Rightarrow> 'a master_state_scheme \<Rightarrow> dnsheader_t \<Rightarrow> dnsheader_t option" where
  "compile_dnsrecords object m x = do {
     x1 \<leftarrow> dnsrecords_loop object m (- 1) 0 x;
     Some (if 0 <s h_nscount x1 then x1\<lparr>h_u := SET_AA (h_u x1) 1\<rparr> else x1)
   }"

section \<open>The configuration files\<close>

text \<open>
  \<open>fgets (buf, n, f)\<close> reads at most \<open>n - 1\<close> bytes, up to the next newline. The lines of a file are
  the pieces that the successive calls put into the buffer.
\<close>

definition fgets_piece :: "nat \<Rightarrow> bytes \<Rightarrow> bytes" where
  "fgets_piece n d =
     (let l = takeWhile (\<lambda>c. c \<noteq> 10) (take (n - 1) d) in take (min (n - 1) (Suc (length l))) d)"

function file_lines :: "nat \<Rightarrow> bytes \<Rightarrow> bytes list" where
  "file_lines n d = (if d = [] \<or> n < 2 then [] else fgets_piece n d # file_lines n (drop (length (fgets_piece n d)) d))"
  by pat_completeness auto
termination
  by (relation "measure (\<lambda>(n, d). length d)") (auto simp: fgets_piece_def Let_def)

declare file_lines.simps [simp del]

definition line_buf :: "nat \<Rightarrow> bytes \<Rightarrow> bytes" where
  "line_buf n l = l @ replicate (n - length l) 0"

text \<open>\<open>snprintf (name, size, "%s%s%s", word, domain[0] ? "." : "", domain)\<close>\<close>

definition join_domain :: "bytes \<Rightarrow> nat \<Rightarrow> bytes \<Rightarrow> bytes \<Rightarrow> bytes option" where
  "join_domain name sz word domain = do {
     k \<leftarrow> c_strlen word;
     d \<leftarrow> c_strlen domain;
     let t = take (sz - 1) (if d = 0 then cstr word else cstr word @ 46 # cstr domain);
     if 0 < sz \<and> length t < length name then Some (overlay name 0 (t @ [0])) else None
   }"

definition get_hostname :: "bytes \<Rightarrow> nat \<Rightarrow> bytes \<Rightarrow> bytes \<Rightarrow> nat \<Rightarrow> (nat \<times> bytes) option" where
  "get_hostname from p domain name n = do {
     name1 \<leftarrow> wr name 0 0;
     let sz = n - 2;
     (p1, word) \<leftarrow> get_word from p (replicate 100 0) 100;
     if hd word = 0 then Some (p1, name1)
     else if hd word = 43 then do { (y, x) \<leftarrow> copy_string name1 word sz; Some (p1, y) }
     else do {
       len \<leftarrow> c_strnlen word 100;
       c \<leftarrow> rd word (int len - 1);
       if c = 43 then do {
         w \<leftarrow> wr word (int len - 1) 0;
         y \<leftarrow> join_domain name1 sz w domain;
         Some (p1, y)
       } else if c = 46 then do {
         w \<leftarrow> wr word (int len - 1) 0;
         (y, x) \<leftarrow> copy_string name1 w (sz - 1);
         Some (p1, y)
       } else if 46 \<notin> set (cstr word) then do {
         y \<leftarrow> join_domain name1 sz word domain;
         Some (p1, y)
       } else do { (y, x) \<leftarrow> copy_string name1 word sz; Some (p1, y) }
     }
   }"

text \<open>\<open>while (*get_hostname (&p, domain, word, sizeof (word)) != 0) add_nameip (word, sizeof (word), ipnum);\<close>\<close>

partial_function (option) host_names ::
    "bytes \<Rightarrow> nat \<Rightarrow> bytes \<Rightarrow> bytes \<Rightarrow> bytes \<Rightarrow> 'a master_state_scheme \<Rightarrow> 'a master_state_scheme option" where
  "host_names line p domain word ipnum m = do {
     (p1, w) \<leftarrow> get_hostname line p domain word 100;
     if hd w = 0 then Some m
     else do {
       m1 \<leftarrow> add_nameip w 100 ipnum m;
       host_names line p1 domain w ipnum m1
     }
   }"

declare host_names.simps [code]

text \<open>What both readers do first with a line: \<open>None\<close> inside is a line that is skipped.\<close>

definition line_start :: "bytes \<Rightarrow> (bytes \<times> nat) option option" where
  "line_start l = do {
     line \<leftarrow> noctrln (line_buf 300 l) 0 300;
     p \<leftarrow> skip_ws line 0;
     c \<leftarrow> rd line (int p);
     Some (if c = 0 \<or> c = 35 then None else Some (line, p))
   }"

fun hosts_lines :: "bytes list \<Rightarrow> bytes \<Rightarrow> 'a master_state_scheme \<Rightarrow> 'a master_state_scheme option" where
  "hosts_lines [] domain m = Some m"
| "hosts_lines (l # ls) domain m = do {
     r \<leftarrow> line_start l;
     m1 \<leftarrow> (case r of None \<Rightarrow> Some m
       | Some (line, p) \<Rightarrow>
           if c_isdigit (line ! p) then do {
             (p1, ipnum) \<leftarrow> get_word line p (replicate 100 0) 100;
             host_names line p1 domain (replicate 100 0) ipnum m
           } else Some m);
     hosts_lines ls domain m1
   }"

definition read_hosts :: "bytes \<Rightarrow> bytes \<Rightarrow> 'a master_state_scheme \<Rightarrow> (int \<times> 'a master_state_scheme) option" where
  "read_hosts filename domain m =
     (case files m (cstr filename) of
        None \<Rightarrow> Some (1, m)
      | Some d \<Rightarrow> map_option (\<lambda>m1. (0, m1)) (hosts_lines (file_lines 300 d) domain m))"

partial_function (option) domain_servers ::
    "bytes \<Rightarrow> nat \<Rightarrow> bytes \<Rightarrow> bytes \<Rightarrow> 'a master_state_scheme \<Rightarrow> 'a master_state_scheme option" where
  "domain_servers line p domain word m = do {
     (p1, w) \<leftarrow> get_hostname line p domain word 100;
     if hd w = 0 then Some m
     else do {
       m1 \<leftarrow> (if cstr w = bstr ''+auth'' then add_authority domain 256 m else add_dns domain 256 w 100 m);
       domain_servers line p1 domain w m1
     }
   }"

declare domain_servers.simps [code]

text \<open>One line of the configuration; the domain is kept from line to line.\<close>

definition config_line :: "bytes \<Rightarrow> nat \<Rightarrow> bytes \<times> 'a master_state_scheme \<Rightarrow> (bytes \<times> 'a master_state_scheme) option" where
  "config_line line p = (\<lambda>(domain, m).
     if c_isdigit (line ! p) then do {
       (p1, ipnum) \<leftarrow> get_word line p (replicate 100 0) 100;
       (p2, w) \<leftarrow> get_hostname line p1 domain (replicate 100 0) 100;
       m1 \<leftarrow> (if hd w = 0 then add_nameip domain 256 ipnum m
             else do {
               m1 \<leftarrow> add_nameip w 100 ipnum m;
               host_names line p2 domain w ipnum m1
             });
       Some (domain, m1)
     } else do {
       (p1, w) \<leftarrow> get_word line p (replicate 100 0) 100;
       if cstr w = bstr ''domain'' then do {
         (p2, domain1) \<leftarrow> get_word line p1 domain 256;
         if hd domain1 = 0 then Some (domain1, m)
         else do {
           m1 \<leftarrow> domain_servers line p2 domain1 w m;
           Some (domain1, m1)
         }
       } else if cstr w = bstr ''hosts'' then do {
         (p2, fname) \<leftarrow> get_word line p1 (replicate 200 0) 200;
         if hd fname = 0 then Some (domain, m)
         else do {
           fname1 \<leftarrow> (if cstr fname = bstr ''-'' then c_strcpy fname (bstr ''/etc/hosts'' @ [0]) else Some fname);
           (p3, w1) \<leftarrow> get_word line p2 w 100;
           (w2, domain1) \<leftarrow> (if hd w1 = 0 then copy_string w1 domain 100 else Some (w1, domain));
           (r, m1) \<leftarrow> read_hosts fname1 w2 m;
           Some (domain1, m1)
         }
       } else Some (domain, m)
     })"

fun config_lines :: "bytes list \<Rightarrow> bytes \<times> 'a master_state_scheme \<Rightarrow> (bytes \<times> 'a master_state_scheme) option" where
  "config_lines [] dm = Some dm"
| "config_lines (l # ls) dm = do {
     r \<leftarrow> line_start l;
     dm1 \<leftarrow> (case r of None \<Rightarrow> Some dm | Some (line, p) \<Rightarrow> config_line line p dm);
     config_lines ls dm1
   }"

text \<open>
  \<open>fopen\<close> reads the name of the file up to its NUL. The array that holds it has none when the argument of the option
  filled it (\<open>strncpy\<close> in src/args.c); reading on behind its end is undefined.
\<close>

definition read_configuration :: "bytes \<Rightarrow> 'a master_state_scheme \<Rightarrow> (int \<times> 'a master_state_scheme) option" where
  "read_configuration filename m = do {
     k \<leftarrow> c_strlen filename;
     (case files m (cstr filename) of
        None \<Rightarrow> Some (1, m)
      | Some d \<Rightarrow> map_option (\<lambda>(domain, m1). (0, m1)) (config_lines (file_lines 300 d) (domain_garbage m, m)))
   }"

text \<open>\<open>if ((p = strchr (buf, c)) != NULL) *p = 0;\<close>\<close>

definition cut_at :: "byte \<Rightarrow> bytes \<Rightarrow> bytes" where
  "cut_at c buf = (if c \<in> set (cstr buf) then buf[length (takeWhile (\<lambda>x. x \<noteq> c) buf) := 0] else buf)"

fun blacklist_lines :: "bytes list \<Rightarrow> 'a master_state_scheme \<Rightarrow> 'a master_state_scheme option" where
  "blacklist_lines [] m = Some m"
| "blacklist_lines (l # ls) m = do {
     let buf = cut_at 10 (cut_at 13 (cut_at 35 (line_buf 256 l)));
     m1 \<leftarrow> (if hd buf \<noteq> 0 then add_authority buf 256 m else Some m);
     blacklist_lines ls m1
   }"

definition read_blacklist :: "bytes \<Rightarrow> 'a master_state_scheme \<Rightarrow> (int \<times> 'a master_state_scheme) option" where
  "read_blacklist filename m = do {
     k \<leftarrow> c_strlen filename;
     (case files m (cstr filename) of
        None \<Rightarrow> Some (1, m)
      | Some d \<Rightarrow> map_option (\<lambda>m1. (0, m1)) (blacklist_lines (file_lines 256 d) m))
   }"

section \<open>Initialisation\<close>

text \<open>One step and the loop that adds the authorities for the addresses; \<open>dbc\<close> grows meanwhile.\<close>

definition auto_step :: "dnsrec \<Rightarrow> 'a master_state_scheme \<Rightarrow> 'a master_state_scheme option" where
  "auto_step r m = (case rec_data r of
       Nameip t ip \<Rightarrow>
         (let arpaname = take 197 (st_string t @ ARPADOMAIN);
              k = length (takeWhile (\<lambda>c. c \<noteq> 46) arpaname);
              domain = drop (Suc k) arpaname
          in if 46 \<notin> set arpaname then Some m
             else if authority_lookup domain m = None then add_authority (domain @ [0]) (200 + int (Suc k)) m
             else Some m)
     | _ \<Rightarrow> Some m)"

partial_function (option) auto_loop :: "nat \<Rightarrow> 'a master_state_scheme \<Rightarrow> 'a master_state_scheme option" where
  "auto_loop i m = (if i < length (dbv m) then do {
       m1 \<leftarrow> auto_step (dbv m ! i) m;
       auto_loop (i + 1) m1
     } else Some m)"

declare auto_loop.simps [code]

definition master_init :: "'a master_state_scheme \<Rightarrow> 'a master_state_scheme option" where
  "master_init m =
     (if master_onoff m = 0 then Some m
      else do {
        m1 \<leftarrow> add_nameip (bstr ''localhost'' @ [0]) 10 (bstr ''127.0.0.1'' @ [0]) m;
        m2 \<leftarrow> add_dns (bstr ''0.0.127.in-addr.arpa'' @ [0]) 21 (bstr ''localhost'' @ [0]) 10 m1;
        (r, m3) \<leftarrow> read_blacklist (blacklist m2) m2;
        (r', m4) \<leftarrow> read_configuration (master_config m3) m3;
        m5 \<leftarrow> (if auto_authority m4 \<noteq> 0 then auto_loop 0 m4 else Some m4);
        Some (m5\<lparr>master_initialised := 1\<rparr>)
      })"

definition master_reinit :: "'a master_state_scheme \<Rightarrow> 'a master_state_scheme option" where
  "master_reinit m =
     (if master_onoff m = 0 then Some (m\<lparr>master_reload := 0\<rparr>)
      else do {
        m1 \<leftarrow> (if master_reload m \<noteq> 0 then master_init (reset_master m) else Some m);
        Some (m1\<lparr>master_reload := 0\<rparr>)
      })"

section \<open>Answering\<close>

text \<open>
  The result is the length, 0 when the master has no answer, and the packet, which keeps its first
  two bytes. \<open>tbl\<close> is the table of valid characters and \<open>y\<close> the uninitialised local \<open>query\<close>. The
  debug dump of the answer only prints.
\<close>

definition copy_answer :: "bytes \<Rightarrow> dnsheader_t \<Rightarrow> (nat \<times> bytes) option" where
  "copy_answer msg x = do {
     msg1 \<leftarrow> c_memcpy msg 2 (h_packet x) 2 (h_len x - 2);
     Some (h_len x, msg1)
   }"

definition answer_ptr :: "rr_t \<Rightarrow> dnsrec \<Rightarrow> bytes \<Rightarrow> 'a master_state_scheme \<Rightarrow> (nat \<times> bytes) option" where
  "answer_ptr query r msg m = do {
     x \<leftarrow> begin_assembly query;
     x1 \<leftarrow> compile_objectname x;
     x2 \<leftarrow> compile_fixed DNS_TYPE_PTR x1;
     x3 \<leftarrow> compile_namedata (st_string (rec_object r)) x2;
     x4 \<leftarrow> compile_dnsrecords (cstr (rr_name query)) m x3;
     x5 \<leftarrow> end_assembly (x4\<lparr>h_ancount := 1\<rparr>);
     copy_answer msg x5
   }"

definition rec_ip :: "dnsrec \<Rightarrow> u32" where
  "rec_ip r = (case rec_data r of Nameip t ip \<Rightarrow> ip | _ \<Rightarrow> 0)"

definition answer_a :: "rr_t \<Rightarrow> dnsrec \<Rightarrow> bytes \<Rightarrow> 'a master_state_scheme \<Rightarrow> (nat \<times> bytes) option" where
  "answer_a query r msg m = do {
     x \<leftarrow> begin_assembly query;
     x1 \<leftarrow> compile_objectname x;
     x2 \<leftarrow> compile_fixed DNS_TYPE_A x1;
     x3 \<leftarrow> compile_long (rec_ip r) x2;
     x4 \<leftarrow> end_rdata x3;
     x5 \<leftarrow> compile_dnsrecords (cstr (rr_name query)) m x4;
     x6 \<leftarrow> end_assembly (x5\<lparr>h_ancount := 1\<rparr>);
     copy_answer msg x6
   }"

partial_function (option) answer_ns_loop ::
    "bytes \<Rightarrow> 'a master_state_scheme \<Rightarrow> dnsrec option \<times> int \<Rightarrow> dnsheader_t \<Rightarrow> dnsheader_t option" where
  "answer_ns_loop name m rl x =
     (case rl of
        (None, l) \<Rightarrow> Some x
      | (Some r, l) \<Rightarrow> do {
          x1 \<leftarrow> compile_objectname x;
          x2 \<leftarrow> compile_fixed DNS_TYPE_NS x1;
          x3 \<leftarrow> compile_namedata (server_name r) x2;
          answer_ns_loop name m (dns_lookup name l m) (x3\<lparr>h_ancount := h_ancount x3 + 1\<rparr>)
        })"

declare answer_ns_loop.simps [code]

definition answer_ns :: "rr_t \<Rightarrow> bytes \<Rightarrow> 'a master_state_scheme \<Rightarrow> (nat \<times> bytes) option" where
  "answer_ns query msg m = do {
     x \<leftarrow> begin_assembly query;
     x1 \<leftarrow> answer_ns_loop (cstr (rr_name query)) m (dns_lookup (cstr (rr_name query)) (- 1) m) x;
     x2 \<leftarrow> end_assembly (x1\<lparr>h_u := SET_AA (h_u x1) 1\<rparr>);
     copy_answer msg x2
   }"

text \<open>The negative answer when the master is the authority, from the behaviour at the end of the function.\<close>

definition answer_authority :: "rr_t \<Rightarrow> bytes \<Rightarrow> 'a master_state_scheme \<Rightarrow> (nat \<times> bytes) option" where
  "answer_authority query msg m =
     (let name = cstr (rr_name query); domain = drop (Suc (length (takeWhile (\<lambda>c. c \<noteq> 46) name))) name
      in if 46 \<notin> set name then Some (0, msg)
         else if authority_lookup name m \<noteq> None \<or> authority_lookup domain m \<noteq> None then do {
           x \<leftarrow> begin_assembly query;
           x1 \<leftarrow> end_assembly (x\<lparr>h_ancount := 0, h_u := SET_AA (h_u x) 1\<rparr>);
           copy_answer msg x1
         } else Some (0, msg))"

definition master_answer :: "rr_t \<Rightarrow> bytes \<Rightarrow> 'a master_state_scheme \<Rightarrow> (nat \<times> bytes) option" where
  "master_answer query msg m =
     (if rr_type query = DNS_TYPE_PTR then do {
        len \<leftarrow> c_strlen (rr_name query);
        let k = int len - int (length ARPADOMAIN);
        if k < 0 \<or> drop (nat k) (cstr (rr_name query)) \<noteq> ARPADOMAIN then Some (0, msg)
        else (case ptr_lookup (take (nat k) (cstr (rr_name query))) m of
            Some r \<Rightarrow> answer_ptr query r msg m
          | None \<Rightarrow> answer_authority query msg m)
      } else if rr_type query = DNS_TYPE_A then
        (case name_lookup (cstr (rr_name query)) m of
            Some r \<Rightarrow> answer_a query r msg m
          | None \<Rightarrow> answer_authority query msg m)
      else if rr_type query = DNS_TYPE_NS then
        (if fst (dns_lookup (cstr (rr_name query)) (- 1) m) \<noteq> None then answer_ns query msg m
         else answer_authority query msg m)
      else Some (0, msg))"

definition master_lookup ::
    "bytes \<Rightarrow> rr_t \<Rightarrow> bytes \<Rightarrow> nat \<Rightarrow> 'a master_state_scheme \<Rightarrow> (nat \<times> bytes \<times> 'a master_state_scheme) option" where
  "master_lookup tbl y msg len m =
     (if master_onoff m = 0 then Some (0, msg, m)
      else do {
        m1 \<leftarrow> (if master_initialised m = 0 then master_init m else Some m);
        (r, query) \<leftarrow> parse_query tbl y msg len;
        if r \<noteq> 0 \<or> rr_class query \<noteq> DNS_CLASS_INET \<or> GET_OPCODE (rr_flags query) \<noteq> 0 then Some (0, msg, m1)
        else do {
          (n, msg1) \<leftarrow> master_answer query msg m1;
          Some (n, msg1, m1)
        }
      })"

definition master_dontknow ::
    "bytes \<Rightarrow> rr_t \<Rightarrow> bytes \<Rightarrow> nat \<Rightarrow> bytes \<Rightarrow> 'a master_state_scheme \<Rightarrow> (nat \<times> bytes \<times> 'a master_state_scheme) option" where
  "master_dontknow tbl y msg len answer m =
     (if master_onoff m = 0 then Some (0, answer, m)
      else do {
        m1 \<leftarrow> (if master_initialised m = 0 then master_init m else Some m);
        (r, query) \<leftarrow> parse_query tbl y msg len;
        if r \<noteq> 0 \<or> rr_class query \<noteq> DNS_CLASS_INET \<or> GET_OPCODE (rr_flags query) \<noteq> 0 then Some (0, answer, m1)
        else do {
          x \<leftarrow> begin_assembly query;
          x1 \<leftarrow> end_assembly (x\<lparr>h_ancount := 0, h_u := SET_RCODE (SET_AA (h_u x) 0) 1\<rparr>);
          a \<leftarrow> c_memcpy answer 0 (h_packet x1) 0 (h_len x1);
          Some (h_len x1, a, m1)
        }
      })"

end
