(* ===== verification/Check.thy ===== *)
theory Check
  imports Dns
begin

text \<open>
  The sanity checks of src/check.c on incoming packets. The flags are read before the
  length is looked at, so the receive buffer must hold at least four bytes.
\<close>

section \<open>The checks\<close>

definition check_query :: "bytes \<Rightarrow> nat \<Rightarrow> int option" where
  "check_query msg len = do {
     flags \<leftarrow> rd_be16 msg 2;
     Some (if len < 12 then -1
           else if UDP_MAXSIZE < len then -1
           else if flags AND MASK_Z \<noteq> 0 then -1
           else if flags AND MASK_QR \<noteq> 0 then -1
           else 0)
   }"

definition check_reply :: "bytes \<Rightarrow> nat \<Rightarrow> int option" where
  "check_reply msg len = do {
     flags \<leftarrow> rd_be16 msg 2;
     Some (if len < 12 then -1
           else if flags AND MASK_Z \<noteq> 0 then -1
           else if flags AND MASK_QR = 0 then -1
           else 0)
   }"

section \<open>What passes\<close>

lemma MASK_Z_bit: "(w :: u16) AND MASK_Z \<noteq> 0 \<longleftrightarrow> bit w 6"
  using and_exp_eq_0_iff_not_bit [of w 6] by (simp add: MASK_Z_def)

lemma MASK_QR_bit: "(w :: u16) AND MASK_QR \<noteq> 0 \<longleftrightarrow> bit w 15"
  using and_exp_eq_0_iff_not_bit [of w 15] by (simp add: MASK_QR_def)

lemma check_query_iff:
  assumes "4 \<le> length msg"
  shows "check_query msg len = Some (if 12 \<le> len \<and> len \<le> 512 \<and>
    \<not> bit (be16 (msg ! 2) (msg ! 3)) 6 \<and> \<not> bit (be16 (msg ! 2) (msg ! 3)) 15 then 0 else -1)"
  using assms MASK_Z_bit MASK_QR_bit
  by (auto simp: check_query_def rd_be16_eq UDP_MAXSIZE_def)

lemma check_reply_iff:
  assumes "4 \<le> length msg"
  shows "check_reply msg len = Some (if 12 \<le> len \<and>
    \<not> bit (be16 (msg ! 2) (msg ! 3)) 6 \<and> bit (be16 (msg ! 2) (msg ! 3)) 15 then 0 else -1)"
  using assms MASK_Z_bit MASK_QR_bit
  by (auto simp: check_reply_def rd_be16_eq)

end
