(* ===== verification/Udp.thy ===== *)
theory Udp
  imports Query Master Check
begin

text \<open>
  The traffic with the servers, src/udp.c, and \<open>retry_srvlist\<close> of src/infnode.c, which sends. The state of
  the whole program extends that of the open queries by the local master, the options that bind hosts and
  queries to interfaces, the static buffers, and the level of debugging. \<open>setsockopt\<close> in \<open>bind_sock2inf\<close> has no
  effect that the model sees, the name it is called with is formatted. \<open>recvmsg\<close> delivers at most as many bytes as
  the buffer holds, the sender and, if the kernel adds it, the name of the interface. Names of interfaces and hosts in
  arrays are C buffers.
\<close>

record dnrd_state = query_state +
  mst :: master_state
  sp_hosts :: "(bytes \<times> bytes) list"
  sp_hosts_count :: nat
  def_inf_list :: "bytes list"
  def_inf_count :: nat
  matched_intf :: "bytes list"
  matched_intf_cnt :: nat
  req_msg :: bytes
  rep_msg :: bytes
  dnsbuf :: bytes
  addr_garbage :: sockaddr_in
  host_garbage :: bytes
  react_last :: int
  deact_last :: int
  stats_last :: int
  srv_stats_last :: int
  stats_interval :: int
  stats_reset :: int
  opt_debug :: byte

section \<open>Sending\<close>

definition udp_send :: "int \<Rightarrow> ptr \<Rightarrow> bytes \<Rightarrow> nat \<Rightarrow> 'a query_state_scheme \<Rightarrow> (int \<times> 'a query_state_scheme) option" where
  "udp_send sock srv msg len s = do {
     v \<leftarrow> get_srv s srv;
     if len \<le> length msg then do {
       let (rc, s1) = os_sendto sock (take len msg) (srv_addr v) s;
       if rc \<noteq> int len then Some (rc, s1)
       else do {
         s2 \<leftarrow> upd_srv srv (\<lambda>v. v\<lparr>send_time := (if send_time v = 0 then clock s else send_time v),
                                send_count := send_count v + 1\<rparr>) s1;
         Some (rc, s2)
       }
     } else None
   }"

text \<open>\<open>strncmp (a, b, n) == 0\<close> on two buffers; \<open>None\<close> when it reads behind the end of one.\<close>

fun c_strneq :: "bytes \<Rightarrow> bytes \<Rightarrow> nat \<Rightarrow> bool option" where
  "c_strneq a b 0 = Some True"
| "c_strneq (x # a) (y # b) (Suc n) = (if x \<noteq> y then Some False else if x = 0 then Some True else c_strneq a b n)"
| "c_strneq a b (Suc n) = None"

fun any_strneq :: "bytes \<Rightarrow> bytes list \<Rightarrow> nat \<Rightarrow> bool option" where
  "any_strneq a [] n = Some False"
| "any_strneq a (b # bs) n = do {
     e \<leftarrow> c_strneq a b n;
     if e then Some True else any_strneq a bs n
   }"

definition is_curr_inf_default :: "bytes \<Rightarrow> 'a dnrd_state_scheme \<Rightarrow> bool option" where
  "is_curr_inf_default name s =
     (if def_inf_count s \<le> length (def_inf_list s)
      then any_strneq (name @ [0]) (take (def_inf_count s) (def_inf_list s)) 9 else None)"

text \<open>The first part of \<open>send2current\<close>: the interfaces of the hosts that match the name in the query.\<close>

fun match_hosts :: "bytes \<Rightarrow> (bytes \<times> bytes) list \<Rightarrow> bytes list \<times> nat \<Rightarrow> (bytes list \<times> nat) option" where
  "match_hosts host [] mc = Some mc"
| "match_hosts host ((hn, inf_nm) # hs) (ml, cnt) = do {
     n \<leftarrow> c_strlen host;
     e \<leftarrow> c_strneq hn host n;
     if e then do {
       d \<leftarrow> rd ml (int cnt);
       d1 \<leftarrow> c_strncpy d (cstr inf_nm) 9;
       ml1 \<leftarrow> wr ml (int cnt) d1;
       match_hosts host hs (ml1, cnt + 1)
     } else match_hosts host hs (ml, cnt)
   }"

definition find_matches :: "bytes \<Rightarrow> nat \<Rightarrow> 'a dnrd_state_scheme \<Rightarrow> 'a dnrd_state_scheme option" where
  "find_matches msg len s =
     (if sp_hosts_count s = 0 then Some s
      else if sp_hosts_count s \<le> length (sp_hosts s) then do {
        (r, host) \<leftarrow> snprintf_cname (vc s) msg len 12 (host_garbage s) 30;
        (ml, cnt) \<leftarrow> match_hosts host (take (sp_hosts_count s) (sp_hosts s)) (matched_intf s, 0);
        Some (s\<lparr>matched_intf := ml, matched_intf_cnt := cnt\<rparr>)
      } else None)"

text \<open>Whether the query may go out through an interface of this name.\<close>

definition inf_allowed :: "bytes \<Rightarrow> 'a dnrd_state_scheme \<Rightarrow> bool option" where
  "inf_allowed name s =
     (if matched_intf_cnt s > 0 then
        (if matched_intf_cnt s \<le> length (matched_intf s)
         then any_strneq (name @ [0]) (take (matched_intf_cnt s) (matched_intf s)) 9 else None)
      else if def_inf_count s > 0 then is_curr_inf_default name s
      else Some True)"

text \<open>\<open>while (i->current != NULL && udp_send (...) != len) if (reactivate_interval) deactivate_current (i);\<close>\<close>

partial_function (option) try_servers ::
    "int \<Rightarrow> ptr \<Rightarrow> bytes \<Rightarrow> nat \<Rightarrow> 'a dnrd_state_scheme \<Rightarrow> 'a dnrd_state_scheme option" where
  "try_servers sock i msg len s = do {
     n \<leftarrow> infs s i;
     if current n \<noteq> NULL then do {
       (rc, s1) \<leftarrow> udp_send sock (current n) msg len s;
       if rc \<noteq> int len then do {
         s2 \<leftarrow> (if reactivate_interval s1 \<noteq> 0 then map_option snd (deactivate_current i s1) else Some s1);
         try_servers sock i msg len s2
       } else Some s1
     } else Some s
   }"

declare try_servers.simps [code]

text \<open>
  \<open>printf\<close> with a format and no arguments. \<open>%%\<close> is a percent sign; what any other directive does is undefined,
  because there is nothing for it to print.
\<close>

fun c_format :: "bytes \<Rightarrow> bytes option" where
  "c_format [] = Some []"
| "c_format (c # cs) =
     (if c \<noteq> 37 then map_option ((#) c) (c_format cs)
      else (case cs of [] \<Rightarrow> None | d # ds \<Rightarrow> if d = 37 then map_option ((#) 37) (c_format ds) else None))"

lemma c_format_plain: "37 \<notin> set name \<Longrightarrow> c_format name = Some name"
  by (induction name) auto

text \<open>The name of the interface is used as the format; 16 bytes are there for the result.\<close>

definition bind_sock2inf :: "bytes \<Rightarrow> bytes option" where
  "bind_sock2inf inf_name = map_option (take 15) (c_format inf_name)"

definition send_on :: "ptr \<Rightarrow> nat \<Rightarrow> ptr \<Rightarrow> bytes \<Rightarrow> nat \<Rightarrow> 'a dnrd_state_scheme \<Rightarrow> 'a dnrd_state_scheme option" where
  "send_on q c i msg len s = do {
     k \<leftarrow> queries s q;
     sock \<leftarrow> rd (sock_arr k) (int c);
     i0 \<leftarrow> infs s i;
     name \<leftarrow> inf i0;
     ifr_name \<leftarrow> bind_sock2inf name;
     s1 \<leftarrow> try_servers sock i msg len s;
     n \<leftarrow> infs s1 i;
     s2 \<leftarrow> (if current n \<noteq> NULL then do {
            k1 \<leftarrow> queries s1 q;
            sl \<leftarrow> wr (srv_list k1) (int c) (current n);
            upd_query q (\<lambda>k. k\<lparr>srv_list := sl\<rparr>) s1
          } else Some s1);
     upd_query q (\<lambda>k. k\<lparr>serv_sent_cnt := serv_sent_cnt k + 1\<rparr>) s2
   }"

text \<open>The loop over the interfaces; the result is the interface at which it ends.\<close>

partial_function (option) send_loop ::
    "ptr \<Rightarrow> ptr \<Rightarrow> nat \<Rightarrow> bytes \<Rightarrow> nat \<Rightarrow> 'a dnrd_state_scheme \<Rightarrow> (ptr \<times> 'a dnrd_state_scheme) option" where
  "send_loop q i c msg len s =
     (if i \<noteq> inf_list s \<and> c < 3 then do {
        n \<leftarrow> infs s i;
        name \<leftarrow> inf n;
        ok \<leftarrow> inf_allowed name s;
        if \<not> ok then send_loop q (inf_next n) c msg len s
        else do {
          s1 \<leftarrow> send_on q c i msg len s;
          n1 \<leftarrow> infs s1 i;
          k \<leftarrow> queries s1 q;
          if is_dummy k = 1 then Some (inf_next n1, s1)
          else send_loop q (inf_next n1) (c + 1) msg len s1
        }
      } else Some (i, s))"

declare send_loop.simps [code]

definition send2current :: "ptr \<Rightarrow> bytes \<Rightarrow> nat \<Rightarrow> 'a dnrd_state_scheme \<Rightarrow> (int \<times> 'a dnrd_state_scheme) option" where
  "send2current q msg len s =
     (if q = NULL then None else do {
        s1 \<leftarrow> find_matches msg len s;
        l \<leftarrow> infs s1 (inf_list s1);
        (i, s2) \<leftarrow> send_loop q (inf_next l) 0 msg len s1;
        n \<leftarrow> infs s2 i;
        Some (if current n \<noteq> NULL then int len else 0, s2)
      })"

section \<open>Replies\<close>

partial_function (option) search_addr :: "'a srv_state_scheme \<Rightarrow> ptr \<Rightarrow> u32 \<Rightarrow> ptr \<Rightarrow> ptr option" where
  "search_addr s head a p = do {
     v \<leftarrow> get_srv s p;
     if sin_addr (srv_addr v) = a then Some p
     else if srv_next v \<noteq> head then search_addr s head a (srv_next v) else Some NULL
   }"

declare search_addr.simps [code]

partial_function (option) search_infs :: "'a inf_state_scheme \<Rightarrow> bytes \<Rightarrow> u32 \<Rightarrow> ptr \<Rightarrow> ptr option" where
  "search_infs s name a i = do {
     n \<leftarrow> infs s i;
     nm \<leftarrow> inf n;
     p \<leftarrow> (if nm = name then do {
            h \<leftarrow> get_srv s (srvlist n);
            search_addr s (srvlist n) a (srv_next h)
          } else Some NULL);
     if p \<noteq> NULL then Some p
     else if inf_next n \<noteq> inf_list s then search_infs s name a (inf_next n) else Some NULL
   }"

declare search_infs.simps [code]

definition search_server :: "sockaddr_in \<Rightarrow> bytes \<Rightarrow> 'a inf_state_scheme \<Rightarrow> ptr option" where
  "search_server from name s = do {
     l \<leftarrow> infs s (inf_list s);
     search_infs s name (sin_addr from) (inf_next l)
   }"

definition os_recv :: "'a query_state_scheme \<Rightarrow> recv_result \<times> 'a query_state_scheme" where
  "os_recv s = (env_recv s (io s), s\<lparr>io := io s + 1\<rparr>)"

text \<open>The status and the name; the last interface that has a name counts.\<close>

definition get_interface_name :: "cmsg list \<Rightarrow> bytes \<Rightarrow> int \<times> bytes" where
  "get_interface_name mh inf_name =
     fold (\<lambda>c (status, nm). case c of Pktinfo (Some n) \<Rightarrow> (0, n) | _ \<Rightarrow> (status, nm)) mh (- 1, inf_name)"

text \<open>
  The buffer, the number of bytes received and the new state; -1 is an error, which is logged with
  the address of \<open>q->srv\<close>. The answering server becomes active.
\<close>

definition mark_alive :: "srvnode \<Rightarrow> srvnode" where
  "mark_alive v = v\<lparr>inactive := 0, send_time := 0\<rparr>"

definition reply_recv ::
    "ptr \<Rightarrow> nat \<Rightarrow> bytes \<Rightarrow> nat \<Rightarrow> 'a query_state_scheme \<Rightarrow> (int \<times> bytes \<times> 'a query_state_scheme) option" where
  "reply_recv q c msg len s = do {
     k \<leftarrow> queries s q;
     sock \<leftarrow> rd (sock_arr k) (int c);
     let (r, s1) = os_recv s;
     (case r of
        Recv_error \<Rightarrow> do { v \<leftarrow> get_srv s (q_srv k); Some (-1, msg, s1) }
      | Recv_msg d from mh \<Rightarrow>
          (if len \<le> length msg then do {
             let d1 = take len d;
             let (status, name) = get_interface_name mh [];
             s2 \<leftarrow> (if status \<noteq> - 1 then do {
                   p \<leftarrow> search_server from name s1;
                   if p \<noteq> NULL then upd_srv p mark_alive s1 else Some s1
                 } else Some s1);
             Some (int (length d1), overlay msg 0 d1, s2)
           } else None))
   }"

text \<open>What happens when nothing useful was received: one server less to wait for.\<close>

definition drop_reply :: "ptr \<Rightarrow> ptr \<Rightarrow> 'a query_state_scheme \<Rightarrow> 'a query_state_scheme option" where
  "drop_reply prev q s = do {
     k \<leftarrow> queries s q;
     if serv_sent_cnt k = 1 then query_delete_next prev s
     else upd_query q (\<lambda>k. k\<lparr>serv_sent_cnt := serv_sent_cnt k - 1\<rparr>) s
   }"

definition forward_reply :: "ptr \<Rightarrow> nat \<Rightarrow> 'a dnrd_state_scheme \<Rightarrow> 'a dnrd_state_scheme option" where
  "forward_reply q len s = do {
     k \<leftarrow> queries s q;
     s1 \<leftarrow> cache_dnspacket (rep_msg s) len (q_srv k) s;
     m \<leftarrow> put_le16 (rep_msg s1) (client_qid k);
     let s2 = snd (os_sendto (isock s1) (take len m) (client k) (s1\<lparr>rep_msg := m\<rparr>));
     upd_query q (\<lambda>k. k\<lparr>resp_sent := 1\<rparr>) s2
   }"

definition keep_failure :: "ptr \<Rightarrow> nat \<Rightarrow> 'a dnrd_state_scheme \<Rightarrow> 'a dnrd_state_scheme option" where
  "keep_failure q len s = do {
     k \<leftarrow> queries s q;
     if fail_msg_len k = 0
     then upd_query q (\<lambda>k. k\<lparr>cached_fail_msg := take len (rep_msg s), fail_msg_len := len\<rparr>) s
     else Some s
   }"

fun revive_servers :: "ptr list \<Rightarrow> 'a srv_state_scheme \<Rightarrow> 'a srv_state_scheme option" where
  "revive_servers [] s = Some s"
| "revive_servers (p # ps) s = do {
     s1 \<leftarrow> (if p \<noteq> NULL then upd_srv p mark_alive s else Some s);
     revive_servers ps s1
   }"

definition finish_reply :: "ptr \<Rightarrow> ptr \<Rightarrow> 'a query_state_scheme \<Rightarrow> 'a query_state_scheme option" where
  "finish_reply prev q s = do {
     k \<leftarrow> queries s q;
     if serv_sent_cnt k = 1 then do {
       s1 \<leftarrow> revive_servers (take 3 (srv_list k)) s;
       query_delete_next prev s1
     } else upd_query q (\<lambda>k. k\<lparr>serv_sent_cnt := serv_sent_cnt k - 1\<rparr>) s
   }"

text \<open>
  What a reply is read for only to be logged: with debugging on, its question is printed into a local buffer, whose
  first content does not matter, and at level 4 and above all its records are. The text that is printed is not
  modelled, the accesses are; the decoder leaves a NUL at the end of the name, so that printing it stays in the buffer.
\<close>

definition log_reply :: "bytes \<Rightarrow> nat \<Rightarrow> 'a dnrd_state_scheme \<Rightarrow> unit option" where
  "log_reply msg len s = do {
     (if opt_debug s \<noteq> 0 then do {
        (r, buf) \<leftarrow> snprintf_cname (vc s) msg len 12 (replicate 256 0) 256;
        Some ()
      } else Some ());
     d \<leftarrow> dump_dnspacket (vc s) (unat (opt_debug s)) (rr_garbage s) msg len;
     Some ()
   }"

definition udp_handle_reply :: "ptr \<Rightarrow> nat \<Rightarrow> 'a dnrd_state_scheme \<Rightarrow> 'a dnrd_state_scheme option" where
  "udp_handle_reply prev c s = do {
     n \<leftarrow> queries s prev;
     let q = q_next n;
     (l, m, s1) \<leftarrow> reply_recv q c (rep_msg s) UDP_MAXSIZE s;
     let s2 = s1\<lparr>rep_msg := m\<rparr>;
     if l < 0 then drop_reply prev q s2
     else do {
       let len = nat l;
       ok \<leftarrow> check_reply m len;
       k \<leftarrow> queries s2 q;
       if ok < 0 then do {
         v \<leftarrow> get_srv s2 (q_srv k);
         drop_reply prev q s2
       } else do {
         log_reply m len s2;
         s3 \<leftarrow> (if is_dummy k = 0 \<and> resp_sent k = 0 then do {
                rcode \<leftarrow> check_replycode m len;
                if rcode = 0 \<or> serv_sent_cnt k = 1 then forward_reply q len s2
                else keep_failure q len s2
              } else Some s2);
         finish_reply prev q s3
       }
     }
   }"

section \<open>Testing whether a server is back\<close>

definition dnsbuf_init :: bytes where
  "dnsbuf_init = [0, 0, 1, 0, 0, 1, 0, 0, 0, 0, 0, 0] @ 9 # bstr ''localhost'' @ [0, 0, 1, 0, 1]"

definition udp_send_dummy :: "ptr \<Rightarrow> 'a dnrd_state_scheme \<Rightarrow> (int \<times> 'a dnrd_state_scheme) option" where
  "udp_send_dummy srv s =
     (if srv = NULL then None else do {
        (p, buf, s1) \<leftarrow> query_add NULL srv (addr_garbage s) (dnsbuf s) s;
        if p \<noteq> NULL then do {
          n \<leftarrow> queries s1 p;
          s2 \<leftarrow> upd_query (q_next n) (\<lambda>k. k\<lparr>ttl := reactivate_interval s1\<rparr>) (s1\<lparr>dnsbuf := buf\<rparr>);
          k \<leftarrow> queries s2 (q_next n);
          sock \<leftarrow> rd (sock_arr k) 0;
          (rc, s3) \<leftarrow> udp_send sock srv (dnsbuf s2) (length (dnsbuf s2)) s2;
          id \<leftarrow> get_le16 (dnsbuf s3);
          buf1 \<leftarrow> put_le16 (dnsbuf s3) (id + 1);
          Some (rc, s3\<lparr>dnsbuf := buf1\<rparr>)
        } else Some (- 1, s1)
      })"

partial_function (option) retry_loop ::
    "ptr \<Rightarrow> int \<Rightarrow> ptr \<Rightarrow> 'a dnrd_state_scheme \<Rightarrow> 'a dnrd_state_scheme option" where
  "retry_loop head delay p s = do {
     n \<leftarrow> get_srv s p;
     let r = srv_next n;
     if r = NULL \<or> r = head then Some s
     else do {
       v \<leftarrow> get_srv s r;
       s1 \<leftarrow> (if inactive v \<noteq> 0 \<and> delay \<le> clock s - inactive v then do {
              s1 \<leftarrow> upd_srv r (\<lambda>v. v\<lparr>inactive := clock s\<rparr>) s;
              map_option snd (udp_send_dummy r s1)
            } else Some s);
       retry_loop head delay r s1
     }
   }"

declare retry_loop.simps [code]

definition retry_srvlist :: "ptr \<Rightarrow> int \<Rightarrow> 'a dnrd_state_scheme \<Rightarrow> 'a dnrd_state_scheme option" where
  "retry_srvlist i delay s = do {
     n \<leftarrow> infs s i;
     retry_loop (srvlist n) delay (srvlist n) s
   }"

end
