(* ===== verification/Relay.thy ===== *)
theory Relay
  imports Udp
begin

text \<open>
  The heart of the program, src/relay.c, with \<open>udp_handle_request\<close> of src/udp.c, which calls it: what is
  done with a query, the maintenance of the servers, and one iteration of the endless loop of \<open>run\<close>. The
  outcome of \<open>pselect\<close> is a parameter of the iteration, and so is the time, which does not advance within it.
\<close>

section \<open>Queries from clients\<close>

text \<open>\<open>None\<close> inside is the result NULL.\<close>

definition set_srvfail :: "bytes \<Rightarrow> nat \<Rightarrow> bytes option option" where
  "set_srvfail msg len =
     (if len < 4 then Some None
      else do {
        b \<leftarrow> rd msg 2;
        m1 \<leftarrow> wr msg 2 (b OR 0x84);
        m2 \<leftarrow> wr m1 3 0x82;
        Some (Some m2)
      })"

text \<open>The loop that looks for an interface with an active server; the result is the interface at which it ends.\<close>

partial_function (option) choose_inf :: "ptr \<Rightarrow> 'a dnrd_state_scheme \<Rightarrow> (ptr \<times> 'a dnrd_state_scheme) option" where
  "choose_inf i s = do {
     n \<leftarrow> infs s i;
     e \<leftarrow> no_srvlist s (srvlist n);
     s1 \<leftarrow> upd_inf i (\<lambda>n. n\<lparr>current := NULL\<rparr>) s;
     p \<leftarrow> next_active s1 i;
     s2 \<leftarrow> upd_inf i (\<lambda>n. n\<lparr>current := p\<rparr>) s1;
     if p \<noteq> NULL then Some (i, s2)
     else do {
       l \<leftarrow> infs s2 (inf_list s2);
       m \<leftarrow> infs s2 (inf_next n);
       if inf_next l \<noteq> inf_next m then choose_inf (inf_next n) s2 else Some (inf_next n, s2)
     }
   }"

declare choose_inf.simps [code]

text \<open>Whether the current server has been silent for too long.\<close>

definition timed_out :: "srvnode \<Rightarrow> 'a query_state_scheme \<Rightarrow> bool" where
  "timed_out v s \<longleftrightarrow> send_time v \<noteq> 0 \<and> forward_timeout s \<noteq> 0 \<and> reactivate_interval s \<noteq> 0 \<and>
     clock s - send_time v > forward_timeout s"

definition choose_server :: "bytes \<Rightarrow> nat \<Rightarrow> 'a dnrd_state_scheme \<Rightarrow>
    (int \<times> bytes \<times> nat \<times> ptr \<times> 'a dnrd_state_scheme) option" where
  "choose_server msg len s = do {
     l \<leftarrow> infs s (inf_list s);
     (i, s1) \<leftarrow> choose_inf (inf_next l) s;
     n \<leftarrow> infs s1 i;
     s2 \<leftarrow> (if current n \<noteq> NULL then do {
            v \<leftarrow> get_srv s1 (current n);
            if timed_out v s1 then map_option snd (deactivate_current i s1) else Some s1
          } else Some s1);
     n2 \<leftarrow> infs s2 i;
     if current n2 \<noteq> NULL then Some (1, msg, len, i, s2)
     else do {
       r \<leftarrow> set_srvfail msg len;
       (case r of None \<Rightarrow> Some (- 1, msg, len, NULL, s2) | Some m \<Rightarrow> Some (0, m, len, NULL, s2))
     }
   }"

text \<open>With debugging on, the question is printed into a local buffer and the packet is dumped, see \<open>log_reply\<close>.\<close>

definition log_query :: "bytes \<Rightarrow> nat \<Rightarrow> 'a dnrd_state_scheme \<Rightarrow> unit option" where
  "log_query msg len s =
     (if opt_debug s \<noteq> 0 then do {
        (r, cname_buf) \<leftarrow> snprintf_cname (vc s) msg len 12 (replicate 256 0) 256;
        d \<leftarrow> dump_dnspacket (vc s) (unat (opt_debug s)) (rr_garbage s) msg len;
        Some ()
      } else Some ())"

definition handle_query :: "bytes \<Rightarrow> nat \<Rightarrow> 'a dnrd_state_scheme \<Rightarrow>
    (int \<times> bytes \<times> nat \<times> ptr \<times> 'a dnrd_state_scheme) option" where
  "handle_query msg len s = do {
     log_query msg len s;
     (r, msg1, m) \<leftarrow> master_lookup (vc s) (rr_garbage s) msg len (mst s);
     let s1 = s\<lparr>mst := m\<rparr>;
     if 0 < r then Some (0, msg1, r, NULL, s1)
     else do {
       (r', msg2, s2) \<leftarrow> cache_lookup msg1 len s1;
       if 0 < r' then Some (0, msg2, r', NULL, s2) else choose_server msg2 len s2
     }
   }"

definition udp_handle_request :: "'a dnrd_state_scheme \<Rightarrow> (ptr \<times> 'a dnrd_state_scheme) option" where
  "udp_handle_request s =
     (case os_recv s of
        (Recv_error, s1) \<Rightarrow> Some (NULL, s1)
      | (Recv_msg d from nm, s1) \<Rightarrow> do {
          let d1 = take UDP_MAXSIZE d;
          let s2 = s1\<lparr>req_msg := overlay (req_msg s1) 0 d1\<rparr>;
          ok \<leftarrow> check_query (req_msg s2) (length d1);
          if ok < 0 then Some (NULL, s2)
          else do {
            (fwd, msg, len, i, s3) \<leftarrow> handle_query (req_msg s2) (length d1) s2;
            let s4 = s3\<lparr>req_msg := msg\<rparr>;
            if fwd < 0 then Some (NULL, s4)
            else if fwd = 0 then
              (if len \<le> length msg then Some (NULL, snd (os_sendto (isock s4) (take len msg) from s4)) else None)
            else do {
              n \<leftarrow> infs s4 i;
              (prev, msg1, s5) \<leftarrow> query_add i (current n) from msg s4;
              let s6 = s5\<lparr>req_msg := msg1\<rparr>;
              if prev = NULL then Some (NULL, s6)
              else do {
                k \<leftarrow> queries s6 prev;
                (sentlen, s7) \<leftarrow> send2current (q_next k) msg1 len s6;
                if 0 < sentlen then Some (q_next k, s7)
                else do {
                  (plen, pkt, m) \<leftarrow> master_dontknow (vc s7) (rr_garbage s7) msg1 len (replicate (UDP_MAXSIZE + 4) 0) (mst s7);
                  let s8 = s7\<lparr>mst := m\<rparr>;
                  if 0 < plen then do {
                    s9 \<leftarrow> query_delete_next prev s8;
                    Some (NULL, s9)
                  } else Some (q_next k, s8)
                }
              }
            }
          }
        })"

section \<open>Maintenance of the servers\<close>

partial_function (option) react_loop :: "int \<Rightarrow> ptr \<Rightarrow> 'a dnrd_state_scheme \<Rightarrow> 'a dnrd_state_scheme option" where
  "react_loop interval i s = do {
     n \<leftarrow> infs s i;
     e \<leftarrow> no_srvlist s (srvlist n);
     s1 \<leftarrow> (if e = 0 then retry_srvlist i interval s else Some s);
     n1 \<leftarrow> infs s1 i;
     if inf_next n1 \<noteq> inf_list s1 then react_loop interval (inf_next n1) s1 else Some s1
   }"

declare react_loop.simps [code]

definition reactivate_servers :: "int \<Rightarrow> 'a dnrd_state_scheme \<Rightarrow> 'a dnrd_state_scheme option" where
  "reactivate_servers interval s =
     (let l = (if react_last s = 0 then clock s else react_last s)
      in if clock s - l < interval then Some (s\<lparr>react_last := l\<rparr>)
         else react_loop interval (inf_list s) (s\<lparr>react_last := clock s\<rparr>))"

text \<open>The servers behind \<open>p\<close> in the list of the interface \<open>i\<close>.\<close>

partial_function (option) deact_srvs :: "ptr \<Rightarrow> ptr \<Rightarrow> ptr \<Rightarrow> 'a dnrd_state_scheme \<Rightarrow> 'a dnrd_state_scheme option" where
  "deact_srvs i head p s = do {
     v \<leftarrow> get_srv s p;
     let r = srv_next v;
     if r \<noteq> head then do {
       w \<leftarrow> get_srv s r;
       s2 \<leftarrow> (if inactive w \<noteq> 0 then Some s
             else if send_time w \<noteq> 0 \<and> clock s - send_time w > forward_timeout s then do {
               s1 \<leftarrow> upd_srv r (\<lambda>v. v\<lparr>inactive := clock s\<rparr>) s;
               n \<leftarrow> infs s1 i;
               if r = current n then map_option snd (deactivate_current i s1) else Some s1
             } else Some s);
       deact_srvs i head r s2
     } else Some s
   }"

declare deact_srvs.simps [code]

partial_function (option) deact_loop :: "ptr \<Rightarrow> 'a dnrd_state_scheme \<Rightarrow> 'a dnrd_state_scheme option" where
  "deact_loop i s = do {
     n \<leftarrow> infs s i;
     s1 \<leftarrow> (if srvlist n \<noteq> NULL then deact_srvs i (srvlist n) (srvlist n) s else Some s);
     n1 \<leftarrow> infs s1 i;
     if inf_next n1 \<noteq> inf_list s1 then deact_loop (inf_next n1) s1 else Some s1
   }"

declare deact_loop.simps [code]

definition deactivate_servers :: "int \<Rightarrow> 'a dnrd_state_scheme \<Rightarrow> 'a dnrd_state_scheme option" where
  "deactivate_servers interval s =
     (let l = (if deact_last s = 0 then clock s else deact_last s)
      in if clock s - l < interval then Some (s\<lparr>deact_last := l\<rparr>)
         else deact_loop (inf_list s) (s\<lparr>deact_last := clock s\<rparr>))"

text \<open>The statistics print; what stays are their static variables and the counters that are reset.\<close>

definition srv_stats :: "int \<Rightarrow> 'a dnrd_state_scheme \<Rightarrow> 'a dnrd_state_scheme" where
  "srv_stats interval s =
     (if srv_stats_last s + interval > clock s then s\<lparr>srv_stats_last := clock s\<rparr> else s)"

definition query_stats :: "int \<Rightarrow> 'a dnrd_state_scheme \<Rightarrow> 'a dnrd_state_scheme" where
  "query_stats interval s =
     (if interval = 0 then s
      else if stats_last s + interval < clock s then
        (let s1 = s\<lparr>stats_last := clock s\<rparr>
         in if stats_reset s \<noteq> 0 then s1\<lparr>cache_hits := 0, cache_misses := 0, total_timeouts := 0\<rparr> else s1)
      else s)"

section \<open>The main loop\<close>

text \<open>
  What \<open>pselect\<close> reports: an error, which is an interruption by a signal or not, the interruption by SIGHUP, with
  the files as they are then, or by SIGUSR1, for which the handler in src/sig.c has run inside the call, or the
  descriptors that are ready.
\<close>

datatype select_result = Sel_error bool | Sel_hangup "bytes \<Rightarrow> bytes option" | Sel_usr1 | Sel_ready "int list"

text \<open>The handler: SIGHUP asks for the reload, SIGUSR1 switches debugging on and off.\<close>

definition on_signal :: "select_result \<Rightarrow> 'a dnrd_state_scheme \<Rightarrow> 'a dnrd_state_scheme" where
  "on_signal sel s =
     (case sel of
        Sel_hangup f \<Rightarrow> s\<lparr>mst := (mst s)\<lparr>files := f, master_reload := 1\<rparr>\<rparr>
      | Sel_usr1 \<Rightarrow> s\<lparr>opt_debug := (if opt_debug s \<noteq> 0 then 0 else 3)\<rparr>
      | _ \<Rightarrow> s)"

definition run_reload :: "'a dnrd_state_scheme \<Rightarrow> 'a dnrd_state_scheme option" where
  "run_reload s = map_option (\<lambda>m. s\<lparr>mst := m\<rparr>) (master_reinit (mst s))"

definition fd_isset :: "int \<Rightarrow> int list \<Rightarrow> bool option" where
  "fd_isset fd fds = (if 0 \<le> fd \<and> fd < FD_SETSIZE then Some (fd \<in> set fds) else None)"

text \<open>The inner loop over the sockets of the query behind \<open>q\<close>.\<close>

fun reply_socks :: "ptr \<Rightarrow> nat list \<Rightarrow> int list \<Rightarrow> 'a dnrd_state_scheme \<Rightarrow> 'a dnrd_state_scheme option" where
  "reply_socks q [] fds s = Some s"
| "reply_socks q (c # cs) fds s = do {
     n \<leftarrow> queries s q;
     k \<leftarrow> queries s (q_next n);
     fd \<leftarrow> rd (sock_arr k) (int c);
     e \<leftarrow> fd_isset fd fds;
     s1 \<leftarrow> (if e then udp_handle_reply q c s else Some s);
     n1 \<leftarrow> queries s1 q;
     k1 \<leftarrow> queries s1 (q_next n1);
     if is_dummy k1 = 1 then Some s1 else reply_socks q cs fds s1
   }"

partial_function (option) reply_loop :: "ptr \<Rightarrow> int list \<Rightarrow> 'a dnrd_state_scheme \<Rightarrow> 'a dnrd_state_scheme option" where
  "reply_loop q fds s = do {
     n \<leftarrow> queries s q;
     if q_next n \<noteq> QLIST then do {
       s1 \<leftarrow> reply_socks q [0, 1, 2] fds s;
       n1 \<leftarrow> queries s1 q;
       reply_loop (q_next n1) fds s1
     } else Some s
   }"

declare reply_loop.simps [code]

definition run_init :: "'a dnrd_state_scheme \<Rightarrow> 'a dnrd_state_scheme option" where
  "run_init s = map_option (\<lambda>s1. s1\<lparr>maxsock := isock s\<rparr>) (fd_add (isock s) (s\<lparr>fdmaster := []\<rparr>))"

definition run_servers :: "'a dnrd_state_scheme \<Rightarrow> 'a dnrd_state_scheme option" where
  "run_servers s =
     (if reactivate_interval s \<noteq> 0 then do {
        s1 \<leftarrow> reactivate_servers (reactivate_interval s) s;
        if forward_timeout s1 \<noteq> 0 then deactivate_servers 1 s1 else Some s1
      } else Some s)"

definition run_packets :: "int list \<Rightarrow> 'a dnrd_state_scheme \<Rightarrow> 'a dnrd_state_scheme option" where
  "run_packets fds s =
     (if fds = [] then Some s
      else do {
        s1 \<leftarrow> reply_loop QLIST fds s;
        e \<leftarrow> fd_isset (isock s1) fds;
        if e then map_option snd (udp_handle_request s1) else Some s1
      })"

definition run_maintain :: "'a dnrd_state_scheme \<Rightarrow> 'a dnrd_state_scheme option" where
  "run_maintain s = do {
     s1 \<leftarrow> cache_expire s;
     s2 \<leftarrow> query_timeout s1;
     Some (srv_stats 10 (query_stats (stats_interval s2) s2))
   }"

definition run_step :: "int \<Rightarrow> select_result \<Rightarrow> 'a dnrd_state_scheme \<Rightarrow> 'a dnrd_state_scheme option" where
  "run_step now sel s = do {
     s1 \<leftarrow> run_servers (on_signal sel (s\<lparr>clock := now\<rparr>));
     (case sel of
        Sel_error eintr \<Rightarrow> (if eintr then run_reload s1 else Some s1)
      | Sel_hangup f \<Rightarrow> run_reload s1
      | Sel_usr1 \<Rightarrow> run_reload s1
      | Sel_ready fds \<Rightarrow> do {
          s2 \<leftarrow> run_packets fds s1;
          run_maintain s2
        })
   }"

end
