(* ===== verification/Process.thy ===== *)
theory Process
  imports Relay
begin

text \<open>
  The process around the program: its remaining global variables, how it ends (\<open>cleanexit\<close> and
  \<open>log_err_exit\<close> of src/common.c), how it replaces a running copy of itself (\<open>isrunning\<close>,
  \<open>wait_for_exit\<close>, \<open>kill_current\<close>), and its signals (src/sig.c). The fields \<open>env_\<dots>\<close> are what the kernel and the
  libraries answer; messages are not modelled.
\<close>

text \<open>A step of the process ends it with a code or goes on. Hanging for ever is the outer \<open>None\<close>.\<close>

datatype 'a ending = Exit int | Go 'a

datatype syscall =
    Sys_fopen_pid | Sys_sem_init | Sys_bind | Sys_chdir_root | Sys_opendir | Sys_chroot | Sys_setgroups | Sys_setuid

datatype fork_result = Fork_error | Fork_parent | Fork_child

datatype pid_file = No_file | Unreadable | Pid_file bytes

datatype kill_result = Kill_ok | Kill_eperm | Kill_esrch

record stat_t =
  st_uid :: u32
  st_mode :: u32
  st_isdir :: bool

datatype signal = SIGINT | SIGQUIT | SIGTERM | SIGUSR1 | SIGHUP | SIGCHLD

datatype disposition = Sig_dfl | Sig_ign | Sig_handler

record proc_state = dnrd_state +
  gotterminal :: int
  recv_addr :: sockaddr_in
  dnrd_user :: bytes
  dnrd_root :: bytes
  daemonuid :: u32
  daemongid :: u32
  dnrd_sem :: nat
  sort_st :: sort_state
  pid_fd :: int
  pidfile :: pid_file
  killed :: "int list"
  blocked :: "signal list"
  handlers :: "signal \<Rightarrow> disposition"
  env_sys :: "syscall \<Rightarrow> bool"
  env_ifs :: "bytes list"
  env_root :: "bytes option"
  env_running :: "nat \<Rightarrow> kill_result"
  env_ports :: "u16 option \<times> u16 option"
  env_passwd :: "bytes \<Rightarrow> (u32 \<times> u32) option"
  env_rootstat :: stat_t
  env_dir :: "(bytes \<times> stat_t option) list"
  env_fork :: fork_result
  env_tv :: "nat \<Rightarrow> u32 \<times> u32"

text \<open>Steps one after the other, until one ends the process.\<close>

fun run_all :: "('a \<Rightarrow> 'a ending option) list \<Rightarrow> 'a \<Rightarrow> 'a ending option" where
  "run_all [] s = Some (Go s)"
| "run_all (f # fs) s = do {
     r \<leftarrow> f s;
     (case r of Exit c \<Rightarrow> Some (Exit c) | Go s1 \<Rightarrow> run_all fs s1)
   }"

section \<open>The end of the process\<close>

text \<open>The semaphore is static: before \<open>sem_init\<close> its value is 0, and waiting for it does not end.\<close>

definition sem_wait :: "'a proc_state_scheme \<Rightarrow> 'a proc_state_scheme option" where
  "sem_wait s = (if dnrd_sem s = 0 then None else Some (s\<lparr>dnrd_sem := dnrd_sem s - 1\<rparr>))"

definition cleanexit :: "int \<Rightarrow> 'a proc_state_scheme \<Rightarrow> 'a proc_state_scheme ending option" where
  "cleanexit status s = do {
     s1 \<leftarrow> sem_wait s;
     let s2 = (if 0 \<le> isock s1 then os_close (isock s1) s1 else s1);
     (h, s3) \<leftarrow> destroy_inflist (inf_list s2) s2;
     Some (Exit status)
   }"

text \<open>The message that precedes it is not modelled.\<close>

definition log_err_exit :: "int \<Rightarrow> 'a proc_state_scheme \<Rightarrow> 'a proc_state_scheme ending option" where
  "log_err_exit exitcode s = cleanexit exitcode s"

section \<open>The running copy\<close>

definition isrunning :: "kill_result \<Rightarrow> int" where
  "isrunning r = (case r of Kill_ok \<Rightarrow> 1 | Kill_eperm \<Rightarrow> 1 | Kill_esrch \<Rightarrow> 0)"

text \<open>\<open>k\<close> is the number of the probe.\<close>

fun wait_for_exit :: "(nat \<Rightarrow> kill_result) \<Rightarrow> nat \<Rightarrow> nat \<Rightarrow> int" where
  "wait_for_exit run k 0 = 0"
| "wait_for_exit run k (Suc timeout) = (if isrunning (run k) = 0 then 1 else wait_for_exit run (Suc k) timeout)"

text \<open>\<open>fscanf (f, "%i%*s", &pid) == 1\<close>: a number in the notation of C, with an optional sign.\<close>

definition scan_int :: "bytes \<Rightarrow> int option" where
  "scan_int t =
     (let u = dropWhile c_isspace t;
          neg = (u \<noteq> [] \<and> hd u = 45);
          v = (if u \<noteq> [] \<and> (hd u = 45 \<or> hd u = 43) then tl u else u)
      in if v \<noteq> [] \<and> c_isdigit (hd v)
         then Some (if neg then - int (fst (strtoul0 v)) else int (fst (strtoul0 v))) else None)"

definition kill_current :: "'a proc_state_scheme \<Rightarrow> (int \<times> 'a proc_state_scheme) ending" where
  "kill_current s =
     (case pidfile s of
        No_file \<Rightarrow> Go (0, s)
      | Unreadable \<Rightarrow> Exit (- 1)
      | Pid_file t \<Rightarrow>
          (case scan_int t of
             None \<Rightarrow> Go (0, s\<lparr>pidfile := No_file\<rparr>)
           | Some pid \<Rightarrow>
               (let s1 = s\<lparr>killed := killed s @ [pid]\<rparr>;
                    w = wait_for_exit (env_running s1) 0 400
                in Go (1, s1\<lparr>pidfile := No_file\<rparr>))))"

section \<open>Signals\<close>

definition sig_handler :: "signal \<Rightarrow> 'a proc_state_scheme \<Rightarrow> 'a proc_state_scheme ending option" where
  "sig_handler signo s =
     (case signo of
        SIGUSR1 \<Rightarrow> Some (Go (s\<lparr>opt_debug := (if opt_debug s \<noteq> 0 then 0 else 3),
                                 handlers := (handlers s)(signo := Sig_handler)\<rparr>))
      | SIGHUP \<Rightarrow> Some (Go (s\<lparr>mst := (mst s)\<lparr>master_reload := 1\<rparr>, handlers := (handlers s)(signo := Sig_handler)\<rparr>))
      | _ \<Rightarrow> cleanexit 0 s)"

text \<open>The result is the old mask, which \<open>pselect\<close> installs while it waits.\<close>

definition init_sig_handler :: "'a proc_state_scheme \<Rightarrow> signal list \<times> 'a proc_state_scheme" where
  "init_sig_handler s =
     (blocked s,
      s\<lparr>blocked := [SIGINT, SIGQUIT, SIGTERM, SIGUSR1, SIGHUP, SIGCHLD] @ blocked s,
        handlers := (handlers s)(SIGINT := Sig_handler, SIGQUIT := Sig_handler, SIGTERM := Sig_handler,
          SIGUSR1 := Sig_handler, SIGHUP := Sig_handler, SIGCHLD := Sig_ign)\<rparr>)"

end
