(* ===== verification/Args.thy ===== *)
theory Args
  imports Process
begin

text \<open>
  The options of the command line, \<open>parse_args\<close> of src/args.c, and \<open>validate_interface\<close> of src/infnode.c.
  What \<open>getopt_long\<close> finds is a parameter: the letters of the options with their arguments, without NUL, and
  whether there is anything behind them. The names of the interfaces of the machine are \<open>env_ifs\<close>; when the kernel
  does not tell them, the list is empty.
\<close>

definition validate_interface :: "bytes \<Rightarrow> 'a proc_state_scheme \<Rightarrow> int option" where
  "validate_interface name s = do {
     found \<leftarrow> any_strneq (name @ [0]) (map (\<lambda>r. r @ [0]) (env_ifs s)) 8;
     Some (if found then 0 else - 1)
   }"

text \<open>The part of an argument before a character, and the part behind it (\<open>strchr\<close>, \<open>strrchr\<close>).\<close>

definition before :: "byte \<Rightarrow> bytes \<Rightarrow> bytes" where
  "before ch t = takeWhile ((\<noteq>) ch) t"

definition behind :: "byte \<Rightarrow> bytes \<Rightarrow> bytes" where
  "behind ch t = tl (dropWhile ((\<noteq>) ch) t)"

definition before_last :: "byte \<Rightarrow> bytes \<Rightarrow> bytes" where
  "before_last ch t = rev (behind ch (rev t))"

text \<open>\<open>-D\<close>: an interface for queries without one of their own.\<close>

definition opt_default :: "bytes \<Rightarrow> 'a proc_state_scheme \<Rightarrow> 'a proc_state_scheme ending option" where
  "opt_default arg s = do {
     v \<leftarrow> validate_interface arg s;
     if v < 0 then Some (Exit 1)
     else do {
       d \<leftarrow> rd (def_inf_list s) (int (def_inf_count s));
       d1 \<leftarrow> c_strncpy d arg 9;
       ds \<leftarrow> wr (def_inf_list s) (int (def_inf_count s)) d1;
       Some (Go (s\<lparr>def_inf_list := ds, def_inf_count := def_inf_count s + 1\<rparr>))
     }
   }"

text \<open>A string in an array that is printed with \<open>%s\<close> when the level of debugging is high enough.\<close>

definition log_string :: "byte \<Rightarrow> bytes \<Rightarrow> 'a proc_state_scheme \<Rightarrow> unit option" where
  "log_string level b s = (if opt_debug s < level then Some () else map_option (\<lambda>k. ()) (c_strlen b))"

text \<open>\<open>-H\<close>: the interface of a host.\<close>

definition opt_host :: "bytes \<Rightarrow> 'a proc_state_scheme \<Rightarrow> 'a proc_state_scheme ending option" where
  "opt_host arg s =
     (if 58 \<in> set arg then do {
        v \<leftarrow> validate_interface (behind 58 arg) s;
        if v = 0 then do {
          (h, i) \<leftarrow> rd (sp_hosts s) (int (sp_hosts_count s));
          i1 \<leftarrow> c_strncpy i (behind 58 arg) 10;
          h1 \<leftarrow> c_strncpy h (before 58 arg) 30;
          hs \<leftarrow> wr (sp_hosts s) (int (sp_hosts_count s)) (h1, i1);
          log_string 3 h1 s;
          log_string 3 i1 s;
          Some (Go (s\<lparr>sp_hosts := hs, sp_hosts_count := sp_hosts_count s + 1\<rparr>))
        } else Some (Exit 1)
      } else Some (Exit 1))"

text \<open>\<open>-s\<close>: a server and its interface, which is created when it is new.\<close>

definition opt_server :: "bytes \<Rightarrow> 'a proc_state_scheme \<Rightarrow> 'a proc_state_scheme ending option" where
  "opt_server arg s =
     (if 58 \<in> set arg then do {
        let name = behind 58 arg;
        v \<leftarrow> validate_interface name s;
        if v < 0 then Some (Exit 1)
        else do {
          i \<leftarrow> search_infnode s (inf_list s) name;
          (i1, s1) \<leftarrow> (if i = NULL then add_interface (inf_list s) name s else Some (i, s));
          n \<leftarrow> infs s1 i1;
          l \<leftarrow> last_srvnode s1 (srvlist n);
          (p, s2) \<leftarrow> add_srv l (before 58 arg) s1;
          Some (if p = NULL then Exit (- 1) else Go s2)
        }
      } else Some (Exit 1))"

definition opt_stats :: "bytes \<Rightarrow> 'a proc_state_scheme \<Rightarrow> 'a proc_state_scheme" where
  "opt_stats arg s =
     (if 43 \<in> set arg then s\<lparr>stats_reset := 0, stats_interval := atoi (before_last 43 arg)\<rparr>
      else s\<lparr>stats_interval := atoi arg\<rparr>)"

definition opt_kill :: "'a proc_state_scheme \<Rightarrow> 'a proc_state_scheme ending" where
  "opt_kill s = (case kill_current s of Exit c \<Rightarrow> Exit c | Go r \<Rightarrow> Exit 0)"

definition opt_exclude :: "bytes \<Rightarrow> 'a proc_state_scheme \<Rightarrow> 'a proc_state_scheme ending option" where
  "opt_exclude arg s = do {
     ps \<leftarrow> wr (exc_port s) (int (exc_port_ofst s)) (atoi arg);
     Some (Go (s\<lparr>exc_port := ps, exc_port_ofst := exc_port_ofst s + 1\<rparr>))
   }"

definition opt_master :: "bytes \<Rightarrow> 'a proc_state_scheme \<Rightarrow> 'a proc_state_scheme ending option" where
  "opt_master arg s =
     (if arg = bstr ''off'' then Some (Go (s\<lparr>mst := (mst s)\<lparr>master_onoff := 0\<rparr>\<rparr>))
      else do {
        f \<leftarrow> c_strncpy (master_config (mst s)) arg 256;
        Some (Go (s\<lparr>mst := (mst s)\<lparr>master_config := f\<rparr>\<rparr>))
      })"

text \<open>
  One round of the loop, first the options from \<open>-S\<close> on. A letter that is no option, the \<open>?\<close> of \<open>getopt_long\<close>
  among them, ends the process.
\<close>

definition parse_opt_rest :: "char \<Rightarrow> bytes \<Rightarrow> 'a proc_state_scheme \<Rightarrow> 'a proc_state_scheme ending option" where
  "parse_opt_rest c arg s =
     (if c = CHR ''S'' then Some (Go (opt_stats arg s))
      else if c = CHR ''t'' then Some (Go (s\<lparr>forward_timeout := atoi arg\<rparr>))
      else if c = CHR ''u'' then do {
        u \<leftarrow> c_strncpy (dnrd_user s) arg 256;
        Some (Go (s\<lparr>dnrd_user := u\<rparr>))
      }
      else if c = CHR ''v'' then Some (Exit 0)
      else if c = CHR ''R'' then do {
        d \<leftarrow> c_strncpy (dnrd_root s) arg 512;
        log_string 1 d s;
        Some (Go (s\<lparr>dnrd_root := d\<rparr>))
      }
      else if c = CHR ''x'' then opt_exclude arg s
      else Some (Exit (- 1)))"

text \<open>The option \<open>-b\<close> sets a variable that nothing reads.\<close>

definition parse_opt :: "char \<Rightarrow> bytes \<Rightarrow> 'a proc_state_scheme \<Rightarrow> 'a proc_state_scheme ending option" where
  "parse_opt c arg s =
     (if c = CHR ''a'' then
        Some (case inet_aton arg of None \<Rightarrow> Exit (- 1)
              | Some a \<Rightarrow> Go (s\<lparr>recv_addr := (recv_addr s)\<lparr>sin_addr := a\<rparr>\<rparr>))
      else if c = CHR ''b'' then Some (Go s)
      else if c = CHR ''c'' then do {
        (y, x) \<leftarrow> copy_string (cache_param s) (arg @ [0]) 256;
        Some (Go (s\<lparr>cache_param := y\<rparr>))
      }
      else if c = CHR ''d'' then Some (Go (s\<lparr>opt_debug := of_int (atoi arg)\<rparr>))
      else if c = CHR ''D'' then opt_default arg s
      else if c = CHR ''h'' then Some (Exit 0)
      else if c = CHR ''H'' then opt_host arg s
      else if c = CHR ''i'' then Some (Go (s\<lparr>ignore_inactive_cache_hits := 1\<rparr>))
      else if c = CHR ''k'' then Some (opt_kill s)
      else if c = CHR ''l'' then Some (Go (s\<lparr>gotterminal := 0\<rparr>))
      else if c = CHR ''B'' then do {
        f \<leftarrow> c_strncpy (blacklist (mst s)) arg 256;
        Some (Go (s\<lparr>mst := (mst s)\<lparr>blacklist := f\<rparr>\<rparr>))
      }
      else if c = CHR ''m'' then opt_master arg s
      else if c = CHR ''M'' then Some (Go (s\<lparr>max_sockets := atoi arg\<rparr>))
      else if c = CHR ''r'' then Some (Go (s\<lparr>reactivate_interval := atoi arg\<rparr>))
      else if c = CHR ''s'' then opt_server arg s
      else parse_opt_rest c arg s)"

definition parse_args :: "(char \<times> bytes) list \<Rightarrow> bool \<Rightarrow> 'a proc_state_scheme \<Rightarrow> 'a proc_state_scheme ending option" where
  "parse_args opts rest s = do {
     r \<leftarrow> run_all (map (\<lambda>(c, arg). parse_opt c arg) opts) (s\<lparr>exc_port_ofst := 0, def_inf_count := 0, sp_hosts_count := 0\<rparr>);
     Some (case r of Exit c \<Rightarrow> Exit c | Go s1 \<Rightarrow> if rest then Exit (- 1) else Go s1)
   }"

end
