(* ===== verification/Startup.thy ===== *)
theory Startup
  imports Args
begin

text \<open>
  The start of the daemon, src/main.c, up to the endless loop of \<open>run\<close>, in the order of \<open>main\<close>. Each phase is one
  definition; the answers of the kernel come from the environment.
\<close>

section \<open>The user and the directory\<close>

text \<open>\<open>strtoul (s, &end, 10)\<close> on a C string: the value and the rest. Without digits the rest is the string.\<close>

definition strtoul10 :: "bytes \<Rightarrow> nat \<times> bytes" where
  "strtoul10 t =
     (let u = dropWhile c_isspace t;
          neg = (u \<noteq> [] \<and> hd u = 45);
          v = (if u \<noteq> [] \<and> (hd u = 45 \<or> hd u = 43) then tl u else u)
      in (case digits 10 v 0 0 of (x, n, r) \<Rightarrow>
            if n = 0 then (0, t)
            else (if 2 ^ 32 \<le> x then 2 ^ 32 - 1 else if neg then (2 ^ 32 - x) mod 2 ^ 32 else x, r)))"

definition init_dnrd_uid :: "'a proc_state_scheme \<Rightarrow> 'a proc_state_scheme ending option" where
  "init_dnrd_uid s = do {
     n \<leftarrow> c_strlen (dnrd_user s);
     let user = cstr (dnrd_user s);
     let (v, ep) = strtoul10 user;
     let s1 = s\<lparr>daemonuid := of_nat v\<rparr>;
     if user = [] then log_err_exit (- 1) s1
     else if ep \<noteq> [] then
       (case env_passwd s1 user of
          Some (u, g) \<Rightarrow> Some (Go (s1\<lparr>daemonuid := u, daemongid := g\<rparr>))
        | None \<Rightarrow> log_err_exit (- 1) s1)
     else Some (Go s1)
   }"

text \<open>\<open>S_IWGRP | S_IWOTH\<close>, and with \<open>S_IXUSR | S_IXGRP | S_IXOTH\<close>.\<close>

definition MODE_W :: u32 where "MODE_W = 0x12"
definition MODE_XW :: u32 where "MODE_XW = 0x5B"

text \<open>An entry of the directory that cannot be examined is skipped.\<close>

definition entry_sane :: "bytes \<times> stat_t option \<Rightarrow> bool" where
  "entry_sane e =
     (case e of (name, st) \<Rightarrow>
        if name = bstr ''.'' \<or> name = bstr ''..'' then True
        else (case st of None \<Rightarrow> True
              | Some m \<Rightarrow> if st_isdir m then False
                          else if st_mode m AND MODE_XW \<noteq> 0 then False
                          else if st_uid m \<noteq> 0 then False else True))"

definition root_sane :: "'a proc_state_scheme \<Rightarrow> bool" where
  "root_sane s =
     (if \<not> env_sys s Sys_chdir_root then False
      else if \<not> env_sys s Sys_opendir then False
      else if st_uid (env_rootstat s) \<noteq> 0 then False
      else if st_mode (env_rootstat s) AND MODE_W \<noteq> 0 then False
      else list_all entry_sane (env_dir s))"

text \<open>
  The calls read the name of the directory up to its NUL, which the array does not have when the option \<open>-R\<close> or the
  variable of the environment filled it.
\<close>

definition dnrd_root_sanity_check :: "'a proc_state_scheme \<Rightarrow> 'a proc_state_scheme ending option" where
  "dnrd_root_sanity_check s = do {
     n \<leftarrow> c_strlen (dnrd_root s);
     (if root_sane s then Some (Go s) else log_err_exit (- 1) s)
   }"

section \<open>The socket\<close>

text \<open>
  \<open>getservbyname\<close> returns the address of a static buffer, so the two results are equal unless exactly one is
  NULL, and the port is the one found last.
\<close>

definition init_socket :: "'a proc_state_scheme \<Rightarrow> 'a proc_state_scheme ending option" where
  "init_socket s =
     (case env_ports s of (udp, tcp) \<Rightarrow>
        if (udp = None) \<noteq> (tcp = None) then log_err_exit (- 1) s
        else (
          let port = (case tcp of Some p \<Rightarrow> p | None \<Rightarrow> 53);
              s1 = s\<lparr>recv_addr := (recv_addr s)\<lparr>sin_port := port\<rparr>\<rparr>;
              (fd, s2) = os_socket s1;
              s3 = s2\<lparr>isock := fd\<rparr>
          in if fd < 0 then log_err_exit (- 1) s3
             else if \<not> env_sys s3 Sys_bind then log_err_exit (- 1) s3
             else Some (Go s3)))"

section \<open>The servers\<close>

text \<open>The inner loop from the server \<open>p\<close>, and the loop over the interfaces.\<close>

partial_function (option) set_ports :: "ptr \<Rightarrow> ptr \<Rightarrow> 'a srv_state_scheme \<Rightarrow> 'a srv_state_scheme option" where
  "set_ports head p s = do {
     n \<leftarrow> get_srv s p;
     if srv_next n \<noteq> head then do {
       s1 \<leftarrow> upd_srv (srv_next n) (\<lambda>v. v\<lparr>srv_addr := (srv_addr v)\<lparr>sin_family := AF_INET, sin_port := 53\<rparr>\<rparr>) s;
       set_ports head (srv_next n) s1
     } else Some s
   }"

declare set_ports.simps [code]

partial_function (option) port_loop :: "ptr \<Rightarrow> 'a inf_state_scheme \<Rightarrow> 'a inf_state_scheme option" where
  "port_loop i s = do {
     n \<leftarrow> infs s i;
     s1 \<leftarrow> set_ports (srvlist n) (srvlist n) s;
     h \<leftarrow> get_srv s1 (srvlist n);
     s2 \<leftarrow> upd_inf i (\<lambda>n. n\<lparr>current := srv_next h\<rparr>) s1;
     if inf_next n \<noteq> inf_list s2 then port_loop (inf_next n) s2 else Some s2
   }"

declare port_loop.simps [code]

section \<open>The phases of main\<close>

definition need :: "syscall \<Rightarrow> 'a proc_state_scheme \<Rightarrow> 'a proc_state_scheme ending option" where
  "need c s = (if env_sys s c then Some (Go s) else log_err_exit (- 1) s)"

definition main_begin :: "'a proc_state_scheme \<Rightarrow> 'a proc_state_scheme ending option" where
  "main_begin s = do {
     let s1 = s\<lparr>recv_addr := sockaddr_zero\<lparr>sin_family := AF_INET\<rparr>\<rparr>;
     let (i, s2) = alloc_infnode s1;
     let s3 = s2\<lparr>inf_list := i\<rparr>;
     (case env_root s3 of
        None \<Rightarrow> Some (Go s3)
      | Some dir \<Rightarrow> do { d \<leftarrow> c_strncpy (dnrd_root s3) dir 512; Some (Go (s3\<lparr>dnrd_root := d\<rparr>)) })
   }"

text \<open>The result of \<open>chdir\<close> is ignored.\<close>

definition main_chdir :: "'a proc_state_scheme \<Rightarrow> 'a proc_state_scheme ending option" where
  "main_chdir s = map_option (\<lambda>n. Go s) (c_strlen (dnrd_root s))"

definition main_chroot :: "'a proc_state_scheme \<Rightarrow> 'a proc_state_scheme ending option" where
  "main_chroot s = do { n \<leftarrow> c_strlen (dnrd_root s); need Sys_chroot s }"

text \<open>The file for the process id stays open until the daemon has its own process.\<close>

definition main_pid :: "'a proc_state_scheme \<Rightarrow> 'a proc_state_scheme ending option" where
  "main_pid s =
     (case kill_current s of
        Exit c \<Rightarrow> Some (Exit c)
      | Go (k, s1) \<Rightarrow> do {
          r \<leftarrow> need Sys_fopen_pid s1;
          (case r of Exit c \<Rightarrow> Some (Exit c)
           | Go s2 \<Rightarrow> (let fd = lowest_free (open_fds s2)
                       in Some (Go (s2\<lparr>pid_fd := fd, open_fds := fd # open_fds s2, pidfile := Pid_file []\<rparr>))))
        })"

definition main_sem :: "'a proc_state_scheme \<Rightarrow> 'a proc_state_scheme ending option" where
  "main_sem s = (if env_sys s Sys_sem_init then Some (Go (s\<lparr>dnrd_sem := 1\<rparr>)) else log_err_exit (- 1) s)"

definition main_tables :: "'a proc_state_scheme \<Rightarrow> 'a proc_state_scheme ending option" where
  "main_tables s = do {
     s1 \<leftarrow> cache_init s;
     qs \<leftarrow> qid_init_pool (env_tv s1) (qids s1);
     let s2 = s1\<lparr>qids := qs\<rparr>;
     m \<leftarrow> master_init (mst s2);
     s3 \<leftarrow> query_init (s2\<lparr>mst := m\<rparr>);
     Some (Go (s3\<lparr>vc := init_dns 1\<rparr>))
   }"

definition main_servers :: "'a proc_state_scheme \<Rightarrow> 'a proc_state_scheme ending option" where
  "main_servers s = map_option Go (port_loop (inf_list s) s)"

definition main_daemon :: "'a proc_state_scheme \<Rightarrow> 'a proc_state_scheme ending option" where
  "main_daemon s =
     (if opt_debug s = 0 \<or> gotterminal s = 0 then
        (case env_fork s of
           Fork_error \<Rightarrow> log_err_exit (- 1) s
         | Fork_parent \<Rightarrow> Some (Exit 0)
         | Fork_child \<Rightarrow> Some (Go (os_close 2 (os_close 1 (os_close 0 (s\<lparr>gotterminal := 0\<rparr>))))))
      else Some (Go s))"

text \<open>The number of the process is written to its file.\<close>

definition main_sort :: "bytes \<Rightarrow> 'a proc_state_scheme \<Rightarrow> 'a proc_state_scheme ending option" where
  "main_sort pid s = do {
     let s1 = os_close (pid_fd s) (s\<lparr>pidfile := Pid_file pid\<rparr>);
     st \<leftarrow> sort_groups s1 (sort_st s1);
     Some (Go (s1\<lparr>sort_st := st\<rparr>))
   }"

definition main_run :: "'a proc_state_scheme \<Rightarrow> 'a proc_state_scheme ending option" where
  "main_run s = do { s1 \<leftarrow> run_init s; Some (Go (snd (init_sig_handler s1))) }"

text \<open>\<open>main\<close> from its first line to the first iteration of the loop.\<close>

definition start :: "(char \<times> bytes) list \<Rightarrow> bool \<Rightarrow> bytes \<Rightarrow> 'a proc_state_scheme \<Rightarrow> 'a proc_state_scheme ending option" where
  "start opts rest pid s =
     run_all [main_begin, parse_args opts rest, main_chdir, main_pid, main_sem, init_socket, main_tables, init_dnrd_uid,
       dnrd_root_sanity_check, main_chroot, need Sys_setgroups, need Sys_setuid, main_servers, main_daemon,
       main_sort pid, main_run] s"

end
