(* ===== verification/Timeout.thy ===== *)
theory Timeout
  imports Query
begin

text \<open>
  What the sweep of \<open>query_timeout\<close>, src/query.c, does to the list of open queries: which queries it removes,
  which failures it sends, and that it ends.
\<close>

text \<open>The fields on which the invariant depends.\<close>

lemma query_inv_cong:
  assumes "query_inv s ps" "queries t = queries s" "qlist_tail t = qlist_tail s" "qids t = qids s"
    and "open_fds t = open_fds s" "upstream_sockets t = upstream_sockets s" "max_sockets t = max_sockets s"
    and "\<And>p. srv_live s p \<Longrightarrow> srv_live t p" "brk s \<le> brk t"
  shows "query_inv t ps"
proof -
  have inv: "qlist_inv s ps" "pool_inv s ps" "fd_inv s (socks_of s ps)" using assms(1) by (auto simp: query_inv_def)
  have b: "p < brk t" if "p \<in> dom (queries t)" for p
  proof -
    have "p < brk s" using that inv(1) unfolding qlist_inv_def assms(2) by blast
    then show ?thesis using assms(9) by simp
  qed
  have "qlist_inv t ps"
    by (rule qlist_inv_cong [OF inv(1)]) (use assms(2,3,8,9) b in auto)
  moreover have "socks_of t ps = socks_of s ps" "ids_of t ps = ids_of s ps"
    using assms(2) by (simp_all add: socks_of_def ids_of_def qrec_def)
  ultimately show ?thesis using inv(2,3) assms(4-7) by (simp add: query_inv_def pool_inv_def fd_inv_def)
qed

section \<open>Timing out queries\<close>

text \<open>
  What the walk of \<open>query_timeout\<close> leaves of the list \<open>as @ bs\<close>, with \<open>as\<close> behind it and \<open>bs\<close> ahead:
  after a deletion the walk steps over the next query, and a deletion at the end starts it again.
\<close>

function timeout_walk :: "(ptr \<Rightarrow> bool) \<Rightarrow> ptr list \<Rightarrow> ptr list \<Rightarrow> ptr list" where
  "timeout_walk e as [] = as"
| "timeout_walk e as [p] = (if e p then timeout_walk e [] as else as @ [p])"
| "timeout_walk e as (p # b # bs) =
     (if e p then timeout_walk e (as @ [b]) bs else timeout_walk e (as @ [p]) (b # bs))"
  by pat_completeness auto
termination
  by (relation "measures [\<lambda>(e, as, bs). length as + length bs, \<lambda>(e, as, bs). length bs]") auto

lemma timeout_walk_subset: "set (timeout_walk e as bs) \<subseteq> set (as @ bs)"
  by (induction e as bs rule: timeout_walk.induct) auto

lemma timeout_walk_keeps: "x \<in> set (as @ bs) \<Longrightarrow> \<not> e x \<Longrightarrow> x \<in> set (timeout_walk e as bs)"
  by (induction e as bs rule: timeout_walk.induct) auto

lemma timeout_walk_length: "length (timeout_walk e as bs) \<le> length (as @ bs)"
  by (induction e as bs rule: timeout_walk.induct) auto

lemma timeout_walk_progress: "x \<in> set bs \<Longrightarrow> e x \<Longrightarrow> length (timeout_walk e as bs) < length (as @ bs)"
proof (induction e as bs rule: timeout_walk.induct)
  case (2 e as p)
  then show ?case using timeout_walk_length [of e "[]" as] by auto
next
  case (3 e as p b bs)
  then show ?case using timeout_walk_length [of e "as @ [b]" bs] by (auto split: if_splits)
qed simp

lemma timeout_walk_distinct: "distinct (as @ bs) \<Longrightarrow> distinct (timeout_walk e as bs)"
  by (induction e as bs rule: timeout_walk.induct) auto

lemma timeout_walk_cong:
  assumes "\<And>x. x \<in> set (as @ bs) \<Longrightarrow> e x = e' x"
  shows "timeout_walk e as bs = timeout_walk e' as bs"
  using assms by (induction e as bs rule: timeout_walk.induct) auto

definition q_expired :: "int \<Rightarrow> query_t \<Rightarrow> bool" where
  "q_expired now n \<longleftrightarrow> client_time n < now - ttl n"

definition q_due :: "int \<Rightarrow> 'a query_state_scheme \<Rightarrow> ptr \<Rightarrow> bool" where
  "q_due now s p \<longleftrightarrow> q_expired now (qrec s p)"

text \<open>Records that differ in their link only.\<close>

definition same_but_link :: "'a query_state_scheme \<Rightarrow> 'a query_state_scheme \<Rightarrow> ptr list \<Rightarrow> bool" where
  "same_but_link s t ps \<longleftrightarrow>
     (\<forall>x \<in> set ps. \<exists>m m'. queries s x = Some m \<and> queries t x = Some m' \<and> m'\<lparr>q_next := 0\<rparr> = m\<lparr>q_next := 0\<rparr>)"

lemma same_but_linkD:
  assumes "same_but_link s t ps" "p \<in> set ps"
  shows "(qrec t p)\<lparr>q_next := 0\<rparr> = (qrec s p)\<lparr>q_next := 0\<rparr>" "q_due now t p = q_due now s p"
proof -
  show e: "(qrec t p)\<lparr>q_next := 0\<rparr> = (qrec s p)\<lparr>q_next := 0\<rparr>"
    using assms unfolding same_but_link_def qrec_def by fastforce
  show "q_due now t p = q_due now s p"
    using arg_cong [OF e, of client_time] arg_cong [OF e, of ttl] by (simp add: q_due_def q_expired_def)
qed

text \<open>The failure that is kept for a client, as it is sent, and when it is due.\<close>

definition fail_reply :: "'a query_state_scheme \<Rightarrow> ptr \<Rightarrow> int \<times> sockaddr_in \<times> bytes" where
  "fail_reply s p = (isock s, client (qrec s p), lo8 (client_qid (qrec s p)) # hi8 (client_qid (qrec s p)) #
     drop 2 (take (fail_msg_len (qrec s p)) (cached_fail_msg (qrec s p))))"

definition fail_pending :: "'a query_state_scheme \<Rightarrow> ptr \<Rightarrow> bool" where
  "fail_pending s p \<longleftrightarrow> fail_msg_len (qrec s p) > 0 \<and> resp_sent (qrec s p) = 0"

lemma fail_reply_cong:
  assumes "(qrec t p)\<lparr>q_next := 0\<rparr> = (qrec s p)\<lparr>q_next := 0\<rparr>" "isock t = isock s"
  shows "fail_reply t p = fail_reply s p" "fail_pending t p = fail_pending s p" "q_due now t p = q_due now s p"
proof -
  note e = arg_cong [OF assms(1)]
  show "fail_reply t p = fail_reply s p" "fail_pending t p = fail_pending s p" "q_due now t p = q_due now s p"
    using e [of client] e [of client_qid] e [of fail_msg_len] e [of cached_fail_msg] e [of resp_sent]
      e [of client_time] e [of ttl] assms(2)
    by (simp_all add: fail_reply_def fail_pending_def q_due_def q_expired_def)
qed

lemma send_cached_failure_ok:
  assumes "query_inv s ps" "p \<in> set ps"
  shows "\<exists>s'. send_cached_failure p s = Some s' \<and> query_inv s' ps \<and> q_frame s s' \<and>
    (\<forall>x \<in> set ps. x \<noteq> p \<longrightarrow> queries s' x = queries s x) \<and>
    sent s' = sent s @ (if fail_pending s p then [fail_reply s p] else [])"
proof -
  obtain n where n: "queries s p = Some n" "query_ok s n"
    using assms by (auto simp: query_inv_def dest: qlist_member)
  have q: "qrec s p = n" using n(1) by (simp add: qrec_def)
  show ?thesis
  proof (cases "fail_msg_len n > 0 \<and> resp_sent n = 0")
    case False
    then show ?thesis using n(1) q assms(1) by (intro exI [of _ s]) (auto simp: send_cached_failure_def fail_pending_def)
  next
    case True
    then have l: "2 \<le> fail_msg_len n" "fail_msg_len n \<le> length (cached_fail_msg n)" using n(2) by (auto simp: query_ok_def)
    then obtain a b rest where m: "cached_fail_msg n = a # b # rest"
      by (metis One_nat_def Suc_1 Suc_le_length_iff le_trans)
    let ?m = "lo8 (client_qid n) # hi8 (client_qid n) # rest"
    let ?k = "n\<lparr>cached_fail_msg := ?m\<rparr>"
    let ?s = "s\<lparr>queries := (queries s)(p \<mapsto> ?k)\<rparr>"
    have inv: "query_inv ?s ps"
      by (rule query_inv_data [OF assms n(1)]) (use n(2) l m in \<open>auto simp: same_core_def q_socks_def query_ok_def\<close>)
    let ?t = "?s\<lparr>io := Suc (io s), sent := sent s @ [(isock s, client n, take (fail_msg_len n) ?m)]\<rparr>"
    have "query_inv ?t ps" by (rule query_inv_cong [OF inv]) (auto simp: srv_live_def)
    moreover have "send_cached_failure p s = Some ?t"
      using True n(1) l m by (simp add: send_cached_failure_def upd_query_def os_sendto_def put_le16_Cons)
    moreover have "q_frame s ?t" by (simp add: q_frame_def)
    moreover obtain j where "fail_msg_len n = Suc (Suc j)" using l(1) by (metis Suc_le_D numeral_2_eq_2 Suc_le_mono)
    ultimately show ?thesis using True q m n(1) by (intro exI [of _ ?t]) (auto simp: fail_pending_def fail_reply_def)
  qed
qed

lemma timeout_step:
  assumes "query_inv s (as @ p # bs)" "q_due now s p"
  shows "\<exists>s'. timeout_loop now (last (QLIST # as)) cnt s =
      timeout_loop now (if bs = [] then QLIST else hd bs) (cnt + 1) s' \<and> query_inv s' (as @ bs) \<and> q_frame s s' \<and>
    same_but_link s s' (as @ bs) \<and> sent s' = sent s @ (if fail_pending s p then [fail_reply s p] else [])"
proof -
  have c: "circ (q_nxt s) QLIST (as @ p # bs)" using assms(1) by (simp add: query_inv_def qlist_inv_def)
  have pq: "p \<noteq> QLIST" "p \<in> set (as @ p # bs)" "p \<notin> set (as @ bs)" using c by (auto simp: circ_def)
  obtain l where l: "queries s (last (QLIST # as)) = Some l" "q_next l = p"
    using circ_next_last [OF c] by (auto simp del: last.simps)
  obtain m where m: "queries s p = Some m" using assms(1) by (auto simp: query_inv_def dest: qlist_member [of s _ p])
  obtain s1 where 1: "send_cached_failure p s = Some s1" "query_inv s1 (as @ p # bs)" "q_frame s s1"
    "\<forall>x \<in> set (as @ p # bs). x \<noteq> p \<longrightarrow> queries s1 x = queries s x"
    "sent s1 = sent s @ (if fail_pending s p then [fail_reply s p] else [])"
    using send_cached_failure_ok [OF assms(1) pq(2)] by blast
  obtain s2 where 2: "query_delete_next (last (QLIST # as)) s1 = Some s2" "query_inv s2 (as @ bs)" "q_frame s1 s2"
    "sent s2 = sent s1"
    "\<forall>x \<in> set (QLIST # as @ bs). \<exists>m m'. queries s1 x = Some m \<and> queries s2 x = Some m' \<and> m'\<lparr>q_next := 0\<rparr> = m\<lparr>q_next := 0\<rparr>"
    using query_delete_next_ok [OF 1(2)] by blast
  have c2: "circ (q_nxt s2) QLIST (as @ bs)" using 2(2) by (simp add: query_inv_def qlist_inv_def)
  obtain n2 where n2: "queries s2 (last (QLIST # as)) = Some n2" "q_next n2 = (if bs = [] then QLIST else hd bs)"
  proof (cases bs)
    case Nil
    then show ?thesis using that circ_last [of "q_nxt s2" QLIST as] c2 by (auto simp del: last.simps)
  next
    case (Cons b bs')
    then show ?thesis using that circ_next_last [of "q_nxt s2" QLIST as b bs'] c2 by (auto simp del: last.simps)
  qed
  have "timeout_loop now (last (QLIST # as)) cnt s =
      timeout_loop now (if bs = [] then QLIST else hd bs) (cnt + 1) s2"
    using l m assms(2) pq(1) 1(1) 2(1) n2
    by (subst timeout_loop.simps) (simp add: q_due_def q_expired_def qrec_def del: last.simps)
  moreover have "same_but_link s s2 (as @ bs)"
    unfolding same_but_link_def
  proof
    fix x
    assume x: "x \<in> set (as @ bs)"
    then have "x \<noteq> p" using pq(3) by auto
    then have "queries s1 x = queries s x" using 1(4) x by auto
    then show "\<exists>m m'. queries s x = Some m \<and> queries s2 x = Some m' \<and> m'\<lparr>q_next := 0\<rparr> = m\<lparr>q_next := 0\<rparr>"
      using bspec [OF 2(5), of x] x by auto
  qed
  ultimately show ?thesis using 2(2,4) 1(5) q_frame_trans [OF 1(3) 2(3)] by (intro exI [of _ s2]) simp
qed

lemma timeout_skip:
  assumes "query_inv s (as @ p # bs)" "\<not> q_due now s p"
  shows "timeout_loop now (last (QLIST # as)) cnt s = timeout_loop now (last (QLIST # as @ [p])) cnt s"
proof -
  have c: "circ (q_nxt s) QLIST (as @ p # bs)" using assms(1) by (simp add: query_inv_def qlist_inv_def)
  obtain l where l: "queries s (last (QLIST # as)) = Some l" "q_next l = p"
    using circ_next_last [OF c] by (auto simp del: last.simps)
  obtain m where m: "queries s p = Some m" using assms(1) by (auto simp: query_inv_def dest: qlist_member [of s _ p])
  have "p \<noteq> QLIST" "last (QLIST # as @ [p]) = p" using c by (auto simp: circ_def)
  then show ?thesis using l m assms(2)
    by (subst timeout_loop.simps) (simp add: q_due_def q_expired_def qrec_def del: last.simps)
qed

lemma timeout_stop:
  assumes "query_inv s as"
  shows "timeout_loop now (last (QLIST # as)) cnt s = Some (cnt, s)"
proof -
  have "circ (q_nxt s) QLIST as" using assms by (simp add: query_inv_def qlist_inv_def)
  from circ_last [OF this] obtain l where "queries s (last (QLIST # as)) = Some l" "q_next l = QLIST"
    by (auto simp del: last.simps)
  then show ?thesis by (subst timeout_loop.simps) (simp del: last.simps)
qed

text \<open>
  The queries that a sweep closes, in the order in which it closes them, and the failures it sends on the way: exactly
  one message for each of them that was waiting to be told.
\<close>

definition timeout_result ::
    "'a query_state_scheme \<Rightarrow> ptr list \<Rightarrow> ptr list \<Rightarrow> 'a query_state_scheme \<Rightarrow> bool" where
  "timeout_result s rs ws s' \<longleftrightarrow> query_inv s' ws \<and> q_frame s s' \<and> same_but_link s s' ws \<and>
     (\<exists>cs. distinct cs \<and> set cs = set rs - set ws \<and>
        sent s' = sent s @ map (fail_reply s) (filter (fail_pending s) cs))"

lemma timeout_result_idle:
  assumes "query_inv s ws"
  shows "timeout_result s ws ws s"
proof -
  have "same_but_link s s ws" using assms by (auto simp: same_but_link_def query_inv_def dest: qlist_member)
  then show ?thesis unfolding timeout_result_def using assms by (intro conjI exI [of _ "[]"]) simp_all
qed

lemma same_but_link_trans:
  assumes "same_but_link s t ps" "same_but_link t u qs" "set qs \<subseteq> set ps"
  shows "same_but_link s u qs"
  unfolding same_but_link_def
proof
  fix x
  assume x: "x \<in> set qs"
  then have xp: "x \<in> set ps" using assms(3) by blast
  obtain m m' where a: "queries s x = Some m" "queries t x = Some m'" "m'\<lparr>q_next := 0\<rparr> = m\<lparr>q_next := 0\<rparr>"
    using bspec [OF assms(1) [unfolded same_but_link_def] xp] by blast
  obtain k k' where b: "queries t x = Some k" "queries u x = Some k'" "k'\<lparr>q_next := 0\<rparr> = k\<lparr>q_next := 0\<rparr>"
    using bspec [OF assms(2) [unfolded same_but_link_def] x] by blast
  show "\<exists>m m'. queries s x = Some m \<and> queries u x = Some m' \<and> m'\<lparr>q_next := 0\<rparr> = m\<lparr>q_next := 0\<rparr>"
    using a b by (metis option.inject)
qed

lemma timeout_combine:
  assumes "p \<notin> set rs" "q_frame s s1" "same_but_link s s1 rs" "set ws \<subseteq> set rs" "set ps = insert p (set rs)"
    and "sent s1 = sent s @ (if fail_pending s p then [fail_reply s p] else [])"
    and "timeout_result s1 rs ws s'"
  shows "timeout_result s ps ws s'"
proof -
  obtain cs where r: "query_inv s' ws" "q_frame s1 s'" "same_but_link s1 s' ws" "distinct cs" "set cs = set rs - set ws"
    "sent s' = sent s1 @ map (fail_reply s1) (filter (fail_pending s1) cs)"
    using assms(7) unfolding timeout_result_def by blast
  have i: "isock s1 = isock s" using q_frame_fields [OF assms(2)] by simp
  have eq: "fail_reply s1 x = fail_reply s x" "fail_pending s1 x = fail_pending s x" if "x \<in> set rs" for x
    using fail_reply_cong [OF same_but_linkD(1) [OF assms(3) that] i] by simp_all
  have cs: "x \<in> set rs" if "x \<in> set cs" for x using that r(5) by simp
  have "filter (fail_pending s1) cs = filter (fail_pending s) cs" using eq(2) [OF cs] by (auto intro: filter_cong)
  moreover have "map (fail_reply s1) (filter (fail_pending s) cs) = map (fail_reply s) (filter (fail_pending s) cs)"
    using eq(1) [OF cs] by auto
  ultimately have "sent s' = sent s @ map (fail_reply s) (filter (fail_pending s) (p # cs))" using r(6) assms(6) by simp
  moreover have "distinct (p # cs)" "set (p # cs) = set ps - set ws" using r(4,5) assms(1,4,5) by auto
  ultimately have "\<exists>cs. distinct cs \<and> set cs = set ps - set ws \<and>
      sent s' = sent s @ map (fail_reply s) (filter (fail_pending s) cs)" by blast
  then show ?thesis
    using r(1) q_frame_trans [OF assms(2) r(2)] same_but_link_trans [OF assms(3) r(3) assms(4)]
    by (simp add: timeout_result_def)
qed

lemma timeout_loop_walk:
  assumes "query_inv s (as @ bs)" "\<forall>x \<in> set (as @ bs). e x = q_due now s x"
  defines "ws \<equiv> timeout_walk e as bs"
  shows "\<exists>s'. timeout_loop now (last (QLIST # as)) cnt s = Some (cnt + (length (as @ bs) - length ws), s') \<and>
    timeout_result s (as @ bs) ws s'"
  using assms(1,2) unfolding ws_def
proof (induction e as bs arbitrary: s cnt rule: timeout_walk.induct)
  case (1 e as)
  show ?case using timeout_stop [of s as now cnt] timeout_result_idle [of s as] "1.prems"(1) by auto
next
  case (2 e as p)
  show ?case
  proof (cases "e p")
    case False
    show ?thesis
      using timeout_result_idle [of s "as @ [p]"] timeout_skip [of s as p "[]" now cnt] timeout_stop [of s "as @ [p]" now cnt] "2.prems" False
      by (simp del: last.simps)
  next
    case True
    have d: "q_due now s p" using "2.prems"(2) True by simp
    obtain s1 where 1: "timeout_loop now (last (QLIST # as)) cnt s = timeout_loop now QLIST (cnt + 1) s1"
      "query_inv s1 (as @ [])" "q_frame s s1" "same_but_link s s1 (as @ [])"
      "sent s1 = sent s @ (if fail_pending s p then [fail_reply s p] else [])"
      using timeout_step [OF "2.prems"(1) d, of cnt] by (auto simp del: last.simps)
    have "\<forall>x \<in> set ([] @ as). e x = q_due now s1 x"
      using same_but_linkD(2) [OF 1(4)] "2.prems"(2) by simp
    then obtain s' where r: "timeout_loop now (last [QLIST]) (cnt + 1) s1 =
        Some (cnt + 1 + (length ([] @ as) - length (timeout_walk e [] as)), s')"
      "timeout_result s1 ([] @ as) (timeout_walk e [] as) s'"
      using "2.IH" [OF True, of s1 "cnt + 1"] 1(2) by auto
    have "distinct (as @ [p])" using "2.prems"(1) by (simp add: query_inv_def qlist_inv_def circ_def)
    then have "timeout_result s (as @ [p]) (timeout_walk e [] as) s'"
      using timeout_combine [of p as s s1 "timeout_walk e [] as" "as @ [p]" s'] 1 r(2) timeout_walk_subset [of e "[]" as]
      by auto
    then show ?thesis using 1(1) r(1) True timeout_walk_length [of e "[]" as]
      by (intro exI [of _ s']) (simp del: last.simps add: last.simps(1) Suc_diff_le)
  qed
next
  case (3 e as p b bs)
  show ?case
  proof (cases "e p")
    case False
    have "query_inv s ((as @ [p]) @ b # bs)" "\<forall>x \<in> set ((as @ [p]) @ b # bs). e x = q_due now s x"
      using "3.prems" by simp_all
    from "3.IH"(2) [OF False this] obtain s' where
      "timeout_loop now (last (QLIST # as @ [p])) cnt s =
        Some (cnt + (length ((as @ [p]) @ b # bs) - length (timeout_walk e (as @ [p]) (b # bs))), s')"
      "timeout_result s ((as @ [p]) @ b # bs) (timeout_walk e (as @ [p]) (b # bs)) s'" by blast
    then show ?thesis using timeout_skip [of s as p "b # bs" now cnt] "3.prems" False
      by (simp del: last.simps)
  next
    case True
    have d: "q_due now s p" using "3.prems"(2) True by simp
    obtain s1 where 1: "timeout_loop now (last (QLIST # as)) cnt s = timeout_loop now b (cnt + 1) s1"
      "query_inv s1 (as @ b # bs)" "q_frame s s1" "same_but_link s s1 (as @ b # bs)"
      "sent s1 = sent s @ (if fail_pending s p then [fail_reply s p] else [])"
      using timeout_step [OF "3.prems"(1) d, of cnt] by (auto simp del: last.simps)
    let ?ws = "timeout_walk e (as @ [b]) bs"
    have "\<forall>x \<in> set ((as @ [b]) @ bs). e x = q_due now s1 x"
      using same_but_linkD(2) [OF 1(4)] "3.prems"(2) by simp
    then obtain s' where r: "timeout_loop now (last (QLIST # as @ [b])) (cnt + 1) s1 =
        Some (cnt + 1 + (length ((as @ [b]) @ bs) - length ?ws), s')"
      "timeout_result s1 ((as @ [b]) @ bs) ?ws s'"
      using "3.IH"(1) [OF True, of s1 "cnt + 1"] 1(2) by auto
    have "distinct (as @ p # b # bs)" using "3.prems"(1) by (simp add: query_inv_def qlist_inv_def circ_def)
    then have "timeout_result s (as @ p # b # bs) ?ws s'"
      using timeout_combine [of p "as @ b # bs" s s1 ?ws "as @ p # b # bs" s'] 1 r(2)
        timeout_walk_subset [of e "as @ [b]" bs] by auto
    moreover have "last (QLIST # as @ [b]) = b" by simp
    ultimately show ?thesis using 1(1) r(1) True timeout_walk_length [of e "as @ [b]" bs]
      by (intro exI [of _ s']) (simp del: last.simps add: Suc_diff_le)
  qed
qed

lemma query_timeout_walk:
  assumes "query_inv s ps"
  defines "ws \<equiv> timeout_walk (q_due (clock s) s) [] ps"
  shows "\<exists>s'. query_timeout s = Some s' \<and> timeout_result s ps ws s'"
proof -
  obtain s1 where 1: "timeout_loop (clock s) (last [QLIST]) 0 s = Some (0 + (length ([] @ ps) - length ws), s1)"
    "timeout_result s ([] @ ps) ws s1"
    using timeout_loop_walk [of s "[]" ps "q_due (clock s) s" "clock s" 0] assms(1) unfolding ws_def by auto
  let ?t = "s1\<lparr>total_timeouts := total_timeouts s1 + of_nat (length ps - length ws)\<rparr>"
  have r: "query_inv s1 ws" "q_frame s s1" "same_but_link s s1 ws"
    "\<exists>cs. distinct cs \<and> set cs = set ps - set ws \<and> sent s1 = sent s @ map (fail_reply s) (filter (fail_pending s) cs)"
    using 1(2) by (simp_all add: timeout_result_def)
  have "query_inv ?t ws" by (rule query_inv_cong [OF r(1)]) (auto simp: srv_live_def)
  moreover have "q_frame s ?t" using q_frame_trans [OF r(2)] by blast
  moreover have "same_but_link s ?t ws" using r(3) by (simp add: same_but_link_def)
  ultimately have "timeout_result s ps ws ?t" using r(4) by (simp add: timeout_result_def)
  then show ?thesis using 1(1) by (simp add: query_timeout_def)
qed

section \<open>Repeated sweeps\<close>

primrec sweeps :: "nat \<Rightarrow> 'a query_state_scheme \<Rightarrow> 'a query_state_scheme option" where
  "sweeps 0 s = Some s"
| "sweeps (Suc n) s = query_timeout s \<bind> sweeps n"

lemma same_but_link_refl: "query_inv s ps \<Longrightarrow> same_but_link s s ps"
  by (auto simp: same_but_link_def query_inv_def dest: qlist_member)

lemma sweeps_clear:
  assumes "query_inv s ps" "length ps \<le> n \<or> (\<forall>p \<in> set ps. \<not> q_due (clock s) s p)"
  shows "\<exists>t qs. sweeps n s = Some t \<and> query_inv t qs \<and> same_but_link s t qs \<and> q_frame s t \<and>
    set qs = {p \<in> set ps. \<not> q_due (clock s) s p}"
  using assms
proof (induction n arbitrary: s ps)
  case 0
  then have "set ps = {p \<in> set ps. \<not> q_due (clock s) s p}" by auto
  then show ?case using 0(1) same_but_link_refl [OF 0(1)] by auto
next
  case (Suc n)
  let ?e = "q_due (clock s) s"
  let ?ws = "timeout_walk ?e [] ps"
  obtain s1 where s1: "query_timeout s = Some s1" "query_inv s1 ?ws" "q_frame s s1" "same_but_link s s1 ?ws"
    using query_timeout_walk [OF Suc.prems(1)] by (auto simp: timeout_result_def)
  have sub: "set ?ws \<subseteq> set ps" using timeout_walk_subset [of ?e "[]" ps] by simp
  have keep: "p \<in> set ps \<Longrightarrow> \<not> ?e p \<Longrightarrow> p \<in> set ?ws" for p using timeout_walk_keeps [of p "[]" ps ?e] by simp
  have ck: "clock s1 = clock s" using q_frame_fields [OF s1(3)] by simp
  have due: "q_due (clock s1) s1 p = ?e p" if "p \<in> set ?ws" for p using same_but_linkD(2) [OF s1(4) that] ck by simp
  have "length ?ws \<le> n \<or> (\<forall>p \<in> set ?ws. \<not> q_due (clock s1) s1 p)"
  proof (cases "\<exists>p \<in> set ps. ?e p")
    case True
    then have "length ?ws < length ps" using timeout_walk_progress [of _ ps ?e "[]"] by auto
    then show ?thesis using Suc.prems(2) True by auto
  next
    case False
    then show ?thesis using due sub by blast
  qed
  from Suc.IH [OF s1(2) this] obtain t qs where t: "sweeps n s1 = Some t" "query_inv t qs" "same_but_link s1 t qs"
    "q_frame s1 t" "set qs = {p \<in> set ?ws. \<not> q_due (clock s1) s1 p}" by blast
  have "set qs = {p \<in> set ps. \<not> ?e p}" using t(5) due sub keep by blast
  moreover have "same_but_link s t qs" by (rule same_but_link_trans [OF s1(4) t(3)]) (use t(5) in blast)
  ultimately show ?case using s1(1) t(1,2) q_frame_trans [OF s1(3) t(4)] by auto
qed

end
