(* ===== verification/Replies.thy ===== *)
theory Replies
  imports Relay Timeout
begin

text \<open>
  The invariant of the whole program and the handling of replies: whatever a server sends, the list of open
  queries, the identifiers, the descriptors, the cache and the lists of servers stay well formed.
\<close>

section \<open>The invariant\<close>

text \<open>The interfaces have names, and none of the names has a percent sign, see \<open>bind_sock2inf\<close>.\<close>

definition named_infs :: "'a inf_state_scheme \<Rightarrow> ptr list \<Rightarrow> bool" where
  "named_infs s is \<longleftrightarrow> is \<noteq> [] \<and> (\<forall>i \<in> set is. \<exists>n nm. infs s i = Some n \<and> inf n = Some nm \<and> 37 \<notin> set nm)"

definition dnrd_inv :: "'a dnrd_state_scheme \<Rightarrow> ptr list \<Rightarrow> ptr list \<Rightarrow> ptr list \<Rightarrow> bool" where
  "dnrd_inv s is xs ps \<longleftrightarrow> query_inv s ps \<and> cache_inv s xs \<and> infs_ok s is \<and> named_infs s is \<and>
     no_newq s \<and> ports_avail s \<and> length (rep_msg s) = UDP_MAXSIZE + 4 \<and> length (req_msg s) = UDP_MAXSIZE + 4 \<and>
     2 \<le> length (dnsbuf s)"

lemma dnrd_invD:
  assumes "dnrd_inv s is xs ps"
  shows "query_inv s ps" "cache_inv s xs" "infs_ok s is" "named_infs s is" "no_newq s" "ports_avail s"
    "length (rep_msg s) = UDP_MAXSIZE + 4" "length (req_msg s) = UDP_MAXSIZE + 4" "2 \<le> length (dnsbuf s)"
  using assms by (simp_all add: dnrd_inv_def)

lemma ports_avail_cong:
  "ports_avail s \<Longrightarrow> exc_port t = exc_port s \<Longrightarrow> exc_port_ofst t = exc_port_ofst s \<Longrightarrow> ports_avail t"
proof -
  assume a: "ports_avail s" "exc_port t = exc_port s" "exc_port_ofst t = exc_port_ofst s"
  then have "excluded t = excluded s" by (simp add: excluded_def fun_eq_iff)
  then show ?thesis using a by (simp add: ports_avail_def)
qed

lemma cache_inv_cong:
  assumes "cache_inv s xs" "cxs t = cxs s" "cachelist t = cachelist s" "lastcache t = lastcache s"
    and "dom (srvs s) \<subseteq> dom (srvs t)" "brk s \<le> brk t" "cache_lowwater t = cache_lowwater s"
    and "cache_highwater t = cache_highwater s" "vc t = vc s" "rr_garbage t = rr_garbage s"
  shows "cache_inv t xs"
proof -
  have "centry_ok s c \<Longrightarrow> centry_ok t c" for c
    using assms(5) by (auto simp: centry_ok_def)
  moreover have "cval t = cval s" using assms(2) by (simp add: cval_def)
  moreover have "p < brk t" if "p \<in> dom (cxs t)" for p
  proof -
    have "p < brk s" using that assms(1,2) unfolding cache_inv_def by auto
    then show ?thesis using assms(6) by simp
  qed
  ultimately show ?thesis using assms unfolding cache_inv_def cache_at_def by simp
qed

lemma srv_live_dom: "dom (srvs s) \<subseteq> dom (srvs t) \<Longrightarrow> srv_live s p \<Longrightarrow> srv_live t p"
  by (auto simp: srv_live_def)

text \<open>
  What the parts of the invariant depend on: a state in which servers and interfaces changed only in their
  data, and the rest did not change, satisfies it.
\<close>

definition data_step :: "'a dnrd_state_scheme \<Rightarrow> 'a dnrd_state_scheme \<Rightarrow> bool" where
  "data_step s t \<longleftrightarrow> same_shape s t \<and> (\<forall>p v. srvs t p = Some v \<longrightarrow> newquery v = NULL) \<and>
     t = s\<lparr>srvs := srvs t, infs := infs t, io := io t, sent := sent t, rep_msg := rep_msg t, req_msg := req_msg t,
           matched_intf := matched_intf t, matched_intf_cnt := matched_intf_cnt t\<rparr> \<and>
     length (rep_msg t) = length (rep_msg s) \<and> length (req_msg t) = length (req_msg s)"

lemma same_shape_dom: "same_shape s t \<Longrightarrow> dom (srvs s) = dom (srvs t)"
  unfolding same_shape_def by (metis (no_types, lifting) domIff srv_nxt_None subsetI subset_antisym)

lemma same_shape_named: "same_shape s t \<Longrightarrow> named_infs s is \<Longrightarrow> named_infs t is"
  unfolding named_infs_def by (metis same_shape_inf)

lemma data_step_dom: "data_step s t \<Longrightarrow> dom (srvs s) \<subseteq> dom (srvs t)"
  unfolding data_step_def using same_shape_dom by blast

lemma data_step_dom_eq: "data_step s t \<Longrightarrow> dom (srvs t) = dom (srvs s)"
  unfolding data_step_def using same_shape_dom by metis

lemma data_step_fields:
  assumes "data_step s t"
  shows "queries t = queries s" "qlist_tail t = qlist_tail s" "qids t = qids s" "open_fds t = open_fds s"
    "upstream_sockets t = upstream_sockets s" "max_sockets t = max_sockets s" "brk t = brk s" "cxs t = cxs s"
    "cachelist t = cachelist s" "lastcache t = lastcache s" "cache_lowwater t = cache_lowwater s"
    "cache_highwater t = cache_highwater s" "vc t = vc s" "rr_garbage t = rr_garbage s" "clock t = clock s"
    "exc_port t = exc_port s" "exc_port_ofst t = exc_port_ofst s" "dnsbuf t = dnsbuf s" "inf_list t = inf_list s"
    "isock t = isock s" "reactivate_interval t = reactivate_interval s" "forward_timeout t = forward_timeout s"
    "fdmaster t = fdmaster s" "mst t = mst s" "opt_debug t = opt_debug s" "env_recv t = env_recv s"
proof -
  obtain a b c d e f g h where t: "t = s\<lparr>srvs := a, infs := b, io := c, sent := d, rep_msg := e, req_msg := f,
      matched_intf := g, matched_intf_cnt := h\<rparr>"
    using assms unfolding data_step_def by blast
  show "queries t = queries s" "qlist_tail t = qlist_tail s" "qids t = qids s" "open_fds t = open_fds s"
    "upstream_sockets t = upstream_sockets s" "max_sockets t = max_sockets s" "brk t = brk s" "cxs t = cxs s"
    "cachelist t = cachelist s" "lastcache t = lastcache s" "cache_lowwater t = cache_lowwater s"
    "cache_highwater t = cache_highwater s" "vc t = vc s" "rr_garbage t = rr_garbage s" "clock t = clock s"
    "exc_port t = exc_port s" "exc_port_ofst t = exc_port_ofst s" "dnsbuf t = dnsbuf s" "inf_list t = inf_list s"
    "isock t = isock s" "reactivate_interval t = reactivate_interval s" "forward_timeout t = forward_timeout s"
    "fdmaster t = fdmaster s" "mst t = mst s" "opt_debug t = opt_debug s" "env_recv t = env_recv s"
    unfolding t by simp_all
qed

lemma dnrd_inv_data:
  assumes "dnrd_inv s is xs ps" "data_step s t" "infs_ok t is"
  shows "dnrd_inv t is xs ps"
proof -
  note i = dnrd_invD [OF assms(1)] and f = data_step_fields [OF assms(2)]
  have sh: "same_shape s t" "\<forall>p v. srvs t p = Some v \<longrightarrow> newquery v = NULL"
    "length (rep_msg t) = length (rep_msg s)" "length (req_msg t) = length (req_msg s)"
    using assms(2) by (simp_all add: data_step_def)
  have d: "dom (srvs s) \<subseteq> dom (srvs t)" using same_shape_dom [OF sh(1)] by simp
  have "query_inv t ps"
    by (rule query_inv_cong [OF i(1)]) (use f srv_live_dom [OF d] in auto)
  moreover have "cache_inv t xs" by (rule cache_inv_cong [OF i(2)]) (use f d in auto)
  moreover have "named_infs t is" using same_shape_named [OF sh(1)] i(4) by blast
  moreover have "ports_avail t" by (rule ports_avail_cong [OF i(6)]) (use f in auto)
  ultimately show ?thesis using assms(3) i f sh(2-4) by (simp add: dnrd_inv_def no_newq_def)
qed

lemma data_step_refl: "no_newq s \<Longrightarrow> data_step s s"
  by (simp add: data_step_def no_newq_def)

lemma data_step_trans: "data_step s t \<Longrightarrow> data_step t u \<Longrightarrow> data_step s u"
proof -
  assume a: "data_step s t" "data_step t u"
  obtain a b c d e f g h where t: "t = s\<lparr>srvs := a, infs := b, io := c, sent := d, rep_msg := e, req_msg := f,
      matched_intf := g, matched_intf_cnt := h\<rparr>"
    using a(1) unfolding data_step_def by blast
  obtain a' b' c' d' e' f' g' h' where u: "u = t\<lparr>srvs := a', infs := b', io := c', sent := d', rep_msg := e', req_msg := f',
      matched_intf := g', matched_intf_cnt := h'\<rparr>"
    using a(2) unfolding data_step_def by blast
  have "u = s\<lparr>srvs := a', infs := b', io := c', sent := d', rep_msg := e', req_msg := f',
      matched_intf := g', matched_intf_cnt := h'\<rparr>" unfolding u t by simp
  moreover have "same_shape s u" using a same_shape_trans unfolding data_step_def by blast
  ultimately show ?thesis using a unfolding data_step_def by simp
qed

section \<open>Steps that keep the invariant\<close>

lemma dnrd_inv_query:
  assumes "dnrd_inv s is xs ps" "q_frame s t" "query_inv t qs"
  shows "dnrd_inv t is xs qs"
proof -
  note i = dnrd_invD [OF assms(1)] and f = q_frame_fields [OF assms(2)]
  obtain b a1 a2 a3 a4 a5 a6 a7 a8 a9 a10 a11 a12 where t: "t = s\<lparr>brk := b, queries := a1, qlist_tail := a2,
     total_queries := a3, total_timeouts := a4, upstream_sockets := a5, qids := a6, fdmaster := a7, maxsock := a8,
     open_fds := a9, io := a10, bound := a11, sent := a12\<rparr>"
    using assms(2) unfolding q_frame_def by blast
  have m: "rep_msg t = rep_msg s" "req_msg t = req_msg s" "dnsbuf t = dnsbuf s" unfolding t by simp_all
  have "cache_inv t xs" by (rule cache_inv_cong [OF i(2)]) (use f in auto)
  moreover have "infs_ok t is"
    by (rule infs_ok_srv_upd [OF i(3)]) (use f in \<open>auto simp: same_shape_def srv_nxt_def\<close>)
  moreover have "ports_avail t" by (rule ports_avail_cong [OF i(6)]) (use f in auto)
  ultimately show ?thesis using assms(3) i(4,5,7-9) f m by (simp add: dnrd_inv_def named_infs_def no_newq_def)
qed

lemma dnrd_inv_cache:
  assumes "dnrd_inv s is xs ps" "cx_frame (s\<lparr>brk := b\<rparr>) t" "brk s \<le> b" "cache_inv t ys"
  shows "dnrd_inv t is ys ps"
proof -
  note i = dnrd_invD [OF assms(1)]
  obtain a1 a2 a3 where t: "t = s\<lparr>brk := b, cxs := a1, cachelist := a2, lastcache := a3\<rparr>"
    using assms(2) unfolding cx_frame_def by auto
  have "query_inv t ps"
    by (rule query_inv_cong [OF i(1)]) (use assms(3) in \<open>auto simp: t srv_live_def\<close>)
  moreover have "infs_ok t is"
    by (rule infs_ok_srv_upd [OF i(3)]) (auto simp: same_shape_def srv_nxt_def t)
  moreover have "ports_avail t" by (rule ports_avail_cong [OF i(6)]) (simp_all add: t)
  ultimately show ?thesis using assms(4) i(4,5,7-9) by (simp add: dnrd_inv_def named_infs_def no_newq_def t)
qed

lemma dnrd_inv_bufs:
  assumes "dnrd_inv s is xs ps" "length m = UDP_MAXSIZE + 4"
  shows "dnrd_inv (s\<lparr>rep_msg := m\<rparr>) is xs ps" "dnrd_inv (s\<lparr>req_msg := m\<rparr>) is xs ps"
proof -
  note i = dnrd_invD [OF assms(1)]
  have d: "data_step s (s\<lparr>rep_msg := m\<rparr>)" "data_step s (s\<lparr>req_msg := m\<rparr>)"
    using i(5,7,8) assms(2) by (auto simp: data_step_def no_newq_def same_shape_def srv_nxt_def)
  show "dnrd_inv (s\<lparr>rep_msg := m\<rparr>) is xs ps"
    by (rule dnrd_inv_data [OF assms(1) d(1)], rule infs_ok_srv_upd [OF i(3)])
      (use d(1) in \<open>simp_all add: data_step_def\<close>)
  show "dnrd_inv (s\<lparr>req_msg := m\<rparr>) is xs ps"
    by (rule dnrd_inv_data [OF assms(1) d(2)], rule infs_ok_srv_upd [OF i(3)])
      (use d(2) in \<open>simp_all add: data_step_def\<close>)
qed

lemma upd_srv_data:
  assumes "dnrd_inv s is xs ps" "srvs s p = Some v" "\<And>v. srv_next (f v) = srv_next v" "\<And>v. newquery (f v) = newquery v"
  shows "\<exists>t. upd_srv p f s = Some t \<and> data_step s t \<and> infs_ok t is \<and> t = s\<lparr>srvs := (srvs s)(p \<mapsto> f v)\<rparr>"
proof -
  note i = dnrd_invD [OF assms(1)]
  obtain t where t: "upd_srv p f s = Some t" "same_shape s t" "t = s\<lparr>srvs := (srvs s)(p \<mapsto> f v)\<rparr>"
    using upd_srv_shape [OF assms(2), of f] assms(3) by blast
  have "newquery w = NULL" if "srvs t q = Some w" for q w
    using that i(5) assms(2,4) by (auto simp: t(3) no_newq_def split: if_splits)
  then have "data_step s t" using t(2) by (auto simp: data_step_def t(3))
  moreover have "infs_ok t is" by (rule infs_ok_srv_upd [OF i(3) t(2)]) (simp add: t(3))
  ultimately show ?thesis using t by blast
qed

lemma io_data:
  assumes "dnrd_inv s is xs ps"
  shows "data_step s (s\<lparr>io := k\<rparr>)" "infs_ok (s\<lparr>io := k\<rparr>) is"
    "data_step s (s\<lparr>io := k, sent := m\<rparr>)" "infs_ok (s\<lparr>io := k, sent := m\<rparr>) is"
proof -
  note i = dnrd_invD [OF assms]
  show d: "data_step s (s\<lparr>io := k\<rparr>)" "data_step s (s\<lparr>io := k, sent := m\<rparr>)"
    using i(5) by (auto simp: data_step_def no_newq_def same_shape_def srv_nxt_def)
  show "infs_ok (s\<lparr>io := k\<rparr>) is" "infs_ok (s\<lparr>io := k, sent := m\<rparr>) is"
    by (rule infs_ok_srv_upd [OF i(3)]; use d in \<open>simp add: data_step_def\<close>)+
qed

section \<open>Finding the server that answered\<close>

lemma search_addr_total:
  assumes "path (srv_nxt s) p zs h" "zs \<noteq> []"
  shows "\<exists>r. search_addr s h a p = Some r \<and> (r = NULL \<or> r \<in> set zs)"
  using assms
proof (induction zs arbitrary: p)
  case (Cons z zs)
  have z: "z = p" and "\<exists>y. srv_nxt s p = Some y \<and> path (srv_nxt s) y zs h" using Cons.prems(1) by simp_all
  then obtain v where v: "srvs s p = Some v" "path (srv_nxt s) (srv_next v) zs h"
    by (metis srv_nxt_Some)
  have g: "get_srv s p = Some v" using v(1) by (simp add: get_srv_def)
  show ?case
  proof (cases "zs = []")
    case True
    then have "srv_next v = h" using v(2) by simp
    then show ?thesis using g z by (subst search_addr.simps) simp
  next
    case False
    then show ?thesis using Cons.IH [OF v(2) False] g z by (subst search_addr.simps) (simp, blast)
  qed
qed simp

lemma search_infs_total:
  assumes "path (inf_nxt s) i js (inf_list s)" "js \<noteq> []" "\<forall>j \<in> set js. inf_ok s j"
    and "\<forall>j \<in> set js. \<exists>n nm. infs s j = Some n \<and> inf n = Some nm \<and> 37 \<notin> set nm"
  shows "\<exists>r. search_infs s name a i = Some r \<and> (r = NULL \<or> srv_live s r)"
  using assms
proof (induction js arbitrary: i)
  case (Cons j js)
  have j: "j = i" and "\<exists>y. inf_nxt s i = Some y \<and> path (inf_nxt s) y js (inf_list s)" using Cons.prems(1) by simp_all
  then obtain n where n: "infs s i = Some n" "path (inf_nxt s) (inf_next n) js (inf_list s)"
    by (metis inf_nxt_Some)
  obtain nm where nm: "inf n = Some nm" using Cons.prems(4) n(1) j by auto
  obtain xs where l: "srvlist_at s (srvlist n) xs" using Cons.prems(3) n(1) j by (auto simp: inf_ok_def)
  obtain h where h: "srvs s (srvlist n) = Some h" using srvlist_live [OF l, of "srvlist n"] by auto
  obtain zs where zs: "path (srv_nxt s) (srv_next h) zs (srvlist n)" "zs \<noteq> []" "set zs \<subseteq> set (srvlist n # xs)"
  proof (cases "xs = []")
    case True
    then have "srv_next h = srvlist n" using l h by (auto simp: srvlist_at_def circ_def)
    then show ?thesis using l True that [of "[srvlist n]"] by (simp add: srvlist_at_def circ_def)
  next
    case False
    have "path (srv_nxt s) (srv_next h) xs (srvlist n)" using l h by (auto simp: srvlist_at_def circ_def)
    then show ?thesis using False that [of xs] by auto
  qed
  obtain r where r: "search_addr s (srvlist n) a (srv_next h) = Some r" "r = NULL \<or> r \<in> set zs"
    using search_addr_total [OF zs(1,2)] by blast
  have live: "r = NULL \<or> srv_live s r"
    using r(2) zs(3) srvlist_live [OF l, of r] by (auto simp: srv_live_def)
  have g: "get_srv s (srvlist n) = Some h" using h by (simp add: get_srv_def)
  define p where "p = (if nm = name then r else NULL)"
  have p: "(if nm = name then do {
            h \<leftarrow> get_srv s (srvlist n);
            search_addr s (srvlist n) a (srv_next h)
          } else Some NULL) = Some p" "p = NULL \<or> srv_live s p"
    using g r(1) live by (simp_all add: p_def)
  show ?case
  proof (cases "p = NULL \<and> inf_next n \<noteq> inf_list s")
    case True
    then have "js \<noteq> []" using n(2) by auto
    then obtain r' where r': "search_infs s name a (inf_next n) = Some r'" "r' = NULL \<or> srv_live s r'"
      using Cons.IH [OF n(2)] Cons.prems(3,4) by auto
    then show ?thesis using True n(1) nm p(1) by (subst search_infs.simps) simp
  next
    case False
    then show ?thesis using n(1) nm p by (subst search_infs.simps) auto
  qed
qed simp

lemma search_server_total:
  assumes "infs_ok s is" "named_infs s is"
  shows "\<exists>r. search_server from name s = Some r \<and> (r = NULL \<or> srv_live s r)"
proof -
  have c: "circ (inf_nxt s) (inf_list s) is" "\<forall>j \<in> set is. inf_ok s j"
    using assms(1) by (auto simp: infs_ok_def inflist_at_def)
  then obtain l where l: "infs s (inf_list s) = Some l" "path (inf_nxt s) (inf_next l) is (inf_list s)"
    by (auto simp: circ_def)
  have "is \<noteq> []" using assms(2) by (simp add: named_infs_def)
  then show ?thesis
    using search_infs_total [OF l(2), of name "sin_addr from"] c(2) assms(2) l(1)
    by (simp add: search_server_def named_infs_def)
qed

section \<open>Receiving a reply\<close>

lemma mark_alive_data:
  assumes "dnrd_inv s is xs ps" "p = NULL \<or> srv_live s p"
  shows "\<exists>t. (if p \<noteq> NULL then upd_srv p mark_alive s else Some s) = Some t \<and> data_step s t \<and> infs_ok t is \<and>
    t = s\<lparr>srvs := srvs t\<rparr>"
proof (cases "p = NULL")
  case True
  then show ?thesis using data_step_refl [OF dnrd_invD(5) [OF assms(1)]] dnrd_invD(3) [OF assms(1)] by simp
next
  case False
  then obtain v where v: "srvs s p = Some v" using assms(2) by (auto simp: srv_live_def)
  obtain t where "upd_srv p mark_alive s = Some t" "data_step s t" "infs_ok t is" "t = s\<lparr>srvs := (srvs s)(p \<mapsto> mark_alive v)\<rparr>"
    using upd_srv_data [OF assms(1) v, of mark_alive] by (auto simp: mark_alive_def)
  then show ?thesis using False by (intro exI [of _ t]) simp
qed

lemma reply_recv_ok:
  assumes "dnrd_inv s is xs ps" "p \<in> set ps" "c < 3"
  shows "\<exists>l m t. reply_recv p c (rep_msg s) UDP_MAXSIZE s = Some (l, m, t) \<and> data_step s t \<and> infs_ok t is \<and>
    t = s\<lparr>io := Suc (io s), srvs := srvs t\<rparr> \<and> length m = UDP_MAXSIZE + 4 \<and> - 1 \<le> l \<and> l \<le> int UDP_MAXSIZE"
proof -
  note i = dnrd_invD [OF assms(1)]
  obtain k where k: "queries s p = Some k" "query_ok s k"
    using i(1) assms(2) by (auto simp: query_inv_def dest: qlist_member)
  have rd: "rd (sock_arr k) (int c) = Some (sock_arr k ! c)" using k(2) assms(3) by (simp add: query_ok_def rd_def)
  obtain v where v: "get_srv s (q_srv k) = Some v" using k(2) by (auto simp: query_ok_def srv_live_def get_srv_def)
  let ?s1 = "s\<lparr>io := Suc (io s)\<rparr>"
  have d1: "data_step s ?s1" "infs_ok ?s1 is" using io_data(1,2) [OF assms(1)] by auto
  have inv1: "dnrd_inv ?s1 is xs ps" by (rule dnrd_inv_data [OF assms(1) d1])
  show ?thesis
  proof (cases "env_recv s (io s)")
    case Recv_error
    then show ?thesis using k rd v d1 i(7) by (simp add: reply_recv_def os_recv_def)
  next
    case (Recv_msg d frm nm)
    let ?d = "take UDP_MAXSIZE d"
    have len: "length (overlay (rep_msg s) 0 ?d) = UDP_MAXSIZE + 4" using i(7) by (subst length_overlay) simp_all
    obtain status name where nm: "get_interface_name nm [] = (status, name)" by (cases "get_interface_name nm []")
    obtain t where t: "(if status \<noteq> - 1 then do {
                   p \<leftarrow> search_server frm name ?s1;
                   if p \<noteq> NULL then upd_srv p mark_alive ?s1 else Some ?s1
                 } else Some ?s1) = Some t" "data_step ?s1 t" "infs_ok t is" "t = ?s1\<lparr>srvs := srvs t\<rparr>"
    proof (cases "status = - 1")
      case True
      then show ?thesis using that [of ?s1] d1(2) data_step_refl [OF dnrd_invD(5) [OF inv1]] by simp
    next
      case False
      obtain r where r: "search_server frm name ?s1 = Some r" "r = NULL \<or> srv_live ?s1 r"
        using search_server_total [OF d1(2) dnrd_invD(4) [OF inv1]] by blast
      show ?thesis using mark_alive_data [OF inv1 r(2)] r(1) False that by auto
    qed
    have "reply_recv p c (rep_msg s) UDP_MAXSIZE s = Some (int (length ?d), overlay (rep_msg s) 0 ?d, t)"
      using Recv_msg k(1) rd t(1) i(7) nm by (simp add: reply_recv_def os_recv_def)
    moreover have "data_step s t" by (rule data_step_trans [OF d1(1) t(2)])
    ultimately show ?thesis using t(3,4) len by (intro exI [of _ "int (length ?d)"] exI conjI) (auto simp: min_def)
  qed
qed

section \<open>What is done with a reply\<close>

lemma dnrd_inv_member:
  assumes "dnrd_inv s is xs ps" "p \<in> set ps"
  shows "\<exists>k. queries s p = Some k \<and> qrec s p = k \<and> query_ok s k"
  using dnrd_invD(1) [OF assms(1)] assms(2) by (auto simp: query_inv_def qrec_def dest: qlist_member)

lemma dnrd_inv_upd:
  assumes "dnrd_inv s is xs ps" "p \<in> set ps" "queries s p = Some k" "same_core k m" "query_ok s m"
  shows "dnrd_inv (s\<lparr>queries := (queries s)(p \<mapsto> m)\<rparr>) is xs ps"
  by (rule dnrd_inv_query [OF assms(1) _ query_inv_data [OF dnrd_invD(1) [OF assms(1)] assms(2-5)]])
    (simp add: q_frame_def)

text \<open>A sent packet has no influence on the invariant.\<close>

lemma dnrd_inv_sent:
  assumes "dnrd_inv s is xs ps"
  shows "dnrd_inv (s\<lparr>io := k, sent := m\<rparr>) is xs ps"
  by (rule dnrd_inv_data [OF assms io_data(3,4) [OF assms]])

text \<open>
  What a reply may change, seen from the clients: a query that stays open keeps its sockets and its client, and once
  answered it stays answered; the messages that are sent are listed with the queries they answer, each of which had no
  answer yet and gets one message only.
\<close>

definition same_client :: "query_t \<Rightarrow> query_t \<Rightarrow> bool" where
  "same_client m n \<longleftrightarrow> sock_arr n = sock_arr m \<and> is_dummy n = is_dummy m \<and> client n = client m \<and>
     client_qid n = client_qid m \<and> q_srv n = q_srv m \<and> (resp_sent m \<noteq> 0 \<longrightarrow> resp_sent n \<noteq> 0)"

definition replies_to :: "'a query_state_scheme \<Rightarrow> ptr \<Rightarrow> int \<times> sockaddr_in \<times> bytes \<Rightarrow> bool" where
  "replies_to s p = (\<lambda>(fd, a, m). fd = isock s \<and> a = client (qrec s p) \<and> is_dummy (qrec s p) = 0 \<and>
     take 2 m = [lo8 (client_qid (qrec s p)), hi8 (client_qid (qrec s p))])"

text \<open>The options, which no packet changes, and what will arrive.\<close>

definition options_of ::
    "'a dnrd_state_scheme \<Rightarrow> master_state \<times> nat \<times> nat \<times> nat \<times> bytes list \<times> int \<times> int \<times> int \<times> byte \<times> (nat \<Rightarrow> recv_result)" where
  "options_of s = (mst s, sp_hosts_count s, matched_intf_cnt s, def_inf_count s, def_inf_list s, reactivate_interval s,
     forward_timeout s, clock s, opt_debug s, env_recv s)"

lemma options_of_upd [simp]:
  "options_of (s\<lparr>queries := a\<rparr>) = options_of s" "options_of (s\<lparr>srvs := b\<rparr>) = options_of s"
  "options_of (s\<lparr>rep_msg := c\<rparr>) = options_of s" "options_of (s\<lparr>sent := d\<rparr>) = options_of s"
  "options_of (s\<lparr>io := e\<rparr>) = options_of s" "options_of (s\<lparr>brk := f\<rparr>) = options_of s"
  "options_of (s\<lparr>cxs := g\<rparr>) = options_of s" "options_of (s\<lparr>cachelist := h\<rparr>) = options_of s"
  "options_of (s\<lparr>lastcache := i\<rparr>) = options_of s" "options_of (s\<lparr>infs := j\<rparr>) = options_of s"
  "options_of (s\<lparr>lastexpire := k\<rparr>) = options_of s" "options_of (s\<lparr>cache_hits := l\<rparr>) = options_of s"
  "options_of (s\<lparr>cache_misses := l\<rparr>) = options_of s"
  by (simp_all add: options_of_def)

lemma q_frame_options: "q_frame s t \<Longrightarrow> options_of t = options_of s"
proof -
  assume "q_frame s t"
  then obtain b a1 a2 a3 a4 a5 a6 a7 a8 a9 a10 a11 a12 where t: "t = s\<lparr>brk := b, queries := a1, qlist_tail := a2,
     total_queries := a3, total_timeouts := a4, upstream_sockets := a5, qids := a6, fdmaster := a7, maxsock := a8,
     open_fds := a9, io := a10, bound := a11, sent := a12\<rparr>"
    unfolding q_frame_def by blast
  show ?thesis by (simp add: t options_of_def)
qed

definition same_env :: "'a dnrd_state_scheme \<Rightarrow> 'a dnrd_state_scheme \<Rightarrow> bool" where
  "same_env s t \<longleftrightarrow> isock t = isock s \<and> env_recv t = env_recv s \<and> io s \<le> io t \<and> dom (srvs t) = dom (srvs s) \<and>
     options_of t = options_of s"

definition valid_reply :: "bytes \<Rightarrow> bool" where
  "valid_reply d \<longleftrightarrow> 12 \<le> length d \<and> \<not> bit (be16 (d ! 2) (d ! 3)) 6 \<and> bit (be16 (d ! 2) (d ! 3)) 15"

text \<open>A packet that was read before.\<close>

definition received :: "'a query_state_scheme \<Rightarrow> bytes \<Rightarrow> bool" where
  "received s d \<longleftrightarrow> (\<exists>n frm mh d0. n < io s \<and> env_recv s n = Recv_msg d0 frm mh \<and> d = take UDP_MAXSIZE d0)"

lemma received_mono: "received s d \<Longrightarrow> env_recv t = env_recv s \<Longrightarrow> io s \<le> io t \<Longrightarrow> received t d"
  unfolding received_def by (metis order_less_le_trans)

text \<open>Each answer is a valid packet that was read, with another identifier, for a query that was not answered.\<close>

definition answers_once ::
    "'a query_state_scheme \<Rightarrow> ptr list \<Rightarrow> 'a query_state_scheme \<Rightarrow> ptr list \<Rightarrow> (ptr \<times> int \<times> sockaddr_in \<times> bytes) list \<Rightarrow> bool" where
  "answers_once s ps t qs ans \<longleftrightarrow> distinct (map fst ans) \<and>
     (\<forall>(p, m) \<in> set ans. p \<in> set ps \<and> resp_sent (qrec s p) = 0 \<and> replies_to s p m \<and>
        (\<exists>d. received t d \<and> valid_reply d \<and> drop 2 (snd (snd m)) = drop 2 d) \<and>
        (p \<in> set qs \<longrightarrow> resp_sent (qrec t p) \<noteq> 0))"

definition reply_frame :: "'a dnrd_state_scheme \<Rightarrow> ptr list \<Rightarrow> 'a dnrd_state_scheme \<Rightarrow> ptr list \<Rightarrow> bool" where
  "reply_frame s ps t qs \<longleftrightarrow> set qs \<subseteq> set ps \<and> same_env s t \<and>
     (\<forall>x \<in> set (QLIST # qs). \<exists>m n. queries s x = Some m \<and> queries t x = Some n \<and> same_client m n) \<and>
     (\<exists>ans. sent t = sent s @ map snd ans \<and> answers_once s ps t qs ans)"

lemma same_env_refl [simp, intro]: "same_env s s"
  by (simp add: same_env_def)

lemma same_client_refl [simp]: "same_client m m"
  by (simp add: same_client_def)

lemma same_client_trans: "same_client l m \<Longrightarrow> same_client m n \<Longrightarrow> same_client l n"
  by (simp add: same_client_def)

lemma replies_to_cong: "same_client (qrec s p) (qrec t p) \<Longrightarrow> isock t = isock s \<Longrightarrow> replies_to t p m = replies_to s p m"
  by (simp add: replies_to_def same_client_def split: prod.splits)

lemma reply_frame_client: "reply_frame s ps t qs \<Longrightarrow> x \<in> set (QLIST # qs) \<Longrightarrow> same_client (qrec s x) (qrec t x)"
proof -
  assume "reply_frame s ps t qs" "x \<in> set (QLIST # qs)"
  then obtain m n where "queries s x = Some m" "queries t x = Some n" "same_client m n"
    unfolding reply_frame_def by blast
  then show ?thesis by (simp add: qrec_def)
qed

text \<open>The relation holds when nothing was sent and every record of the remaining queries agrees.\<close>

lemma reply_frame_quiet:
  assumes "set qs \<subseteq> set ps" "same_env s t" "sent t = sent s"
    and "\<And>x. x \<in> set (QLIST # qs) \<Longrightarrow> \<exists>m n. queries s x = Some m \<and> queries t x = Some n \<and> same_client m n"
  shows "reply_frame s ps t qs"
proof -
  have "sent t = sent s @ map snd [] \<and> answers_once s ps t qs []" using assms(3) by (simp add: answers_once_def)
  then have "\<exists>ans. sent t = sent s @ map snd ans \<and> answers_once s ps t qs ans" by blast
  then show ?thesis using assms(1,2,4) unfolding reply_frame_def by (intro conjI ballI) assumption+
qed

lemma query_live:
  assumes "query_inv s ps" "x \<in> set (QLIST # ps)"
  shows "\<exists>m. queries s x = Some m"
  using assms qlist_member [of s ps x] circ_next [of "q_nxt s" QLIST ps] by (auto simp: query_inv_def qlist_inv_def)

lemma reply_frame_trans:
  assumes "reply_frame s ps t qs" "reply_frame t qs u rs"
  shows "reply_frame s ps u rs"
proof -
  have sub: "set qs \<subseteq> set ps" "set rs \<subseteq> set qs" "same_env s u"
    using assms by (auto simp: reply_frame_def same_env_def)
  obtain as where m1: "sent t = sent s @ map snd as" "answers_once s ps t qs as" using assms(1) by (auto simp: reply_frame_def)
  obtain bs where m2: "sent u = sent t @ map snd bs" "answers_once t qs u rs bs" using assms(2) by (auto simp: reply_frame_def)
  have env: "isock t = isock s" using assms(1) by (simp add: reply_frame_def same_env_def)
  have late: "received t d \<Longrightarrow> received u d" for d
    using received_mono [of t d u] assms(2) by (simp add: reply_frame_def same_env_def)
  note c1 = reply_frame_client [OF assms(1)] and c2 = reply_frame_client [OF assms(2)]
  have a: "fst e \<in> set ps \<and> resp_sent (qrec s (fst e)) = 0 \<and> replies_to s (fst e) (snd e) \<and>
      (\<exists>d. received u d \<and> valid_reply d \<and> drop 2 (snd (snd (snd e))) = drop 2 d) \<and>
      (fst e \<in> set rs \<longrightarrow> resp_sent (qrec u (fst e)) \<noteq> 0)" if e: "e \<in> set as" for e
    using m1(2) e sub(2) c2 [of "fst e"]
    by (fastforce simp: answers_once_def same_client_def split_beta intro: late)
  have b: "fst e \<in> set qs \<and> resp_sent (qrec t (fst e)) = 0 \<and> replies_to t (fst e) (snd e) \<and>
      (\<exists>d. received u d \<and> valid_reply d \<and> drop 2 (snd (snd (snd e))) = drop 2 d) \<and>
      (fst e \<in> set rs \<longrightarrow> resp_sent (qrec u (fst e)) \<noteq> 0)" if e: "e \<in> set bs" for e
    using m2(2) e by (auto simp: answers_once_def split_beta)
  have b1: "fst e \<in> set ps \<and> resp_sent (qrec s (fst e)) = 0 \<and> replies_to s (fst e) (snd e)" if e: "e \<in> set bs" for e
    using b [OF e] c1 [of "fst e"] sub(1) replies_to_cong [OF c1 env, of "fst e" "snd e"] by (auto simp: same_client_def)
  have "resp_sent (qrec t (fst e)) \<noteq> 0" if "e \<in> set as" "fst e \<in> set qs" for e
    using m1(2) that by (auto simp: answers_once_def split_beta)
  then have "fst ` set as \<inter> fst ` set bs = {}" using b by fastforce
  then have "distinct (map fst (as @ bs))" using m1(2) m2(2) by (simp add: answers_once_def)
  then have "answers_once s ps u rs (as @ bs)" using a b b1 unfolding answers_once_def by force
  moreover have "sent u = sent s @ map snd (as @ bs)" using m1(1) m2(1) by simp
  moreover have "\<exists>m n. queries s x = Some m \<and> queries u x = Some n \<and> same_client m n" if x: "x \<in> set (QLIST # rs)" for x
  proof -
    obtain m n where 1: "queries t x = Some m" "queries u x = Some n" "same_client m n"
      using assms(2) x unfolding reply_frame_def by blast
    have "x \<in> set (QLIST # qs)" using x sub(2) by auto
    then obtain l m' where 2: "queries s x = Some l" "queries t x = Some m'" "same_client l m'"
      using assms(1) unfolding reply_frame_def by blast
    show ?thesis using 1 2 same_client_trans by auto
  qed
  ultimately show ?thesis using sub unfolding reply_frame_def by blast
qed

lemma reply_frame_same:
  assumes "query_inv s ps" "queries t = queries s" "sent t = sent s" "same_env s t"
  shows "reply_frame s ps t ps"
proof (rule reply_frame_quiet)
  show "\<exists>m n. queries s x = Some m \<and> queries t x = Some n \<and> same_client m n" if "x \<in> set (QLIST # ps)" for x
    using query_live [OF assms(1) that] assms(2) by auto
qed (use assms in simp_all)

lemma reply_frame_upd:
  assumes "query_inv s ps" "p \<in> set ps" "queries s p = Some k" "queries t = (queries s)(p \<mapsto> m)" "same_client k m"
    and "same_env s t" "sent t = sent s"
  shows "reply_frame s ps t ps"
proof (rule reply_frame_quiet)
  show "\<exists>m n. queries s x = Some m \<and> queries t x = Some n \<and> same_client m n" if "x \<in> set (QLIST # ps)" for x
    using query_live [OF assms(1) that] assms(3-5) by auto
qed (use assms in simp_all)

lemma link_same:
  assumes "n\<lparr>q_next := 0\<rparr> = m\<lparr>q_next := 0\<rparr>"
  shows "same_client m n" "resp_sent n = resp_sent m" "serv_sent_cnt n = serv_sent_cnt m"
  using arg_cong [OF assms, of sock_arr] arg_cong [OF assms, of is_dummy] arg_cong [OF assms, of client]
    arg_cong [OF assms, of client_qid] arg_cong [OF assms, of q_srv] arg_cong [OF assms, of resp_sent] arg_cong [OF assms, of serv_sent_cnt]
  by (simp_all add: same_client_def)

lemma query_delete_next_frame:
  assumes "query_inv s (as @ p # bs)"
  shows "\<exists>t. query_delete_next (last (QLIST # as)) s = Some t \<and> query_inv t (as @ bs) \<and> q_frame s t \<and>
    reply_frame s (as @ p # bs) t (as @ bs)"
proof -
  obtain t where t: "query_delete_next (last (QLIST # as)) s = Some t" "query_inv t (as @ bs)" "q_frame s t" "sent t = sent s"
    "\<forall>x \<in> set (QLIST # as @ bs). \<exists>m n. queries s x = Some m \<and> queries t x = Some n \<and> n\<lparr>q_next := 0\<rparr> = m\<lparr>q_next := 0\<rparr>"
    "io t = io s"
    using query_delete_next_ok [OF assms] by blast
  have r: "\<exists>m n. queries s x = Some m \<and> queries t x = Some n \<and> same_client m n \<and> resp_sent n = resp_sent m"
    if "x \<in> set (QLIST # as @ bs)" for x
    using bspec [OF t(5) that] link_same by blast
  have "same_env s t" using q_frame_fields [OF t(3)] q_frame_options [OF t(3)] t(6) by (simp add: same_env_def)
  then have "reply_frame s (as @ p # bs) t (as @ bs)" 
  proof (intro reply_frame_quiet t(4))
    show "\<exists>m n. queries s x = Some m \<and> queries t x = Some n \<and> same_client m n" if "x \<in> set (QLIST # as @ bs)" for x
      using r [OF that] by blast
  qed auto
  then show ?thesis using t(1-3) by blast
qed

lemma one_server_less:
  assumes "dnrd_inv s is xs (as @ p # bs)"
  shows "\<exists>t. (if serv_sent_cnt (qrec s p) = 1 then query_delete_next (last (QLIST # as)) s
              else upd_query p (\<lambda>k. k\<lparr>serv_sent_cnt := serv_sent_cnt k - 1\<rparr>) s) = Some t \<and>
    (\<exists>qs. qs = (if serv_sent_cnt (qrec s p) = 1 then as @ bs else as @ p # bs) \<and>
       dnrd_inv t is xs qs \<and> reply_frame s (as @ p # bs) t qs \<and> sent t = sent s)"
proof -
  note q = dnrd_invD(1) [OF assms]
  obtain k where k: "queries s p = Some k" "qrec s p = k" "query_ok s k" using dnrd_inv_member [OF assms] by auto
  show ?thesis
  proof (cases "serv_sent_cnt k = 1")
    case True
    obtain t where t: "query_delete_next (last (QLIST # as)) s = Some t" "query_inv t (as @ bs)" "q_frame s t"
      "reply_frame s (as @ p # bs) t (as @ bs)" "sent t = sent s"
      using query_delete_next_frame [OF q] query_delete_next_ok [OF q] by auto
    then show ?thesis using True k(2) dnrd_inv_query [OF assms] by (simp del: last.simps)
  next
    case False
    let ?t = "s\<lparr>queries := (queries s)(p \<mapsto> k\<lparr>serv_sent_cnt := serv_sent_cnt k - 1\<rparr>)\<rparr>"
    have "dnrd_inv ?t is xs (as @ p # bs)"
      by (rule dnrd_inv_upd [OF assms _ k(1)]) (use k(3) in \<open>auto simp: same_core_def q_socks_def query_ok_def\<close>)
    moreover have "reply_frame s (as @ p # bs) ?t (as @ p # bs)"
      by (rule reply_frame_upd [OF q _ k(1), where m = "k\<lparr>serv_sent_cnt := serv_sent_cnt k - 1\<rparr>"])
        (simp_all add: same_client_def same_env_def)
    ultimately show ?thesis using False k by (simp add: upd_query_def)
  qed
qed

lemma drop_reply_ok:
  assumes "dnrd_inv s is xs (as @ p # bs)"
  shows "\<exists>t qs. drop_reply (last (QLIST # as)) p s = Some t \<and>
    qs = (if serv_sent_cnt (qrec s p) = 1 then as @ bs else as @ p # bs) \<and>
    dnrd_inv t is xs qs \<and> reply_frame s (as @ p # bs) t qs \<and> sent t = sent s"
  using one_server_less [OF assms] dnrd_inv_member [OF assms, of p] by (auto simp: drop_reply_def simp del: last.simps)

lemma revive_servers_ok:
  assumes "dnrd_inv s is xs ps" "\<forall>p \<in> set zs. p = NULL \<or> srv_live s p"
  shows "\<exists>t. revive_servers zs s = Some t \<and> dnrd_inv t is xs ps \<and> t = s\<lparr>srvs := srvs t\<rparr> \<and> dom (srvs t) = dom (srvs s)"
  using assms
proof (induction zs arbitrary: s)
  case (Cons z zs)
  obtain t where t: "(if z \<noteq> NULL then upd_srv z mark_alive s else Some s) = Some t" "data_step s t" "infs_ok t is"
    "t = s\<lparr>srvs := srvs t\<rparr>"
    using mark_alive_data [OF Cons.prems(1), of z] Cons.prems(2) by auto
  have inv: "dnrd_inv t is xs ps" by (rule dnrd_inv_data [OF Cons.prems(1) t(2,3)])
  have "dom (srvs s) \<subseteq> dom (srvs t)" by (rule data_step_dom [OF t(2)])
  then have "\<forall>p \<in> set zs. p = NULL \<or> srv_live t p" using Cons.prems(2) srv_live_dom [of s t] by (metis list.set_intros(2))
  from Cons.IH [OF inv this] obtain u where u: "revive_servers zs t = Some u" "dnrd_inv u is xs ps" "u = t\<lparr>srvs := srvs u\<rparr>"
    "dom (srvs u) = dom (srvs t)" by blast
  obtain a where "t = s\<lparr>srvs := a\<rparr>" using t(4) by blast
  then have "u = s\<lparr>srvs := srvs u\<rparr>" using u(3) by simp
  then show ?case using u t(1) data_step_dom_eq [OF t(2)] by simp
qed (auto intro!: exI [of _ s])

lemma finish_reply_ok:
  assumes "dnrd_inv s is xs (as @ p # bs)"
  shows "\<exists>t qs. finish_reply (last (QLIST # as)) p s = Some t \<and>
    qs = (if serv_sent_cnt (qrec s p) = 1 then as @ bs else as @ p # bs) \<and>
    dnrd_inv t is xs qs \<and> reply_frame s (as @ p # bs) t qs \<and> sent t = sent s"
proof -
  obtain k where k: "queries s p = Some k" "qrec s p = k" "query_ok s k" using dnrd_inv_member [OF assms] by auto
  show ?thesis
  proof (cases "serv_sent_cnt k = 1")
    case False
    then show ?thesis using one_server_less [OF assms] k by (auto simp: finish_reply_def simp del: last.simps)
  next
    case True
    have "\<forall>p \<in> set (take 3 (srv_list k)). p = NULL \<or> srv_live s p" using k(3) set_take_subset by (fastforce simp: query_ok_def)
    from revive_servers_ok [OF assms this] obtain t where t: "revive_servers (take 3 (srv_list k)) s = Some t" "dnrd_inv t is xs (as @ p # bs)" "t = s\<lparr>srvs := srvs t\<rparr>"
      "dom (srvs t) = dom (srvs s)" by blast
    have e: "queries t = queries s" "sent t = sent s" "same_env s t"
      using arg_cong [OF t(3), of queries] arg_cong [OF t(3), of sent] arg_cong [OF t(3), of isock]
        arg_cong [OF t(3), of env_recv] arg_cong [OF t(3), of io] arg_cong [OF t(3), of options_of] t(4)
      by (simp_all add: same_env_def)
    have f: "reply_frame s (as @ p # bs) t (as @ p # bs)" by (rule reply_frame_same [OF dnrd_invD(1) [OF assms] e])
    have "qrec t p = k" using e(1) k(2) by (simp add: qrec_def)
    then obtain u where "query_delete_next (last (QLIST # as)) t = Some u" "dnrd_inv u is xs (as @ bs)"
      "reply_frame t (as @ p # bs) u (as @ bs)" "sent u = sent t"
      using one_server_less [OF t(2)] True by (auto simp del: last.simps)
    then show ?thesis using reply_frame_trans [OF f] True k t(1) e(2) by (simp add: finish_reply_def del: last.simps)
  qed
qed

lemma reply_frame_answer:
  assumes "query_inv s ps" "p \<in> set ps" "queries s p = Some k" "queries t = (queries s)(p \<mapsto> m)" "same_client k m"
    and "same_env s t" "resp_sent k = 0" "resp_sent m \<noteq> 0" "sent t = sent s @ [x]" "replies_to s p x"
    and "received t d" "valid_reply d" "drop 2 (snd (snd x)) = drop 2 d"
  shows "reply_frame s ps t ps"
proof -
  have "\<exists>m n. queries s y = Some m \<and> queries t y = Some n \<and> same_client m n" if "y \<in> set (QLIST # ps)" for y
    using query_live [OF assms(1) that] assms(3-5) by auto
  moreover have "answers_once s ps t ps [(p, x)]"
    using assms(2,3,4,7,8,10-13) by (auto simp: answers_once_def qrec_def)
  then have "\<exists>ans. sent t = sent s @ map snd ans \<and> answers_once s ps t ps ans"
    using assms(9) by (intro exI [of _ "[(p, x)]"]) simp
  ultimately show ?thesis using assms(6) unfolding reply_frame_def by blast
qed

text \<open>The replies that are passed on to the client: valid, for a client that waits, and good or the last.\<close>

definition passed_on :: "query_t \<Rightarrow> bytes \<Rightarrow> bool" where
  "passed_on k d \<longleftrightarrow> valid_reply d \<and> is_dummy k = 0 \<and> resp_sent k = 0 \<and>
     (GET_RCODE (be16 (d ! 2) (d ! 3)) = 0 \<or> serv_sent_cnt k = 1)"

definition answer_of :: "'a query_state_scheme \<Rightarrow> query_t \<Rightarrow> bytes \<Rightarrow> (int \<times> sockaddr_in \<times> bytes)" where
  "answer_of s k d = (isock s, client k, lo8 (client_qid k) # hi8 (client_qid k) # drop 2 d)"

lemma forward_reply_ok:
  assumes "dnrd_inv s is xs ps" "p \<in> set ps" "12 \<le> len" "len \<le> UDP_MAXSIZE" "is_dummy (qrec s p) = 0" "resp_sent (qrec s p) = 0"
    and "received s (take len (rep_msg s))" "valid_reply (take len (rep_msg s))"
  shows "\<exists>t ys. forward_reply p len s = Some t \<and> dnrd_inv t is ys ps \<and> reply_frame s ps t ps \<and>
    serv_sent_cnt (qrec t p) = serv_sent_cnt (qrec s p) \<and>
    sent t = sent s @ [answer_of s (qrec s p) (take len (rep_msg s))]"
proof -
  obtain k where k: "queries s p = Some k" "qrec s p = k" "query_ok s k" using dnrd_inv_member [OF assms(1,2)] by auto
  note i = dnrd_invD [OF assms(1)]
  obtain v where v: "srvs s (q_srv k) = Some v" using k(3) by (auto simp: query_ok_def srv_live_def)
  obtain t ys b where t: "cache_dnspacket (rep_msg s) len (q_srv k) s = Some t" "cache_inv t ys" "brk s \<le> brk t"
    "cx_frame (s\<lparr>brk := b\<rparr>) t"
    using cache_dnspacket_safe [OF i(2) assms(3,4) _ v, of "rep_msg s"] assms(4) i(7) by auto
  obtain a1 a2 a3 where f: "t = s\<lparr>brk := b, cxs := a1, cachelist := a2, lastcache := a3\<rparr>"
    using t(4) unfolding cx_frame_def by auto
  have inv: "dnrd_inv t is ys ps" using dnrd_inv_cache [OF assms(1) t(4) _ t(2)] t(3) by (simp add: f)
  obtain x y m where m: "rep_msg s = x # y # m" using i(7) by (cases "rep_msg s" rule: remdups_adj.cases) auto
  obtain j where j: "len = Suc (Suc j)" using assms(3) that [of "len - 2"] by simp
  let ?m = "lo8 (client_qid k) # hi8 (client_qid k) # m"
  let ?w = "t\<lparr>rep_msg := ?m, io := Suc (io s), sent := sent s @ [(isock s, client k, take len ?m)]\<rparr>"
  let ?k = "k\<lparr>resp_sent := 1\<rparr>"
  let ?z = "?w\<lparr>queries := (queries ?w)(p \<mapsto> ?k)\<rparr>"
  have l: "length ?m = UDP_MAXSIZE + 4" using i(7) m by simp
  have inv2: "dnrd_inv ?w is ys ps" by (rule dnrd_inv_sent [OF dnrd_inv_bufs(1) [OF inv l]])
  have q: "queries ?w p = Some k" using k(1) by (simp add: f)
  have "query_ok ?w k" using dnrd_inv_member [OF inv2 assms(2)] q by auto
  then have "dnrd_inv ?z is ys ps"
    by (intro dnrd_inv_upd [OF inv2 assms(2) q]) (auto simp: same_core_def q_socks_def query_ok_def)
  moreover have "forward_reply p len s = Some ?z"
    using k(1) t(1) m by (simp add: forward_reply_def f put_le16_Cons os_sendto_def upd_query_def)
  moreover have e: "queries ?z = (queries s)(p \<mapsto> ?k)" "same_env s ?z"
    "sent ?z = sent s @ [answer_of s k (take len (rep_msg s))]"
    using m j by (simp_all add: f answer_of_def same_env_def)
  moreover have "reply_frame s ps ?z ps"
    by (rule reply_frame_answer [OF i(1) assms(2) k(1) e(1) _ e(2) _ _ e(3) _ received_mono [OF assms(7)] assms(8)])
      (use assms(5,6) k(2) f in \<open>simp_all add: same_client_def replies_to_def answer_of_def\<close>)
  ultimately show ?thesis using k(2) by (intro exI [of _ ?z] exI [of _ ys]) (simp add: qrec_def)
qed

lemma keep_failure_ok:
  assumes "dnrd_inv s is xs ps" "p \<in> set ps" "12 \<le> len" "len \<le> UDP_MAXSIZE"
  shows "\<exists>t. keep_failure p len s = Some t \<and> dnrd_inv t is xs ps \<and> reply_frame s ps t ps \<and> sent t = sent s \<and>
    serv_sent_cnt (qrec t p) = serv_sent_cnt (qrec s p)"
proof -
  obtain k where k: "queries s p = Some k" "qrec s p = k" "query_ok s k" using dnrd_inv_member [OF assms(1,2)] by auto
  note q = dnrd_invD(1) [OF assms(1)]
  show ?thesis
  proof (cases "fail_msg_len k = 0")
    case False
    then show ?thesis using k assms(1) reply_frame_same [OF q refl refl same_env_refl]
      by (intro exI [of _ s]) (simp add: keep_failure_def)
  next
    case True
    let ?k = "k\<lparr>cached_fail_msg := take len (rep_msg s), fail_msg_len := len\<rparr>"
    let ?t = "s\<lparr>queries := (queries s)(p \<mapsto> ?k)\<rparr>"
    have "dnrd_inv ?t is xs ps"
      by (rule dnrd_inv_upd [OF assms(1,2) k(1)])
        (use k(3) assms(3,4) dnrd_invD(7) [OF assms(1)] in \<open>auto simp: same_core_def q_socks_def query_ok_def\<close>)
    moreover have "reply_frame s ps ?t ps"
      by (rule reply_frame_upd [OF q assms(2) k(1), where m = ?k]) (simp_all add: same_client_def same_env_def)
    ultimately show ?thesis using True k
      by (intro exI [of _ ?t]) (simp add: keep_failure_def upd_query_def qrec_def)
  qed
qed

lemma reply_codes:
  assumes "length m = UDP_MAXSIZE + 4" "len \<le> UDP_MAXSIZE"
  shows "check_reply m len = Some (if valid_reply (take len m) then 0 else - 1)"
    "valid_reply (take len m) \<Longrightarrow> check_replycode m len = Some (GET_RCODE (be16 (take len m ! 2) (take len m ! 3)))"
    "valid_reply (take len m) \<Longrightarrow> 12 \<le> len"
proof -
  show "check_reply m len = Some (if valid_reply (take len m) then 0 else - 1)"
    using check_reply_iff [of m len] assms by (auto simp: valid_reply_def)
  show v: "valid_reply (take len m) \<Longrightarrow> 12 \<le> len" by (simp add: valid_reply_def)
  assume "valid_reply (take len m)"
  then show "check_replycode m len = Some (GET_RCODE (be16 (take len m ! 2) (take len m ! 3)))"
    using assms v by (simp add: check_replycode_def decode_header_def alloc_packet_def rd_be16_eq nth_append)
qed

text \<open>What arrives in the buffer when the packet is read.\<close>

definition arrived :: "'a query_state_scheme \<Rightarrow> bytes option" where
  "arrived s = (case env_recv s (io s) of Recv_error \<Rightarrow> None | Recv_msg d frm nm \<Rightarrow> Some (take UDP_MAXSIZE d))"

lemma reply_recv_arrived:
  assumes "reply_recv p c (rep_msg s) UDP_MAXSIZE s = Some (l, m, t)"
  shows "arrived s = (if l < 0 then None else Some (take (nat l) m))"
proof (cases "env_recv s (io s)")
  case Recv_error
  then show ?thesis using assms by (auto simp: reply_recv_def arrived_def os_recv_def bind_eq_Some_conv)
next
  case (Recv_msg d frm mh)
  have "UDP_MAXSIZE \<le> length (rep_msg s)" "l = int (length (take UDP_MAXSIZE d)) \<and> m = overlay (rep_msg s) 0 (take UDP_MAXSIZE d)"
    using assms Recv_msg
    by (auto simp: reply_recv_def os_recv_def bind_eq_Some_conv split: if_splits prod.splits)
  then show ?thesis using Recv_msg by (simp add: arrived_def overlay_def min_def)
qed

text \<open>A valid reply is passed on, kept as a failure, or of no interest any more.\<close>

definition use_reply :: "ptr \<Rightarrow> nat \<Rightarrow> query_t \<Rightarrow> 'a dnrd_state_scheme \<Rightarrow> 'a dnrd_state_scheme option" where
  "use_reply p len k s =
     (if is_dummy k = 0 \<and> resp_sent k = 0 then do {
        rcode \<leftarrow> check_replycode (rep_msg s) len;
        if rcode = 0 \<or> serv_sent_cnt k = 1 then forward_reply p len s else keep_failure p len s
      } else Some s)"

lemma use_reply_ok:
  assumes "dnrd_inv s is xs ps" "p \<in> set ps" "len \<le> UDP_MAXSIZE" "valid_reply (take len (rep_msg s))"
    and "received s (take len (rep_msg s))"
  shows "\<exists>t ys. use_reply p len (qrec s p) s = Some t \<and> dnrd_inv t is ys ps \<and> reply_frame s ps t ps \<and>
    serv_sent_cnt (qrec t p) = serv_sent_cnt (qrec s p) \<and>
    sent t = sent s @ (if passed_on (qrec s p) (take len (rep_msg s))
                       then [answer_of s (qrec s p) (take len (rep_msg s))] else [])"
proof -
  let ?k = "qrec s p" and ?d = "take len (rep_msg s)"
  note c = reply_codes(2,3) [OF dnrd_invD(7) [OF assms(1)] assms(3,4)]
  show ?thesis
  proof (cases "passed_on ?k ?d")
    case True
    then have "is_dummy ?k = 0" "resp_sent ?k = 0" by (simp_all add: passed_on_def)
    from forward_reply_ok [OF assms(1,2) c(2) assms(3) this assms(5,4)] show ?thesis
      using True c(1) by (auto simp: passed_on_def use_reply_def)
  next
    case False
    show ?thesis
    proof (cases "is_dummy ?k = 0 \<and> resp_sent ?k = 0")
      case True
      from keep_failure_ok [OF assms(1,2) c(2) assms(3)] show ?thesis
        using True c(1) False assms(4) by (auto simp: passed_on_def use_reply_def)
    next
      case False
      have "reply_frame s ps s ps" by (rule reply_frame_same [OF dnrd_invD(1) [OF assms(1)] refl refl same_env_refl])
      then show ?thesis using False assms(1) by (auto simp: passed_on_def use_reply_def)
    qed
  qed
qed

text \<open>
  Debugging prints the question of a packet into an array with nothing known in front of it, which is safe when the
  question begins with a label, and which writes outside of the array for the root, see \<open>get_objname_named\<close>. Whether
  the packets that will arrive are like that matters only while debugging is on.
\<close>

definition named_recv :: "(nat \<Rightarrow> recv_result) \<Rightarrow> bool" where
  "named_recv e \<longleftrightarrow> (\<forall>n d frm mh. e n = Recv_msg d frm mh \<longrightarrow> named (take UDP_MAXSIZE d))"

abbreviation named_env :: "'a query_state_scheme \<Rightarrow> bool" where
  "named_env s \<equiv> named_recv (env_recv s)"

definition debug_ok :: "'a dnrd_state_scheme \<Rightarrow> bool" where
  "debug_ok s \<longleftrightarrow> opt_debug s = 0 \<or> named_env s"

lemma debug_ok_cong: "opt_debug t = opt_debug s \<Longrightarrow> env_recv t = env_recv s \<Longrightarrow> debug_ok t = debug_ok s"
  by (simp add: debug_ok_def)

lemma debug_ok_env: "same_env s t \<Longrightarrow> debug_ok t = debug_ok s"
  by (rule debug_ok_cong) (simp_all add: same_env_def options_of_def)

lemma log_reply_ok:
  assumes "cache_inv s xs" "opt_debug s = 0 \<or> named (take len msg)" "12 \<le> len" "len \<le> length msg"
  shows "log_reply msg len s = Some ()"
proof -
  have c: "length (vc s) = 256" "rr_ok (rr_garbage s)" using assms(1) by (simp_all add: cache_inv_def)
  obtain d where d: "dump_dnspacket (vc s) (unat (opt_debug s)) (rr_garbage s) msg len = Some d"
    using dump_dnspacket_ok [OF c(1) assms(3,4) c(2)] by blast
  show ?thesis
  proof (cases "opt_debug s = 0")
    case True
    then show ?thesis using d by (simp add: log_reply_def)
  next
    case False
    then obtain r where "snprintf_cname (vc s) msg len 12 (replicate 256 0) 256 = Some r"
      using snprintf_cname_named [OF c(1) _ assms(4), of 256 "replicate 256 0"] assms(2) by auto
    then show ?thesis using False d by (cases r) (simp add: log_reply_def)
  qed
qed

text \<open>The packet that arrives next can be printed, when it has to be.\<close>

definition printable :: "'a dnrd_state_scheme \<Rightarrow> bool" where
  "printable s \<longleftrightarrow> opt_debug s = 0 \<or> (\<forall>d. arrived s = Some d \<longrightarrow> named d)"

lemma debug_ok_printable: "debug_ok s \<Longrightarrow> printable s"
  by (auto simp: debug_ok_def printable_def named_recv_def arrived_def split: recv_result.splits)

text \<open>The handler, when the packet has been read.\<close>

definition after_recv :: "ptr \<Rightarrow> ptr \<Rightarrow> int \<Rightarrow> 'a dnrd_state_scheme \<Rightarrow> 'a dnrd_state_scheme option" where
  "after_recv prev q l s =
     (if l < 0 then drop_reply prev q s
      else do {
        ok \<leftarrow> check_reply (rep_msg s) (nat l);
        k \<leftarrow> queries s q;
        if ok < 0 then do { v \<leftarrow> get_srv s (q_srv k); drop_reply prev q s }
        else do { log_reply (rep_msg s) (nat l) s; s1 \<leftarrow> use_reply q (nat l) k s; finish_reply prev q s1 }
      })"

lemma udp_handle_reply_eq:
  assumes "queries s prev = Some n" "q_next n = p" "reply_recv p c (rep_msg s) UDP_MAXSIZE s = Some (l, m, s1)"
  shows "udp_handle_reply prev c s = after_recv prev p l (s1\<lparr>rep_msg := m\<rparr>)"
  using assms by (simp add: udp_handle_reply_def after_recv_def use_reply_def Let_def cong: if_cong)

lemma after_recv_ok:
  assumes "dnrd_inv s is xs (as @ p # bs)" "l \<le> int UDP_MAXSIZE"
    and "0 \<le> l \<Longrightarrow> received s (take (nat l) (rep_msg s))"
    and "0 \<le> l \<Longrightarrow> log_reply (rep_msg s) (nat l) s \<noteq> None \<or> \<not> valid_reply (take (nat l) (rep_msg s))"
  defines "qs \<equiv> if serv_sent_cnt (qrec s p) = 1 then as @ bs else as @ p # bs"
  shows "\<exists>t ys. after_recv (last (QLIST # as)) p l s = Some t \<and> dnrd_inv t is ys qs \<and>
    reply_frame s (as @ p # bs) t qs \<and>
    sent t = sent s @ (if l < 0 then [] else if passed_on (qrec s p) (take (nat l) (rep_msg s))
      then [answer_of s (qrec s p) (take (nat l) (rep_msg s))] else [])"
proof -
  let ?ps = "as @ p # bs" and ?d = "take (nat l) (rep_msg s)"
  have pin: "p \<in> set ?ps" by simp
  have len: "nat l \<le> UDP_MAXSIZE" using assms(2) by simp
  obtain k where k: "queries s p = Some k" "qrec s p = k" "query_ok s k" using dnrd_inv_member [OF assms(1) pin] by auto
  obtain v where v: "get_srv s (q_srv k) = Some v" using k(3) by (auto simp: query_ok_def srv_live_def get_srv_def)
  obtain t0 where drop: "drop_reply (last (QLIST # as)) p s = Some t0" "dnrd_inv t0 is xs qs" "reply_frame s ?ps t0 qs"
    "sent t0 = sent s"
    using drop_reply_ok [OF assms(1)] unfolding qs_def by blast
  note codes = reply_codes(1) [OF dnrd_invD(7) [OF assms(1)] len]
  consider "l < 0" | "\<not> l < 0" "\<not> valid_reply ?d" | "\<not> l < 0" "valid_reply ?d" by blast
  then show ?thesis
  proof cases
    case 1
    then show ?thesis using drop by (simp add: after_recv_def del: last.simps) blast
  next
    case 2
    then have "after_recv (last (QLIST # as)) p l s = Some t0" "\<not> passed_on k ?d"
      using codes k(1) v drop(1) by (simp_all add: after_recv_def passed_on_def del: last.simps)
    then show ?thesis using drop 2(1) k(2) by (simp del: last.simps) blast
  next
    case 3
    then have lg: "log_reply (rep_msg s) (nat l) s = Some ()" using assms(4) by simp
    have got: "received s ?d" using 3(1) assms(3) by simp
    obtain s3 ys where s3: "use_reply p (nat l) k s = Some s3" "dnrd_inv s3 is ys ?ps" "reply_frame s ?ps s3 ?ps"
      "serv_sent_cnt (qrec s3 p) = serv_sent_cnt k"
      "sent s3 = sent s @ (if passed_on k ?d then [answer_of s k ?d] else [])"
      using use_reply_ok [OF assms(1) pin len 3(2) got] unfolding k(2) by blast
    obtain t where t: "finish_reply (last (QLIST # as)) p s3 = Some t" "dnrd_inv t is ys qs" "reply_frame s3 ?ps t qs"
      "sent t = sent s3"
      using finish_reply_ok [OF s3(2)] unfolding qs_def s3(4) k(2) by blast
    have "after_recv (last (QLIST # as)) p l s = Some t"
      using 3 codes k(1) lg s3(1) t(1) by (simp add: after_recv_def del: last.simps)
    then show ?thesis using t(2,4) s3(5) 3(1) k(2) reply_frame_trans [OF s3(3) t(3)] by (simp del: last.simps) blast
  qed
qed

lemma log_reply_arrived:
  assumes "cache_inv s xs" "opt_debug s = opt_debug s0" "arrived s0 = Some (take len msg)" "12 \<le> len" "len \<le> length msg" "printable s0"
  shows "log_reply msg len s = Some ()"
  using log_reply_ok [OF assms(1) _ assms(4,5)] assms(2,3,6) by (auto simp: printable_def)

text \<open>
  A server's packet at a socket of an open query: the program survives it, whatever it is, unless debugging is on and
  the packet is not one that it can print; and the query stays open unless it was waiting for this one reply only.
\<close>

lemma udp_handle_reply_cases:
  assumes "dnrd_inv s is xs (as @ p # bs)" "c < 3"
  defines "qs \<equiv> if serv_sent_cnt (qrec s p) = 1 then as @ bs else as @ p # bs"
  shows "udp_handle_reply (last (QLIST # as)) c s = None \<and> \<not> printable s \<or>
    (\<exists>t ys. udp_handle_reply (last (QLIST # as)) c s = Some t \<and> dnrd_inv t is ys qs \<and>
    reply_frame s (as @ p # bs) t qs \<and> io s < io t \<and>
    sent t = sent s @ (case arrived s of None \<Rightarrow> []
      | Some d \<Rightarrow> if passed_on (qrec s p) d then [answer_of s (qrec s p) d] else []))"
proof -
  let ?ps = "as @ p # bs"
  note i = dnrd_invD [OF assms(1)]
  have "circ (q_nxt s) QLIST ?ps" using i(1) by (simp add: query_inv_def qlist_inv_def)
  from circ_next_last [OF this] obtain n where n: "queries s (last (QLIST # as)) = Some n" "q_next n = p"
    by (auto simp del: last.simps)
  obtain l m s1 where r: "reply_recv p c (rep_msg s) UDP_MAXSIZE s = Some (l, m, s1)" "data_step s s1" "infs_ok s1 is"
    "s1 = s\<lparr>io := Suc (io s), srvs := srvs s1\<rparr>" "length m = UDP_MAXSIZE + 4" "- 1 \<le> l" "l \<le> int UDP_MAXSIZE"
    using reply_recv_ok [OF assms(1) _ assms(2), of p] by auto
  obtain sv where s1: "s1 = s\<lparr>io := Suc (io s), srvs := sv\<rparr>" using r(4) by blast
  define s2 where "s2 = s1\<lparr>rep_msg := m\<rparr>"
  have inv2: "dnrd_inv s2 is xs ?ps" unfolding s2_def
    by (rule dnrd_inv_bufs(1) [OF dnrd_inv_data [OF assms(1) r(2,3)] r(5)])
  have e: "queries s2 = queries s" "sent s2 = sent s" "same_env s s2" "rep_msg s2 = m" "isock s2 = isock s" "io s2 = Suc (io s)"
    using data_step_dom_eq [OF r(2)] by (simp_all add: s2_def s1 same_env_def)
  have q2: "qrec s2 p = qrec s p" using e(1) by (simp add: qrec_def)
  have run: "udp_handle_reply (last (QLIST # as)) c s = after_recv (last (QLIST # as)) p l s2"
    using udp_handle_reply_eq [OF n r(1)] by (simp add: s2_def del: last.simps)
  note arr = reply_recv_arrived [OF r(1)]
  show ?thesis
  proof (cases "0 \<le> l \<and> valid_reply (take (nat l) m) \<and> log_reply m (nat l) s2 = None")
    case True
    have len: "nat l \<le> UDP_MAXSIZE" "nat l \<le> length m" using r(5,7) by simp_all
    note codes = reply_codes [OF r(5) len(1)]
    obtain k where k: "queries s2 p = Some k" using dnrd_inv_member [OF inv2, of p] by auto
    have "after_recv (last (QLIST # as)) p l s2 = None"
      using True codes(1) k e(4) by (simp add: after_recv_def del: last.simps)
    moreover have "\<not> printable s"
    proof
      assume "printable s"
      then have "log_reply m (nat l) s2 = Some ()"
        using log_reply_arrived [OF dnrd_invD(2) [OF inv2], of s] True arr codes(3) len(2) by (simp add: s2_def s1)
      then show False using True by simp
    qed
    ultimately show ?thesis using run by simp
  next
    case False
    have got: "0 \<le> l \<Longrightarrow> received s2 (take (nat l) (rep_msg s2))"
      using arr by (auto simp: received_def arrived_def s2_def s1 split: recv_result.splits)
    from False have lg: "0 \<le> l \<Longrightarrow> log_reply (rep_msg s2) (nat l) s2 \<noteq> None \<or> \<not> valid_reply (take (nat l) (rep_msg s2))"
      using e(4) by auto
    obtain t ys where t: "after_recv (last (QLIST # as)) p l s2 = Some t" "dnrd_inv t is ys qs" "reply_frame s2 ?ps t qs"
      "sent t = sent s @ (if l < 0 then [] else if passed_on (qrec s p) (take (nat l) m)
        then [answer_of s2 (qrec s p) (take (nat l) m)] else [])"
      using after_recv_ok [OF inv2 r(7) got lg] unfolding q2 e(2,4) qs_def by blast
    have "reply_frame s ?ps t qs" by (rule reply_frame_trans [OF reply_frame_same [OF i(1) e(1-3)] t(3)])
    moreover have "sent t = sent s @ (case arrived s of None \<Rightarrow> []
        | Some d \<Rightarrow> if passed_on (qrec s p) d then [answer_of s (qrec s p) d] else [])"
      using t(4) arr e(5) by (simp add: answer_of_def)
    moreover have "io s < io t" using t(3) e(6) by (simp add: reply_frame_def same_env_def)
    ultimately show ?thesis using t(1,2) run by auto
  qed
qed

lemma udp_handle_reply_ok:
  assumes "dnrd_inv s is xs (as @ p # bs)" "c < 3" "printable s"
  defines "qs \<equiv> if serv_sent_cnt (qrec s p) = 1 then as @ bs else as @ p # bs"
  shows "\<exists>t ys. udp_handle_reply (last (QLIST # as)) c s = Some t \<and> dnrd_inv t is ys qs \<and>
    reply_frame s (as @ p # bs) t qs \<and> io s < io t \<and>
    sent t = sent s @ (case arrived s of None \<Rightarrow> []
      | Some d \<Rightarrow> if passed_on (qrec s p) d then [answer_of s (qrec s p) d] else [])"
  using udp_handle_reply_cases [OF assms(1,2)] assms(3) unfolding qs_def by blast

text \<open>While debugging is on, a valid reply to the question for the root writes in front of an array.\<close>

lemma udp_handle_reply_root:
  assumes "dnrd_inv s is xs (as @ p # bs)" "c < 3" "opt_debug s \<noteq> 0" "arrived s = Some d" "valid_reply d" "12 < length d" "d ! 12 = 0"
  shows "udp_handle_reply (last (QLIST # as)) c s = None"
proof -
  note i = dnrd_invD [OF assms(1)]
  have "circ (q_nxt s) QLIST (as @ p # bs)" using i(1) by (simp add: query_inv_def qlist_inv_def)
  from circ_next_last [OF this] obtain n where n: "queries s (last (QLIST # as)) = Some n" "q_next n = p"
    by (auto simp del: last.simps)
  obtain l m s1 where r: "reply_recv p c (rep_msg s) UDP_MAXSIZE s = Some (l, m, s1)" "data_step s s1"
    "s1 = s\<lparr>io := Suc (io s), srvs := srvs s1\<rparr>" "length m = UDP_MAXSIZE + 4" "l \<le> int UDP_MAXSIZE"
    using reply_recv_ok [OF assms(1) _ assms(2), of p] by auto
  obtain sv where s1: "s1 = s\<lparr>io := Suc (io s), srvs := sv\<rparr>" using r(3) by blast
  have d: "0 \<le> l" "take (nat l) m = d" using reply_recv_arrived [OF r(1)] assms(4) by (auto split: if_splits)
  have len: "nat l \<le> UDP_MAXSIZE" "nat l \<le> length m" using r(4,5) by simp_all
  have root: "m ! 12 = 0" "12 < nat l" using d(2) assms(6,7) len(2) by auto
  obtain k where k: "queries s p = Some k" using dnrd_inv_member [OF assms(1), of p] by auto
  have "log_reply m (nat l) (s1\<lparr>rep_msg := m\<rparr>) = None"
    using snprintf_cname_root [OF root len(2)] assms(3) by (simp add: log_reply_def s1)
  then have "after_recv (last (QLIST # as)) p l (s1\<lparr>rep_msg := m\<rparr>) = None"
    using d reply_codes(1) [OF r(4) len(1)] assms(5) k by (simp add: after_recv_def s1 del: last.simps)
  then show ?thesis using udp_handle_reply_eq [OF n r(1)] by simp
qed

section \<open>The loop over the sockets\<close>

text \<open>
  The head of the list is a query record that is never filled, and a dummy query uses its first socket only:
  the other entries are 0. The loop may look at all of them.
\<close>

lemma query_inv_head: "query_inv s ps \<Longrightarrow> sock_arr (qrec s QLIST) = [0, 0, 0]"
  by (auto simp: query_inv_def qlist_inv_def head_ok_def qrec_def)

lemma query_inv_dummy: "query_inv s ps \<Longrightarrow> p \<in> set ps \<Longrightarrow> is_dummy (qrec s p) = 1 \<Longrightarrow> drop 1 (sock_arr (qrec s p)) = [0, 0]"
  by (auto simp: query_inv_def qlist_inv_def query_ok_def qrec_def)

lemma sock_in_range:
  assumes "query_inv s ps" "p \<in> set (QLIST # ps)" "c < 3"
  shows "\<exists>k fd. queries s p = Some k \<and> rd (sock_arr k) (int c) = Some fd \<and> 0 \<le> fd \<and> fd < FD_SETSIZE \<and>
    (p = QLIST \<longrightarrow> fd = 0)"
proof -
  obtain k where k: "queries s p = Some k" using query_live [OF assms(1,2)] by blast
  have q: "qrec s p = k" using k by (simp add: qrec_def)
  have c3: "c = 0 \<or> c = 1 \<or> c = 2" using assms(3) by auto
  show ?thesis
  proof (cases "p = QLIST")
    case True
    then have "sock_arr k = [0, 0, 0]" using query_inv_head [OF assms(1)] q by simp
    then show ?thesis using k c3 by (auto simp: rd_def FD_SETSIZE_def)
  next
    case False
    then have p: "p \<in> set ps" using assms(2) by simp
    have i: "qlist_inv s ps" "fd_inv s (socks_of s ps)" using assms(1) by (auto simp: query_inv_def)
    have l: "length (sock_arr k) = 3" using qlist_member [OF i(1) p] k by (auto simp: query_ok_def)
    have own: "\<forall>fd \<in> set (q_socks k). 0 \<le> fd \<and> fd < FD_SETSIZE"
      using i(2) p q by (fastforce simp: fd_inv_def socks_of_def)
    obtain x y z where a: "sock_arr k = [x, y, z]" using l by (auto simp: length_Suc_conv numeral_3_eq_3)
    have "\<forall>fd \<in> set (sock_arr k). 0 \<le> fd \<and> fd < FD_SETSIZE"
      using own query_inv_dummy [OF assms(1) p] q a by (auto simp: q_socks_def FD_SETSIZE_def split: if_splits)
    then show ?thesis using k False l assms(3) by (simp add: rd_def)
  qed
qed

lemma next_query:
  assumes "query_inv s (as @ bs)"
  shows "\<exists>n. queries s (last (QLIST # as)) = Some n \<and> q_next n = hd (bs @ [QLIST])"
proof (cases bs)
  case Nil
  then show ?thesis using assms circ_last [of "q_nxt s" QLIST as]
    by (auto simp: query_inv_def qlist_inv_def simp del: last.simps)
next
  case (Cons b bs')
  then show ?thesis using assms circ_next_last [of "q_nxt s" QLIST as b bs']
    by (auto simp: query_inv_def qlist_inv_def simp del: last.simps)
qed

lemma reply_socks_ok:
  assumes "dnrd_inv s is xs (as @ bs)" "0 \<notin> set fds" "set cs \<subseteq> {0, 1, 2}" "debug_ok s"
  shows "\<exists>t ys ds. reply_socks (last (QLIST # as)) cs fds s = Some t \<and> dnrd_inv t is ys (as @ ds) \<and>
    reply_frame s (as @ bs) t (as @ ds) \<and> length ds \<le> length bs"
  using assms
proof (induction cs arbitrary: s xs bs)
  case Nil
  then show ?case using reply_frame_same [OF dnrd_invD(1) [OF Nil.prems(1)] refl refl same_env_refl] by simp blast
next
  case (Cons c cs)
  let ?q = "last (QLIST # as)"
  have c3: "c < 3" using Cons.prems(3) by auto
  note q = dnrd_invD(1) [OF Cons.prems(1)]
  let ?p = "hd (bs @ [QLIST])"
  obtain n where n: "queries s ?q = Some n" "q_next n = ?p" using next_query [OF q] by blast
  have "?p \<in> set (QLIST # as @ bs)" by (cases bs) auto
  from sock_in_range [OF q this c3] obtain k fd where
    k: "queries s ?p = Some k" "rd (sock_arr k) (int c) = Some fd" "0 \<le> fd" "fd < FD_SETSIZE" "?p = QLIST \<longrightarrow> fd = 0" by blast
  obtain s1 ys ds where s1: "(if fd \<in> set fds then udp_handle_reply ?q c s else Some s) = Some s1" "dnrd_inv s1 is ys (as @ ds)"
    "reply_frame s (as @ bs) s1 (as @ ds)" "length ds \<le> length bs"
  proof (cases "fd \<in> set fds")
    case False
    then show ?thesis using that [of s xs bs] Cons.prems(1) reply_frame_same [OF q refl refl same_env_refl] by simp
  next
    case True
    then have "?p \<noteq> QLIST" using k(5) Cons.prems(2) by auto
    then obtain p bs' where b: "bs = p # bs'" by (cases bs) auto
    obtain s1 ys where "udp_handle_reply ?q c s = Some s1"
      "dnrd_inv s1 is ys (if serv_sent_cnt (qrec s p) = 1 then as @ bs' else as @ p # bs')"
      "reply_frame s (as @ p # bs') s1 (if serv_sent_cnt (qrec s p) = 1 then as @ bs' else as @ p # bs')"
      using udp_handle_reply_ok [of s "is" xs as p bs', OF _ c3 debug_ok_printable [OF Cons.prems(4)]] Cons.prems(1) unfolding b by blast
    then show ?thesis using that [of s1 ys "if serv_sent_cnt (qrec s p) = 1 then bs' else p # bs'"] True b
      by (simp add: if_distrib del: last.simps split: if_splits)
  qed
  obtain n1 where n1: "queries s1 ?q = Some n1" "q_next n1 = hd (ds @ [QLIST])" using next_query [OF dnrd_invD(1) [OF s1(2)]] by blast
  have "hd (ds @ [QLIST]) \<in> set (QLIST # as @ ds)" by (cases ds) auto
  then obtain k1 where k1: "queries s1 (hd (ds @ [QLIST])) = Some k1" using query_live [OF dnrd_invD(1) [OF s1(2)]] by blast
  have run: "reply_socks ?q (c # cs) fds s = (if is_dummy k1 = 1 then Some s1 else reply_socks ?q cs fds s1)"
    using n k s1(1) n1 k1 by (simp add: fd_isset_def del: last.simps)
  show ?case
  proof (cases "is_dummy k1 = 1")
    case True
    then show ?thesis using run s1(2-4) by (simp del: last.simps) blast
  next
    case False
    have "set cs \<subseteq> {0, 1, 2}" using Cons.prems(3) by simp
    moreover have "debug_ok s1" using Cons.prems(4) s1(3) debug_ok_env [of s s1] by (simp add: reply_frame_def)
    ultimately obtain t zs es where
      "reply_socks ?q cs fds s1 = Some t" "dnrd_inv t is zs (as @ es)" "reply_frame s1 (as @ ds) t (as @ es)"
      "length es \<le> length ds" using Cons.IH [OF s1(2) Cons.prems(2)] by blast
    moreover have "length es \<le> length bs" using calculation(4) s1(4) by simp
    ultimately show ?thesis using run False reply_frame_trans [OF s1(3)]
      by (simp del: last.simps reply_socks.simps) blast
  qed
qed

text \<open>
  The loop over the queries ends: a deletion may take it back to the head of the list, but the list is shorter
  then.
\<close>

lemma reply_loop_ok:
  assumes "dnrd_inv s is xs (as @ bs)" "0 \<notin> set fds" "debug_ok s"
  shows "\<exists>t ys qs. reply_loop (last (QLIST # as)) fds s = Some t \<and> dnrd_inv t is ys qs \<and>
    reply_frame s (as @ bs) t qs"
  using assms
proof (induction "(length (as @ bs), length bs)" arbitrary: as bs s xs
    rule: wf_induct_rule [OF wf_lex_prod [OF wf_less_than wf_less_than]])
  case 1
  let ?q = "last (QLIST # as)"
  note q = dnrd_invD(1) [OF 1(2)]
  obtain n where n: "queries s ?q = Some n" "q_next n = hd (bs @ [QLIST])" using next_query [OF q] by blast
  show ?case
  proof (cases bs)
    case Nil
    then have "reply_loop ?q fds s = Some s" using n by (subst reply_loop.simps) (simp del: last.simps)
    then show ?thesis using 1(2) reply_frame_same [OF q refl refl same_env_refl] by blast
  next
    case (Cons b bs')
    have "circ (q_nxt s) QLIST (as @ bs)" using q by (simp add: query_inv_def qlist_inv_def)
    then have b: "b \<noteq> QLIST" using Cons by (auto simp: circ_def)
    obtain t ys ds where t: "reply_socks ?q [0, 1, 2] fds s = Some t" "dnrd_inv t is ys (as @ ds)"
      "reply_frame s (as @ bs) t (as @ ds)" "length ds \<le> length bs"
      using reply_socks_ok [OF 1(2,3), of "[0, 1, 2]"] 1(4) by auto
    have dbg: "debug_ok t" using 1(4) t(3) debug_ok_env [of s t] by (simp add: reply_frame_def)
    obtain m where m: "queries t ?q = Some m" "q_next m = hd (ds @ [QLIST])" using next_query [OF dnrd_invD(1) [OF t(2)]] by blast
    have run: "reply_loop ?q fds s = reply_loop (hd (ds @ [QLIST])) fds t"
      using n m b t(1) Cons by (subst reply_loop.simps) (simp del: last.simps reply_socks.simps)
    obtain as' bs' where s: "as' @ bs' = as @ ds" "last (QLIST # as') = hd (ds @ [QLIST])"
      "((length (as' @ bs'), length bs'), length (as @ bs), length bs) \<in> less_than <*lex*> less_than"
    proof (cases ds)
      case Nil
      then show ?thesis using that [of "[]" as] Cons by simp
    next
      case (Cons d ds')
      then show ?thesis using that [of "as @ [d]" ds'] t(4) by (auto simp: le_less)
    qed
    obtain u zs qs where "reply_loop (last (QLIST # as')) fds t = Some u" "dnrd_inv u is zs qs" "reply_frame t (as' @ bs') u qs"
      using 1(1) [OF s(3), of t ys] t(2) 1(3) dbg unfolding s(1) by blast
    then show ?thesis using run reply_frame_trans [OF t(3)] unfolding s(1,2) by (simp del: last.simps) blast
  qed
qed

section \<open>The head of the list\<close>

text \<open>
  The inner loop reads \<open>q->next\<close> anew for each of the three sockets. When the last query of the list is deleted
  at its first socket, the next two looks are at the head of the list, whose socket entries are 0: if the deleted
  query was on descriptor 0, the head is handled like a query, and the error message for the closed socket
  follows its pointer to a server, which is \<open>NULL\<close>.
\<close>

lemma head_recv_error:
  assumes "queries s QLIST = Some h" "q_next h = QLIST" "rd (sock_arr h) (int c) = Some fd"
    and "env_recv s (io s) = Recv_error" "srvs s (q_srv h) = None"
  shows "udp_handle_reply QLIST c s = None"
  using assms by (simp add: udp_handle_reply_def reply_recv_def os_recv_def get_srv_def)

lemma reply_loop_head:
  assumes "dnrd_inv s is xs [p]" "sock_arr (qrec s p) ! 0 = 0" "serv_sent_cnt (qrec s p) = 1"
    and "0 \<in> set fds" "is_dummy (qrec s QLIST) = 0" "srvs s (q_srv (qrec s QLIST)) = None"
    and "\<forall>j > io s. env_recv s j = Recv_error"
  shows "reply_loop QLIST fds s = None"
proof -
  note q = dnrd_invD(1) [OF assms(1)]
  have pq: "p \<noteq> QLIST" using q by (auto simp: query_inv_def qlist_inv_def circ_def)
  obtain n where n: "queries s QLIST = Some n" "q_next n = p" using next_query [of s "[]" "[p]"] q by auto
  obtain k where k: "queries s p = Some k" "qrec s p = k" "query_ok s k" using dnrd_inv_member [OF assms(1)] by auto
  have fd: "rd (sock_arr k) 0 = Some 0" using k assms(2) by (simp add: query_ok_def rd_def)
  have n0: "sock_arr n = [0, 0, 0]" "is_dummy n = 0" "srvs s (q_srv n) = None"
    using query_inv_head [OF q] assms(5,6) n(1) by (simp_all add: qrec_def)
  have "reply_socks QLIST [0, 1, 2] fds s = None"
  proof (cases "udp_handle_reply QLIST 0 s")
    case None
    then show ?thesis using n k(1) fd assms(4) by (simp add: fd_isset_def FD_SETSIZE_def)
  next
    case (Some t)
    then obtain ys where t: "dnrd_inv t is ys []" "reply_frame s [p] t []" "io s < io t"
      using udp_handle_reply_cases [of s "is" xs "[]" p "[]" 0] assms(1,3) by auto
    obtain h where h: "queries t QLIST = Some h" "q_next h = QLIST"
      using next_query [of t "[]" "[]"] dnrd_invD(1) [OF t(1)] by auto
    have sc: "same_client n h" "same_env s t" using t(2) n(1) h(1) by (auto simp: reply_frame_def)
    have "dom (srvs t) = dom (srvs s)" using sc(2) by (simp add: same_env_def)
    then have h0: "sock_arr h = [0, 0, 0]" "is_dummy h = 0" "srvs t (q_srv h) = None"
      using sc(1) n0 by (auto simp: same_client_def)
    have "env_recv t (io t) = Recv_error" using sc(2) t(3) assms(7) by (simp add: same_env_def)
    then have crash: "udp_handle_reply QLIST 1 t = None" using head_recv_error [OF h, of 1 0] h0 by (simp add: rd_def)
    show ?thesis using n k(1) fd Some h h0(1,2) crash assms(4) by (simp add: fd_isset_def FD_SETSIZE_def rd_def)
  qed
  then show ?thesis using n pq by (subst reply_loop.simps) simp
qed

end
