(* ===== verification/Database.thy ===== *)
theory Database
  imports Master
begin

text \<open>
  What the database of the local master holds, over the model of src/master.c in \<open>Master\<close>: the
  invariant of its records, the lookups without the hash, and the readers of the configuration
  files, which return for every content of the files, with a database that satisfies the
  invariant and that only grew.
\<close>

section \<open>The invariant\<close>

definition string_ok :: "string_t \<Rightarrow> bool" where
  "string_ok t \<longleftrightarrow> 0 \<notin> set (st_string t) \<and> st_code t = get_stringcode (st_string t)"

text \<open>The pointer name of a host is the address backwards; a name has at most 255 bytes.\<close>

definition record_ok :: "dnsrec \<Rightarrow> bool" where
  "record_ok r \<longleftrightarrow> string_ok (rec_object r) \<and> length (st_string (rec_object r)) < 256 \<and>
     (case rec_data r of
        Nameip t ip \<Rightarrow> string_ok t \<and> st_string t = inet_ntoa (bswap32 ip)
      | Dns_server t \<Rightarrow> string_ok t \<and> length (st_string t) < 256
      | Authority \<Rightarrow> True)"

definition db_ok :: "'a master_state_scheme \<Rightarrow> bool" where
  "db_ok m \<longleftrightarrow> (\<forall>r \<in> set (dbv m). record_ok r) \<and> int (length (dbv m)) \<le> dbmax m"

text \<open>An operation that returns, keeps the invariant and only adds records.\<close>

definition extends :: "'a master_state_scheme \<Rightarrow> 'a master_state_scheme option \<Rightarrow> bool" where
  "extends m x \<longleftrightarrow> (\<exists>rs k. x = Some (m\<lparr>dbv := dbv m @ rs, dbmax := k\<rparr>) \<and> db_ok (m\<lparr>dbv := dbv m @ rs, dbmax := k\<rparr>))"

lemma extendsE:
  assumes "extends m x"
  obtains m' rs k where "x = Some m'" "m' = m\<lparr>dbv := dbv m @ rs, dbmax := k\<rparr>" "db_ok m'"
  using assms unfolding extends_def by blast

lemma extends_refl: "db_ok m \<Longrightarrow> extends m (Some m)"
  unfolding extends_def by (rule exI [of _ "[]"], rule exI [of _ "dbmax m"]) simp

lemma extends_trans:
  assumes "extends m (Some m1)" "extends m1 x"
  shows "extends m x"
proof -
  obtain rs k where 1: "m1 = m\<lparr>dbv := dbv m @ rs, dbmax := k\<rparr>"
    using assms(1) unfolding extends_def by auto
  obtain rs' k' where 2: "x = Some (m1\<lparr>dbv := dbv m1 @ rs', dbmax := k'\<rparr>)" "db_ok (m1\<lparr>dbv := dbv m1 @ rs', dbmax := k'\<rparr>)"
    using assms(2) unfolding extends_def by auto
  show ?thesis unfolding extends_def
    by (rule exI [of _ "rs @ rs'"], rule exI [of _ k']) (use 1 2 in simp)
qed

lemma extends_bind:
  assumes "extends m x" "\<And>m1. x = Some m1 \<Longrightarrow> db_ok m1 \<Longrightarrow> extends m1 (f m1)"
  shows "extends m (Option.bind x f)"
proof -
  from assms(1) obtain m1 where m1: "x = Some m1" "db_ok m1" by (elim extendsE) blast
  then show ?thesis using assms extends_trans [of m m1 "f m1"] by auto
qed

lemma extends_ok: "extends m x \<Longrightarrow> \<exists>m'. x = Some m' \<and> db_ok m'"
  by (elim extendsE) blast

lemma extends_is_Some: "extends m x \<Longrightarrow> \<exists>m'. x = Some m' \<and> extends m (Some m')"
  using extends_ok by metis

section \<open>Strings\<close>

lemma strn_conv_fix:
  assumes "0 \<in> set (drop i s)" "\<forall>c \<in> set s. f c = c"
  shows "strn_conv f s maxlen i = Some s"
  using assms
proof (induction f s maxlen i rule: strn_conv.induct)
  case (1 f s maxlen i)
  have i: "i < length s" using "1.prems"(1) by (rule nul_in_range)
  show ?case
  proof (cases "int i \<le> maxlen \<and> s ! i \<noteq> 0")
    case True
    have "s[i := f (s ! i)] = s" using "1.prems"(2) i by (metis list_update_id nth_mem)
    then have "strn_conv f s maxlen (Suc i) = Some s"
      using "1.IH" [of "s ! i" s] True i "1.prems" nul_drop_Suc [OF "1.prems"(1)] by simp
    then show ?thesis using True i \<open>s[i := f (s ! i)] = s\<close>
      by (simp add: strn_conv.simps [of f s maxlen i])
  next
    case False
    then show ?thesis using i by (auto simp: strn_conv.simps [of f s maxlen i])
  qed
qed

lemma mkstring_lower:
  assumes "0 \<in> set name" "int (length (cstr name)) \<le> maxlen"
  shows "mkstring name maxlen = Some \<lparr>st_code = get_stringcode (map c_tolower (cstr name)),
    st_string = map c_tolower (cstr name)\<rparr>"
proof -
  have c: "cstr (cstr name @ [0]) = cstr name" by simp
  have l: "strnlwr (cstr name @ [0]) maxlen = Some (map c_tolower (cstr name) @ [0])"
    using strnlwr_cstr [of "cstr name @ [0]" maxlen] assms(2) by simp
  have n: "0 \<notin> set (map c_tolower (cstr name))" using cstr_no_nul [of name] by auto
  show ?thesis using assms(1) l cstr_append_nul [OF n, of "[]"]
    by (simp add: mkstring_def c_strlen_def)
qed

lemma mkstring_fix:
  assumes "0 \<notin> set name" "map c_tolower name = name"
  shows "mkstring (name @ [0]) maxlen = Some \<lparr>st_code = get_stringcode name, st_string = name\<rparr>"
proof -
  have "\<forall>c \<in> set (name @ [0]). c_tolower c = c"
  proof
    fix c assume "c \<in> set (name @ [0])"
    then consider "c = 0" | k where "k < length name" "c = name ! k" by (auto simp: in_set_conv_nth)
    then show "c_tolower c = c" by cases (simp, metis assms(2) nth_map)
  qed
  then have "strnlwr (name @ [0]) maxlen = Some (name @ [0])"
    unfolding strnlwr_def by (intro strn_conv_fix) simp_all
  then show ?thesis using assms(1) by (simp add: mkstring_def c_strlen_def)
qed

lemma mkstring_ok:
  assumes "mkstring name maxlen = Some t" "0 \<in> set name" "int (length (cstr name)) \<le> maxlen"
  shows "string_ok t \<and> st_string t = map c_tolower (cstr name)"
proof -
  have "0 \<notin> set (map c_tolower (cstr name))" using cstr_no_nul [of name] by auto
  then show ?thesis using assms(1) mkstring_lower [OF assms(2,3)] by (auto simp: string_ok_def)
qed

section \<open>Addresses\<close>

lemma dec_digits_char: "c \<in> set (dec_digits n) \<Longrightarrow> c_isdigit c"
proof (induction n rule: dec_digits.induct)
  case (1 n)
  have d: "c_isdigit (of_nat (48 + k))" if "k < 10" for k
  proof -
    have "unat (of_nat (48 + k) :: byte) = 48 + k" using that by (subst unat_of_nat) simp
    then show ?thesis using that by (simp add: c_isdigit_def word_le_nat_alt)
  qed
  show ?case
  proof (cases "n < 10")
    case True
    then show ?thesis using "1.prems" d [of n] by (simp add: dec_digits.simps [of n])
  next
    case False
    then have "c \<in> set (dec_digits (n div 10)) \<or> c = of_nat (48 + n mod 10)"
      using "1.prems" by (subst (asm) dec_digits.simps) auto
    then show ?thesis using "1.IH" [OF False] d [of "n mod 10"] by auto
  qed
qed

lemma digit_plain: "c_isdigit c \<Longrightarrow> c_tolower c = c \<and> c \<noteq> 0 \<and> c \<noteq> 46"
  by (auto simp: c_isdigit_def c_tolower_def c_isupper_def word_le_nat_alt)

lemma inet_ntoa_plain: "c \<in> set (inet_ntoa a) \<Longrightarrow> c_tolower c = c \<and> c \<noteq> 0"
proof -
  assume "c \<in> set (inet_ntoa a)"
  then have "c = 46 \<or> c_isdigit c" by (auto simp: inet_ntoa_def Let_def dest: dec_digits_char)
  moreover have "c_tolower 46 = 46" by (simp add: c_tolower_def c_isupper_def)
  ultimately show ?thesis using digit_plain [of c] by auto
qed

lemma inet_ntoa_lower: "map c_tolower (inet_ntoa a) = inet_ntoa a"
  by (rule map_idI) (simp add: inet_ntoa_plain)

lemma inet_ntoa_no_nul: "0 \<notin> set (inet_ntoa a)"
  using inet_ntoa_plain by blast

lemma bswap32_bits: "bit (bswap32 x) n \<longleftrightarrow>
    (n < 8 \<and> bit x (n + 24)) \<or> (8 \<le> n \<and> n < 16 \<and> bit x (n + 8)) \<or>
    (16 \<le> n \<and> n < 24 \<and> bit x (n - 8)) \<or> (24 \<le> n \<and> n < 32 \<and> bit x (n - 24))"
proof -
  have m: "(0xff000000 :: u32) = push_bit 24 (mask 8)" "(0x00ff0000 :: u32) = push_bit 16 (mask 8)"
    "(0x0000ff00 :: u32) = push_bit 8 (mask 8)" "(0x000000ff :: u32) = mask 8"
    by (simp_all add: mask_eq_exp_minus_1)
  have p: "bit (x AND push_bit k (mask 8)) j \<longleftrightarrow> k \<le> j \<and> j < k + 8 \<and> bit x j" if "k + 8 \<le> 32" for k j
  proof -
    have "j < 32" if "bit x j" using bit_imp_le_length [OF that] by simp
    then show ?thesis using that by (auto simp: bit_and_iff bit_push_bit_iff bit_mask_iff)
  qed
  have l: "bit x j \<Longrightarrow> j < 32" for j using bit_imp_le_length [of x j] by simp
  have "bit (drop_bit 24 (x AND push_bit 24 (mask 8))) n \<longleftrightarrow> n < 8 \<and> bit x (n + 24)"
    unfolding bit_drop_bit_eq comp_def using p [of 24 "24 + n"] by (simp add: add.commute)
  moreover have "bit (drop_bit 8 (x AND push_bit 16 (mask 8))) n \<longleftrightarrow> 8 \<le> n \<and> n < 16 \<and> bit x (n + 8)"
    unfolding bit_drop_bit_eq comp_def using p [of 16 "8 + n"] by (auto simp: add.commute)
  moreover have "bit (push_bit 8 (x AND push_bit 8 (mask 8))) n \<longleftrightarrow> 16 \<le> n \<and> n < 24 \<and> bit x (n - 8)"
    using p [of 8 "n - 8"] by (subst bit_push_bit_iff) (auto simp: possible_bit_word)
  moreover have "bit (push_bit 24 (x AND mask 8)) n \<longleftrightarrow> 24 \<le> n \<and> n < 32 \<and> bit x (n - 24)"
    using p [of 0 "n - 24"] by (subst bit_push_bit_iff) (auto simp: possible_bit_word)
  ultimately show ?thesis unfolding bswap32_def m by (simp only: bit_or_iff)
qed

lemma bswap32_bswap32 [simp]: "bswap32 (bswap32 x) = x"
proof (rule bit_word_eqI)
  fix n assume "n < LENGTH(32)"
  then consider "n < 8" | "8 \<le> n" "n < 16" | "16 \<le> n" "n < 24" | "24 \<le> n" "n < 32" by fastforce
  then show "bit (bswap32 (bswap32 x)) n = bit x n"
    unfolding bswap32_bits [of "bswap32 x"] bswap32_bits [of x] by cases auto
qed

lemma create_nameip_eq:
  assumes "0 \<in> set ip"
  shows "create_nameip maxlen ip = Some (case inet_aton (cstr ip) of None \<Rightarrow> None
    | Some a \<Rightarrow> Some (Nameip \<lparr>st_code = get_stringcode (inet_ntoa (bswap32 a)), st_string = inet_ntoa (bswap32 a)\<rparr> a))"
proof -
  have mk: "mkstring (inet_ntoa b @ [0]) maxlen = Some \<lparr>st_code = get_stringcode (inet_ntoa b), st_string = inet_ntoa b\<rparr>"
    for b using mkstring_fix [OF inet_ntoa_no_nul inet_ntoa_lower] .
  show ?thesis using assms
    by (simp add: create_nameip_def c_strlen_def Let_def mk split: option.split)
qed

section \<open>Adding records\<close>

lemma add_record_extends:
  assumes "db_ok m" "record_ok r"
  shows "extends m (Some (add_record r m))"
  unfolding extends_def
  by (rule exI [of _ "[r]"],
      rule exI [of _ "if dbmax m \<le> int (length (dbv m)) then dbmax m + 10 else dbmax m"])
    (use assms in \<open>auto simp: add_record_def db_ok_def\<close>)

definition host_record :: "bytes \<Rightarrow> u32 \<Rightarrow> dnsrec" where
  "host_record name a = \<lparr>rec_object = \<lparr>st_code = get_stringcode name, st_string = name\<rparr>,
     rec_data = Nameip \<lparr>st_code = get_stringcode (inet_ntoa (bswap32 a)), st_string = inet_ntoa (bswap32 a)\<rparr> a\<rparr>"

lemma add_nameip_eq:
  assumes "0 \<in> set name" "int (length (cstr name)) \<le> maxlen" "0 \<in> set ip"
  shows "add_nameip name maxlen ip m = Some (case inet_aton (cstr ip) of None \<Rightarrow> m
    | Some a \<Rightarrow> add_record (host_record (map c_tolower (cstr name)) a) m)"
  using assms
  by (simp add: add_nameip_def mkstring_lower create_nameip_eq host_record_def split: option.split)

lemma host_record_ok:
  assumes "0 \<notin> set name" "length name < 256"
  shows "record_ok (host_record name a)"
  using assms by (simp add: record_ok_def host_record_def string_ok_def inet_ntoa_no_nul)

lemma lower_no_nul: "0 \<notin> set (map c_tolower (cstr name))"
  using cstr_no_nul [of name] by auto

lemma add_nameip_extends:
  assumes "db_ok m" "0 \<in> set name" "int (length (cstr name)) \<le> maxlen" "length (cstr name) < 256" "0 \<in> set ip"
  shows "extends m (add_nameip name maxlen ip m)"
proof -
  have "record_ok (host_record (map c_tolower (cstr name)) a)" for a
    using lower_no_nul [of name] assms(4) by (intro host_record_ok) simp_all
  then show ?thesis using assms(1) unfolding add_nameip_eq [OF assms(2,3,5)]
    by (auto intro: extends_refl add_record_extends split: option.split)
qed

lemma add_dns_extends:
  assumes "db_ok m" "0 \<in> set domain" "int (length (cstr domain)) \<le> k" "length (cstr domain) < 256"
    and "0 \<in> set dns" "int (length (cstr dns)) \<le> l" "length (cstr dns) < 256"
  shows "extends m (add_dns domain k dns l m)"
proof -
  let ?r = "\<lparr>rec_object = \<lparr>st_code = get_stringcode (map c_tolower (cstr domain)), st_string = map c_tolower (cstr domain)\<rparr>,
    rec_data = Dns_server \<lparr>st_code = get_stringcode (map c_tolower (cstr dns)), st_string = map c_tolower (cstr dns)\<rparr>\<rparr>"
  have "record_ok ?r"
    using lower_no_nul [of domain] lower_no_nul [of dns] assms(4,7) by (simp add: record_ok_def string_ok_def)
  then have "extends m (Some (add_record ?r m))" by (rule add_record_extends [OF assms(1)])
  then show ?thesis using assms by (simp add: add_dns_def mkstring_lower)
qed

definition authority_record :: "bytes \<Rightarrow> dnsrec" where
  "authority_record d = \<lparr>rec_object = \<lparr>st_code = get_stringcode d, st_string = d\<rparr>, rec_data = Authority\<rparr>"

lemma add_authority_eq:
  assumes "0 \<in> set domain" "int (length (cstr domain)) \<le> k"
  shows "add_authority domain k m = Some (add_record (authority_record (map c_tolower (cstr domain))) m)"
  using assms by (simp add: add_authority_def mkstring_lower authority_record_def)

lemma add_authority_extends:
  assumes "db_ok m" "0 \<in> set domain" "int (length (cstr domain)) \<le> k" "length (cstr domain) < 256"
  shows "extends m (add_authority domain k m)"
proof -
  have "record_ok (authority_record (map c_tolower (cstr domain)))"
    using lower_no_nul [of domain] assms(4) by (simp add: record_ok_def string_ok_def authority_record_def)
  then show ?thesis unfolding add_authority_eq [OF assms(2,3)] by (rule add_record_extends [OF assms(1)])
qed
section \<open>The lookups without the hash\<close>

definition host_named :: "bytes \<Rightarrow> dnsrec \<Rightarrow> bool" where
  "host_named name r = (case rec_data r of Nameip t ip \<Rightarrow> st_string (rec_object r) = name | _ \<Rightarrow> False)"

definition host_at :: "bytes \<Rightarrow> dnsrec \<Rightarrow> bool" where
  "host_at arpa r = (case rec_data r of Nameip t ip \<Rightarrow> inet_ntoa (bswap32 ip) = arpa | _ \<Rightarrow> False)"

definition authority_for :: "bytes \<Rightarrow> dnsrec \<Rightarrow> bool" where
  "authority_for d r = (case rec_data r of Authority \<Rightarrow> st_string (rec_object r) = d | _ \<Rightarrow> False)"

lemma db_okD: "db_ok m \<Longrightarrow> r \<in> set (dbv m) \<Longrightarrow> record_ok r"
  by (simp add: db_ok_def)

lemma name_lookup_plain:
  assumes "db_ok m"
  shows "name_lookup name m = find (host_named name) (dbv m)"
  unfolding name_lookup_def
  by (rule find_cong [OF refl])
    (use db_okD [OF assms] in \<open>auto simp: is_name_def host_named_def record_ok_def string_ok_def split: rec_data.split\<close>)

lemma ptr_lookup_plain:
  assumes "db_ok m"
  shows "ptr_lookup arpa m = find (host_at arpa) (dbv m)"
  unfolding ptr_lookup_def
proof (rule find_cong [OF refl])
  fix r assume "r \<in> set (dbv m)"
  then have "record_ok r" by (rule db_okD [OF assms])
  then show "is_ptr arpa r = host_at arpa r"
    by (auto simp: is_ptr_def host_at_def record_ok_def string_ok_def split: rec_data.splits)
qed

lemma authority_lookup_plain:
  assumes "db_ok m"
  shows "authority_lookup d m = find (authority_for d) (rev (dbv m))"
  unfolding authority_lookup_def
  by (rule find_cong [OF refl])
    (use db_okD [OF assms] in \<open>auto simp: is_authority_def authority_for_def record_ok_def string_ok_def split: rec_data.split\<close>)

lemma authority_lookup_None:
  "db_ok m \<Longrightarrow> authority_lookup d m = None \<longleftrightarrow> (\<forall>r \<in> set (dbv m). \<not> authority_for d r)"
  by (auto simp: authority_lookup_plain find_None_iff)

section \<open>Walking over a line\<close>

lemma drop_update_nul:
  assumes "0 \<in> set (drop q (s::bytes))"
  shows "0 \<in> set (drop q (s[k := 0]))"
proof (cases "q \<le> k")
  case True
  then show ?thesis using set_update_ok [OF assms, of "k - q"] by (simp add: drop_update_swap)
next
  case False
  then show ?thesis using assms by (simp add: drop_update_cancel)
qed

lemma noctrln_loop_ok:
  assumes "p + n \<le> length s"
  shows "\<exists>s'. noctrln_loop s p n = Some s' \<and> length s' = length s \<and>
    (\<forall>q. 0 \<in> set (drop q s) \<longrightarrow> 0 \<in> set (drop q s'))"
  using assms
proof (induction s p n rule: noctrln_loop.induct)
  case (1 s p)
  then show ?case by simp
next
  case (2 s p n)
  have r: "rd s (int (p + n)) = Some (s ! (p + n))" "wr s (int (p + n)) 0 = Some (s[p + n := 0])"
    using "2.prems" by (simp_all del: of_nat_add)
  show ?case
  proof (cases "s ! (p + n) \<le> 32")
    case True
    obtain s' where s': "noctrln_loop (s[p + n := 0]) p n = Some s'" "length s' = length (s[p + n := 0])"
      "\<forall>q. 0 \<in> set (drop q (s[p + n := 0])) \<longrightarrow> 0 \<in> set (drop q s')"
      using "2.IH" [OF r(1) True r(2)] "2.prems" by auto
    then show ?thesis using r True by (simp add: drop_update_nul del: of_nat_add)
  next
    case False
    then show ?thesis using r by (simp del: of_nat_add)
  qed
qed

lemma noctrln_ok:
  assumes "0 \<in> set (drop p s)"
  shows "\<exists>s'. noctrln s p k = Some s' \<and> length s' = length s \<and>
    (\<forall>q. 0 \<in> set (drop q s) \<longrightarrow> 0 \<in> set (drop q s'))"
proof -
  have "\<exists>n. c_strnlen (drop p s) k = Some n \<and> p + n \<le> length s"
  proof (cases "0 \<in> set (take k (drop p s))")
    case True
    then show ?thesis using cstr_length_less [OF assms] by (simp add: c_strnlen_def)
  next
    case False
    have "k \<le> length (drop p s)"
    proof (rule ccontr)
      assume "\<not> k \<le> length (drop p s)"
      then have "take k (drop p s) = drop p s" by simp
      then show False using False assms by simp
    qed
    then show ?thesis using False nul_in_range [OF assms] by (simp add: c_strnlen_def)
  qed
  then obtain n where "c_strnlen (drop p s) k = Some n" "p + n \<le> length s" by blast
  then show ?thesis using noctrln_loop_ok by (simp add: noctrln_def)
qed

lemma c_strlen_Some: "0 \<in> set s \<Longrightarrow> c_strlen s = Some (length (cstr s))"
  by (simp add: c_strlen_def)

lemma set_dropD_nul: "0 \<in> set (drop q (s::bytes)) \<Longrightarrow> 0 \<in> set s"
  by (rule in_set_dropD)

lemma c_strcpy_ok:
  assumes "0 \<in> set src" "length (cstr src) < length dst"
  shows "\<exists>y. c_strcpy dst src = Some y \<and> length y = length dst \<and> 0 \<in> set y \<and> cstr y = cstr src"
  using assms by (simp add: c_strcpy_def c_strlen_Some)

lemma cstr_length_le: "i < length s \<Longrightarrow> s ! i = 0 \<Longrightarrow> length (cstr (s::bytes)) \<le> i"
proof (rule ccontr)
  assume i: "i < length s" "s ! i = 0" "\<not> length (cstr s) \<le> i"
  then have "cstr s ! i = 0" using takeWhile_nth [of i "\<lambda>c. c \<noteq> 0" s] by (simp add: cstr_def)
  then show False using i(3) cstr_no_nul [of s] nth_mem [of i "cstr s"] by simp
qed

lemma skip_ws_ok:
  assumes "0 \<in> set x"
  obtains z where "skip_ws x 0 = Some z" "0 \<in> set (drop z x)"
proof
  let ?b = "takeWhile (\<lambda>c. c = 32 \<or> c = 9) x"
  show "skip_ws x 0 = Some (length ?b)" using skip_ws_run [of 0 x] assms by simp
  have "0 \<notin> set ?b"
  proof
    assume "0 \<in> set ?b"
    then have "(0::byte) = 32 \<or> (0::byte) = 9" using set_takeWhileD by fast
    then show False by simp
  qed
  moreover have "?b @ drop (length ?b) x = x"
    unfolding dropWhile_eq_drop [symmetric] by (rule takeWhile_dropWhile_id)
  then have "0 \<in> set (?b @ drop (length ?b) x)" using assms by (simp only:)
  ultimately show "0 \<in> set (drop (length ?b) x)" unfolding set_append by blast
qed

lemma copy_string_ok:
  assumes "0 \<in> set x" "2 \<le> len" "len \<le> length y"
  shows "\<exists>y' x'. copy_string y x len = Some (y', x') \<and> length y' = length y \<and> 0 \<in> set y' \<and>
    length x' = length x \<and> 0 \<in> set x'"
proof -
  obtain z where sk: "skip_ws x 0 = Some z" and zn: "0 \<in> set (drop z x)" using assms(1) by (rule skip_ws_ok)
  obtain x1 where x1: "noctrln x z (len + z) = Some x1" "length x1 = length x" "0 \<in> set (drop z x1)"
    using noctrln_ok [OF zn, of "len + z"] zn by blast
  let ?n = "length (cstr (drop z x1))"
  have n: "c_strlen (drop z x1) = Some ?n" using x1(3) by (rule c_strlen_Some)
  have nl: "z + ?n < length x1" using cstr_length_less [OF x1(3)] nul_in_range [OF x1(3)] by simp
  have "\<exists>x2. (if 2 \<le> len \<and> len - 2 \<le> ?n then wr x1 (int (z + (len - 2))) 0 else Some x1) = Some x2 \<and>
      length x2 = length x \<and> 0 \<in> set (drop z x2) \<and> length (cstr (drop z x2)) < length y"
  proof (cases "len - 2 \<le> ?n")
    case True
    let ?k = "z + (len - 2)"
    have k: "?k < length x1" using True nl by simp
    have "drop z (x1[?k := 0]) = (drop z x1)[len - 2 := 0]" by (simp add: drop_update_swap)
    then have "length (cstr (drop z (x1[?k := 0]))) \<le> len - 2"
      using cstr_length_le [of "len - 2" "drop z (x1[?k := 0])"] k by simp
    moreover have "wr x1 (int ?k) 0 = Some (x1[?k := 0])" using k wr_nat [of x1 ?k 0] by (simp only: if_True)
    ultimately have "wr x1 (int ?k) 0 = Some (x1[?k := 0]) \<and> length (x1[?k := 0]) = length x \<and>
        0 \<in> set (drop z (x1[?k := 0])) \<and> length (cstr (drop z (x1[?k := 0]))) < length y"
      using assms(2,3) x1 drop_update_nul [OF x1(3), of ?k] by simp
    then show ?thesis using True assms(2) by (simp only: simp_thms if_True) blast
  next
    case False
    then show ?thesis using x1 assms(2,3) by simp
  qed
  then obtain x2 where x2: "(if 2 \<le> len \<and> len - 2 \<le> ?n then wr x1 (int (z + (len - 2))) 0 else Some x1) = Some x2"
    "length x2 = length x" "0 \<in> set (drop z x2)" "length (cstr (drop z x2)) < length y" by blast
  obtain y' where "c_strcpy y (drop z x2) = Some y'" "length y' = length y" "0 \<in> set y'"
    using c_strcpy_ok [OF x2(3,4)] by blast
  then show ?thesis using sk x1(1) n x2 set_dropD_nul [OF x2(3)]
    by (simp add: copy_string_def del: of_nat_add)
qed

text \<open>The next word of a line, in a buffer of \<open>n\<close> bytes.\<close>

lemma hd_cstr: "0 \<in> set w \<Longrightarrow> hd w \<noteq> 0 \<longleftrightarrow> cstr w \<noteq> []"
  by (cases w) (auto simp: cstr_def)

lemma get_word_ok:
  assumes "0 \<in> set (drop p s)" "length buf = n" "2 \<le> n" "mx = int n"
  shows "\<exists>p' w. get_word s p buf mx = Some (p', w) \<and> length w = n \<and> 0 \<in> set w \<and>
    length (cstr w) \<le> n - 2 \<and> 0 \<in> set (drop p' s) \<and> length s - p' \<le> length s - p \<and>
    (hd w \<noteq> 0 \<longrightarrow> length s - p' < length s - p)"
proof -
  let ?u = "word_rest (drop p s)"
  obtain p' w where w: "get_word s p buf (int n) = Some (p', w)" "p \<le> p'"
    "drop p' s = drop (length (word_of ?u)) ?u" "0 \<in> set (drop p' s)" "length w = n"
    "0 \<in> set (take n w)" "cstr w = take (n - 2) (word_of ?u)"
    using get_word_spec [of p s n buf] assms(1-3) by auto
  have z: "0 \<in> set w" using w(6) by (rule in_set_takeD)
  have "length ?u \<le> length s - p" unfolding word_rest_def using length_dropWhile_le [of _ "drop p s"] by simp
  moreover have "length (drop p' s) = length ?u - length (word_of ?u)" unfolding w(3) by simp
  moreover have "length (word_of ?u) \<le> length ?u" unfolding word_of_def by (rule length_takeWhile_le)
  moreover have "hd w \<noteq> 0 \<Longrightarrow> 0 < length (word_of ?u)" using hd_cstr [OF z] w(7) by auto
  ultimately have "length s - p' \<le> length s - p" "hd w \<noteq> 0 \<longrightarrow> length s - p' < length s - p"
    unfolding length_drop by linarith+
  then show ?thesis using w z assms(4) by simp
qed

lemma join_domain_ok:
  assumes "0 \<in> set word" "0 \<in> set domain" "0 < sz" "sz \<le> length name"
  shows "\<exists>y. join_domain name sz word domain = Some y \<and> length y = length name \<and> 0 \<in> set y"
proof -
  let ?f = "if length (cstr domain) = 0 then cstr word else cstr word @ 46 # cstr domain"
  let ?t = "take (sz - 1) ?f"
  have "length ?t \<le> sz - 1" by simp
  then have "length ?t < length name" using assms(3,4) by linarith
  moreover have "0 \<in> set (overlay name 0 (?t @ [0]))" by (simp add: overlay_def)
  ultimately show ?thesis using assms
    by (simp add: join_domain_def c_strlen_Some Let_def del: length_take)
qed

lemma get_hostname_ok:
  assumes "0 \<in> set (drop p line)" "0 \<in> set domain" "length name = 100"
  shows "\<exists>p' y. get_hostname line p domain name 100 = Some (p', y) \<and> length y = 100 \<and> 0 \<in> set y \<and>
    0 \<in> set (drop p' line) \<and> length line - p' \<le> length line - p \<and> (hd y \<noteq> 0 \<longrightarrow> length line - p' < length line - p)"
proof -
  let ?name = "name[0 := 0]"
  have n: "wr name 0 0 = Some ?name" "length ?name = 100" "hd ?name = 0" "0 \<in> set ?name"
    using assms(3) by (cases name; auto simp: wr_def)+
  obtain p' w where w: "get_word line p (replicate 100 0) 100 = Some (p', w)" "length w = 100" "0 \<in> set w"
    "length (cstr w) \<le> 98" "0 \<in> set (drop p' line)" "length line - p' \<le> length line - p"
    "hd w \<noteq> 0 \<longrightarrow> length line - p' < length line - p"
    using get_word_ok [OF assms(1), of "replicate 100 0" 100 100] by auto
  show ?thesis
  proof (cases "hd w = 0")
    case True
    then show ?thesis using n w by (simp add: get_hostname_def Let_def)
  next
    case False
    define k where "k = length (cstr w)"
    have k: "0 < k" "k \<le> 98" using False hd_cstr [OF w(3)] w(4) by (simp_all add: k_def)
    have ln: "c_strnlen w 100 = Some k" using w(2,3) by (simp add: c_strnlen_def k_def)
    have ik: "int k - 1 = int (k - 1)" using k by simp
    have rw: "rd w (int k - 1) = Some (w ! (k - 1))" "wr w (int k - 1) 0 = Some (w[k - 1 := 0])"
        unfolding ik rd_nat wr_nat using k w(2) by auto
    have u: "0 \<in> set (w[k - 1 := 0])" using w(3) by (rule set_update_ok)
    obtain a a' where a: "copy_string ?name w 98 = Some (a, a')" "length a = 100" "0 \<in> set a"
      using copy_string_ok [OF w(3), of 98 ?name] n(2) by auto
    obtain b b' where b: "copy_string ?name (w[k - 1 := 0]) 97 = Some (b, b')" "length b = 100" "0 \<in> set b"
      using copy_string_ok [OF u, of 97 ?name] n(2) by auto
    obtain c where c: "join_domain ?name 98 w domain = Some c" "length c = 100" "0 \<in> set c"
      using join_domain_ok [OF w(3) assms(2), of 98 ?name] n(2) by auto
    obtain d where d: "join_domain ?name 98 (w[k - 1 := 0]) domain = Some d" "length d = 100" "0 \<in> set d"
      using join_domain_ok [OF u assms(2), of 98 ?name] n(2) by auto
    have "\<exists>y. get_hostname line p domain name 100 = Some (p', y) \<and> length y = 100 \<and> 0 \<in> set y"
      using n(1) w(1) False ln rw a b c d by (simp add: get_hostname_def Let_def)
    then show ?thesis using w False by blast
  qed
qed

section \<open>The readers return\<close>

lemma host_names_extends:
  assumes "0 \<in> set (drop p line)" "0 \<in> set domain" "length word = 100" "0 \<in> set ipnum" "db_ok m"
  shows "extends m (host_names line p domain word ipnum m)"
  using assms
proof (induction "length line - p" arbitrary: p word m rule: less_induct)
  case less
  obtain p' y where y: "get_hostname line p domain word 100 = Some (p', y)" "length y = 100" "0 \<in> set y"
    "0 \<in> set (drop p' line)" "hd y \<noteq> 0 \<longrightarrow> length line - p' < length line - p"
    using get_hostname_ok [OF less.prems(1-3)] by blast
  show ?case
  proof (cases "hd y = 0")
    case True
    then show ?thesis using y(1) less.prems(5) by (simp add: host_names.simps [of line p] extends_refl)
  next
    case False
    have l: "length (cstr y) < 100" using cstr_length_less [OF y(3)] y(2) by simp
    have "extends m (add_nameip y 100 ipnum m \<bind> host_names line p' domain y ipnum)"
    proof (rule extends_bind)
      show "extends m (add_nameip y 100 ipnum m)"
        using add_nameip_extends [OF less.prems(5) y(3), of 100 ipnum] l less.prems(4) by simp
    next
      fix m1 :: "'a master_state_scheme" assume "db_ok m1"
      then show "extends m1 (host_names line p' domain y ipnum m1)"
        using less.hyps [of p' y m1] y False less.prems by blast
    qed
    then show ?thesis using y(1) False by (simp add: host_names.simps [of line p])
  qed
qed

lemma domain_servers_extends:
  assumes "0 \<in> set (drop p line)" "0 \<in> set domain" "length domain = 256" "length word = 100" "db_ok m"
  shows "extends m (domain_servers line p domain word m)"
  using assms
proof (induction "length line - p" arbitrary: p word m rule: less_induct)
  case less
  obtain p' y where y: "get_hostname line p domain word 100 = Some (p', y)" "length y = 100" "0 \<in> set y"
    "0 \<in> set (drop p' line)" "hd y \<noteq> 0 \<longrightarrow> length line - p' < length line - p"
    using get_hostname_ok [OF less.prems(1,2,4)] by blast
  have d: "length (cstr domain) < 256" using cstr_length_less [OF less.prems(2)] less.prems(3) by simp
  have l: "length (cstr y) < 100" using cstr_length_less [OF y(3)] y(2) by simp
  show ?case
  proof (cases "hd y = 0")
    case True
    then show ?thesis using y(1) less.prems(5) by (simp add: domain_servers.simps [of line p] extends_refl)
  next
    case False
    let ?x = "if cstr y = bstr ''+auth'' then add_authority domain 256 m else add_dns domain 256 y 100 m"
    have "extends m (?x \<bind> domain_servers line p' domain y)"
    proof (rule extends_bind)
      show "extends m ?x"
        using add_authority_extends [OF less.prems(5,2), of 256] add_dns_extends [OF less.prems(5,2) _ d y(3), of 256 100] d l
        by simp
    next
      fix m1 :: "'a master_state_scheme" assume "db_ok m1"
      then show "extends m1 (domain_servers line p' domain y m1)"
        using less.hyps [of p' y m1] y False less.prems by blast
    qed
    then show ?thesis using y(1) False by (simp add: domain_servers.simps [of line p])
  qed
qed

lemma file_lines_short:
  assumes "l \<in> set (file_lines n d)"
  shows "length l < n"
  using assms
proof (induction n d rule: file_lines.induct)
  case (1 n d)
  show ?case
  proof (cases "d = [] \<or> n < 2")
    case True
    then show ?thesis using "1.prems" by (simp add: file_lines.simps [of n d])
  next
    case False
    then have "l = fgets_piece n d \<or> l \<in> set (file_lines n (drop (length (fgets_piece n d)) d))"
      using "1.prems" by (subst (asm) file_lines.simps) auto
    moreover have "length (fgets_piece n d) < n" using False by (auto simp: fgets_piece_def Let_def)
    ultimately show ?thesis using "1.IH" [OF False] by blast
  qed
qed

lemma line_buf_nul: "length l < n \<Longrightarrow> 0 \<in> set (line_buf n l)"
  by (auto simp: line_buf_def)

lemma line_start_ok:
  assumes "length l < 300"
  obtains r where "line_start l = Some r" "\<And>line p. r = Some (line, p) \<Longrightarrow> 0 \<in> set (drop p line)"
proof -
  have b: "0 \<in> set (drop 0 (line_buf 300 l))" using line_buf_nul [OF assms] by simp
  obtain line where line: "noctrln (line_buf 300 l) 0 300 = Some line" "0 \<in> set (drop 0 line)"
    using noctrln_ok [OF b, of 300] b by blast
  obtain p where p: "skip_ws line 0 = Some p" "0 \<in> set (drop p line)"
    using line(2) skip_ws_ok [of line] by auto
  let ?r = "if line ! p = 0 \<or> line ! p = 35 then None else Some (line, p)"
  have "line_start l = Some ?r" using nul_in_range [OF p(2)] line(1) p(1) by (simp add: line_start_def)
  moreover have "0 \<in> set (drop p' line')" if "?r = Some (line', p')" for line' p'
    using that p(2) by (auto split: if_splits)
  ultimately show ?thesis by (rule that)
qed

lemma hosts_lines_extends:
  assumes "\<forall>l \<in> set ls. length l < 300" "0 \<in> set domain" "db_ok m"
  shows "extends m (hosts_lines ls domain m)"
  using assms
proof (induction ls arbitrary: m)
  case Nil
  then show ?case by (simp add: extends_refl)
next
  case (Cons l ls)
  obtain r where r: "line_start l = Some r" "\<And>line p. r = Some (line, p) \<Longrightarrow> 0 \<in> set (drop p line)"
    by (rule line_start_ok [of l]) (use Cons.prems(1) in auto)
  let ?x = "case r of None \<Rightarrow> Some m
       | Some (line, p) \<Rightarrow>
           if c_isdigit (line ! p) then do {
             (p1, ipnum) \<leftarrow> get_word line p (replicate 100 0) 100;
             host_names line p1 domain (replicate 100 0) ipnum m
           } else Some m"
  have "extends m ?x"
  proof (cases r)
    case None
    then show ?thesis using Cons.prems(3) by (simp add: extends_refl)
  next
    case (Some lp)
    obtain line p where lp: "lp = (line, p)" by (cases lp)
    obtain p1 ip where w: "get_word line p (replicate 100 0) 100 = Some (p1, ip)" "0 \<in> set ip" "0 \<in> set (drop p1 line)"
      using get_word_ok [OF r(2) [OF Some [unfolded lp]], of "replicate 100 0" 100 100] by auto
    show ?thesis using Some lp w(1) Cons.prems(3) host_names_extends [OF w(3) Cons.prems(2) _ w(2) Cons.prems(3), of "replicate 100 0"]
      by (simp add: extends_refl)
  qed
  then have "extends m (?x \<bind> hosts_lines ls domain)"
    by (rule extends_bind) (use Cons in auto)
  then show ?case using r(1) by simp
qed

lemma read_hosts_extends:
  assumes "0 \<in> set domain" "db_ok m"
  shows "\<exists>k m'. read_hosts filename domain m = Some (k, m') \<and> extends m (Some m')"
proof (cases "files m (cstr filename)")
  case None
  then show ?thesis using assms(2) by (simp add: read_hosts_def extends_refl)
next
  case (Some d)
  have "extends m (hosts_lines (file_lines 300 d) domain m)"
    using file_lines_short [of _ 300 d] by (intro hosts_lines_extends assms) blast
  then show ?thesis using Some extends_is_Some by (auto simp: read_hosts_def)
qed

text \<open>The lines of the configuration, with the domain that is kept between them.\<close>

definition reads :: "'a master_state_scheme \<Rightarrow> (bytes \<times> 'a master_state_scheme) option \<Rightarrow> bool" where
  "reads m x \<longleftrightarrow> (\<exists>d m'. x = Some (d, m') \<and> length d = 256 \<and> 0 \<in> set d \<and> extends m (Some m'))"

lemma readsI: "length d = 256 \<Longrightarrow> 0 \<in> set d \<Longrightarrow> extends m x \<Longrightarrow> reads m (x \<bind> (\<lambda>m1. Some (d, m1)))"
  unfolding reads_def using extends_is_Some by fastforce

lemma config_host_reads:
  assumes "0 \<in> set (drop p line)" "length domain = 256" "0 \<in> set domain" "db_ok m"
  shows "reads m (do {
       (p1, ipnum) \<leftarrow> get_word line p (replicate 100 0) 100;
       (p2, w) \<leftarrow> get_hostname line p1 domain (replicate 100 0) 100;
       m1 \<leftarrow> (if hd w = 0 then add_nameip domain 256 ipnum m
             else do {
               m1 \<leftarrow> add_nameip w 100 ipnum m;
               host_names line p2 domain w ipnum m1
             });
       Some (domain, m1)
     })"
proof -
  obtain p1 ip where w: "get_word line p (replicate 100 0) 100 = Some (p1, ip)" "0 \<in> set ip" "0 \<in> set (drop p1 line)"
    using get_word_ok [OF assms(1), of "replicate 100 0" 100 100] by auto
  obtain p2 y where y: "get_hostname line p1 domain (replicate 100 0) 100 = Some (p2, y)" "length y = 100" "0 \<in> set y"
    "0 \<in> set (drop p2 line)"
    using get_hostname_ok [OF w(3) assms(3), of "replicate 100 0"] by auto
  have d: "length (cstr domain) < 256" using cstr_length_less [OF assms(3)] assms(2) by simp
  have l: "length (cstr y) < 100" using cstr_length_less [OF y(3)] y(2) by simp
  have "extends m (add_nameip y 100 ip m \<bind> host_names line p2 domain y ip)"
    by (rule extends_bind)
      (use add_nameip_extends [OF assms(4) y(3) _ _ w(2), of 100] l host_names_extends [OF y(4) assms(3) y(2) w(2)] in auto)
  then have "extends m (if hd y = 0 then add_nameip domain 256 ip m else add_nameip y 100 ip m \<bind> host_names line p2 domain y ip)"
    using add_nameip_extends [OF assms(4,3) _ d w(2), of 256] d by simp
  from readsI [OF assms(2,3) this] show ?thesis using w(1) y(1) by simp
qed

lemma config_domain_reads:
  assumes "0 \<in> set (drop p line)" "length domain = 256" "0 \<in> set domain" "length w = 100" "db_ok m"
  shows "reads m (do {
         (p2, domain1) \<leftarrow> get_word line p domain 256;
         if hd domain1 = 0 then Some (domain1, m)
         else do {
           m1 \<leftarrow> domain_servers line p2 domain1 w m;
           Some (domain1, m1)
         }
       })"
proof -
  obtain p2 d where d: "get_word line p domain 256 = Some (p2, d)" "length d = 256" "0 \<in> set d" "0 \<in> set (drop p2 line)"
    using get_word_ok [OF assms(1,2), of 256] by auto
  have "extends m (if hd d = 0 then Some m else domain_servers line p2 d w m)"
    using domain_servers_extends [OF d(4,3,2) assms(4,5)] assms(5) by (simp add: extends_refl)
  from readsI [OF d(2,3) this] show ?thesis using d(1) by (cases "hd d = 0") simp_all
qed

lemma config_hosts_reads:
  assumes "0 \<in> set (drop p line)" "length domain = 256" "0 \<in> set domain" "length w = 100" "db_ok m"
  shows "reads m (do {
         (p2, fname) \<leftarrow> get_word line p (replicate 200 0) 200;
         if hd fname = 0 then Some (domain, m)
         else do {
           fname1 \<leftarrow> (if cstr fname = bstr ''-'' then c_strcpy fname (bstr ''/etc/hosts'' @ [0]) else Some fname);
           (p3, w1) \<leftarrow> get_word line p2 w 100;
           (w2, domain1) \<leftarrow> (if hd w1 = 0 then copy_string w1 domain 100 else Some (w1, domain));
           (r, m1) \<leftarrow> read_hosts fname1 w2 m;
           Some (domain1, m1)
         }
       })"
proof -
  obtain p2 f where f: "get_word line p (replicate 200 0) 200 = Some (p2, f)" "length f = 200" "0 \<in> set (drop p2 line)"
    using get_word_ok [OF assms(1), of "replicate 200 0" 200 200] by auto
  obtain p3 w1 where w1: "get_word line p2 w 100 = Some (p3, w1)" "length w1 = 100" "0 \<in> set w1"
    using get_word_ok [OF f(3) assms(4), of 100] by auto
  have "\<exists>f1. (if cstr f = bstr ''-'' then c_strcpy f (bstr ''/etc/hosts'' @ [0]) else Some f) = Some f1"
  proof -
    have "bstr ''/etc/hosts'' @ [0] = [47,101,116,99,47,104,111,115,116,115,0]" by (simp add: bstr_def)
    then show ?thesis using f(2) by (simp add: c_strcpy_def c_strlen_def cstr_def)
  qed
  then obtain f1 where f1: "(if cstr f = bstr ''-'' then c_strcpy f (bstr ''/etc/hosts'' @ [0]) else Some f) = Some f1" by blast
  have "\<exists>w2 d. (if hd w1 = 0 then copy_string w1 domain 100 else Some (w1, domain)) = Some (w2, d) \<and>
      0 \<in> set w2 \<and> length d = 256 \<and> 0 \<in> set d"
    using copy_string_ok [OF assms(3), of 100 w1] w1 assms(2,3) by auto
  then obtain w2 d where w2: "(if hd w1 = 0 then copy_string w1 domain 100 else Some (w1, domain)) = Some (w2, d)"
    "0 \<in> set w2" "length d = 256" "0 \<in> set d" by blast
  obtain k m' where r: "read_hosts f1 w2 m = Some (k, m')" "extends m (Some m')"
    using read_hosts_extends [OF w2(2) assms(5)] by blast
  show ?thesis
  proof (cases "hd f = 0")
    case True
    then show ?thesis using f(1) readsI [OF assms(2,3) extends_refl [OF assms(5)]] by simp
  next
    case False
    then show ?thesis using f(1) f1 w1(1) w2(1) r readsI [OF w2(3,4) r(2)] by simp
  qed
qed

lemma config_line_reads:
  assumes "0 \<in> set (drop p line)" "length domain = 256" "0 \<in> set domain" "db_ok m"
  shows "reads m (config_line line p (domain, m))"
proof -
  obtain p1 w where w: "get_word line p (replicate 100 0) 100 = Some (p1, w)" "length w = 100" "0 \<in> set (drop p1 line)"
    using get_word_ok [OF assms(1), of "replicate 100 0" 100 100] by auto
  have n: "reads m (Some (domain, m))" using readsI [OF assms(2,3) extends_refl [OF assms(4)]] by simp
  show ?thesis
    using config_host_reads [OF assms] config_domain_reads [OF w(3) assms(2,3) w(2) assms(4)]
      config_hosts_reads [OF w(3) assms(2,3) w(2) assms(4)] n w(1)
    by (simp add: config_line_def)
qed

lemma config_lines_reads:
  assumes "\<forall>l \<in> set ls. length l < 300" "length domain = 256" "0 \<in> set domain" "db_ok m"
  shows "reads m (config_lines ls (domain, m))"
  using assms
proof (induction ls arbitrary: domain m)
  case Nil
  then show ?case using readsI [OF Nil.prems(2,3) extends_refl [OF Nil.prems(4)]] by simp
next
  case (Cons l ls)
  obtain r where r: "line_start l = Some r" "\<And>line p. r = Some (line, p) \<Longrightarrow> 0 \<in> set (drop p line)"
    by (rule line_start_ok [of l]) (use Cons.prems(1) in auto)
  have "reads m (case r of None \<Rightarrow> Some (domain, m) | Some (line, p) \<Rightarrow> config_line line p (domain, m))"
    using readsI [OF Cons.prems(2,3) extends_refl [OF Cons.prems(4)]] config_line_reads [OF r(2) Cons.prems(2,3,4)]
    by (auto split: option.split)
  then obtain d m1 where d: "(case r of None \<Rightarrow> Some (domain, m) | Some (line, p) \<Rightarrow> config_line line p (domain, m)) = Some (d, m1)"
    "length d = 256" "0 \<in> set d" "extends m (Some m1)" unfolding reads_def by blast
  have "db_ok m1" using extends_ok [OF d(4)] by simp
  then have "reads m1 (config_lines ls (d, m1))" using Cons.IH [OF _ d(2,3)] Cons.prems(1) by simp
  then show ?case using r(1) d extends_trans [OF d(4)] unfolding reads_def by auto
qed

lemma read_configuration_extends:
  assumes "length (domain_garbage m) = 256" "0 \<in> set (domain_garbage m)" "db_ok m" "0 \<in> set filename"
  shows "\<exists>k m'. read_configuration filename m = Some (k, m') \<and> extends m (Some m')"
proof (cases "files m (cstr filename)")
  case None
  then show ?thesis using assms(3,4) by (auto simp: read_configuration_def c_strlen_def intro: extends_refl)
next
  case (Some d)
  have "reads m (config_lines (file_lines 300 d) (domain_garbage m, m))"
    using file_lines_short [of _ 300 d] by (intro config_lines_reads assms) blast
  then show ?thesis using Some assms(4) by (auto simp: read_configuration_def c_strlen_def reads_def)
qed

section \<open>The blacklist\<close>

lemma cut_at_nul: "0 \<in> set buf \<Longrightarrow> 0 \<in> set (cut_at c buf) \<and> length (cut_at c buf) = length buf"
  by (simp add: cut_at_def set_update_ok)

lemma blacklist_lines_extends:
  assumes "\<forall>l \<in> set ls. length l < 256" "db_ok m"
  shows "extends m (blacklist_lines ls m)"
  using assms
proof (induction ls arbitrary: m)
  case Nil
  then show ?case by (simp add: extends_refl)
next
  case (Cons l ls)
  let ?b = "cut_at 10 (cut_at 13 (cut_at 35 (line_buf 256 l)))"
  have l: "length l < 256" using Cons.prems(1) by simp
  have b: "0 \<in> set ?b" "length ?b = 256"
    using cut_at_nul [of "cut_at 13 (cut_at 35 (line_buf 256 l))" 10] cut_at_nul [of "cut_at 35 (line_buf 256 l)" 13]
      cut_at_nul [OF line_buf_nul [OF l], of 35] l by (simp_all add: line_buf_def)
  have c: "length (cstr ?b) < 256" using cstr_length_less [OF b(1)] b(2) by simp
  have "extends m (if hd ?b \<noteq> 0 then add_authority ?b 256 m else Some m)"
    using add_authority_extends [OF Cons.prems(2) b(1) _ c, of 256] c Cons.prems(2) by (simp add: extends_refl)
  then have "extends m ((if hd ?b \<noteq> 0 then add_authority ?b 256 m else Some m) \<bind> blacklist_lines ls)"
    by (rule extends_bind) (use Cons in auto)
  then show ?case by (simp add: Let_def)
qed

lemma read_blacklist_extends:
  assumes "db_ok m" "0 \<in> set filename"
  shows "\<exists>k m'. read_blacklist filename m = Some (k, m') \<and> extends m (Some m')"
proof (cases "files m (cstr filename)")
  case None
  then show ?thesis using assms by (auto simp: read_blacklist_def c_strlen_def intro: extends_refl)
next
  case (Some d)
  have "extends m (blacklist_lines (file_lines 256 d) m)"
    using file_lines_short [of _ 256 d] by (intro blacklist_lines_extends assms) blast
  then show ?thesis using Some assms(2) extends_is_Some by (auto simp: read_blacklist_def c_strlen_def)
qed

section \<open>The authorities for the addresses\<close>

text \<open>The reverse domain of the network of an address: \<open>c.b.a.in-addr.arpa\<close> for \<open>a.b.c.d\<close>.\<close>

definition net_domain :: "u32 \<Rightarrow> bytes" where
  "net_domain ip = drop 1 (dropWhile (\<lambda>c. c \<noteq> 46) (inet_ntoa (bswap32 ip))) @ ARPADOMAIN"

definition auto_covered :: "dnsrec list \<Rightarrow> dnsrec \<Rightarrow> bool" where
  "auto_covered db r = (case rec_data r of Nameip t ip \<Rightarrow> (\<exists>a \<in> set db. authority_for (net_domain ip) a) | _ \<Rightarrow> True)"

lemma dec_digits_length: "n < 256 \<Longrightarrow> length (dec_digits n) \<le> 3"
proof -
  assume n: "n < 256"
  have 1: "length (dec_digits k) = 1" if "k < 10" for k using that by (simp add: dec_digits.simps [of k])
  have 2: "length (dec_digits k) \<le> 2" if "k < 100" for k
    using that 1 [of "k div 10"] 1 [of k] by (subst dec_digits.simps) auto
  show ?thesis using n 2 [of "n div 10"] by (subst dec_digits.simps) auto
qed

lemma inet_ntoa_length: "length (inet_ntoa a) \<le> 15"
proof -
  have "length (dec_digits (unat (take_bit 8 (drop_bit k a)))) \<le> 3" for k
  proof (rule dec_digits_length)
    have "unat (take_bit 8 (drop_bit k a)) = take_bit 8 (unat (drop_bit k a))" by (rule unsigned_take_bit_eq)
    then show "unat (take_bit 8 (drop_bit k a)) < 256" using take_bit_nat_less_exp [of 8 "unat (drop_bit k a)"] by simp
  qed
  from this [of 24] this [of 16] this [of 8] this [of 0] show ?thesis by (simp add: inet_ntoa_def Let_def)
qed

lemma ARPADOMAIN_plain: "length ARPADOMAIN = 13" "map c_tolower ARPADOMAIN = ARPADOMAIN" "0 \<notin> set ARPADOMAIN" "hd ARPADOMAIN = 46"
  by (simp_all add: ARPADOMAIN_def bstr_def c_tolower_def c_isupper_def)

lemma inet_ntoa_dot: "46 \<in> set (inet_ntoa a)"
  by (simp add: inet_ntoa_def Let_def)

lemma auto_domain_eq:
  assumes "arpa = inet_ntoa (bswap32 ip)"
  defines "name \<equiv> take 197 (arpa @ ARPADOMAIN)"
  shows "46 \<in> set name" "drop (Suc (length (takeWhile (\<lambda>c. c \<noteq> 46) name))) name = net_domain ip"
proof -
  have n: "name = arpa @ ARPADOMAIN"
    using inet_ntoa_length [of "bswap32 ip"] ARPADOMAIN_plain(1) assms(1) unfolding name_def by simp
  have d: "46 \<in> set arpa" using inet_ntoa_dot assms(1) by simp
  then show "46 \<in> set name" unfolding n by simp
  have t: "takeWhile (\<lambda>c. c \<noteq> 46) (arpa @ ARPADOMAIN) = takeWhile (\<lambda>c. c \<noteq> 46) arpa"
    using d by (auto intro: takeWhile_append1)
  have "length (takeWhile (\<lambda>c. c \<noteq> 46) arpa) < length arpa"
  proof -
    have "dropWhile (\<lambda>c. c \<noteq> 46) arpa \<noteq> []" using d by (simp add: dropWhile_eq_Nil_conv)
    then show ?thesis unfolding dropWhile_eq_drop by simp
  qed
  then show "drop (Suc (length (takeWhile (\<lambda>c. c \<noteq> 46) name))) name = net_domain ip"
    unfolding n t net_domain_def assms(1) [symmetric] by (simp add: dropWhile_eq_drop)
qed

lemma net_domain_plain: "0 \<notin> set (net_domain ip)" "map c_tolower (net_domain ip) = net_domain ip" "length (net_domain ip) \<le> 28"
proof -
  let ?d = "dropWhile (\<lambda>c. c \<noteq> 46) (inet_ntoa (bswap32 ip))"
  have s: "c \<in> set (inet_ntoa (bswap32 ip))" if "c \<in> set (drop 1 ?d)" for c
    using that by (meson in_set_dropD set_dropWhileD)
  show "0 \<notin> set (net_domain ip)"
    using s [of 0] inet_ntoa_no_nul ARPADOMAIN_plain(3) by (auto simp: net_domain_def)
  have "map c_tolower (drop 1 ?d) = drop 1 ?d"
    by (rule map_idI) (use s inet_ntoa_plain in blast)
  then show "map c_tolower (net_domain ip) = net_domain ip"
    unfolding net_domain_def map_append ARPADOMAIN_plain(2) by (simp only:)
  have "length (drop 1 ?d) \<le> 15"
    using inet_ntoa_length [of "bswap32 ip"] length_dropWhile_le [of "\<lambda>c. c \<noteq> 46" "inet_ntoa (bswap32 ip)"] by simp
  then show "length (net_domain ip) \<le> 28" by (simp add: net_domain_def ARPADOMAIN_plain(1))
qed

lemma auto_step_ok:
  assumes "record_ok r" "db_ok m"
  obtains rs k m' where "auto_step r m = Some m'" "m' = m\<lparr>dbv := dbv m @ rs, dbmax := k\<rparr>" "db_ok m'"
    "auto_covered (dbv m') r" "rs = [] \<or> (\<exists>t ip. rec_data r = Nameip t ip) \<and> (\<exists>d. rs = [authority_record d])"
proof (cases "rec_data r")
  case (Nameip t ip)
  have t: "st_string t = inet_ntoa (bswap32 ip)" using assms(1) Nameip by (simp add: record_ok_def)
  let ?k = "length (takeWhile (\<lambda>c. c \<noteq> 46) (take 197 (st_string t @ ARPADOMAIN)))"
  have step: "auto_step r m = (if authority_lookup (net_domain ip) m = None
      then add_authority (net_domain ip @ [0]) (200 + int (Suc ?k)) m else Some m)"
    using auto_domain_eq [OF t] Nameip by (simp add: auto_step_def Let_def)
  show ?thesis
  proof (cases "authority_lookup (net_domain ip) m = None")
    case True
    let ?r = "authority_record (net_domain ip)"
    have c: "cstr (net_domain ip @ [0]) = net_domain ip" using net_domain_plain(1) by simp
    have a: "auto_step r m = Some (add_record ?r m)"
      using step True add_authority_eq [of "net_domain ip @ [0]" "200 + int (Suc ?k)" m] c net_domain_plain(2,3) [of ip] by simp
    have "record_ok ?r" using net_domain_plain(1,3) [of ip] by (simp add: record_ok_def authority_record_def string_ok_def)
    then have ok: "db_ok (add_record ?r m)" using extends_ok [OF add_record_extends [OF assms(2)]] by simp
    have "authority_for (net_domain ip) ?r" by (simp add: authority_for_def authority_record_def)
    then have "auto_covered (dbv (add_record ?r m)) r" using Nameip by (simp add: auto_covered_def add_record_def)
    moreover have "add_record ?r m = m\<lparr>dbv := dbv m @ [?r],
        dbmax := (if dbmax m \<le> int (length (dbv m)) then dbmax m + 10 else dbmax m)\<rparr>"
      by (simp add: add_record_def)
    ultimately show ?thesis using that [OF a _ ok] Nameip by blast
  next
    case False
    then obtain x where "authority_lookup (net_domain ip) m = Some x" by blast
    then have "auto_covered (dbv m) r"
      using find_Some_in [of "authority_for (net_domain ip)" "rev (dbv m)" x] Nameip
      by (auto simp: authority_lookup_plain [OF assms(2)] auto_covered_def)
    then show ?thesis using that [of m "dbmax m" "[]"] step False assms(2) by simp
  qed
next
  case (Dns_server t)
  then show ?thesis using that [of m "dbmax m" "[]"] assms(2) by (simp add: auto_step_def auto_covered_def)
next
  case Authority
  then show ?thesis using that [of m "dbmax m" "[]"] assms(2) by (simp add: auto_step_def auto_covered_def)
qed

text \<open>The loop ends: an address adds one record at most, and that record is none.\<close>

definition auto_weight :: "dnsrec \<Rightarrow> nat" where
  "auto_weight r = (case rec_data r of Nameip t ip \<Rightarrow> 2 | _ \<Rightarrow> 1)"

lemma auto_loop_ok:
  assumes "db_ok m" "\<forall>r \<in> set (take i (dbv m)). auto_covered (dbv m) r"
  shows "\<exists>m'. auto_loop i m = Some m' \<and> extends m (Some m') \<and> (\<forall>r \<in> set (dbv m'). auto_covered (dbv m') r)"
  using assms
proof (induction "sum_list (map auto_weight (drop i (dbv m)))" arbitrary: i m rule: less_induct)
  case less
  show ?case
  proof (cases "i < length (dbv m)")
    case True
    let ?r = "dbv m ! i"
    have "record_ok ?r" using True by (intro db_okD [OF less.prems(1)]) simp
    then obtain rs k m1 where s: "auto_step ?r m = Some m1" "m1 = m\<lparr>dbv := dbv m @ rs, dbmax := k\<rparr>" "db_ok m1"
      "auto_covered (dbv m1) ?r" "rs = [] \<or> (\<exists>t ip. rec_data ?r = Nameip t ip) \<and> (\<exists>d. rs = [authority_record d])"
      by (rule auto_step_ok [OF _ less.prems(1)])
    have e: "extends m (Some m1)" unfolding extends_def s(2) using s(2,3) by blast
    have db: "dbv m1 = dbv m @ rs" by (simp add: s(2))
    have dr: "drop i (dbv m) = ?r # drop (Suc i) (dbv m)" using True by (simp add: Cons_nth_drop_Suc)
    have "sum_list (map auto_weight rs) < auto_weight ?r"
      using s(5) by (auto simp: auto_weight_def authority_record_def split: rec_data.split)
    then have w: "sum_list (map auto_weight (drop (i + 1) (dbv m1))) < sum_list (map auto_weight (drop i (dbv m)))"
      using True by (simp add: db dr)
    have mono: "auto_covered (dbv m1) r" if "auto_covered (dbv m) r" for r
      using that by (auto simp: auto_covered_def db split: rec_data.splits)
    have "take (i + 1) (dbv m1) = take i (dbv m) @ [?r]" using True by (simp add: db take_Suc_conv_app_nth)
    then have "\<forall>r \<in> set (take (i + 1) (dbv m1)). auto_covered (dbv m1) r" using less.prems(2) mono s(4) by simp
    from less.hyps [OF w s(3) this] show ?thesis
      using s(1) True extends_trans [OF e] by (auto simp: auto_loop.simps [of i m])
  next
    case False
    then show ?thesis using less.prems by (simp add: auto_loop.simps [of i m] extends_refl)
  qed
qed

section \<open>Initialisation\<close>

text \<open>
  What the code takes for granted of three buffers: \<open>domain\<close> of \<open>read_configuration\<close>, which is not initialised and is
  read before it is written when a line of the file has no domain before it, has 256 bytes and happens to hold a NUL,
  and the arrays with the names of the two files hold one too.
\<close>

definition buffers_ok :: "'a master_state_scheme \<Rightarrow> bool" where
  "buffers_ok m \<longleftrightarrow> length (domain_garbage m) = 256 \<and> 0 \<in> set (domain_garbage m) \<and>
     0 \<in> set (blacklist m) \<and> 0 \<in> set (master_config m)"

lemma buffers_ok_extends: "extends m (Some m') \<Longrightarrow> buffers_ok m' = buffers_ok m"
  unfolding extends_def buffers_ok_def by auto

lemma master_init_ok:
  assumes "db_ok m" "buffers_ok m" "master_onoff m \<noteq> 0"
  shows "\<exists>m1. extends m (Some m1) \<and> master_init m = Some (m1\<lparr>master_initialised := 1\<rparr>) \<and>
    (auto_authority m \<noteq> 0 \<longrightarrow> (\<forall>r \<in> set (dbv m1). auto_covered (dbv m1) r))"
proof -
  have n: "bstr ''localhost'' @ [0] = [108,111,99,97,108,104,111,115,116,0]"
    "bstr ''0.0.127.in-addr.arpa'' @ [0] = [48,46,48,46,49,50,55,46,105,110,45,97,100,100,114,46,97,114,112,97,0]"
    "bstr ''127.0.0.1'' @ [0] = [49,50,55,46,48,46,48,46,49,0]"
    by (simp_all add: bstr_def)
  have "extends m (add_nameip (bstr ''localhost'' @ [0]) 10 (bstr ''127.0.0.1'' @ [0]) m)"
    unfolding n by (rule add_nameip_extends [OF assms(1)]) (simp_all add: cstr_def)
  then obtain m1 where m1: "add_nameip (bstr ''localhost'' @ [0]) 10 (bstr ''127.0.0.1'' @ [0]) m = Some m1"
    "extends m (Some m1)" using extends_is_Some by blast
  have "extends m1 (add_dns (bstr ''0.0.127.in-addr.arpa'' @ [0]) 21 (bstr ''localhost'' @ [0]) 10 m1)"
    unfolding n using extends_ok [OF m1(2)] by (intro add_dns_extends) (simp_all add: cstr_def)
  then obtain m2 where m2: "add_dns (bstr ''0.0.127.in-addr.arpa'' @ [0]) 21 (bstr ''localhost'' @ [0]) 10 m1 = Some m2"
    "extends m (Some m2)" using extends_is_Some extends_trans [OF m1(2)] by metis
  have db2: "db_ok m2" using extends_ok [OF m2(2)] by simp
  have b2: "0 \<in> set (blacklist m2)" using buffers_ok_extends [OF m2(2)] assms(2) by (simp add: buffers_ok_def)
  obtain k m3 where m3: "read_blacklist (blacklist m2) m2 = Some (k, m3)" "extends m (Some m3)"
    using read_blacklist_extends [OF db2 b2] extends_trans [OF m2(2)] by blast
  have g: "length (domain_garbage m3) = 256" "0 \<in> set (domain_garbage m3)" "db_ok m3" "0 \<in> set (master_config m3)"
    using extends_ok [OF m3(2)] buffers_ok_extends [OF m3(2)] assms(2) by (simp_all add: buffers_ok_def)
  obtain k' m4 where m4: "read_configuration (master_config m3) m3 = Some (k', m4)" "extends m (Some m4)"
    using read_configuration_extends [OF g] extends_trans [OF m3(2)] by blast
  have db4: "db_ok m4" using extends_ok [OF m4(2)] by simp
  have au: "auto_authority m4 = auto_authority m" using m4(2) unfolding extends_def by auto
  obtain m5 where m5: "(if auto_authority m4 \<noteq> 0 then auto_loop 0 m4 else Some m4) = Some m5" "extends m4 (Some m5)"
    "auto_authority m \<noteq> 0 \<longrightarrow> (\<forall>r \<in> set (dbv m5). auto_covered (dbv m5) r)"
    using auto_loop_ok [OF db4, of 0] extends_refl [OF db4] au by (cases "auto_authority m4 = 0") auto
  show ?thesis
    by (rule exI [of _ m5])
      (use extends_trans [OF m4(2) m5(2)] m5 m1(1) m2(1) m3(1) m4(1) assms(3) in \<open>simp add: master_init_def\<close>)
qed

lemma master_init_extends:
  assumes "db_ok m" "buffers_ok m" "master_onoff m \<noteq> 0"
  shows "\<exists>rs k. let m1 = m\<lparr>dbv := dbv m @ rs, dbmax := k, master_initialised := 1\<rparr>
    in master_init m = Some m1 \<and> db_ok m1 \<and> (auto_authority m \<noteq> 0 \<longrightarrow> (\<forall>r \<in> set (dbv m1). auto_covered (dbv m1) r))"
proof -
  obtain m0 where i: "extends m (Some m0)" "master_init m = Some (m0\<lparr>master_initialised := 1\<rparr>)"
    "auto_authority m \<noteq> 0 \<longrightarrow> (\<forall>r \<in> set (dbv m0). auto_covered (dbv m0) r)"
    using master_init_ok [OF assms] by blast
  obtain rs k where m0: "m0 = m\<lparr>dbv := dbv m @ rs, dbmax := k\<rparr>" "db_ok m0"
    using i(1) by (auto elim: extendsE)
  show ?thesis
    by (rule exI [of _ rs], rule exI [of _ k]) (use i m0 in \<open>simp add: Let_def db_ok_def\<close>)
qed

lemma master_reinit_ok:
  assumes "db_ok m" "buffers_ok m"
  shows "\<exists>m1. master_reinit m = Some m1 \<and> db_ok m1 \<and> buffers_ok m1 \<and> master_reload m1 = 0"
proof (cases "master_onoff m \<noteq> 0 \<and> master_reload m \<noteq> 0")
  case True
  have "db_ok (reset_master m)" "buffers_ok (reset_master m)" "master_onoff (reset_master m) \<noteq> 0"
    using assms(2) True by (simp_all add: reset_master_def db_ok_def buffers_ok_def)
  from master_init_extends [OF this] obtain rs k where
    "master_init (reset_master m) = Some (reset_master m\<lparr>dbv := rs, dbmax := k, master_initialised := 1\<rparr>)"
    "db_ok (reset_master m\<lparr>dbv := rs, dbmax := k, master_initialised := 1\<rparr>)"
    by (auto simp: Let_def reset_master_def)
  then show ?thesis using True assms(2)
    by (simp add: master_reinit_def db_ok_def buffers_ok_def reset_master_def)
next
  case False
  then show ?thesis using assms by (auto simp: master_reinit_def db_ok_def buffers_ok_def)
qed

end
