(* ===== verification/Answer.thy ===== *)
theory Answer
  imports Database
begin

text \<open>
  The answers of the local master, over the model of src/master.c in \<open>Master\<close>. The static buffer of
  an assembly that did not run over its end holds the bytes written so far and then zeros, so that
  each \<open>compile\<close> function appends: the lemmas say which bytes, and that it is undefined exactly when
  they do not fit into the 600 bytes. From them follow the exact packets that \<open>master_lookup\<close> and
  \<open>master_dontknow\<close> deliver.
\<close>

section \<open>The buffer of an assembly\<close>

definition holding :: "bytes \<Rightarrow> dnsheader_t \<Rightarrow> dnsheader_t" where
  "holding b x = x\<lparr>h_packet := b @ replicate (PACKET_ASSEMBLYSIZE - length b) 0, h_here := length b\<rparr>"

text \<open>Appending \<open>c\<close> when it fits.\<close>

definition append_ok :: "bytes \<Rightarrow> bytes \<Rightarrow> dnsheader_t \<Rightarrow> dnsheader_t option" where
  "append_ok b c x = (if length b + length c \<le> PACKET_ASSEMBLYSIZE then Some (holding (b @ c) x) else None)"

named_theorems asm_simps \<open>what the steps of an assembly append\<close>

lemma holding_sel [simp]:
  "h_u (holding b x) = h_u x" "h_qdcount (holding b x) = h_qdcount x" "h_ancount (holding b x) = h_ancount x"
  "h_nscount (holding b x) = h_nscount x" "h_arcount (holding b x) = h_arcount x" "h_rdata (holding b x) = h_rdata x"
  "h_here (holding b x) = length b" "h_packet (holding b x) = b @ replicate (PACKET_ASSEMBLYSIZE - length b) 0"
  by (simp_all add: holding_def)

lemma holding_upd:
  "(holding b x)\<lparr>h_u := u\<rparr> = holding b (x\<lparr>h_u := u\<rparr>)" "(holding b x)\<lparr>h_ancount := n\<rparr> = holding b (x\<lparr>h_ancount := n\<rparr>)"
  "(holding b x)\<lparr>h_nscount := n\<rparr> = holding b (x\<lparr>h_nscount := n\<rparr>)" "(holding b x)\<lparr>h_rdata := r\<rparr> = holding b (x\<lparr>h_rdata := r\<rparr>)"
  by (simp_all add: holding_def)

lemma holding_packet: "(holding b x)\<lparr>h_packet := p, h_here := n\<rparr> = x\<lparr>h_packet := p, h_here := n\<rparr>"
  by (simp add: holding_def)

lemma append_ok_Nil: "length b \<le> PACKET_ASSEMBLYSIZE \<Longrightarrow> append_ok b [] x = Some (holding b x)"
  by (simp add: append_ok_def)

lemma bind_case: "(x \<bind> f) = (case x of None \<Rightarrow> None | Some a \<Rightarrow> f a)"
  by (cases x) simp_all

lemma emits_holding [asm_simps]:
  assumes "length b \<le> PACKET_ASSEMBLYSIZE"
  shows "emits c (holding b x) = append_ok b c x"
proof (cases "length b + length c \<le> PACKET_ASSEMBLYSIZE")
  case True
  have "c_memcpy (b @ replicate (PACKET_ASSEMBLYSIZE - length b) 0) (length b) c 0 (length c) =
      Some (b @ c @ replicate (PACKET_ASSEMBLYSIZE - length (b @ c)) 0)"
    using True by (simp add: c_memcpy_def)
  then show ?thesis using True by (simp add: emits_def append_ok_def holding_def)
next
  case False
  then show ?thesis using assms by (simp add: emits_def append_ok_def c_memcpy_def)
qed

lemma emit_holding [asm_simps]:
  assumes "length b \<le> PACKET_ASSEMBLYSIZE"
  shows "emit c (holding b x) = append_ok b [c] x"
proof (cases "length b < PACKET_ASSEMBLYSIZE")
  case True
  obtain k where k: "PACKET_ASSEMBLYSIZE - length b = Suc k" using True by (metis Suc_diff_Suc)
  then have "PACKET_ASSEMBLYSIZE - length (b @ [c]) = k" by simp
  then show ?thesis using True k by (simp add: emit_def append_ok_def holding_def)
next
  case False
  then have "length b = PACKET_ASSEMBLYSIZE" using assms by simp
  then show ?thesis by (simp add: emit_def append_ok_def holding_def)
qed

text \<open>The appended bytes of a sequence of steps add up.\<close>

lemma append_then:
  assumes "length (b @ c) \<le> PACKET_ASSEMBLYSIZE \<Longrightarrow> f (holding (b @ c) x) = append_ok (b @ c) d x'"
  shows "append_ok b c x \<bind> f = append_ok b (c @ d) x'"
proof (cases "length b + length c \<le> PACKET_ASSEMBLYSIZE")
  case True
  then show ?thesis using assms by (simp add: append_ok_def)
next
  case False
  then show ?thesis by (simp add: append_ok_def)
qed

section \<open>Names\<close>

text \<open>What \<open>compile_name\<close> writes for a name, without the NUL; it stops at an empty label.\<close>

function label_bytes :: "bytes \<Rightarrow> bytes" where
  "label_bytes name =
     (let l = takeWhile (\<lambda>c. c \<noteq> 46) name
      in if l = [] then [] else (of_nat (length l) AND 0x3F) # l @ label_bytes (drop (Suc (length l)) name))"
  by pat_completeness auto
termination
  by (relation "measure length") (auto simp: Let_def takeWhile_eq_Nil_iff)

declare label_bytes.simps [simp del]

definition name_bytes :: "bytes \<Rightarrow> bytes" where
  "name_bytes name = label_bytes name @ [0]"

lemma compile_labels_holding:
  assumes "length b \<le> PACKET_ASSEMBLYSIZE"
  shows "compile_labels name (holding b x) = append_ok b (label_bytes name) x"
  using assms
proof (induction name arbitrary: b rule: label_bytes.induct)
  case (1 name)
  define l where "l = takeWhile (\<lambda>c. c \<noteq> 46) name"
  show ?case
  proof (cases "l = []")
    case True
    then show ?thesis using "1.prems" l_def
      by (simp add: compile_labels.simps [of name] label_bytes.simps [of name] append_ok_Nil)
  next
    case False
    let ?n = "of_nat (length l) AND 0x3F :: byte" and ?r = "drop (Suc (length l)) name"
    have ih: "compile_labels ?r (holding b' x) = append_ok b' (label_bytes ?r) x" if "length b' \<le> PACKET_ASSEMBLYSIZE" for b'
      using "1.IH" [OF l_def False that] .
    have "compile_labels name (holding b x) = append_ok b [?n] x \<bind> (\<lambda>x1. emits l x1 \<bind> compile_labels ?r)"
      using False l_def "1.prems" by (simp add: compile_labels.simps [of name] emit_holding Let_def bind_case)
    also have "\<dots> = append_ok b ([?n] @ l @ label_bytes ?r) x"
    proof (rule append_then)
      assume c: "length (b @ [?n]) \<le> PACKET_ASSEMBLYSIZE"
      have "append_ok (b @ [?n]) l x \<bind> compile_labels ?r = append_ok (b @ [?n]) (l @ label_bytes ?r) x"
        by (rule append_then) (rule ih)
      then show "emits l (holding (b @ [?n]) x) \<bind> compile_labels ?r = append_ok (b @ [?n]) (l @ label_bytes ?r) x"
        by (simp only: emits_holding [OF c])
    qed
    finally show ?thesis using False l_def by (simp add: label_bytes.simps [of name] Let_def)
  qed
qed

lemma compile_name_holding:
  assumes "length b \<le> PACKET_ASSEMBLYSIZE"
  shows "compile_name name (holding b x) = map_option (Pair (length b)) (append_ok b (name_bytes name) x)"
proof -
  have "append_ok b (label_bytes name) x \<bind> emit 0 = append_ok b (label_bytes name @ [0]) x"
    by (rule append_then) (simp add: emit_holding)
  moreover have "compile_name name (holding b x) =
      map_option (Pair (length b)) (append_ok b (label_bytes name) x \<bind> emit 0)"
    using assms by (cases "append_ok b (label_bytes name) x")
      (auto simp: compile_name_def compile_labels_holding bind_case split: option.split)
  ultimately show ?thesis by (simp add: name_bytes_def)
qed

text \<open>On the text of well-formed labels these are the labels in the form of the wire.\<close>

lemma label_bytes_text: "wf_labels ls \<Longrightarrow> label_bytes (name_text ls) @ [0] = wire_name ls"
proof (induction ls)
  case Nil
  then show ?case by (simp add: name_text_def label_bytes.simps)
next
  case (Cons l ls)
  have l: "l \<noteq> []" "length l < 64" "46 \<notin> set l" "wf_labels ls" using Cons.prems by simp_all
  have n: "(of_nat (length l) AND 0x3F :: byte) = of_nat (length l)"
  proof -
    have m: "(0x3F :: byte) = mask 6" by (simp add: mask_eq_exp_minus_1)
    have "length l < 2 ^ 6" using l(2) by simp
    then show ?thesis unfolding m by (simp add: take_bit_of_nat take_bit_nat_eq_self flip: take_bit_eq_mask)
  qed
  have "takeWhile (\<lambda>c. c \<noteq> 46) (name_text (l # ls)) = l \<and> drop (Suc (length l)) (name_text (l # ls)) = name_text ls"
  proof (cases ls)
    case Nil
    have "takeWhile (\<lambda>c. c \<noteq> 46) l = l" using l(3) by (simp add: takeWhile_eq_all_conv) metis
    then show ?thesis using Nil by (simp add: name_text_def)
  next
    case (Cons a as)
    have "takeWhile (\<lambda>c. c \<noteq> 46) (l @ 46 # name_text ls) = l"
      using l(3) by (subst takeWhile_tail) (auto simp: takeWhile_eq_all_conv)
    then show ?thesis using Cons by (simp add: name_text_Cons)
  qed
  then show ?case using l n Cons.IH by (simp add: label_bytes.simps [of "name_text (l # ls)"])
qed

lemma name_bytes_text: "wf_labels ls \<Longrightarrow> name_bytes (name_text ls) = wire_name ls"
  by (simp add: name_bytes_def label_bytes_text)

section \<open>Fields and records\<close>

definition word_bytes :: "u32 \<Rightarrow> bytes" where
  "word_bytes w = [hi8 (ucast w), lo8 (ucast w)]"

definition long_bytes :: "u32 \<Rightarrow> bytes" where
  "long_bytes w = [ucast (drop_bit 24 w), ucast (drop_bit 16 w), ucast (drop_bit 8 w), ucast w]"

lemma fields_length [simp]: "length (word_bytes w) = 2" "length (long_bytes v) = 4"
  by (simp_all add: word_bytes_def long_bytes_def)

text \<open>A record behind its owner: type, class, time to live, length and data.\<close>

definition rr_bytes :: "u32 \<Rightarrow> bytes \<Rightarrow> bytes" where
  "rr_bytes t d = word_bytes t @ word_bytes DNS_CLASS_INET @ long_bytes DEFAULT_TTL @
     [hi8 (of_nat (length d)), lo8 (of_nat (length d))] @ d"

lemma compile_int_holding:
  "length b \<le> PACKET_ASSEMBLYSIZE \<Longrightarrow> compile_int w (holding b x) = append_ok b (word_bytes w) x"
  by (simp add: compile_int_def emits_holding word_bytes_def)

lemma compile_long_holding:
  "length b \<le> PACKET_ASSEMBLYSIZE \<Longrightarrow> compile_long w (holding b x) = append_ok b (long_bytes w) x"
  by (simp add: compile_long_def emits_holding long_bytes_def)

lemma compile_objectname_holding:
  "length b \<le> PACKET_ASSEMBLYSIZE \<Longrightarrow> compile_objectname (holding b x) = append_ok b [0xC0, 0x0C] x"
  using append_then [of b "[0xC0]" "emit 0x0C" x "[0x0C]" x]
  by (simp add: compile_objectname_def emit_holding)

lemma compile_namepointer_holding:
  "length b \<le> PACKET_ASSEMBLYSIZE \<Longrightarrow> compile_namepointer k (holding b x) = append_ok b [0xC0, of_nat k AND 0x3F] x"
  using append_then [of b "[0xC0]" "emit (of_nat k AND 0x3F)" x "[of_nat k AND 0x3F]" x]
  by (simp add: compile_namepointer_def emit_holding)

lemma start_rdata_holding:
  assumes "length b \<le> PACKET_ASSEMBLYSIZE"
  shows "start_rdata (holding b x) = append_ok b [0, 0] (x\<lparr>h_rdata := Some (length b)\<rparr>)"
proof -
  have "word_bytes 0 = [0, 0]" by (simp add: word_bytes_def hi8_def lo8_def)
  then show ?thesis using compile_int_holding [OF assms] by (simp add: start_rdata_def holding_upd)
qed

lemma compile_fixed_holding:
  assumes "length b \<le> PACKET_ASSEMBLYSIZE"
  shows "compile_fixed t (holding b x) =
    append_ok b ((word_bytes t @ word_bytes DNS_CLASS_INET @ long_bytes DEFAULT_TTL) @ [0, 0]) (x\<lparr>h_rdata := Some (length b + 8)\<rparr>)"
proof -
  let ?c = "word_bytes t @ word_bytes DNS_CLASS_INET @ long_bytes DEFAULT_TTL"
  have l: "length ?c = 8" by simp
  have 3: "compile_long DEFAULT_TTL (holding b' x) \<bind> start_rdata =
      append_ok b' (long_bytes DEFAULT_TTL @ [0, 0]) (x\<lparr>h_rdata := Some (length b' + 4)\<rparr>)"
    if "length b' \<le> PACKET_ASSEMBLYSIZE" for b'
    unfolding compile_long_holding [OF that]
    by (rule append_then) (simp add: start_rdata_holding)
  have 2: "compile_int DNS_CLASS_INET (holding b' x) \<bind> (\<lambda>x2. compile_long DEFAULT_TTL x2 \<bind> start_rdata) =
      append_ok b' (word_bytes DNS_CLASS_INET @ long_bytes DEFAULT_TTL @ [0, 0]) (x\<lparr>h_rdata := Some (length b' + 6)\<rparr>)"
    if "length b' \<le> PACKET_ASSEMBLYSIZE" for b'
    unfolding compile_int_holding [OF that]
    by (rule append_then) (simp add: 3 add.commute)
  have "append_ok b (word_bytes t) x \<bind> (\<lambda>x1. compile_int DNS_CLASS_INET x1 \<bind> (\<lambda>x2. compile_long DEFAULT_TTL x2 \<bind> start_rdata)) =
      append_ok b (word_bytes t @ word_bytes DNS_CLASS_INET @ long_bytes DEFAULT_TTL @ [0, 0]) (x\<lparr>h_rdata := Some (length b + 8)\<rparr>)"
    by (rule append_then) (simp add: 2 add.commute)
  then show ?thesis using assms by (simp add: compile_fixed_def compile_int_holding)
qed

lemma end_rdata_holding:
  assumes "length (b @ [0, 0] @ d) \<le> PACKET_ASSEMBLYSIZE" "h_rdata x = Some (length b)"
  shows "end_rdata (holding (b @ [0, 0] @ d) x) =
    Some (holding (b @ [hi8 (of_nat (length d)), lo8 (of_nat (length d))] @ d) (x\<lparr>h_rdata := None\<rparr>))"
proof -
  have "(of_int (int (length (b @ [0, 0] @ d)) - int (length b + 2)) :: u16) = of_nat (length d)" by simp
  then show ?thesis using assms
    by (simp add: end_rdata_def c_memcpy_def Let_def) (simp add: holding_def)
qed

text \<open>A whole record: its fields, data that \<open>g\<close> appends, and the length.\<close>

lemma record_holding:
  assumes "length b \<le> PACKET_ASSEMBLYSIZE" "h_rdata x = None"
    and "\<And>b' x'. length b' \<le> PACKET_ASSEMBLYSIZE \<Longrightarrow> g (holding b' x') = append_ok b' d x'"
  shows "compile_fixed t (holding b x) \<bind> (\<lambda>y. g y \<bind> end_rdata) = append_ok b (rr_bytes t d) x"
proof -
  let ?c = "word_bytes t @ word_bytes DNS_CLASS_INET @ long_bytes DEFAULT_TTL"
  let ?x = "x\<lparr>h_rdata := Some (length b + 8)\<rparr>"
  have l: "length ?c = 8" by simp
  show ?thesis
  proof (cases "length (b @ ?c @ [0, 0] @ d) \<le> PACKET_ASSEMBLYSIZE")
    case True
    have "end_rdata (holding ((b @ ?c) @ [0, 0] @ d) ?x) =
        Some (holding ((b @ ?c) @ [hi8 (of_nat (length d)), lo8 (of_nat (length d))] @ d) (?x\<lparr>h_rdata := None\<rparr>))"
      by (rule end_rdata_holding) (use True l in simp_all)
    moreover have "?x\<lparr>h_rdata := None\<rparr> = x" using assms(2) by simp
    ultimately show ?thesis using True assms l
      by (simp add: compile_fixed_holding append_ok_def rr_bytes_def)
  next
    case False
    have "length (rr_bytes t d) = length (?c @ [0, 0] @ d)" by (simp add: rr_bytes_def)
    then have "append_ok b (rr_bytes t d) x = None" using False by (simp add: append_ok_def)
    moreover have "compile_fixed t (holding b x) \<bind> (\<lambda>y. g y \<bind> end_rdata) = None"
    proof (cases "length (b @ ?c @ [0, 0]) \<le> PACKET_ASSEMBLYSIZE")
      case True
      then have "compile_fixed t (holding b x) = Some (holding (b @ ?c @ [0, 0]) ?x)"
        using assms(1) by (simp add: compile_fixed_holding append_ok_def)
      moreover have "g (holding (b @ ?c @ [0, 0]) ?x) = None"
        using assms(3) [OF True, of ?x] False by (simp add: append_ok_def)
      ultimately show ?thesis by simp
    next
      case False
      then show ?thesis using assms(1) by (simp add: compile_fixed_holding append_ok_def)
    qed
    ultimately show ?thesis by simp
  qed
qed

lemma compile_namedata_holding:
  assumes "length b \<le> PACKET_ASSEMBLYSIZE" "h_rdata x = None"
  shows "compile_fixed t (holding b x) \<bind> compile_namedata name = append_ok b (rr_bytes t (name_bytes name)) x"
proof -
  let ?g = "\<lambda>y. map_option snd (compile_name name y)"
  have "?g (holding b' x') = append_ok b' (name_bytes name) x'" if "length b' \<le> PACKET_ASSEMBLYSIZE" for b' x'
    using that by (simp add: compile_name_holding option.map_comp comp_def option.map_ident)
  from record_holding [OF assms this, of t]
  have "compile_fixed t (holding b x) \<bind> (\<lambda>y. ?g y \<bind> end_rdata) = append_ok b (rr_bytes t (name_bytes name)) x" .
  moreover have "compile_namedata name = (\<lambda>y. ?g y \<bind> end_rdata)"
    by (rule ext) (simp add: compile_namedata_def bind_case split: option.split prod.split)
  ultimately show ?thesis by simp
qed

lemma compile_address_holding:
  assumes "length b \<le> PACKET_ASSEMBLYSIZE" "h_rdata x = None"
  shows "compile_fixed t (holding b x) \<bind> (\<lambda>y. compile_long ip y \<bind> end_rdata) = append_ok b (rr_bytes t (long_bytes ip)) x"
  by (rule record_holding [OF assms]) (rule compile_long_holding)

section \<open>The question\<close>

definition fresh :: dnsheader_t where
  "fresh = \<lparr>h_id = 0, h_u = SET_QR 0 1, h_qdcount = 1, h_ancount = 0, h_nscount = 0, h_arcount = 0,
     h_here = 0, h_packet = [], h_len = 0, h_rdata = None\<rparr>"

lemma fresh_sel [simp]:
  "h_u fresh = SET_QR 0 1" "h_qdcount fresh = 1" "h_ancount fresh = 0" "h_nscount fresh = 0" "h_arcount fresh = 0" "h_rdata fresh = None"
  by (simp_all add: fresh_def)

definition question_bytes :: "rr_t \<Rightarrow> bytes" where
  "question_bytes query = name_bytes (cstr (rr_name query)) @ word_bytes (rr_type query) @ word_bytes (rr_class query)"

abbreviation header_room :: bytes where
  "header_room \<equiv> replicate PACKET_DATABEGIN 0"

lemma begin_assembly_holding:
  assumes "0 \<in> set (rr_name query)"
  shows "begin_assembly query = append_ok header_room (question_bytes query) fresh"
proof -
  let ?n = "name_bytes (cstr (rr_name query))"
  let ?x = "\<lparr>h_id = 0, h_u = SET_QR 0 1, h_qdcount = 1, h_ancount = 0, h_nscount = 0, h_arcount = 0,
              h_here = PACKET_DATABEGIN, h_packet = replicate PACKET_ASSEMBLYSIZE 0, h_len = 0, h_rdata = None\<rparr>"
  have x: "?x = holding header_room fresh"
    by (simp add: holding_def fresh_def PACKET_DATABEGIN_def PACKET_ASSEMBLYSIZE_def flip: replicate_add)
  have 2: "append_ok b (word_bytes (rr_type query)) fresh \<bind> compile_int (rr_class query) =
      append_ok b (word_bytes (rr_type query) @ word_bytes (rr_class query)) fresh" for b
    by (rule append_then) (rule compile_int_holding)
  have "append_ok header_room ?n fresh \<bind> (\<lambda>x1. compile_int (rr_type query) x1 \<bind> compile_int (rr_class query)) =
      append_ok header_room (question_bytes query) fresh"
    unfolding question_bytes_def by (rule append_then) (simp only: compile_int_holding 2)
  moreover have "compile_name (cstr (rr_name query)) ?x = map_option (Pair PACKET_DATABEGIN) (append_ok header_room ?n fresh)"
    unfolding x using compile_name_holding [of header_room "cstr (rr_name query)" fresh]
    by (simp add: PACKET_DATABEGIN_def PACKET_ASSEMBLYSIZE_def)
  then have "begin_assembly query = map_option (Pair PACKET_DATABEGIN) (append_ok header_room ?n fresh) \<bind>
      (\<lambda>(i, x1). compile_int (rr_type query) x1 \<bind> compile_int (rr_class query))"
    using assms by (simp add: begin_assembly_def c_strlen_def)
  ultimately show ?thesis by (cases "append_ok header_room ?n fresh") simp_all
qed

section \<open>Name servers\<close>

definition servers_of :: "bytes \<Rightarrow> dnsrec list \<Rightarrow> dnsrec list" where
  "servers_of name db = filter (dns_matches name) db"

lemma dns_from_filter:
  "case dns_from name db i of
     None \<Rightarrow> servers_of name (drop i db) = []
   | Some (j, r) \<Rightarrow> servers_of name (drop i db) = r # servers_of name (drop (Suc j) db)"
proof (induction name db i rule: dns_from.induct)
  case (1 name db i)
  show ?case
  proof (cases "i < length db")
    case True
    then have "drop i db = db ! i # drop (Suc i) db" by (simp add: Cons_nth_drop_Suc)
    then show ?thesis using 1 True
      by (cases "dns_matches name (db ! i)") (simp_all add: dns_from.simps [of name db i] servers_of_def split: option.splits prod.splits)
  next
    case False
    then show ?thesis by (simp add: dns_from.simps [of name db i] servers_of_def)
  qed
qed

text \<open>The records that a search from \<open>*last\<close> on will still find.\<close>

lemma dns_lookup_cases:
  assumes "- 1 \<le> lst"
  obtains l where "dns_lookup name lst m = (None, l)" "servers_of name (drop (nat (lst + 1)) (dbv m)) = []"
  | r l where "dns_lookup name lst m = (Some r, l)" "- 1 \<le> l"
      "servers_of name (drop (nat (lst + 1)) (dbv m)) = r # servers_of name (drop (nat (l + 1)) (dbv m))"
proof -
  have l: "(if lst < 0 then 0 else lst + 1) = lst + 1" using assms by auto
  show thesis
  proof (cases "dns_from name (dbv m) (nat (lst + 1))")
    case None
    then show ?thesis using that(1) dns_from_filter [where name = name and db = "dbv m" and i = "nat (lst + 1)"]
      by (simp add: dns_lookup_def Let_def l)
  next
    case (Some jr)
    obtain j r where jr: "jr = (j, r)" by (cases jr)
    have "nat (int j + 1) = Suc j" by simp
    then show ?thesis using that(2) [of r "int j"] Some jr dns_from_filter [where name = name and db = "dbv m" and i = "nat (lst + 1)"]
      by (simp add: dns_lookup_def Let_def l)
  qed
qed

text \<open>
  The authority section: \<open>pos\<close> is where the name of the owner stands, 0 before it is written, and
  \<open>here\<close> where the section goes on. The pointer keeps six bits of \<open>pos\<close>.
\<close>

fun auth_bytes :: "nat \<Rightarrow> nat \<Rightarrow> dnsrec list \<Rightarrow> bytes" where
  "auth_bytes pos here [] = []"
| "auth_bytes pos here (r # rs) =
     (let own = (if pos = 0 then name_bytes (st_string (rec_object r)) else [0xC0, of_nat pos AND 0x3F]);
          c = own @ rr_bytes DNS_TYPE_NS (name_bytes (server_name r))
      in c @ auth_bytes (if pos = 0 then here else pos) (here + length c) rs)"

lemma dnsrecords_loop_holding:
  assumes "length b \<le> PACKET_ASSEMBLYSIZE" "h_rdata x = None" "- 1 \<le> lst"
    and "rs = servers_of object (drop (nat (lst + 1)) (dbv m))"
  shows "dnsrecords_loop object m lst pos (holding b x) =
    append_ok b (auth_bytes pos (length b) rs) (x\<lparr>h_nscount := h_nscount x + of_nat (length rs)\<rparr>)"
  using assms
proof (induction rs arbitrary: lst pos b x)
  case Nil
  from Nil.prems(3) show ?case
  proof (cases rule: dns_lookup_cases [of lst object m])
    case (1 l)
    then show ?thesis using Nil.prems(1) by (simp add: dnsrecords_loop.simps [of object m lst] append_ok_Nil)
  next
    case (2 r l)
    then show ?thesis using Nil.prems(4) by simp
  qed
next
  case (Cons r rs)
  from Cons.prems(3) show ?case
  proof (cases rule: dns_lookup_cases [of lst object m])
    case (1 l)
    then show ?thesis using Cons.prems(4) by simp
  next
    case (2 r' l)
    then have r: "r' = r" "rs = servers_of object (drop (nat (l + 1)) (dbv m))" using Cons.prems(4) by simp_all
    let ?own = "if pos = 0 then name_bytes (st_string (rec_object r)) else [0xC0, of_nat pos AND 0x3F]"
    let ?p = "if pos = 0 then length b else pos"
    let ?d = "rr_bytes DNS_TYPE_NS (name_bytes (server_name r))"
    let ?y = "x\<lparr>h_nscount := h_nscount x + 1\<rparr>"
    let ?z = "x\<lparr>h_nscount := h_nscount x + of_nat (length (r # rs))\<rparr>"
    have own: "(if pos = 0 then compile_name (st_string (rec_object r)) (holding b x)
        else map_option (\<lambda>y. (pos, y)) (compile_namepointer pos (holding b x))) =
        map_option (Pair ?p) (append_ok b ?own x)"
      using Cons.prems(1) by (simp add: compile_name_holding compile_namepointer_holding)
    have ih: "dnsrecords_loop object m l ?p (holding (b @ ?own @ ?d) x\<lparr>h_nscount := h_nscount x + 1\<rparr>) =
        append_ok (b @ ?own @ ?d) (auth_bytes ?p (length b + length (?own @ ?d)) rs) ?z"
      if "length (b @ ?own @ ?d) \<le> PACKET_ASSEMBLYSIZE"
      using Cons.IH [OF that _ 2(2) r(2), of ?y ?p] Cons.prems(2) by (simp add: holding_upd add.assoc)
    let ?k = "\<lambda>x3. dnsrecords_loop object m l ?p (x3\<lparr>h_nscount := h_nscount x3 + 1\<rparr>)"
    have "append_ok b ?own x \<bind> (\<lambda>x1. compile_fixed DNS_TYPE_NS x1 \<bind> compile_namedata (server_name r)) = append_ok b (?own @ ?d) x"
      by (rule append_then) (rule compile_namedata_holding [OF _ Cons.prems(2)])
    moreover have "append_ok b (?own @ ?d) x \<bind> ?k =
        append_ok b ((?own @ ?d) @ auth_bytes ?p (length b + length (?own @ ?d)) rs) ?z"
      by (rule append_then) (use ih in simp)
    ultimately have "append_ok b ?own x \<bind> (\<lambda>x1. compile_fixed DNS_TYPE_NS x1 \<bind> compile_namedata (server_name r)) \<bind> ?k =
        append_ok b (auth_bytes pos (length b) (r # rs)) ?z" by (simp add: Let_def)
    moreover have "dnsrecords_loop object m lst pos (holding b x) =
        append_ok b ?own x \<bind> (\<lambda>x1. compile_fixed DNS_TYPE_NS x1 \<bind> compile_namedata (server_name r)) \<bind> ?k"
      using 2(1) r(1) own by (simp add: dnsrecords_loop.simps [of object m lst] bind_case split: option.split)
    ultimately show ?thesis by simp
  qed
qed

definition ns_bytes :: "dnsrec list \<Rightarrow> bytes" where
  "ns_bytes rs = concat (map (\<lambda>r. [0xC0, 0x0C] @ rr_bytes DNS_TYPE_NS (name_bytes (server_name r))) rs)"

lemma answer_ns_loop_holding:
  assumes "length b \<le> PACKET_ASSEMBLYSIZE" "h_rdata x = None" "- 1 \<le> lst"
    and "rs = servers_of name (drop (nat (lst + 1)) (dbv m))"
  shows "answer_ns_loop name m (dns_lookup name lst m) (holding b x) =
    append_ok b (ns_bytes rs) (x\<lparr>h_ancount := h_ancount x + of_nat (length rs)\<rparr>)"
  using assms
proof (induction rs arbitrary: lst b x)
  case Nil
  from Nil.prems(3) show ?case
  proof (cases rule: dns_lookup_cases [of lst name m])
    case (1 l)
    then show ?thesis using Nil.prems(1) by (simp add: answer_ns_loop.simps [of name m] append_ok_Nil ns_bytes_def)
  next
    case (2 r l)
    then show ?thesis using Nil.prems(4) by simp
  qed
next
  case (Cons r rs)
  from Cons.prems(3) show ?case
  proof (cases rule: dns_lookup_cases [of lst name m])
    case (1 l)
    then show ?thesis using Cons.prems(4) by simp
  next
    case (2 r' l)
    then have r: "r' = r" "rs = servers_of name (drop (nat (l + 1)) (dbv m))" using Cons.prems(4) by simp_all
    let ?own = "[0xC0, 0x0C] :: bytes"
    let ?d = "rr_bytes DNS_TYPE_NS (name_bytes (server_name r))"
    let ?y = "x\<lparr>h_ancount := h_ancount x + 1\<rparr>"
    let ?z = "x\<lparr>h_ancount := h_ancount x + of_nat (length (r # rs))\<rparr>"
    let ?k = "\<lambda>x3. answer_ns_loop name m (dns_lookup name l m) (x3\<lparr>h_ancount := h_ancount x3 + 1\<rparr>)"
    have ih: "?k (holding (b @ ?own @ ?d) x) = append_ok (b @ ?own @ ?d) (ns_bytes rs) ?z"
      if "length (b @ ?own @ ?d) \<le> PACKET_ASSEMBLYSIZE"
      using Cons.IH [OF that _ 2(2) r(2), of ?y] Cons.prems(2) by (simp add: holding_upd add.assoc)
    have "append_ok b ?own x \<bind> (\<lambda>x1. compile_fixed DNS_TYPE_NS x1 \<bind> compile_namedata (server_name r)) = append_ok b (?own @ ?d) x"
      by (rule append_then) (rule compile_namedata_holding [OF _ Cons.prems(2)])
    moreover have "append_ok b (?own @ ?d) x \<bind> ?k = append_ok b ((?own @ ?d) @ ns_bytes rs) ?z"
      by (rule append_then) (use ih in simp)
    ultimately have "append_ok b ?own x \<bind> (\<lambda>x1. compile_fixed DNS_TYPE_NS x1 \<bind> compile_namedata (server_name r)) \<bind> ?k =
        append_ok b (ns_bytes (r # rs)) ?z" by (simp add: ns_bytes_def)
    moreover have "answer_ns_loop name m (dns_lookup name lst m) (holding b x) =
        append_ok b ?own x \<bind> (\<lambda>x1. compile_fixed DNS_TYPE_NS x1 \<bind> compile_namedata (server_name r)) \<bind> ?k"
      using 2(1) r(1) Cons.prems(1)
      by (simp add: answer_ns_loop.simps [of name m] compile_objectname_holding bind_case split: option.split)
    ultimately show ?thesis by simp
  qed
qed

section \<open>The packets\<close>

text \<open>
  The packet that replaces \<open>msg\<close>: its identifier stays, then the flags, one question, the numbers of
  answers and of authorities, and \<open>body\<close>. What stood behind stays.
\<close>

definition reply_packet :: "bytes \<Rightarrow> u16 \<Rightarrow> nat \<Rightarrow> nat \<Rightarrow> bytes \<Rightarrow> bytes" where
  "reply_packet msg u an ns body = take 2 msg @
     concat (map (\<lambda>w. [hi8 w, lo8 w]) [u, 1, of_nat an, of_nat ns, 0]) @ body @ drop (PACKET_DATABEGIN + length body) msg"

definition flags_answer :: u16 where "flags_answer = SET_QR 0 1"
definition flags_authority :: u16 where "flags_authority = SET_AA (SET_QR 0 1) 1"

lemma flags_values: "flags_answer = 0x8000" "flags_authority = 0x8400"
  by (simp_all add: flags_answer_def flags_authority_def SET_QR_def SET_AA_def MASK_QR_def MASK_AA_def)

text \<open>The packet fits into the assembly and into the buffer of the request.\<close>

definition fits :: "bytes \<Rightarrow> bytes \<Rightarrow> bool" where
  "fits msg body \<longleftrightarrow> PACKET_DATABEGIN + length body \<le> PACKET_ASSEMBLYSIZE \<and> PACKET_DATABEGIN + length body \<le> length msg"

definition replied :: "bytes \<Rightarrow> u16 \<Rightarrow> nat \<Rightarrow> nat \<Rightarrow> bytes \<Rightarrow> (nat \<times> bytes) option" where
  "replied msg u an ns body =
     (if fits msg body then Some (PACKET_DATABEGIN + length body, reply_packet msg u an ns body) else None)"

lemma header_words_length [simp]: "length (header_words x) = 10"
  by (simp add: header_words_def)

lemma end_assembly_holding:
  assumes "length (header_room @ body) \<le> PACKET_ASSEMBLYSIZE" "h_rdata x = None"
  shows "end_assembly (holding (header_room @ body) x) = Some (x\<lparr>
    h_packet := [0, 0] @ header_words x @ body @ replicate (PACKET_ASSEMBLYSIZE - length (header_room @ body)) 0,
    h_here := length (header_room @ body), h_len := length (header_room @ body)\<rparr>)"
proof -
  let ?b = "header_room @ body"
  have e: "end_rdata (holding ?b x) = Some (holding ?b x)" using assms(2) by (simp add: end_rdata_def)
  have w: "header_words (holding ?b x) = header_words x" by (simp add: header_words_def)
  have "c_memcpy (h_packet (holding ?b x)) 2 (header_words x) 0 10 =
      Some ([0, 0] @ header_words x @ body @ replicate (PACKET_ASSEMBLYSIZE - length ?b) 0)"
    using assms(1) by (simp add: c_memcpy_def PACKET_DATABEGIN_def numeral_2_eq_2)
  then show ?thesis using e w by (simp add: end_assembly_def) (simp add: holding_def)
qed

lemma close_holding:
  assumes "length (header_room @ body) \<le> PACKET_ASSEMBLYSIZE" "h_rdata x = None"
    and "h_qdcount x = 1" "h_ancount x = of_nat an" "h_nscount x = of_nat ns" "h_arcount x = 0"
  shows "end_assembly (holding (header_room @ body) x) \<bind> copy_answer msg = replied msg (h_u x) an ns body"
proof -
  have w: "header_words x = concat (map (\<lambda>w. [hi8 w, lo8 w]) [h_u x, 1, of_nat an, of_nat ns, 0])"
    using assms(3-6) by (simp add: header_words_def)
  then have r: "reply_packet msg (h_u x) an ns body =
      take 2 msg @ header_words x @ body @ drop (PACKET_DATABEGIN + length body) msg"
    by (simp only: reply_packet_def)
  have n: "length (header_room @ body) \<le> length msg \<longleftrightarrow> 2 + (10 + length body) \<le> length msg" by (simp add: PACKET_DATABEGIN_def)
  have t: "take (10 + length body) (header_words x @ body @ z) = header_words x @ body" for z by simp
  have "c_memcpy msg 2 ([0, 0] @ header_words x @ body @ z) 2 (10 + length body) =
      (if 2 + (10 + length body) \<le> length msg then Some (reply_packet msg (h_u x) an ns body) else None)" for z
    using t [of z] by (simp add: c_memcpy_def r PACKET_DATABEGIN_def numeral_2_eq_2 del: take_append)
  then show ?thesis using assms(1) unfolding end_assembly_holding [OF assms(1,2)]
    by (simp add: copy_answer_def replied_def fits_def PACKET_DATABEGIN_def)
qed

lemma append_close:
  assumes "\<And>b. f (holding b x) = holding b x'" "h_rdata x' = None" "h_qdcount x' = 1"
    and "h_ancount x' = of_nat an" "h_nscount x' = of_nat ns" "h_arcount x' = 0"
  shows "append_ok header_room body x \<bind> (\<lambda>y. end_assembly (f y) \<bind> copy_answer msg) = replied msg (h_u x') an ns body"
proof (cases "length (header_room @ body) \<le> PACKET_ASSEMBLYSIZE")
  case True
  then show ?thesis using close_holding [OF True assms(2-6), of msg] assms(1) by (simp add: append_ok_def)
next
  case False
  then show ?thesis by (simp add: append_ok_def replied_def fits_def)
qed

lemma auth_bytes_length: "length rs \<le> length (auth_bytes pos here rs)"
proof (induction rs arbitrary: pos here)
  case (Cons r rs)
  then show ?case using Cons.IH [of "if pos = 0 then here else pos"]
    by (simp add: Let_def rr_bytes_def le_SucI trans_le_add2)
qed simp

lemma compile_dnsrecords_holding:
  assumes "length b \<le> PACKET_ASSEMBLYSIZE" "h_rdata x = None" "h_nscount x = 0" "rs = servers_of object (dbv m)"
  shows "compile_dnsrecords object m (holding b x) = append_ok b (auth_bytes 0 (length b) rs)
    (x\<lparr>h_nscount := of_nat (length rs), h_u := if rs = [] then h_u x else SET_AA (h_u x) 1\<rparr>)"
proof -
  let ?y = "x\<lparr>h_nscount := h_nscount x + of_nat (length rs)\<rparr>"
  have l: "dnsrecords_loop object m (- 1) 0 (holding b x) = append_ok b (auth_bytes 0 (length b) rs) ?y"
    by (rule dnsrecords_loop_holding [OF assms(1,2)]) (simp_all add: assms(4))
  show ?thesis
  proof (cases "length b + length (auth_bytes 0 (length b) rs) \<le> PACKET_ASSEMBLYSIZE")
    case True
    have k: "length rs \<le> 600" using True auth_bytes_length [of rs 0 "length b"] by (simp add: PACKET_ASSEMBLYSIZE_def)
    have "0 <s (of_nat (length rs) :: u16) \<longleftrightarrow> rs \<noteq> []"
    proof -
      have "sint (of_nat (length rs) :: u16) = int (length rs)"
        using k by (simp add: signed_of_nat signed_take_bit_int_eq_self)
      then show ?thesis by (simp add: word_sless_alt)
    qed
    then show ?thesis using True l assms(3)
      by (simp add: compile_dnsrecords_def append_ok_def holding_upd)
  next
    case False
    then show ?thesis using l by (simp add: compile_dnsrecords_def append_ok_def)
  qed
qed

text \<open>What the database adds to an answer about \<open>name\<close>.\<close>

definition auth_flags :: "dnsrec list \<Rightarrow> u16" where
  "auth_flags rs = (if rs = [] then flags_answer else flags_authority)"

definition answer_body :: "rr_t \<Rightarrow> bytes \<Rightarrow> dnsrec list \<Rightarrow> bytes" where
  "answer_body query rr rs =
     (let b = question_bytes query @ [0xC0, 0x0C] @ rr in b @ auth_bytes 0 (PACKET_DATABEGIN + length b) rs)"

lemma answer_steps:
  assumes "0 \<in> set (rr_name query)" "rs = servers_of (cstr (rr_name query)) (dbv m)"
    and "\<And>b x. length b \<le> PACKET_ASSEMBLYSIZE \<Longrightarrow> h_rdata x = None \<Longrightarrow> g (holding b x) = append_ok b rr x"
  shows "begin_assembly query \<bind> compile_objectname \<bind> g \<bind> compile_dnsrecords (cstr (rr_name query)) m \<bind>
      (\<lambda>y. end_assembly (y\<lparr>h_ancount := 1\<rparr>) \<bind> copy_answer msg) =
    replied msg (auth_flags rs) 1 (length rs) (answer_body query rr rs)"
proof -
  let ?q = "question_bytes query" and ?o = "[0xC0, 0x0C] :: bytes" and ?n = "cstr (rr_name query)"
  let ?b = "?q @ ?o @ rr" and ?a = "auth_bytes 0 (PACKET_DATABEGIN + length (?q @ ?o @ rr)) rs"
  let ?x = "fresh\<lparr>h_nscount := of_nat (length rs), h_u := if rs = [] then h_u fresh else SET_AA (h_u fresh) 1\<rparr>"
  have "append_ok header_room ?q fresh \<bind> compile_objectname = append_ok header_room (?q @ ?o) fresh"
    by (rule append_then) (rule compile_objectname_holding)
  moreover have "append_ok header_room (?q @ ?o) fresh \<bind> g = append_ok header_room ((?q @ ?o) @ rr) fresh"
    by (rule append_then) (rule assms(3), simp_all)
  moreover have "append_ok header_room ?b fresh \<bind> compile_dnsrecords ?n m = append_ok header_room (?b @ ?a) ?x"
    by (rule append_then) (subst compile_dnsrecords_holding, simp_all add: assms(2))
  moreover have "append_ok header_room (?b @ ?a) ?x \<bind> (\<lambda>y. end_assembly (y\<lparr>h_ancount := 1\<rparr>) \<bind> copy_answer msg) =
      replied msg (h_u (?x\<lparr>h_ancount := 1\<rparr>)) 1 (length rs) (?b @ ?a)"
    by (rule append_close) (simp_all add: holding_upd)
  moreover have "h_u (?x\<lparr>h_ancount := 1\<rparr>) = auth_flags rs"
    by (simp add: auth_flags_def flags_answer_def flags_authority_def)
  ultimately show ?thesis unfolding begin_assembly_holding [OF assms(1)] answer_body_def Let_def by simp
qed

lemma bind_assoc_pair: "((x :: 'b option) \<bind> f) \<bind> g = x \<bind> (\<lambda>y. f y \<bind> g)"
  by (cases x) simp_all

lemma answer_a_eq:
  assumes "0 \<in> set (rr_name query)" "rs = servers_of (cstr (rr_name query)) (dbv m)"
  shows "answer_a query r msg m =
    replied msg (auth_flags rs) 1 (length rs) (answer_body query (rr_bytes DNS_TYPE_A (long_bytes (rec_ip r))) rs)"
proof -
  let ?g = "\<lambda>x. compile_fixed DNS_TYPE_A x \<bind> (\<lambda>y. compile_long (rec_ip r) y \<bind> end_rdata)"
  have "answer_a query r msg m = begin_assembly query \<bind> compile_objectname \<bind> ?g \<bind>
      compile_dnsrecords (cstr (rr_name query)) m \<bind> (\<lambda>y. end_assembly (y\<lparr>h_ancount := 1\<rparr>) \<bind> copy_answer msg)"
    by (simp add: answer_a_def bind_assoc_pair)
  also have "\<dots> = replied msg (auth_flags rs) 1 (length rs) (answer_body query (rr_bytes DNS_TYPE_A (long_bytes (rec_ip r))) rs)"
    by (rule answer_steps [OF assms(1)]) (simp_all add: assms(2) compile_address_holding)
  finally show ?thesis .
qed

lemma answer_ptr_eq:
  assumes "0 \<in> set (rr_name query)" "rs = servers_of (cstr (rr_name query)) (dbv m)"
  shows "answer_ptr query r msg m = replied msg (auth_flags rs) 1 (length rs)
    (answer_body query (rr_bytes DNS_TYPE_PTR (name_bytes (st_string (rec_object r)))) rs)"
proof -
  let ?g = "\<lambda>x. compile_fixed DNS_TYPE_PTR x \<bind> compile_namedata (st_string (rec_object r))"
  have "answer_ptr query r msg m = begin_assembly query \<bind> compile_objectname \<bind> ?g \<bind>
      compile_dnsrecords (cstr (rr_name query)) m \<bind> (\<lambda>y. end_assembly (y\<lparr>h_ancount := 1\<rparr>) \<bind> copy_answer msg)"
    by (simp add: answer_ptr_def bind_assoc_pair)
  also have "\<dots> = replied msg (auth_flags rs) 1 (length rs)
      (answer_body query (rr_bytes DNS_TYPE_PTR (name_bytes (st_string (rec_object r)))) rs)"
    by (rule answer_steps [OF assms(1)]) (simp_all add: assms(2) compile_namedata_holding)
  finally show ?thesis .
qed

lemma answer_ns_eq:
  assumes "0 \<in> set (rr_name query)" "rs = servers_of (cstr (rr_name query)) (dbv m)"
  shows "answer_ns query msg m = replied msg flags_authority (length rs) 0 (question_bytes query @ ns_bytes rs)"
proof -
  let ?n = "cstr (rr_name query)" and ?x = "fresh\<lparr>h_ancount := of_nat (length rs)\<rparr>"
  have "append_ok header_room (question_bytes query) fresh \<bind> answer_ns_loop ?n m (dns_lookup ?n (- 1) m) =
      append_ok header_room (question_bytes query @ ns_bytes rs) ?x"
    by (rule append_then) (subst answer_ns_loop_holding, simp_all add: assms(2))
  moreover have "append_ok header_room (question_bytes query @ ns_bytes rs) ?x \<bind>
      (\<lambda>y. end_assembly (y\<lparr>h_u := SET_AA (h_u y) 1\<rparr>) \<bind> copy_answer msg) =
      replied msg (h_u (?x\<lparr>h_u := SET_AA (h_u ?x) 1\<rparr>)) (length rs) 0 (question_bytes query @ ns_bytes rs)"
    by (rule append_close) (simp_all add: holding_upd)
  moreover have "answer_ns query msg m = append_ok header_room (question_bytes query) fresh \<bind>
      answer_ns_loop ?n m (dns_lookup ?n (- 1) m) \<bind> (\<lambda>y. end_assembly (y\<lparr>h_u := SET_AA (h_u y) 1\<rparr>) \<bind> copy_answer msg)"
    using begin_assembly_holding [OF assms(1)] by (simp add: answer_ns_def bind_assoc_pair)
  ultimately show ?thesis by (simp add: flags_authority_def)
qed

text \<open>The domain of a name is what stands behind its first dot.\<close>

definition parent :: "bytes \<Rightarrow> bytes" where
  "parent name = drop 1 (dropWhile (\<lambda>c. c \<noteq> 46) name)"

definition authoritative :: "bytes \<Rightarrow> 'a master_state_scheme \<Rightarrow> bool" where
  "authoritative name m \<longleftrightarrow> 46 \<in> set name \<and> (authority_lookup name m \<noteq> None \<or> authority_lookup (parent name) m \<noteq> None)"

lemma answer_authority_eq:
  assumes "0 \<in> set (rr_name query)"
  shows "answer_authority query msg m = (if authoritative (cstr (rr_name query)) m
    then replied msg flags_authority 0 0 (question_bytes query) else Some (0, msg))"
proof -
  let ?n = "cstr (rr_name query)" and ?x = "fresh\<lparr>h_ancount := 0, h_u := SET_AA (h_u fresh) 1\<rparr>"
  have "drop (Suc (length (takeWhile (\<lambda>c. c \<noteq> 46) ?n))) ?n = parent ?n"
    by (simp add: parent_def dropWhile_eq_drop)
  moreover have "append_ok header_room (question_bytes query) fresh \<bind>
      (\<lambda>y. end_assembly (y\<lparr>h_ancount := 0, h_u := SET_AA (h_u y) 1\<rparr>) \<bind> copy_answer msg) =
      replied msg (h_u ?x) 0 0 (question_bytes query)"
    by (rule append_close) (simp_all add: holding_upd)
  ultimately show ?thesis using begin_assembly_holding [OF assms]
    by (simp add: answer_authority_def Let_def authoritative_def flags_authority_def bind_assoc_pair)
qed

section \<open>Questions\<close>

text \<open>
  A request of \<open>len\<close> bytes that asks for the records of type \<open>t\<close> and class IN of the name \<open>ls\<close>, which
  may be compressed; \<open>lower ls\<close> is the name in lower case.
\<close>

definition asks :: "bytes \<Rightarrow> nat \<Rightarrow> bytes list \<Rightarrow> u16 \<Rightarrow> bool" where
  "asks msg len ls t \<longleftrightarrow> wf_labels ls \<and> ls \<noteq> [] \<and> length (dotted ls) < RR_NAMESIZE \<and> 12 < len \<and> len \<le> length msg \<and>
     be16 (msg ! 4) (msg ! 5) \<noteq> 0 \<and> GET_OPCODE (be16 (msg ! 2) (msg ! 3)) = 0 \<and>
     (\<exists>h. packed msg len 12 ls h \<and> h < len \<and> h \<le> UDP_MAXSIZE) \<and>
     (let e = name_end msg 12 ls
      in e + 4 \<le> len \<and> be16 (msg ! e) (msg ! Suc e) = t \<and> be16 (msg ! (e + 2)) (msg ! (e + 3)) = 1)"

definition lower :: "bytes list \<Rightarrow> bytes list" where
  "lower ls = map (map c_tolower) ls"

lemma c_tolower_46 [simp]: "c_tolower c = 46 \<longleftrightarrow> c = 46"
proof
  assume "c_tolower c = 46"
  then have "unat (c_tolower c) = 46" by simp
  then have "unat c = 46" unfolding unat_c_tolower by (auto split: if_splits)
  then show "c = 46" by (simp add: word_unat_eq_iff)
next
  show "c = 46 \<Longrightarrow> c_tolower c = 46" by (simp add: c_tolower_def c_isupper_def)
qed

lemma wf_labels_lower: "wf_labels ls \<Longrightarrow> wf_labels (lower ls)"
  by (induction ls) (auto simp: lower_def image_iff)

lemma dotted_lower: "dotted (lower ls) = map c_tolower (dotted ls)"
  by (induction ls) (simp_all add: lower_def)

lemma name_text_lower: "name_text (lower ls) = map c_tolower (name_text ls)"
  by (simp add: name_text_def dotted_lower map_butlast)

lemma length_name_bytes: "wf_labels ls \<Longrightarrow> length (name_bytes (name_text ls)) = Suc (length (dotted ls))"
  by (simp add: name_bytes_text length_wire_name)

definition asked :: "bytes list \<Rightarrow> u16 \<Rightarrow> bytes" where
  "asked ls t = wire_name ls @ word_bytes (ucast t) @ word_bytes DNS_CLASS_INET"

text \<open>The record that \<open>parse_query\<close> fills for such a request.\<close>

lemma asks_query:
  assumes "asks msg len ls t" "all_valid tbl" "length (rr_name y) = RR_NAMESIZE"
  obtains query where "parse_query tbl y msg len = Some (0, query)" "rr_type query = ucast t"
    "rr_class query = DNS_CLASS_INET" "GET_OPCODE (rr_flags query) = 0" "0 \<in> set (rr_name query)"
    "cstr (rr_name query) = name_text (lower ls)" "question_bytes query = asked (lower ls) t"
proof -
  note a = assms(1) [unfolded asks_def Let_def]
  obtain h where h: "packed msg len 12 ls h" "h < len" "h \<le> UDP_MAXSIZE" using a by blast
  define query where "query = y\<lparr>rr_flags := be16 (msg ! 2) (msg ! 3),
    rr_name := map c_tolower (name_text ls) @ 0 # drop (length (dotted ls)) (rr_name y),
    rr_type := ucast t, rr_class := ucast (1 :: u16)\<rparr>"
  have q: "parse_query tbl y msg len = Some (0, query)"
    using parse_query_packed [OF h(1) _ _ _ h(2,3) assms(2) _ assms(3)] a by (simp add: query_def)
  have n: "0 \<notin> set (name_text (lower ls))" using wf_labels_lower [of ls] a by (intro name_text_no_nul) simp
  have c: "cstr (rr_name query) = name_text (lower ls)"
    using n by (simp add: query_def name_text_lower)
  moreover have "question_bytes query = asked (lower ls) t"
    unfolding question_bytes_def c using a wf_labels_lower [of ls]
    by (simp add: asked_def name_bytes_text) (simp add: query_def DNS_CLASS_INET_def)
  ultimately show ?thesis using that [OF q] a by (simp add: query_def DNS_CLASS_INET_def)
qed

section \<open>What the master promises\<close>

text \<open>
  The answer as the database alone determines it: the flags, the numbers of answers and authorities,
  and everything behind the header; \<open>None\<close> when the master has no answer. The lookups are plain
  searches here.
\<close>

definition with_record :: "bytes list \<Rightarrow> u16 \<Rightarrow> bytes \<Rightarrow> dnsrec list \<Rightarrow> u16 \<times> nat \<times> nat \<times> bytes" where
  "with_record ls t rr rs =
     (let b = asked ls t @ [0xC0, 0x0C] @ rr
      in (auth_flags rs, 1, length rs, b @ auth_bytes 0 (PACKET_DATABEGIN + length b) rs))"

definition denial :: "bytes list \<Rightarrow> u16 \<Rightarrow> dnsrec list \<Rightarrow> (u16 \<times> nat \<times> nat \<times> bytes) option" where
  "denial ls t db =
     (let name = name_text ls
      in if 46 \<in> set name \<and> (\<exists>r \<in> set db. authority_for name r \<or> authority_for (parent name) r)
         then Some (flags_authority, 0, 0, asked ls t) else None)"

definition arpa_of :: "bytes \<Rightarrow> bytes option" where
  "arpa_of name =
     (let k = length name - length ARPADOMAIN
      in if length ARPADOMAIN \<le> length name \<and> drop k name = ARPADOMAIN then Some (take k name) else None)"

definition answer_spec :: "bytes list \<Rightarrow> u16 \<Rightarrow> dnsrec list \<Rightarrow> (u16 \<times> nat \<times> nat \<times> bytes) option" where
  "answer_spec ls t db =
     (let name = name_text ls; rs = servers_of name db
      in if t = 12 then
           (case arpa_of name of
              None \<Rightarrow> None
            | Some arpa \<Rightarrow> (case find (host_at arpa) db of
                 Some r \<Rightarrow> Some (with_record ls t (rr_bytes DNS_TYPE_PTR (name_bytes (st_string (rec_object r)))) rs)
               | None \<Rightarrow> denial ls t db))
         else if t = 1 then
           (case find (host_named name) db of
              Some r \<Rightarrow> Some (with_record ls t (rr_bytes DNS_TYPE_A (long_bytes (rec_ip r))) rs)
            | None \<Rightarrow> denial ls t db)
         else if t = 2 then
           if rs \<noteq> [] then Some (flags_authority, length rs, 0, asked ls t @ ns_bytes rs) else denial ls t db
         else None)"

text \<open>Undefined when the packet does not fit, otherwise the length of the packet and the buffer.\<close>

definition delivered :: "bytes \<Rightarrow> (u16 \<times> nat \<times> nat \<times> bytes) option \<Rightarrow> (nat \<times> bytes) option" where
  "delivered msg spec = (case spec of None \<Rightarrow> Some (0, msg) | Some (u, an, ns, body) \<Rightarrow> replied msg u an ns body)"

lemma answer_authority_delivered:
  assumes "0 \<in> set (rr_name query)" "cstr (rr_name query) = name_text ls" "question_bytes query = asked ls t" "db_ok m"
  shows "answer_authority query msg m = delivered msg (denial ls t (dbv m))"
  using assms(1,4) unfolding answer_authority_eq [OF assms(1)] assms(2,3)
  by (auto simp: delivered_def denial_def Let_def authoritative_def authority_lookup_None)

lemma servers_lookup: "fst (dns_lookup name (- 1) m) \<noteq> None \<longleftrightarrow> servers_of name (dbv m) \<noteq> []"
  by (rule dns_lookup_cases [of "- 1" name m]) simp_all

lemma ucast_type:
  "(ucast (t :: u16) :: u32) = 12 \<longleftrightarrow> t = 12" "(ucast t :: u32) = 1 \<longleftrightarrow> t = 1" "(ucast t :: u32) = 2 \<longleftrightarrow> t = 2"
proof -
  have "unat t < 2 ^ 16" using unsigned_less [of t] by simp
  then have "unat t < 2 ^ 32" by simp
  then have "unat (ucast t :: u32) = unat t" by (simp add: unsigned_ucast_eq take_bit_nat_eq_self)
  then show "(ucast t :: u32) = 12 \<longleftrightarrow> t = 12" "(ucast t :: u32) = 1 \<longleftrightarrow> t = 1" "(ucast t :: u32) = 2 \<longleftrightarrow> t = 2"
    by (simp_all add: word_unat_eq_iff)
qed

lemma master_answer_delivered:
  assumes "0 \<in> set (rr_name query)" "cstr (rr_name query) = name_text ls" "question_bytes query = asked ls t"
    and "rr_type query = ucast t" "db_ok m"
  shows "master_answer query msg m = delivered msg (answer_spec ls t (dbv m))"
proof -
  let ?n = "name_text ls"
  have t: "rr_type query = DNS_TYPE_PTR \<longleftrightarrow> t = 12" "rr_type query = DNS_TYPE_A \<longleftrightarrow> t = 1"
    "rr_type query = DNS_TYPE_NS \<longleftrightarrow> t = 2"
    unfolding assms(4) DNS_TYPE_PTR_def DNS_TYPE_A_def DNS_TYPE_NS_def by (simp_all add: ucast_type)
  note na = answer_authority_delivered [OF assms(1-3,5), of msg]
  have w: "replied msg (auth_flags rs) 1 (length rs) (answer_body query rr rs) =
      delivered msg (Some (with_record ls t rr rs))" for rr rs
    by (simp add: delivered_def with_record_def answer_body_def assms(3) Let_def)
  have a: "answer_a query r msg m = delivered msg (Some (with_record ls t (rr_bytes DNS_TYPE_A (long_bytes (rec_ip r))) (servers_of ?n (dbv m))))" for r
    unfolding answer_a_eq [OF assms(1) refl] assms(2) w ..
  have p: "answer_ptr query r msg m = delivered msg
      (Some (with_record ls t (rr_bytes DNS_TYPE_PTR (name_bytes (st_string (rec_object r)))) (servers_of ?n (dbv m))))" for r
    unfolding answer_ptr_eq [OF assms(1) refl] assms(2) w ..
  have n: "answer_ns query msg m = delivered msg (Some (flags_authority, length (servers_of ?n (dbv m)), 0, asked ls t @ ns_bytes (servers_of ?n (dbv m))))"
    unfolding answer_ns_eq [OF assms(1) refl] assms(2,3) by (simp add: delivered_def)
  consider "t = 12" | "t = 1" | "t = 2" | "t \<noteq> 12" "t \<noteq> 1" "t \<noteq> 2" by blast
  then show ?thesis
  proof cases
    case 1
    let ?k = "int (length ?n) - int (length ARPADOMAIN)"
    have k: "?k < 0 \<or> drop (nat ?k) ?n \<noteq> ARPADOMAIN \<longleftrightarrow> arpa_of ?n = None"
      "\<not> (?k < 0 \<or> drop (nat ?k) ?n \<noteq> ARPADOMAIN) \<Longrightarrow> arpa_of ?n = Some (take (nat ?k) ?n)"
    proof -
      have "nat ?k = length ?n - length ARPADOMAIN" "?k < 0 \<longleftrightarrow> \<not> length ARPADOMAIN \<le> length ?n" by linarith+
      then show "?k < 0 \<or> drop (nat ?k) ?n \<noteq> ARPADOMAIN \<longleftrightarrow> arpa_of ?n = None"
        "\<not> (?k < 0 \<or> drop (nat ?k) ?n \<noteq> ARPADOMAIN) \<Longrightarrow> arpa_of ?n = Some (take (nat ?k) ?n)"
        by (simp_all only: arpa_of_def Let_def) (simp_all split: if_splits)
    qed
    have m: "master_answer query msg m = (if ?k < 0 \<or> drop (nat ?k) ?n \<noteq> ARPADOMAIN then Some (0, msg)
        else (case ptr_lookup (take (nat ?k) ?n) m of Some r \<Rightarrow> answer_ptr query r msg m | None \<Rightarrow> answer_authority query msg m))"
      using 1 t assms(1,2) by (simp add: master_answer_def c_strlen_def Let_def)
    show ?thesis
    proof (cases "?k < 0 \<or> drop (nat ?k) ?n \<noteq> ARPADOMAIN")
      case True
      then show ?thesis using m k(1) 1 by (simp add: answer_spec_def delivered_def Let_def)
    next
      case False
      then show ?thesis using m k(2) [OF False] 1 na p
        by (simp add: answer_spec_def ptr_lookup_plain [OF assms(5)] Let_def split: option.split)
    qed
  next
    case 2
    then show ?thesis using t na a assms(2)
      by (simp add: master_answer_def answer_spec_def name_lookup_plain [OF assms(5)] Let_def split: option.split)
  next
    case 3
    then show ?thesis using t na n servers_lookup [of ?n m] assms(2)
      by (simp add: master_answer_def answer_spec_def Let_def)
  next
    case 4
    then show ?thesis using t by (simp add: master_answer_def answer_spec_def delivered_def Let_def)
  qed
qed

lemma master_lookup_delivered:
  assumes "asks msg len ls t" "all_valid tbl" "length (rr_name y) = RR_NAMESIZE"
    and "master_onoff m \<noteq> 0" "master_initialised m \<noteq> 0" "db_ok m"
  shows "master_lookup tbl y msg len m =
    map_option (\<lambda>(n, msg'). (n, msg', m)) (delivered msg (answer_spec (lower ls) t (dbv m)))"
proof -
  obtain query where q: "parse_query tbl y msg len = Some (0, query)" "rr_type query = ucast t"
    "rr_class query = DNS_CLASS_INET" "GET_OPCODE (rr_flags query) = 0" "0 \<in> set (rr_name query)"
    "cstr (rr_name query) = name_text (lower ls)" "question_bytes query = asked (lower ls) t"
    by (rule asks_query [OF assms(1-3)])
  have "master_answer query msg m = delivered msg (answer_spec (lower ls) t (dbv m))"
    by (rule master_answer_delivered [OF q(5-7,2) assms(6)])
  then show ?thesis using q(1,3,4) assms(4,5)
    by (simp add: master_lookup_def) (cases "delivered msg (answer_spec (lower ls) t (dbv m))"; auto)
qed

section \<open>The sizes of answers\<close>

lemma asked_length: "length (asked ls t) = length (dotted ls) + 5"
  by (simp add: asked_def length_wire_name)

lemma rr_bytes_length: "length (rr_bytes t d) = 10 + length d"
  by (simp add: rr_bytes_def)

lemma ns_bytes_length: "length (ns_bytes rs) = (\<Sum>r\<leftarrow>rs. 12 + length (name_bytes (server_name r)))"
  unfolding ns_bytes_def by (induction rs) (simp_all add: rr_bytes_length)

lemma label_bytes_length: "length (label_bytes name) \<le> Suc (length name)"
proof (induction name rule: label_bytes.induct)
  case (1 name)
  define l where "l = takeWhile (\<lambda>c. c \<noteq> 46) name"
  show ?case
  proof (cases "l = []")
    case True
    then show ?thesis by (simp add: label_bytes.simps [of name] l_def)
  next
    case False
    have k: "length l \<le> length name" unfolding l_def by (rule length_takeWhile_le)
    have i: "length (label_bytes (drop (Suc (length l)) name)) \<le> Suc (length name - Suc (length l))"
      using "1.IH" [OF l_def False] by simp
    show ?thesis
    proof (cases "length l = length name")
      case True
      then have "label_bytes (drop (Suc (length l)) name) = []" by (simp add: label_bytes.simps [of "[]"])
      then show ?thesis using False True by (simp add: label_bytes.simps [of name] l_def [symmetric])
    next
      case len: False
      then show ?thesis using False k i by (simp add: label_bytes.simps [of name] l_def [symmetric])
    qed
  qed
qed

lemma name_bytes_length: "length (name_bytes name) \<le> length name + 2"
  using label_bytes_length [of name] by (simp add: name_bytes_def)

lemma dotted_length_lower: "length (dotted (lower ls)) = length (dotted ls)"
  by (simp add: dotted_lower)

lemma delivered_None: "delivered msg (Some (u, an, ns, body)) = None \<longleftrightarrow> \<not> fits msg body"
  by (simp add: delivered_def replied_def)

lemma fits_512:
  assumes "length msg \<le> PACKET_ASSEMBLYSIZE"
  shows "fits msg body \<longleftrightarrow> PACKET_DATABEGIN + length body \<le> length msg"
  using assms by (auto simp: fits_def)

section \<open>The answer that says nothing\<close>

lemma master_dontknow_reply:
  assumes "asks msg len ls t" "all_valid tbl" "length (rr_name y) = RR_NAMESIZE"
    and "master_onoff m \<noteq> 0" "master_initialised m \<noteq> 0" "UDP_MAXSIZE \<le> length answer"
  defines "n \<equiv> PACKET_DATABEGIN + length (asked ls t)"
  shows "master_dontknow tbl y msg len answer m =
    Some (n, [0, 0, 0x80, 1, 0, 1, 0, 0, 0, 0, 0, 0] @ asked (lower ls) t @ drop n answer, m)"
proof -
  obtain query where q: "parse_query tbl y msg len = Some (0, query)" "rr_class query = DNS_CLASS_INET"
    "GET_OPCODE (rr_flags query) = 0" "0 \<in> set (rr_name query)" "question_bytes query = asked (lower ls) t"
    by (rule asks_query [OF assms(1-3)])
  let ?b = "asked (lower ls) t"
  have d: "length (dotted ls) < 256" using assms(1) by (simp add: asks_def RR_NAMESIZE_def)
  have n: "n = PACKET_DATABEGIN + length ?b" by (simp add: n_def asked_length dotted_length_lower)
  have l: "length (header_room @ ?b) \<le> PACKET_ASSEMBLYSIZE" "n \<le> length answer"
    using d assms(6) by (simp_all add: n asked_length dotted_length_lower PACKET_DATABEGIN_def PACKET_ASSEMBLYSIZE_def UDP_MAXSIZE_def)
  let ?u = "SET_RCODE (SET_AA (SET_QR 0 1) 0) 1"
  let ?x = "fresh\<lparr>h_ancount := 0, h_u := ?u\<rparr>"
  have u: "?u = 0x8001" by (simp add: SET_RCODE_def SET_AA_def SET_QR_def masks MASK_QR_def)
  have w: "header_words ?x = [0x80, 1, 0, 1, 0, 0, 0, 0, 0, 0]"
    by (simp add: header_words_def u hi8_def lo8_def)
  have b: "begin_assembly query = Some (holding (header_room @ ?b) fresh)"
    using begin_assembly_holding [OF q(4)] l(1) q(5) by (simp add: append_ok_def)
  have e: "end_assembly ((holding (header_room @ ?b) fresh)\<lparr>h_ancount := 0, h_u := SET_RCODE (SET_AA (h_u (holding (header_room @ ?b) fresh)) 0) 1\<rparr>) =
      end_assembly (holding (header_room @ ?b) ?x)"
    by (simp add: holding_upd)
  have t: "take n ([0, 0] @ header_words ?x @ ?b @ z) = [0, 0] @ header_words ?x @ ?b" for z
  proof -
    have n: "n = Suc (Suc (10 + length ?b))" by (simp add: n PACKET_DATABEGIN_def)
    have "take (10 + length ?b) (header_words ?x @ ?b @ z) = header_words ?x @ ?b" by simp
    then show ?thesis unfolding n append_Cons append_Nil take_Suc_Cons by (simp only:)
  qed
  show ?thesis using q(1-3) assms(4,5) b e l t
    by (simp add: master_dontknow_def end_assembly_holding [OF l(1)] c_memcpy_def w n [symmetric])
      (simp add: n PACKET_DATABEGIN_def)
qed

end
