(* ===== verification/Local.thy ===== *)
theory Local
  imports Answer
begin

text \<open>
  The local master inside the program: the condition under which it answers every request, whatever the packet
  holds, within the 512 bytes of the UDP buffer, and keeps its database; and what becomes of this condition when
  SIGHUP makes it read its files again.
\<close>

section \<open>The room for name servers\<close>

lemma domain_iff:
  fixes name d :: bytes
  defines "k \<equiv> length name - length d"
  shows "length d \<le> length name \<and> (0 < k \<and> name ! (k - 1) = 46 \<and> drop k name = d \<or> k = 0 \<and> name = d) \<longleftrightarrow>
    name = d \<or> (\<exists>p. name = p @ 46 # d)" (is "?l \<longleftrightarrow> ?r")
proof
  assume l: ?l
  show ?r
  proof (cases "k = 0")
    case False
    then have k: "k - 1 < length name" "Suc (k - 1) = k" "name ! (k - 1) = 46" "drop k name = d" using l by (auto simp: k_def)
    have "name = take (k - 1) name @ 46 # d" using id_take_nth_drop [OF k(1)] k(2-4) by simp
    then show ?thesis by blast
  qed (use l in simp)
next
  assume ?r
  then show ?l
  proof
    assume "\<exists>p. name = p @ 46 # d"
    then obtain p where p: "name = p @ 46 # d" ..
    then have "k = Suc (length p)" by (simp add: k_def)
    then show ?thesis using p by (simp add: nth_append)
  qed (simp add: k_def)
qed

lemma dns_matches_iff:
  "dns_matches name r \<longleftrightarrow>
     (\<exists>t. rec_data r = Dns_server t) \<and> (name = st_string (rec_object r) \<or> (\<exists>p. name = p @ 46 # st_string (rec_object r)))"
proof (cases "rec_data r")
  case (Dns_server t)
  define d where "d = st_string (rec_object r)"
  define k where "k = length name - length d"
  have i: "int (length name) - int (length d) < 0 \<longleftrightarrow> \<not> length d \<le> length name" by linarith
  have "length d \<le> length name \<Longrightarrow> int (length name) - int (length d) = int k" by (simp add: k_def)
  moreover have "nat (int k - 1) = k - 1" by linarith
  ultimately have "dns_matches name r \<longleftrightarrow> length d \<le> length name \<and> (0 < k \<and> name ! (k - 1) = 46 \<and> drop k name = d \<or> k = 0 \<and> name = d)"
    using Dns_server i by (auto simp: dns_matches_def Let_def d_def [symmetric])
  then show ?thesis unfolding k_def domain_iff using Dns_server by (simp add: d_def)
qed (simp_all add: dns_matches_def)

lemma domains_nest:
  assumes "length b \<le> length a" "name = a \<or> name = p @ 46 # a" "name = b \<or> name = q @ (46 :: byte) # b"
  shows "a = b \<or> (\<exists>q. a = q @ 46 # b)"
proof (cases "name = a")
  case True
  then show ?thesis using assms(3) by blast
next
  case False
  then have n: "name = p @ 46 # a" using assms(2) by blast
  then have "length b < length name" using assms(1) by simp
  then have "p @ 46 # a = q @ 46 # b" using assms(3) n by auto
  then obtain us where "p = q @ us \<and> us @ 46 # a = 46 # b \<or> p @ us = q \<and> 46 # a = us @ 46 # b"
    by (auto simp: append_eq_append_conv2)
  moreover have "us = []" if "us @ 46 # a = 46 # b"
    using arg_cong [OF that, of length] assms(1) by (cases us) simp_all
  ultimately show ?thesis by (cases us) auto
qed

text \<open>The bytes that a name server takes at most: its record, and the name of its domain.\<close>

definition ns_cost :: "dnsrec \<Rightarrow> nat" where
  "ns_cost r = 14 + length (st_string (rec_object r)) + length (server_name r)"

text \<open>
  The name servers of one domain, with those of the domains around it, leave room for the rest of an answer: 197
  bytes are what the longest answer without them, to a question for the name of an address, leaves of 512.
\<close>

definition roomy :: "dnsrec list \<Rightarrow> bool" where
  "roomy db \<longleftrightarrow> (\<forall>r \<in> set db. (\<Sum>r'\<leftarrow>servers_of (st_string (rec_object r)) db. ns_cost r') \<le> 197)"

lemma servers_of_longest:
  assumes "servers_of name db \<noteq> []"
  obtains r where "r \<in> set db" "servers_of name db = servers_of (st_string (rec_object r)) db"
proof -
  let ?o = "\<lambda>r. st_string (rec_object r)"
  let ?M = "set (servers_of name db)"
  have "finite ?M" "?M \<noteq> {}" using assms by simp_all
  then obtain r where r: "r \<in> ?M" "\<forall>x \<in> ?M. length (?o x) \<le> length (?o r)"
    using obtains_MAX [of ?M "\<lambda>x. length (?o x)"] Max_ge [of "(\<lambda>x. length (?o x)) ` ?M"] by (metis finite_imageI imageI)
  have rm: "dns_matches name r" "r \<in> set db" using r(1) by (simp_all add: servers_of_def)
  have "dns_matches name x = dns_matches (?o r) x" if x: "x \<in> set db" for x
  proof
    assume m: "dns_matches name x"
    then have "length (?o x) \<le> length (?o r)" using x r(2) by (simp add: servers_of_def)
    moreover obtain p where p: "name = ?o r \<or> name = p @ 46 # ?o r" using rm(1) by (auto simp: dns_matches_iff)
    moreover obtain q where q: "name = ?o x \<or> name = q @ 46 # ?o x" using m by (auto simp: dns_matches_iff)
    ultimately have "?o r = ?o x \<or> (\<exists>q. ?o r = q @ 46 # ?o x)" by (rule domains_nest)
    then show "dns_matches (?o r) x" using m by (auto simp: dns_matches_iff)
  next
    assume m: "dns_matches (?o r) x"
    obtain p where p: "name = ?o r \<or> name = p @ 46 # ?o r" using rm(1) by (auto simp: dns_matches_iff)
    obtain q where q: "?o r = ?o x \<or> ?o r = q @ 46 # ?o x" using m by (auto simp: dns_matches_iff)
    have "name = ?o x \<or> (\<exists>q. name = q @ 46 # ?o x)"
    proof (cases "?o r = ?o x")
      case False
      then have "name = q @ 46 # ?o x \<or> name = (p @ 46 # q) @ 46 # ?o x" using p q by auto
      then show ?thesis by blast
    qed (use p in auto)
    then show "dns_matches name x" using m by (auto simp: dns_matches_iff)
  qed
  then have "servers_of name db = servers_of (?o r) db" unfolding servers_of_def by (intro filter_cong) auto
  then show ?thesis using that rm(2) by blast
qed

lemma roomyD:
  assumes "roomy db"
  shows "(\<Sum>r\<leftarrow>servers_of name db. ns_cost r) \<le> 197"
proof (cases "servers_of name db = []")
  case False
  then show ?thesis using servers_of_longest [OF False] assms unfolding roomy_def by metis
qed simp

lemma auth_bytes_cost: "length (auth_bytes pos here rs) \<le> (\<Sum>r\<leftarrow>rs. ns_cost r)"
proof (induction rs arbitrary: pos here)
  case (Cons r rs)
  let ?own = "if pos = 0 then name_bytes (st_string (rec_object r)) else [0xC0, of_nat pos AND 0x3F]"
  have own: "length ?own \<le> length (st_string (rec_object r)) + 2" using name_bytes_length by simp
  have srv: "length (rr_bytes DNS_TYPE_NS (name_bytes (server_name r))) \<le> length (server_name r) + 12"
    using name_bytes_length [of "server_name r"] by (simp add: rr_bytes_length)
  show ?case using own srv Cons.IH [of "if pos = 0 then here else pos" "here + length (?own @ rr_bytes DNS_TYPE_NS (name_bytes (server_name r)))"]
    by (simp add: Let_def ns_cost_def)
qed simp

lemma ns_bytes_cost: "length (ns_bytes rs) \<le> (\<Sum>r\<leftarrow>rs. ns_cost r)"
proof -
  have "(\<Sum>r\<leftarrow>rs. 12 + length (name_bytes (server_name r))) \<le> (\<Sum>r\<leftarrow>rs. ns_cost r)"
  proof (rule sum_list_mono)
    fix r
    show "12 + length (name_bytes (server_name r)) \<le> ns_cost r" using name_bytes_length [of "server_name r"] by (simp add: ns_cost_def)
  qed
  then show ?thesis by (simp add: ns_bytes_length)
qed

section \<open>An answer to every packet\<close>

text \<open>The answer keeps the identifier and the size of the buffer, and has at most 512 bytes; 0 is no answer.\<close>

definition good_answer :: "bytes \<Rightarrow> (nat \<times> bytes) option \<Rightarrow> bool" where
  "good_answer msg x \<longleftrightarrow> (\<exists>n m. x = Some (n, m) \<and> length m = length msg \<and> take 2 m = take 2 msg \<and>
     (n = 0 \<and> m = msg \<or> 12 \<le> n \<and> n \<le> UDP_MAXSIZE))"

lemma replied_good:
  assumes "length body \<le> 500" "UDP_MAXSIZE \<le> length msg"
  shows "good_answer msg (replied msg u an ns body)"
proof -
  have f: "fits msg body" using assms by (simp add: fits_def PACKET_DATABEGIN_def PACKET_ASSEMBLYSIZE_def UDP_MAXSIZE_def)
  have "length (reply_packet msg u an ns body) = length msg" "take 2 (reply_packet msg u an ns body) = take 2 msg"
    using assms by (simp_all add: reply_packet_def PACKET_DATABEGIN_def UDP_MAXSIZE_def)
  then show ?thesis using f assms(1) by (simp add: good_answer_def replied_def PACKET_DATABEGIN_def UDP_MAXSIZE_def)
qed

lemma question_bytes_length: "length (question_bytes query) \<le> length (cstr (rr_name query)) + 6"
  using name_bytes_length [of "cstr (rr_name query)"] by (simp add: question_bytes_def)

lemma answer_body_length:
  assumes "roomy db" "rs = servers_of name db" "length (cstr (rr_name query)) + length rr \<le> 295"
  shows "length (answer_body query rr rs) \<le> 500"
  using question_bytes_length [of query] auth_bytes_cost [of 0 "PACKET_DATABEGIN + length (question_bytes query @ [0xC0, 0x0C] @ rr)" rs]
    roomyD [OF assms(1), of name] assms(2,3)
  by (simp add: answer_body_def Let_def)

lemma arpa_short:
  assumes "ptr_lookup (take k name) m = Some r" "db_ok m" "drop k name = ARPADOMAIN"
  shows "length name \<le> 28" "length (st_string (rec_object r)) < 256"
proof -
  have "find (host_at (take k name)) (dbv m) = Some r" using assms(1) ptr_lookup_plain [OF assms(2)] by simp
  then have r: "host_at (take k name) r" "r \<in> set (dbv m)" by (auto simp: find_Some_iff)
  then have "\<exists>ip. take k name = inet_ntoa (bswap32 ip)" unfolding host_at_def by (cases "rec_data r") (auto dest: sym)
  then have "length (take k name) \<le> 15" using inet_ntoa_length by metis
  moreover have "length (take k name) + length (drop k name) = length name"
    using append_take_drop_id [of k name] length_append by metis
  ultimately show "length name \<le> 28" unfolding assms(3) ARPADOMAIN_plain(1) by linarith
  show "length (st_string (rec_object r)) < 256" using db_okD [OF assms(2) r(2)] by (simp add: record_ok_def)
qed

lemma answer_authority_good:
  assumes "0 \<in> set (rr_name query)" "length (cstr (rr_name query)) < 256" "UDP_MAXSIZE \<le> length msg"
  shows "good_answer msg (answer_authority query msg m)"
  unfolding answer_authority_eq [OF assms(1)]
  using question_bytes_length [of query] assms(2) replied_good [OF _ assms(3)] by (simp add: good_answer_def)

lemma master_answer_good:
  assumes "0 \<in> set (rr_name query)" "length (cstr (rr_name query)) < 256" "UDP_MAXSIZE \<le> length msg" "db_ok m" "roomy (dbv m)"
  shows "good_answer msg (master_answer query msg m)"
proof -
  let ?n = "cstr (rr_name query)" and ?k = "int (length (cstr (rr_name query))) - int (length ARPADOMAIN)"
  note na = answer_authority_good [OF assms(1-3), of m]
  have none: "good_answer msg (Some (0, msg))" by (simp add: good_answer_def)
  have a: "good_answer msg (answer_a query r msg m)" for r
    unfolding answer_a_eq [OF assms(1) refl]
    by (rule replied_good [OF answer_body_length [OF assms(5) refl] assms(3)]) (use assms(2) in \<open>simp add: rr_bytes_length\<close>)
  have n: "good_answer msg (answer_ns query msg m)"
    unfolding answer_ns_eq [OF assms(1) refl]
    by (rule replied_good [OF _ assms(3)])
      (use question_bytes_length [of query] assms(2) ns_bytes_cost [of "servers_of ?n (dbv m)"] roomyD [OF assms(5), of ?n] in simp)
  have p: "good_answer msg (answer_ptr query r msg m)" if "ptr_lookup (take k ?n) m = Some r" "drop k ?n = ARPADOMAIN" for k r
  proof -
    note s = arpa_short [OF that(1) assms(4) that(2)]
    show ?thesis unfolding answer_ptr_eq [OF assms(1) refl]
      by (rule replied_good [OF answer_body_length [OF assms(5) refl] assms(3)])
        (use s name_bytes_length [of "st_string (rec_object r)"] in \<open>simp add: rr_bytes_length\<close>)
  qed
  have len: "c_strlen (rr_name query) = Some (length ?n)" using assms(1) by (simp add: c_strlen_def)
  show ?thesis
  proof (cases "rr_type query = DNS_TYPE_PTR")
    case True
    then show ?thesis using na none p [of "nat ?k"] len by (auto simp: master_answer_def Let_def split: option.split)
  next
    case False
    then show ?thesis using na none a n by (auto simp: master_answer_def split: option.split)
  qed
qed
section \<open>The master between two requests\<close>

text \<open>
  The database is built, is small enough, and stays so when the files are read again as they are in any state of
  \<open>F\<close>, the states of the file system that a reload may find. Nothing is asked of a master that is off.
\<close>

definition reloads_well :: "'a master_state_scheme \<Rightarrow> bool" where
  "reloads_well m \<longleftrightarrow> (case master_init (reset_master (m\<lparr>master_reload := 1\<rparr>)) of None \<Rightarrow> False | Some m1 \<Rightarrow> roomy (dbv m1))"

definition master_safe :: "(bytes \<Rightarrow> bytes option) set \<Rightarrow> 'a master_state_scheme \<Rightarrow> bool" where
  "master_safe F m \<longleftrightarrow> master_onoff m = 0 \<or>
     master_initialised m = 1 \<and> (master_reload m = 0 \<or> master_reload m = 1 \<and> reloads_well m) \<and>
     db_ok m \<and> buffers_ok m \<and> roomy (dbv m) \<and> (\<forall>f \<in> F. reloads_well (m\<lparr>files := f\<rparr>))"

lemma master_safe_off: "master_onoff m = 0 \<Longrightarrow> master_safe F m"
  by (simp add: master_safe_def)

lemma cstr_shorter: "0 \<in> set (b :: bytes) \<Longrightarrow> length (cstr b) < length b"
  using cstr_length_le [of _ b] by (fastforce simp: in_set_conv_nth)

lemma master_lookup_safe:
  assumes "master_safe F m" "length tbl = 256" "rr_ok y" "len \<le> length msg" "UDP_MAXSIZE \<le> length msg"
  shows "\<exists>n msg'. master_lookup tbl y msg len m = Some (n, msg', m) \<and> good_answer msg (Some (n, msg'))"
proof (cases "master_onoff m = 0")
  case True
  then show ?thesis by (simp add: master_lookup_def good_answer_def)
next
  case False
  then have m: "master_initialised m = 1" "db_ok m" "roomy (dbv m)" using assms(1) by (simp_all add: master_safe_def)
  have l6: "6 \<le> length msg" using assms(5) by (simp add: UDP_MAXSIZE_def)
  obtain r q where q: "parse_query tbl y msg len = Some (r, q)" "length (rr_name q) = RR_NAMESIZE" "r = 0 \<longrightarrow> 0 \<in> set (rr_name q)"
    using parse_query_safe [OF assms(2,4) l6 assms(3)] by blast
  show ?thesis
  proof (cases "r \<noteq> 0 \<or> rr_class q \<noteq> DNS_CLASS_INET \<or> GET_OPCODE (rr_flags q) \<noteq> 0")
    case True
    then show ?thesis using False m(1) q(1) by (simp add: master_lookup_def good_answer_def)
  next
    case ask: False
    then have z: "0 \<in> set (rr_name q)" using q(3) by simp
    then have "length (cstr (rr_name q)) < 256" using q(2) cstr_shorter [of "rr_name q"] by (simp add: RR_NAMESIZE_def)
    from master_answer_good [OF z this assms(5) m(2,3)] obtain n msg' where
      "master_answer q msg m = Some (n, msg')" "good_answer msg (Some (n, msg'))" unfolding good_answer_def by auto
    then show ?thesis using False m(1) q(1) ask by (simp add: master_lookup_def)
  qed
qed

lemma master_dontknow_safe:
  assumes "master_safe F m" "length tbl = 256" "rr_ok y" "len \<le> length msg" "6 \<le> length msg" "UDP_MAXSIZE \<le> length answer"
  shows "\<exists>n a. master_dontknow tbl y msg len answer m = Some (n, a, m) \<and> (master_onoff m = 0 \<longrightarrow> n = 0)"
proof (cases "master_onoff m = 0")
  case True
  then show ?thesis by (simp add: master_dontknow_def)
next
  case False
  then have m: "master_initialised m = 1" using assms(1) by (simp add: master_safe_def)
  obtain r q where q: "parse_query tbl y msg len = Some (r, q)" "length (rr_name q) = RR_NAMESIZE" "r = 0 \<longrightarrow> 0 \<in> set (rr_name q)"
    using parse_query_safe [OF assms(2,4,5,3)] by blast
  show ?thesis
  proof (cases "r \<noteq> 0 \<or> rr_class q \<noteq> DNS_CLASS_INET \<or> GET_OPCODE (rr_flags q) \<noteq> 0")
    case True
    then show ?thesis using False m q(1) by (simp add: master_dontknow_def)
  next
    case ask: False
    then have z: "0 \<in> set (rr_name q)" using q(3) by simp
    let ?b = "header_room @ question_bytes q" and ?x = "fresh\<lparr>h_ancount := 0, h_u := SET_RCODE (SET_AA (h_u fresh) 0) 1\<rparr>"
    have "length (cstr (rr_name q)) < 256" using z q(2) cstr_shorter [of "rr_name q"] by (simp add: RR_NAMESIZE_def)
    then have l: "length ?b \<le> PACKET_ASSEMBLYSIZE" "length ?b \<le> length answer"
      using question_bytes_length [of q] assms(6) by (simp_all add: PACKET_DATABEGIN_def PACKET_ASSEMBLYSIZE_def UDP_MAXSIZE_def)
    have b: "begin_assembly q = Some (holding ?b fresh)"
      using begin_assembly_holding [OF z] l(1) by (simp add: append_ok_def)
    have e: "(holding ?b fresh)\<lparr>h_ancount := 0, h_u := SET_RCODE (SET_AA (h_u (holding ?b fresh)) 0) 1\<rparr> = holding ?b ?x"
      by (simp add: holding_upd)
    obtain x1 where x1: "end_assembly (holding ?b ?x) = Some x1" "h_len x1 = length ?b" "length ?b \<le> length (h_packet x1)"
      using end_assembly_holding [OF l(1), of ?x] by (simp add: PACKET_DATABEGIN_def)
    then have "c_memcpy answer 0 (h_packet x1) 0 (h_len x1) \<noteq> None" using l(2) by (simp add: c_memcpy_def)
    then show ?thesis using False m q(1) ask b e x1(1) by (auto simp: master_dontknow_def)
  qed
qed

text \<open>SIGHUP makes the master read its files again, as they are then.\<close>

lemma master_hangup_safe:
  assumes "master_safe F m" "f \<in> F"
  shows "master_safe F (m\<lparr>files := f, master_reload := 1\<rparr>)"
  using assms by (auto simp: master_safe_def db_ok_def buffers_ok_def reloads_well_def)

lemma master_reinit_safe:
  assumes "master_safe F m"
  shows "\<exists>m1. master_reinit m = Some m1 \<and> master_safe F m1"
proof (cases "master_onoff m \<noteq> 0 \<and> master_reload m \<noteq> 0")
  case True
  let ?m = "reset_master m"
  have m: "master_initialised m = 1" "buffers_ok m" "\<forall>f \<in> F. reloads_well (m\<lparr>files := f\<rparr>)" "master_reload m = 1" "reloads_well m"
    using assms True by (simp_all add: master_safe_def)
  have "db_ok ?m" "buffers_ok ?m" "master_onoff ?m \<noteq> 0"
    using m(2) True by (simp_all add: reset_master_def db_ok_def buffers_ok_def)
  from master_init_extends [OF this] obtain rs k where
    i: "master_init ?m = Some (?m\<lparr>dbv := rs, dbmax := k, master_initialised := 1\<rparr>)"
      "db_ok (?m\<lparr>dbv := rs, dbmax := k, master_initialised := 1\<rparr>)"
    by (auto simp: Let_def reset_master_def)
  let ?r = "?m\<lparr>dbv := rs, dbmax := k, master_initialised := 1, master_reload := 0\<rparr>"
  have "m\<lparr>master_reload := 1\<rparr> = m" using m(4) by simp
  then have r: "roomy rs" using m(5) i(1) by (simp add: reloads_well_def)
  have same: "reloads_well (?r\<lparr>files := g\<rparr>) = reloads_well (m\<lparr>files := g\<rparr>)" for g
  proof -
    have "reset_master (?r\<lparr>files := g, master_reload := 1\<rparr>) = reset_master (m\<lparr>files := g, master_reload := 1\<rparr>)"
      using m(1) by (simp add: reset_master_def)
    then show ?thesis by (simp only: reloads_well_def)
  qed
  have "master_safe F ?r"
    unfolding master_safe_def same using m i(2) r by (simp add: db_ok_def buffers_ok_def reset_master_def)
  moreover have "master_reinit m = Some ?r" using i(1) True by (simp add: master_reinit_def)
  ultimately show ?thesis by blast
next
  case False
  show ?thesis
  proof (cases "master_onoff m = 0")
    case on: False
    then have "m\<lparr>master_reload := 0\<rparr> = m" using False by simp
    then have "master_reinit m = Some m" using False on by (simp add: master_reinit_def)
    then show ?thesis using assms by blast
  qed (simp add: master_reinit_def master_safe_def)
qed

text \<open>The start: \<open>master_init\<close> makes the master safe when its two readings of the files leave room.\<close>

definition master_ready :: "(bytes \<Rightarrow> bytes option) set \<Rightarrow> 'a master_state_scheme \<Rightarrow> bool" where
  "master_ready F m \<longleftrightarrow> master_onoff m = 0 \<or>
     db_ok m \<and> buffers_ok m \<and> master_reload m = 0 \<and>
     (case master_init m of None \<Rightarrow> False | Some m1 \<Rightarrow> roomy (dbv m1) \<and> (\<forall>f \<in> F. reloads_well (m1\<lparr>files := f\<rparr>)))"

lemma master_init_safe:
  assumes "master_ready F m"
  shows "\<exists>m1. master_init m = Some m1 \<and> master_safe F m1"
proof (cases "master_onoff m = 0")
  case True
  then show ?thesis by (simp add: master_init_def master_safe_def)
next
  case False
  then have m: "db_ok m" "buffers_ok m" "master_reload m = 0" using assms by (simp_all add: master_ready_def)
  from master_init_extends [OF m(1,2) False] obtain m1 where m1: "master_init m = Some m1" "db_ok m1"
    "master_initialised m1 = 1" "buffers_ok m1" "master_reload m1 = 0"
    using m(2,3) by (auto simp: Let_def buffers_ok_def)
  then show ?thesis using assms False by (auto simp: master_ready_def master_safe_def)
qed


end
