(* ===== verification/Requests.thy ===== *)
theory Requests
  imports Replies Local
begin

text \<open>
  What the program does with the queries of its clients, and with its servers: the choice of an interface and of
  a server, the loop that sends a query through the interfaces, the whole handler of a query, the two sweeps over
  the servers, and one iteration of the main loop. The hypotheses on the options are those of \<open>opts_ok\<close>: a
  local master that is off or whose answers fit (\<open>master_safe\<close>), no hosts bound to interfaces, a retry interval, and
  a clock that is not at 0, because the program uses the time at which a server was switched off as the mark that
  it is off.
\<close>

section \<open>The choice of an interface\<close>

text \<open>Whether a server of the interface is active.\<close>

definition has_active :: "'a inf_state_scheme \<Rightarrow> ptr \<Rightarrow> bool" where
  "has_active s i \<longleftrightarrow> (\<exists>n xs. infs s i = Some n \<and> srvlist_at s (srvlist n) xs \<and> (\<exists>p \<in> set (srvlist n # xs). is_active s p))"

lemma path_unique: "path f p xs h \<Longrightarrow> path f p ys h \<Longrightarrow> h \<notin> set xs \<Longrightarrow> h \<notin> set ys \<Longrightarrow> xs = ys"
proof (induction xs arbitrary: p ys)
  case Nil
  then show ?case by (cases ys) auto
next
  case (Cons x xs)
  then show ?case by (cases ys) auto
qed

lemma srvlist_at_unique:
  assumes "srvlist_at s h xs" "srvlist_at s h ys"
  shows "xs = ys"
proof -
  obtain r where r: "srv_nxt s h = Some r" using assms(1) by (auto simp: srvlist_at_def circ_def)
  then have "path (srv_nxt s) r xs h" "path (srv_nxt s) r ys h" "h \<notin> set xs" "h \<notin> set ys"
    using assms by (auto simp: srvlist_at_def circ_def)
  then show ?thesis by (rule path_unique)
qed

lemma has_active_iff:
  assumes "infs s i = Some n" "srvlist_at s (srvlist n) xs"
  shows "has_active s i \<longleftrightarrow> (\<exists>p \<in> set (srvlist n # xs). is_active s p)"
proof
  assume "has_active s i"
  then obtain ys where ys: "srvlist_at s (srvlist n) ys" "\<exists>p \<in> set (srvlist n # ys). is_active s p"
    using assms(1) by (auto simp: has_active_def)
  show "\<exists>p \<in> set (srvlist n # xs). is_active s p" using ys(2) unfolding srvlist_at_unique [OF ys(1) assms(2)] .
qed (use assms in \<open>auto simp: has_active_def\<close>)

lemma upd_current:
  assumes "infs_ok s is" "i \<in> set (inf_list s # is)" "infs s i = Some n"
    and "srvlist_at s (srvlist n) xs" "p = NULL \<or> p \<in> set (srvlist n # xs)"
  defines "t \<equiv> s\<lparr>infs := (infs s)(i \<mapsto> n\<lparr>current := p\<rparr>)\<rparr>"
  shows "upd_inf i (\<lambda>n. n\<lparr>current := p\<rparr>) s = Some t" "infs_ok t is" "same_shape s t"
proof -
  show "upd_inf i (\<lambda>n. n\<lparr>current := p\<rparr>) s = Some t" using assms(3) by (simp add: upd_inf_def t_def)
  show "infs_ok t is" "same_shape s t" using set_current_ok [OF assms(1-5)] by (auto simp: t_def)
qed

text \<open>The two assignments to \<open>current\<close>: the result is an active server of the interface, or \<open>NULL\<close> if it has none.\<close>

lemma next_active_fresh:
  assumes "infs_ok s is" "i \<in> set (inf_list s # is)" "infs s i = Some n" "current n = NULL"
  shows "\<exists>p xs. next_active s i = Some p \<and> srvlist_at s (srvlist n) xs \<and> (p = NULL \<longleftrightarrow> \<not> has_active s i) \<and>
    (p \<noteq> NULL \<longrightarrow> p \<in> set (srvlist n # xs) \<and> is_active s p)"
proof -
  obtain xs where xs: "srvlist_at s (srvlist n) xs" using infs_okD [OF assms(1,2)] assms(3) by auto
  have c: "circ (srv_nxt s) (srvlist n) xs" "NULL \<notin> set (srvlist n # xs)" using xs by (simp_all add: srvlist_at_def)
  have st: "srvlist n \<in> set (srvlist n # xs)" by simp
  have "next_active s i = Some (first_active s (srvlist n # xs) (srvlist n))"
    using next_active_spec [OF assms(3) infs_okD(1) [OF assms(1,2)] xs] assms(4) by simp
  then show ?thesis
    using first_active_NULL [OF c(1) st c(2)] first_active_in [OF _ c(1) st] xs has_active_iff [OF assms(3) xs] by blast
qed

lemma same_srvs_active:
  assumes "same_shape s t" "srvs t = srvs s"
  shows "has_active t = has_active s"
proof
  fix i
  have a: "is_active t = is_active s" using assms(2) by (simp add: is_active_def fun_eq_iff)
  have l: "srvlist_at t = srvlist_at s" using same_shape_srvlist [OF assms(1)] by (simp add: fun_eq_iff)
  have "map_option srvlist (infs t i) = map_option srvlist (infs s i)"
    using assms(1) same_shape_inf [OF assms(1), of i]
    by (cases "infs s i"; cases "infs t i") (auto simp: same_shape_def dest!: spec [of _ i])
  then show "has_active t i = has_active s i"
    unfolding has_active_def a l by (cases "infs s i"; cases "infs t i") auto
qed

lemma circ_at: "circ f h (as @ x # bs) \<Longrightarrow> f x = Some (hd (bs @ [h]))"
  using circ_last [of f h "as @ [x]"] circ_next_last [of f h "as @ [x]"] by (cases bs) auto

lemma circ_next_first:
  assumes "circ f h (as @ x # bs)" "f (hd (bs @ [h])) = Some y" "f h = Some z"
  shows "z = y \<longleftrightarrow> bs = []"
proof (cases bs)
  case (Cons b bs')
  have d: "distinct (h # as @ x # b # bs')" using assms(1) Cons by (simp add: circ_def)
  have y: "y = hd (bs' @ [h])" using circ_at [of f h "as @ [x]" b bs'] assms(1,2) Cons by simp
  have z: "z = hd ((as @ x # b # bs') @ [h])" using circ_next [OF assms(1)] assms(3) Cons by simp
  have "z \<noteq> y" unfolding y z using d by (cases as; cases bs') auto
  then show ?thesis using Cons by simp
qed (use assms in simp)

text \<open>The interfaces in a list, and the one behind each.\<close>

lemma infs_ok_at:
  assumes "infs_ok s is" "is = as @ i # bs"
  shows "\<exists>n. infs s i = Some n \<and> inf_next n = hd (bs @ [inf_list s])" "i \<noteq> inf_list s" "i \<noteq> NULL"
proof -
  have c: "circ (inf_nxt s) (inf_list s) (as @ i # bs)" "NULL \<notin> set is"
    using assms by (auto simp: infs_ok_def inflist_at_def)
  show "\<exists>n. infs s i = Some n \<and> inf_next n = hd (bs @ [inf_list s])" using circ_at [OF c(1)] by simp
  show "i \<noteq> inf_list s" "i \<noteq> NULL" using c assms(2) by (auto simp: circ_def)
qed

lemma choose_inf_step:
  assumes "infs_ok s is" "is = as @ i # bs"
  shows "\<exists>n p t. infs s i = Some n \<and> infs_ok t is \<and> same_shape s t \<and> t = s\<lparr>infs := (infs s)(i \<mapsto> n\<lparr>current := p\<rparr>)\<rparr> \<and>
    (p = NULL \<longleftrightarrow> \<not> has_active s i) \<and> (p \<noteq> NULL \<longrightarrow> is_active s p) \<and>
    choose_inf i s = (if has_active s i then Some (i, t) else if bs = [] then Some (inf_list s, t) else choose_inf (hd bs) t)"
proof -
  have i: "i \<in> set (inf_list s # is)" using assms(2) by simp
  obtain n where n: "infs s i = Some n" "inf_next n = hd (bs @ [inf_list s])" using infs_ok_at(1) [OF assms] by blast
  obtain xs where xs: "srvlist_at s (srvlist n) xs" using infs_okD(2) [OF assms(1) i] n(1) by auto
  let ?n = "n\<lparr>current := NULL\<rparr>"
  define s1 where "s1 = s\<lparr>infs := (infs s)(i \<mapsto> ?n)\<rparr>"
  have s1: "upd_inf i (\<lambda>n. n\<lparr>current := NULL\<rparr>) s = Some s1" "infs_ok s1 is" "same_shape s s1"
    using upd_current [OF assms(1) i n(1) xs, of NULL] by (simp_all add: s1_def)
  have n1: "infs s1 i = Some ?n" "current ?n = NULL" "i \<in> set (inf_list s1 # is)" using i by (simp_all add: s1_def)
  obtain p ys where p: "next_active s1 i = Some p" "srvlist_at s1 (srvlist ?n) ys" "p = NULL \<longleftrightarrow> \<not> has_active s1 i"
    "p \<noteq> NULL \<longrightarrow> p \<in> set (srvlist ?n # ys) \<and> is_active s1 p"
    using next_active_fresh [OF s1(2) n1(3,1,2)] by blast
  have h: "has_active s1 = has_active s" using same_srvs_active [OF s1(3)] by (simp add: s1_def)
  have a: "is_active s1 = is_active s" by (simp add: is_active_def s1_def fun_eq_iff)
  define t where "t = s1\<lparr>infs := (infs s1)(i \<mapsto> ?n\<lparr>current := p\<rparr>)\<rparr>"
  have t: "upd_inf i (\<lambda>n. n\<lparr>current := p\<rparr>) s1 = Some t" "infs_ok t is" "same_shape s1 t"
    using upd_current [OF s1(2) n1(3,1) p(2), of p] p(4) by (auto simp: t_def)
  have t': "t = s\<lparr>infs := (infs s)(i \<mapsto> n\<lparr>current := p\<rparr>)\<rparr>" "same_shape s t"
    using same_shape_trans [OF s1(3) t(3)] by (simp_all add: t_def s1_def)
  have c: "circ (inf_nxt t) (inf_list t) (as @ i # bs)"
    using t(2) assms(2) by (simp add: infs_ok_def inflist_at_def)
  obtain l where l: "infs t (inf_list t) = Some l" using infs_okD(2) [OF t(2), of "inf_list t"] by auto
  have "hd (bs @ [inf_list t]) \<in> set (inf_list t # is)" using assms(2) by (cases bs) auto
  then obtain m where m: "infs t (hd (bs @ [inf_list t])) = Some m" using infs_okD(2) [OF t(2)] by blast
  have nx: "inf_next l = inf_next m \<longleftrightarrow> bs = []"
    by (rule circ_next_first [OF c]) (use l m in simp_all)
  have il: "inf_list t = inf_list s" by (simp add: t'(1))
  have "choose_inf i s = (if has_active s i then Some (i, t) else if bs = [] then Some (inf_list s, t) else choose_inf (hd bs) t)"
    using n xs s1(1) p(1,3) t(1) l m nx no_srvlist_iff [OF xs] unfolding h
    by (subst choose_inf.simps) (cases bs; auto simp: il)
  then show ?thesis using n(1) t(2) t' p(3,4) h a by auto
qed

text \<open>
  The loop takes the first interface that has an active server, and makes this server its current one. When there
  is none it ends at the head of the list of interfaces.
\<close>

lemma choose_inf_ok:
  assumes "infs_ok s is" "is = as @ i # bs"
  shows "\<exists>j t. choose_inf i s = Some (j, t) \<and> infs_ok t is \<and> same_shape s t \<and> t = s\<lparr>infs := infs t\<rparr> \<and>
    j = (case find (has_active s) (i # bs) of Some k \<Rightarrow> k | None \<Rightarrow> inf_list s) \<and>
    (j \<noteq> inf_list s \<longrightarrow> (\<exists>n. infs t j = Some n \<and> current n \<noteq> NULL \<and> is_active s (current n)))"
  using assms
proof (induction bs arbitrary: s as i)
  case Nil
  obtain n p t where st: "infs s i = Some n" "infs_ok t is" "same_shape s t" "t = s\<lparr>infs := (infs s)(i \<mapsto> n\<lparr>current := p\<rparr>)\<rparr>"
    "p = NULL \<longleftrightarrow> \<not> has_active s i" "p \<noteq> NULL \<longrightarrow> is_active s p"
    "choose_inf i s = (if has_active s i then Some (i, t) else if [] = ([] :: ptr list) then Some (inf_list s, t) else choose_inf (hd []) t)"
    using choose_inf_step [OF Nil] by blast
  have "t = s\<lparr>infs := infs t\<rparr>" by (simp add: st(4))
  moreover have "infs t i = Some (n\<lparr>current := p\<rparr>)" by (simp add: st(4))
  ultimately show ?case using st(2,3,5-7) by (intro exI [of _ "if has_active s i then i else inf_list s"] exI [of _ t]) auto
next
  case (Cons b bs)
  obtain n p t where st: "infs s i = Some n" "infs_ok t is" "same_shape s t" "t = s\<lparr>infs := (infs s)(i \<mapsto> n\<lparr>current := p\<rparr>)\<rparr>"
    "p = NULL \<longleftrightarrow> \<not> has_active s i" "p \<noteq> NULL \<longrightarrow> is_active s p"
    "choose_inf i s = (if has_active s i then Some (i, t) else if b # bs = [] then Some (inf_list s, t) else choose_inf (hd (b # bs)) t)"
    using choose_inf_step [OF Cons.prems] by blast
  show ?case
  proof (cases "has_active s i")
    case True
    have "t = s\<lparr>infs := infs t\<rparr>" "infs t i = Some (n\<lparr>current := p\<rparr>)" by (simp_all add: st(4))
    then show ?thesis using True st(2,3,5-7) by (intro exI [of _ i] exI [of _ t]) simp
  next
    case False
    have same: "has_active t = has_active s" "is_active t = is_active s" "inf_list t = inf_list s"
      using same_srvs_active [OF st(3)] by (simp_all add: st(4) is_active_def fun_eq_iff)
    have "is = (as @ [i]) @ b # bs" using Cons.prems(2) by simp
    from Cons.IH [OF st(2) this] obtain j u where u: "choose_inf b t = Some (j, u)" "infs_ok u is" "same_shape t u"
      "u = t\<lparr>infs := infs u\<rparr>" "j = (case find (has_active s) (b # bs) of Some k \<Rightarrow> k | None \<Rightarrow> inf_list s)"
      "j \<noteq> inf_list s \<longrightarrow> (\<exists>n. infs u j = Some n \<and> current n \<noteq> NULL \<and> is_active s (current n))"
      unfolding same by blast
    have "u = s\<lparr>infs := infs u\<rparr>" using u(4) unfolding st(4) by simp
    then show ?thesis using False st(7) u same_shape_trans [OF st(3) u(3)] by (intro exI [of _ j] exI [of _ u]) simp
  qed
qed
section \<open>Steps that touch the servers and interfaces only\<close>

text \<open>
  \<open>srv_step s is t ms\<close>: between \<open>s\<close> and \<open>t\<close> the messages \<open>ms\<close> were sent, and servers and interfaces changed in
  their marks only.
\<close>

definition srv_step ::
    "'a dnrd_state_scheme \<Rightarrow> ptr list \<Rightarrow> 'a dnrd_state_scheme \<Rightarrow> (int \<times> sockaddr_in \<times> bytes) list \<Rightarrow> bool" where
  "srv_step s is t ms \<longleftrightarrow> same_shape s t \<and> infs_ok t is \<and> no_newq t \<and> sent t = sent s @ ms \<and>
     (\<forall>p. map_option srv_addr (srvs t p) = map_option srv_addr (srvs s p)) \<and>
     t = s\<lparr>srvs := srvs t, infs := infs t, io := io t, sent := sent t\<rparr>"

lemma srv_step_data: "srv_step s is t ms \<Longrightarrow> data_step s t"
proof -
  assume a: "srv_step s is t ms"
  then obtain a1 a2 a3 a4 where t: "t = s\<lparr>srvs := a1, infs := a2, io := a3, sent := a4\<rparr>"
    unfolding srv_step_def by blast
  show ?thesis using a unfolding srv_step_def data_step_def by (simp add: no_newq_def) (simp add: t)
qed

lemma srv_step_inv: "dnrd_inv s is xs ps \<Longrightarrow> srv_step s is t ms \<Longrightarrow> dnrd_inv t is xs ps"
  by (rule dnrd_inv_data, assumption, erule srv_step_data) (simp add: srv_step_def)

lemma srv_step_refl: "dnrd_inv s is xs ps \<Longrightarrow> srv_step s is s []"
  by (simp add: srv_step_def dnrd_invD)

lemma srv_step_trans: "srv_step s is t ms \<Longrightarrow> srv_step t is u ns \<Longrightarrow> srv_step s is u (ms @ ns)"
proof -
  assume a: "srv_step s is t ms" "srv_step t is u ns"
  obtain a1 a2 a3 a4 where t: "t = s\<lparr>srvs := a1, infs := a2, io := a3, sent := a4\<rparr>"
    using a(1) unfolding srv_step_def by blast
  obtain b1 b2 b3 b4 where u: "u = t\<lparr>srvs := b1, infs := b2, io := b3, sent := b4\<rparr>"
    using a(2) unfolding srv_step_def by blast
  have "u = s\<lparr>srvs := b1, infs := b2, io := b3, sent := b4\<rparr>" unfolding u t by simp
  then have "u = s\<lparr>srvs := srvs u, infs := infs u, io := io u, sent := sent u\<rparr>" by simp
  moreover have "same_shape s u" using a same_shape_trans unfolding srv_step_def by blast
  ultimately show ?thesis using a unfolding srv_step_def by simp
qed

lemma srv_step_fields:
  assumes "srv_step s is t ms"
  shows "queries t = queries s" "isock t = isock s" "reactivate_interval t = reactivate_interval s" "clock t = clock s"
    "inf_list t = inf_list s" "forward_timeout t = forward_timeout s" "mst t = mst s" "sp_hosts_count t = sp_hosts_count s"
    "matched_intf_cnt t = matched_intf_cnt s" "def_inf_count t = def_inf_count s" "def_inf_list t = def_inf_list s"
    "vc t = vc s" "rr_garbage t = rr_garbage s" "dnsbuf t = dnsbuf s" "req_msg t = req_msg s" "upstream_sockets t = upstream_sockets s"
    "max_sockets t = max_sockets s" "addr_garbage t = addr_garbage s" "opt_debug t = opt_debug s" "env_recv t = env_recv s"
proof -
  obtain a1 a2 a3 a4 where t: "t = s\<lparr>srvs := a1, infs := a2, io := a3, sent := a4\<rparr>"
    using assms unfolding srv_step_def by blast
  show "queries t = queries s" "isock t = isock s" "reactivate_interval t = reactivate_interval s" "clock t = clock s"
    "inf_list t = inf_list s" "forward_timeout t = forward_timeout s" "mst t = mst s" "sp_hosts_count t = sp_hosts_count s"
    "matched_intf_cnt t = matched_intf_cnt s" "def_inf_count t = def_inf_count s" "def_inf_list t = def_inf_list s"
    "vc t = vc s" "rr_garbage t = rr_garbage s" "dnsbuf t = dnsbuf s" "req_msg t = req_msg s" "upstream_sockets t = upstream_sockets s"
    "max_sockets t = max_sockets s" "addr_garbage t = addr_garbage s" "opt_debug t = opt_debug s" "env_recv t = env_recv s"
    unfolding t by simp_all
qed

lemma upd_srv_step:
  assumes "dnrd_inv s is xs ps" "srvs s p = Some v" "\<And>v. srv_next (f v) = srv_next v" "\<And>v. newquery (f v) = newquery v"
    and "\<And>v. srv_addr (f v) = srv_addr v"
  shows "\<exists>t. upd_srv p f s = Some t \<and> srv_step s is t [] \<and> t = s\<lparr>srvs := (srvs s)(p \<mapsto> f v)\<rparr>"
proof -
  obtain t where t: "upd_srv p f s = Some t" "data_step s t" "infs_ok t is" "t = s\<lparr>srvs := (srvs s)(p \<mapsto> f v)\<rparr>"
    using upd_srv_data [OF assms(1-4)] by blast
  have "map_option srv_addr (srvs t q) = map_option srv_addr (srvs s q)" for q using assms(2,5) by (simp add: t(4))
  then have "srv_step s is t []" using t(2,3) by (simp add: srv_step_def data_step_def no_newq_def) (simp add: t(4))
  then show ?thesis using t by blast
qed

lemma io_step:
  assumes "dnrd_inv s is xs ps"
  shows "srv_step s is (s\<lparr>io := k\<rparr>) []" "srv_step s is (s\<lparr>io := k, sent := sent s @ [m]\<rparr>) [m]"
proof -
  have "data_step s (s\<lparr>io := k\<rparr>)" "infs_ok (s\<lparr>io := k\<rparr>) is"
    "data_step s (s\<lparr>io := k, sent := sent s @ [m]\<rparr>)" "infs_ok (s\<lparr>io := k, sent := sent s @ [m]\<rparr>) is"
    using io_data [OF assms] by blast+
  then show "srv_step s is (s\<lparr>io := k\<rparr>) []" "srv_step s is (s\<lparr>io := k, sent := sent s @ [m]\<rparr>) [m]"
    by (simp_all add: srv_step_def data_step_def no_newq_def)
qed

text \<open>Switching off the current server: the next one is active, or there is none.\<close>

lemma deactivate_current_step:
  assumes "dnrd_inv s is xs ps" "i \<in> set (inf_list s # is)"
  shows "\<exists>n p t. infs s i = Some n \<and> deactivate_current i s = Some (p, t) \<and> srv_step s is t [] \<and>
    infs t = (infs s)(i \<mapsto> n\<lparr>current := p\<rparr>) \<and> (p = NULL \<or> is_active t p) \<and>
    (current n \<noteq> NULL \<longrightarrow> clock s \<noteq> 0 \<longrightarrow> (\<forall>x. is_active t x \<longleftrightarrow> is_active s x \<and> x \<noteq> current n))"
proof -
  note d = dnrd_invD [OF assms(1)]
  obtain n xs where n: "infs s i = Some n" "srvlist_at s (srvlist n) xs" "current n = NULL \<or> current n \<in> set (srvlist n # xs)"
    using infs_okD(2) [OF d(3) assms(2)] by blast
  let ?c = "current n" and ?st = "if current n = NULL then srvlist n else current n"
  obtain t p where t: "deactivate_current i s = Some (p, t)" "infs_ok t is" "same_shape s t" "inf_frame s t"
    "infs t = (infs s)(i \<mapsto> n\<lparr>current := p\<rparr>)"
    "srvs t = (if ?c = NULL then srvs s else (srvs s)(?c \<mapsto> (the (srvs s ?c))\<lparr>inactive := clock s\<rparr>))"
    "p = first_active t (srvlist n # xs) ?st"
    using deactivate_current_ok [OF d(3) assms(2) n] by blast
  have live: "\<exists>v. srvs s ?c = Some v" if "?c \<noteq> NULL" using srvlist_live [OF n(2), of ?c] n(3) that by blast
  have c: "circ (srv_nxt t) (srvlist n) xs" using n(2) t(3) by (simp add: srvlist_at_def same_shape_def)
  have st: "?st \<in> set (srvlist n # xs)" using n(3) by auto
  have act: "p = NULL \<or> is_active t p" using first_active_in(2) [OF _ c st, of t] unfolding t(7) by blast
  have marks: "is_active t x \<longleftrightarrow> is_active s x \<and> x \<noteq> ?c" if "?c \<noteq> NULL" "clock s \<noteq> 0" for x
    using that by (simp add: is_active_def t(6))
  have nq: "no_newq t" using d(5) live by (auto simp: no_newq_def t(6) split: if_splits)
  have ad: "map_option srv_addr (srvs t q) = map_option srv_addr (srvs s q)" for q using live by (auto simp: t(6))
  obtain a1 a2 where a: "t = s\<lparr>srvs := a1, infs := a2\<rparr>" using t(4) unfolding inf_frame_def by blast
  have "srv_step s is t []" using t(2,3) nq ad by (simp add: srv_step_def) (simp add: a)
  then show ?thesis using n(1) t(1,5) act marks by blast
qed

section \<open>Sending a query on one interface\<close>

text \<open>The messages that take the query \<open>msg\<close> to a server of the program, from the socket \<open>fd\<close>.\<close>

definition to_servers :: "'a srv_state_scheme \<Rightarrow> int \<Rightarrow> bytes \<Rightarrow> (int \<times> sockaddr_in \<times> bytes) list \<Rightarrow> bool" where
  "to_servers s fd msg ms \<longleftrightarrow> (\<forall>m \<in> set ms. \<exists>p v. srvs s p = Some v \<and> m = (fd, srv_addr v, msg))"

lemma to_servers_append [simp]: "to_servers s fd msg (ms @ ns) \<longleftrightarrow> to_servers s fd msg ms \<and> to_servers s fd msg ns"
  by (auto simp: to_servers_def)

lemma to_servers_Nil [simp]: "to_servers s fd msg []"
  by (simp add: to_servers_def)

lemma to_servers_cong:
  assumes "srv_step s is t ns"
  shows "to_servers t fd msg ms = to_servers s fd msg ms"
proof -
  have a: "map_option srv_addr (srvs t p) = map_option srv_addr (srvs s p)" for p using assms by (simp add: srv_step_def)
  have "(\<exists>v. srvs t p = Some v \<and> m = (fd, srv_addr v, msg)) \<longleftrightarrow> (\<exists>v. srvs s p = Some v \<and> m = (fd, srv_addr v, msg))" for m p
    using a [of p] by (cases "srvs t p"; cases "srvs s p") auto
  then show ?thesis by (simp add: to_servers_def)
qed

lemma udp_send_step:
  assumes "dnrd_inv s is xs ps" "srvs s p = Some v" "len \<le> length msg"
  shows "\<exists>rc t. udp_send fd p msg len s = Some (rc, t) \<and> srv_step s is t [(fd, srv_addr v, take len msg)] \<and>
    infs t = infs s \<and> is_active t = is_active s"
proof -
  define s1 where "s1 = s\<lparr>io := Suc (io s), sent := sent s @ [(fd, srv_addr v, take len msg)]\<rparr>"
  have st: "srv_step s is s1 [(fd, srv_addr v, take len msg)]" using io_step(2) [OF assms(1)] by (simp add: s1_def)
  let ?f = "\<lambda>v. v\<lparr>send_time := (if send_time v = 0 then clock s else send_time v), send_count := send_count v + 1\<rparr>"
  have v1: "srvs s1 p = Some v" using assms(2) by (simp add: s1_def)
  obtain t where t: "upd_srv p ?f s1 = Some t" "srv_step s1 is t []" "t = s1\<lparr>srvs := (srvs s1)(p \<mapsto> ?f v)\<rparr>"
    using upd_srv_step [OF srv_step_inv [OF assms(1) st] v1, of ?f] by auto
  have act: "is_active t = is_active s" using v1 by (simp add: t(3) is_active_def fun_eq_iff s1_def)
  have e: "udp_send fd p msg len s = (if env_send s (io s) \<noteq> int len then Some (env_send s (io s), s1)
      else Some (env_send s (io s), t))"
    using assms(2,3) t(1) by (simp add: udp_send_def get_srv_def os_sendto_def s1_def)
  have "srv_step s is t [(fd, srv_addr v, take len msg)]" using srv_step_trans [OF st t(2)] by simp
  moreover have "infs t = infs s" "infs s1 = infs s" "is_active s1 = is_active s"
    by (simp_all add: t(3) s1_def is_active_def fun_eq_iff)
  ultimately show ?thesis using e st act by auto
qed

text \<open>
  The servers of an interface that may still be tried: the active ones, and the current one if it is not active.
  Each failure to send takes one of them away, because the next current server is an active one.
\<close>

definition untried :: "'a inf_state_scheme \<Rightarrow> infnode \<Rightarrow> ptr list \<Rightarrow> nat" where
  "untried s n xs = card {p \<in> set (srvlist n # xs). is_active s p} +
     (if current n = NULL \<or> is_active s (current n) then 0 else 1)"

lemma untried_less:
  assumes "current n \<in> set (srvlist n # xs)" "current n \<noteq> NULL" "\<forall>x. is_active t x \<longleftrightarrow> is_active s x \<and> x \<noteq> current n"
    and "p = NULL \<or> is_active t p"
  shows "untried t (n\<lparr>current := p\<rparr>) xs < untried s n xs"
proof -
  have e: "{p \<in> set (srvlist n # xs). is_active t p} = {p \<in> set (srvlist n # xs). is_active s p} - {current n}"
    using assms(3) by auto
  have p: "untried t (n\<lparr>current := p\<rparr>) xs = card ({p \<in> set (srvlist n # xs). is_active s p} - {current n})"
    unfolding untried_def using assms(4) e by auto
  show ?thesis
  proof (cases "is_active s (current n)")
    case True
    then have "card ({p \<in> set (srvlist n # xs). is_active s p} - {current n}) < card {p \<in> set (srvlist n # xs). is_active s p}"
      using assms(1) by (intro card_Diff1_less) auto
    then show ?thesis using p by (simp add: untried_def)
  next
    case False
    then show ?thesis using p assms(2) by (simp add: untried_def)
  qed
qed

lemma try_servers_step:
  assumes "dnrd_inv s is xs ps" "i \<in> set (inf_list s # is)" "len \<le> length msg" "reactivate_interval s \<noteq> 0" "clock s \<noteq> 0"
  shows "\<exists>t ms. try_servers fd i msg len s = Some t \<and> srv_step s is t ms \<and> to_servers s fd (take len msg) ms"
proof -
  obtain n zs where "infs s i = Some n" "srvlist_at s (srvlist n) zs" "current n = NULL \<or> current n \<in> set (srvlist n # zs)"
    using infs_okD(2) [OF dnrd_invD(3) [OF assms(1)] assms(2)] by blast
  then show ?thesis using assms
  proof (induction "untried s n zs" arbitrary: s n rule: less_induct)
    case less
    note inv = less.prems(4)
    show ?case
    proof (cases "current n = NULL")
      case True
      then have "try_servers fd i msg len s = Some s" using less.prems(1) by (subst try_servers.simps) simp
      then show ?thesis using srv_step_refl [OF inv] by fastforce
    next
      case False
      then have cur: "current n \<in> set (srvlist n # zs)" using less.prems(3) by simp
      obtain v where v: "srvs s (current n) = Some v" using srvlist_live [OF less.prems(2) cur] by blast
      obtain rc s1 where s1: "udp_send fd (current n) msg len s = Some (rc, s1)"
        "srv_step s is s1 [(fd, srv_addr v, take len msg)]" "infs s1 = infs s" "is_active s1 = is_active s"
        using udp_send_step [OF inv v less.prems(6)] by blast
      have m: "to_servers s fd (take len msg) [(fd, srv_addr v, take len msg)]" using v by (auto simp: to_servers_def)
      show ?thesis
      proof (cases "rc = int len")
        case True
        then have "try_servers fd i msg len s = Some s1" using less.prems(1) False s1(1) by (subst try_servers.simps) simp
        then show ?thesis using s1(2) m by blast
      next
        case rc: False
        note f1 = srv_step_fields [OF s1(2)] and inv1 = srv_step_inv [OF inv s1(2)]
        have i1: "i \<in> set (inf_list s1 # is)" using less.prems(5) f1(5) by simp
        obtain p t where t: "deactivate_current i s1 = Some (p, t)" "srv_step s1 is t []"
          "infs t = (infs s1)(i \<mapsto> n\<lparr>current := p\<rparr>)" "p = NULL \<or> is_active t p"
          "\<forall>x. is_active t x \<longleftrightarrow> is_active s x \<and> x \<noteq> current n"
          using deactivate_current_step [OF inv1 i1] less.prems(1,8) False s1(3,4) f1(4) by auto
        note inv2 = srv_step_inv [OF inv1 t(2)] and f2 = srv_step_fields [OF t(2)]
        let ?n = "n\<lparr>current := p\<rparr>"
        have st: "srv_step s is t [(fd, srv_addr v, take len msg)]" using srv_step_trans [OF s1(2) t(2)] by simp
        have l2: "srvlist_at t (srvlist ?n) zs" using less.prems(2) same_shape_srvlist [of s t "srvlist n" zs] st by (simp add: srv_step_def)
        have n2: "infs t i = Some ?n" using t(3) by simp
        have i2: "i \<in> set (inf_list t # is)" using i1 f2(5) by simp
        obtain ys where ys: "srvlist_at t (srvlist ?n) ys" "current ?n = NULL \<or> current ?n \<in> set (srvlist ?n # ys)"
          using infs_okD(2) [OF dnrd_invD(3) [OF inv2] i2] n2 by auto
        have c2: "current ?n = NULL \<or> current ?n \<in> set (srvlist ?n # zs)"
          using ys(2) unfolding srvlist_at_unique [OF ys(1) l2] .
        have r2: "reactivate_interval t \<noteq> 0" "clock t \<noteq> 0" using less.prems(7,8) f1(3,4) f2(3,4) by simp_all
        from less.hyps [OF untried_less [OF cur False t(5,4)] n2 l2 c2 inv2 i2 less.prems(6) r2]
        obtain u ms where u: "try_servers fd i msg len t = Some u" "srv_step t is u ms" "to_servers t fd (take len msg) ms" by blast
        have "try_servers fd i msg len s = try_servers fd i msg len t"
          using less.prems(1,7) False s1(1) rc t(1) f1(3) by (subst try_servers.simps) simp
        then show ?thesis using u(1) srv_step_trans [OF st u(2)] m u(3) to_servers_cong [OF st]
          by (intro exI [of _ u] exI [of _ "[(fd, srv_addr v, take len msg)] @ ms"]) (simp only: to_servers_append)
      qed
    qed
  qed
qed

text \<open>Without a retry interval the current server is never switched off: the loop goes on as long as sending fails.\<close>

lemma try_servers_stuck:
  assumes "try_servers fd i msg len s = Some t"
  shows "infs s i = Some n \<Longrightarrow> current n \<noteq> NULL \<Longrightarrow> srvs s (current n) \<noteq> None \<Longrightarrow> reactivate_interval s = 0 \<Longrightarrow>
    \<forall>j \<ge> io s. env_send s j \<noteq> int len \<Longrightarrow> False"
proof (induct rule: try_servers.raw_induct [OF _ assms])
  case (1 f sock i msg len s r)
  obtain v where v: "srvs s (current n) = Some v" using 1(5) by auto
  show ?case
  proof (cases "len \<le> length msg")
    case True
    let ?s1 = "s\<lparr>io := Suc (io s), sent := sent s @ [(sock, srv_addr v, take len msg)]\<rparr>"
    have "f sock i msg len ?s1 = Some r"
      using 1(2-7) v True by (simp add: udp_send_def get_srv_def os_sendto_def)
    from 1(1) [OF this] show ?thesis using 1(3-7) v by simp
  next
    case False
    then show ?thesis using 1(2-4) v by (simp add: udp_send_def get_srv_def)
  qed
qed

section \<open>Sending a query through the interfaces\<close>

text \<open>What sending the query \<open>q\<close> may change.\<close>

definition send_frame ::
    "'a dnrd_state_scheme \<Rightarrow> ptr \<Rightarrow> 'a dnrd_state_scheme \<Rightarrow> (int \<times> sockaddr_in \<times> bytes) list \<Rightarrow> bool" where
  "send_frame s q t ms \<longleftrightarrow> same_shape s t \<and> sent t = sent s @ ms \<and>
     (\<forall>p. map_option srv_addr (srvs t p) = map_option srv_addr (srvs s p)) \<and>
     (\<exists>k m. queries s q = Some k \<and> queries t = (queries s)(q \<mapsto> m) \<and> same_client k m \<and> q_next m = q_next k \<and> my_qid m = my_qid k) \<and>
     t = s\<lparr>srvs := srvs t, infs := infs t, io := io t, sent := sent t, queries := queries t\<rparr>"

lemma send_frame_srv:
  assumes "srv_step s is t ms" "queries s q = Some k"
  shows "send_frame s q t ms"
proof -
  obtain a1 a2 a3 a4 where t: "t = s\<lparr>srvs := a1, infs := a2, io := a3, sent := a4\<rparr>"
    using assms(1) unfolding srv_step_def by blast
  have "queries t = (queries s)(q \<mapsto> k)" using assms(2) by (auto simp: t)
  then show ?thesis using assms unfolding srv_step_def send_frame_def by (auto simp: t)
qed

lemma send_frame_upd:
  assumes "queries s q = Some k" "same_client k m" "q_next m = q_next k" "my_qid m = my_qid k"
  shows "send_frame s q (s\<lparr>queries := (queries s)(q \<mapsto> m)\<rparr>) []"
proof -
  have "same_shape s (s\<lparr>queries := (queries s)(q \<mapsto> m)\<rparr>)" by (simp add: same_shape_def srv_nxt_def)
  then show ?thesis using assms unfolding send_frame_def by (intro conjI exI [of _ k] exI [of _ m]) simp_all
qed

lemma send_frame_trans: "send_frame s q t ms \<Longrightarrow> send_frame t q u ns \<Longrightarrow> send_frame s q u (ms @ ns)"
proof -
  assume a: "send_frame s q t ms" "send_frame t q u ns"
  obtain a1 a2 a3 a4 a5 where t: "t = s\<lparr>srvs := a1, infs := a2, io := a3, sent := a4, queries := a5\<rparr>"
    using a(1) unfolding send_frame_def by blast
  obtain b1 b2 b3 b4 b5 where u: "u = t\<lparr>srvs := b1, infs := b2, io := b3, sent := b4, queries := b5\<rparr>"
    using a(2) unfolding send_frame_def by blast
  have "u = s\<lparr>srvs := srvs u, infs := infs u, io := io u, sent := sent u, queries := queries u\<rparr>"
    unfolding u t by simp
  moreover have "same_shape s u" using a same_shape_trans unfolding send_frame_def by blast
  moreover have "\<exists>k m. queries s q = Some k \<and> queries u = (queries s)(q \<mapsto> m) \<and> same_client k m \<and> q_next m = q_next k \<and>
      my_qid m = my_qid k"
  proof -
    obtain k m where 1: "queries s q = Some k" "queries t = (queries s)(q \<mapsto> m)" "same_client k m" "q_next m = q_next k"
      "my_qid m = my_qid k" using a(1) unfolding send_frame_def by blast
    obtain m' where 2: "queries u = (queries t)(q \<mapsto> m')" "same_client m m'" "q_next m' = q_next m" "my_qid m' = my_qid m"
      using a(2) 1(2) unfolding send_frame_def by auto
    show ?thesis using 1 2 same_client_trans [OF 1(3) 2(2)] by (intro exI [of _ k] exI [of _ m']) simp
  qed
  ultimately show ?thesis using a unfolding send_frame_def by simp
qed

text \<open>
  The hypotheses on the options and on what happens outside, a \<open>world\<close>: the states of the file system in which the
  local master may reload, and whether debugging may be on, by the option \<open>-d\<close> or by SIGUSR1. When it may, all packets
  have a question that can be printed.
\<close>

record world =
  reloads :: "(bytes \<Rightarrow> bytes option) set"
  debugs :: bool

definition opts_ok :: "world \<Rightarrow> 'a dnrd_state_scheme \<Rightarrow> bool" where
  "opts_ok W s \<longleftrightarrow> master_safe (reloads W) (mst s) \<and> sp_hosts_count s = 0 \<and> matched_intf_cnt s = 0 \<and>
     def_inf_count s \<le> length (def_inf_list s) \<and> (\<forall>b \<in> set (def_inf_list s). 9 \<le> length b) \<and>
     0 < reactivate_interval s \<and> 0 < clock s \<and> (opt_debug s = 0 \<or> debugs W) \<and> (debugs W \<longrightarrow> named_env s)"

lemma opts_ok_debug: "opts_ok W s \<Longrightarrow> debug_ok s"
  by (auto simp: opts_ok_def debug_ok_def)

lemma send_frame_fields:
  assumes "send_frame s q t ms"
  shows "inf_list t = inf_list s" "isock t = isock s" "opts_ok W t = opts_ok W s" "vc t = vc s" "rr_garbage t = rr_garbage s"
    "req_msg t = req_msg s" "mst t = mst s"
proof -
  obtain a1 a2 a3 a4 a5 where t: "t = s\<lparr>srvs := a1, infs := a2, io := a3, sent := a4, queries := a5\<rparr>"
    using assms(1) unfolding send_frame_def by blast
  show "inf_list t = inf_list s" "isock t = isock s" "opts_ok W t = opts_ok W s" "vc t = vc s" "rr_garbage t = rr_garbage s"
    "req_msg t = req_msg s" "mst t = mst s"
    unfolding t opts_ok_def by simp_all
qed

lemma send_frame_servers: "send_frame s q t ms \<Longrightarrow> to_servers t fd msg ns = to_servers s fd msg ns"
proof -
  assume "send_frame s q t ms"
  then have a: "map_option srv_addr (srvs t p) = map_option srv_addr (srvs s p)" for p by (simp add: send_frame_def)
  have "(\<exists>v. srvs t p = Some v \<and> m = (fd, srv_addr v, msg)) \<longleftrightarrow> (\<exists>v. srvs s p = Some v \<and> m = (fd, srv_addr v, msg))" for m p
    using a [of p] by (cases "srvs t p"; cases "srvs s p") auto
  then show ?thesis by (simp add: to_servers_def)
qed

lemma query_upd_step:
  assumes "dnrd_inv s is xs ps" "q \<in> set ps" "queries s q = Some k" "same_client k m" "q_next m = q_next k" "my_qid m = my_qid k"
    and "query_ok s m"
  shows "dnrd_inv (s\<lparr>queries := (queries s)(q \<mapsto> m)\<rparr>) is xs ps" "send_frame s q (s\<lparr>queries := (queries s)(q \<mapsto> m)\<rparr>) []"
proof -
  have "q_socks m = q_socks k" using assms(4) by (simp add: q_socks_def same_client_def)
  then have "same_core k m" using assms(5,6) by (simp add: same_core_def)
  then show "dnrd_inv (s\<lparr>queries := (queries s)(q \<mapsto> m)\<rparr>) is xs ps"
    using dnrd_inv_upd [OF assms(1,2,3) _ assms(7)] by blast
  show "send_frame s q (s\<lparr>queries := (queries s)(q \<mapsto> m)\<rparr>) []" by (rule send_frame_upd [OF assms(3-6)])
qed

lemma note_server:
  assumes "dnrd_inv s is xs ps" "q \<in> set ps" "c < 3" "p = NULL \<or> srv_live s p"
  shows "\<exists>t. (if p \<noteq> NULL then do {
            k1 \<leftarrow> queries s q;
            sl \<leftarrow> wr (srv_list k1) (int c) p;
            upd_query q (\<lambda>k. k\<lparr>srv_list := sl\<rparr>) s
          } else Some s) = Some t \<and> dnrd_inv t is xs ps \<and> send_frame s q t []"
proof -
  obtain k where k: "queries s q = Some k" "query_ok s k" using dnrd_inv_member [OF assms(1,2)] by blast
  show ?thesis
  proof (cases "p = NULL")
    case True
    then show ?thesis using assms(1) send_frame_srv [OF srv_step_refl [OF assms(1)] k(1)] by simp
  next
    case False
    let ?m = "k\<lparr>srv_list := (srv_list k)[c := p]\<rparr>"
    have "query_ok s ?m" using k(2) assms(3,4) False set_update_subset_insert [of "srv_list k" c p]
      unfolding query_ok_def by fastforce
    note st = query_upd_step [OF assms(1,2) k(1) _ _ _ this]
    have "length (srv_list k) = 3" using k(2) by (simp add: query_ok_def)
    then show ?thesis using False k(1) assms(3) st by (simp add: upd_query_def same_client_def)
  qed
qed

lemma send_on_ok:
  assumes "dnrd_inv s is xs ps" "q \<in> set ps" "i \<in> set is" "c < 3" "len \<le> length msg" "opts_ok W s"
  shows "\<exists>t ms. send_on q c i msg len s = Some t \<and> dnrd_inv t is xs ps \<and> send_frame s q t ms \<and>
    to_servers s (sock_arr (qrec s q) ! c) (take len msg) ms"
proof -
  obtain k where k: "queries s q = Some k" "qrec s q = k" "query_ok s k" using dnrd_inv_member [OF assms(1,2)] by blast
  let ?fd = "sock_arr k ! c"
  have rd: "rd (sock_arr k) (int c) = Some ?fd" using k(3) assms(4) by (simp add: query_ok_def)
  have o: "reactivate_interval s \<noteq> 0" "clock s \<noteq> 0" using assms(6) by (simp_all add: opts_ok_def)
  have il: "i \<in> set (inf_list s # is)" using assms(3) by simp
  obtain n0 nm where n0: "infs s i = Some n0" "inf n0 = Some nm" "37 \<notin> set nm"
    using dnrd_invD(4) [OF assms(1)] assms(3) by (auto simp: named_infs_def)
  from try_servers_step [OF assms(1) il assms(5) o, of ?fd] obtain s1 ms where s1: "try_servers ?fd i msg len s = Some s1"
    "srv_step s is s1 ms" "to_servers s ?fd (take len msg) ms" by blast
  note i1 = srv_step_inv [OF assms(1) s1(2)] and f1 = send_frame_srv [OF s1(2) k(1)]
  have "i \<in> set (inf_list s1 # is)" using assms(3) by simp
  from infs_okD(2) [OF dnrd_invD(3) [OF i1] this] obtain n ys where n: "infs s1 i = Some n" "srvlist_at s1 (srvlist n) ys"
    "current n = NULL \<or> current n \<in> set (srvlist n # ys)" by blast
  have live: "current n = NULL \<or> srv_live s1 (current n)"
    using n(3) srvlist_live [OF n(2), of "current n"] by (auto simp: srv_live_def)
  from note_server [OF i1 assms(2,4) live] obtain s2 where s2: "(if current n \<noteq> NULL then do {
            k1 \<leftarrow> queries s1 q;
            sl \<leftarrow> wr (srv_list k1) (int c) (current n);
            upd_query q (\<lambda>k. k\<lparr>srv_list := sl\<rparr>) s1
          } else Some s1) = Some s2" "dnrd_inv s2 is xs ps" "send_frame s1 q s2 []" by blast
  obtain k2 where k2: "queries s2 q = Some k2" "query_ok s2 k2" using dnrd_inv_member [OF s2(2) assms(2)] by blast
  let ?m = "k2\<lparr>serv_sent_cnt := serv_sent_cnt k2 + 1\<rparr>"
  have "query_ok s2 ?m" using k2(2) by (simp add: query_ok_def)
  note st = query_upd_step [OF s2(2) assms(2) k2(1) _ _ _ this]
  have "send_on q c i msg len s = Some (s2\<lparr>queries := (queries s2)(q \<mapsto> ?m)\<rparr>)"
    using k(1) rd n0 s1(1) n(1) s2(1) k2(1) by (simp add: send_on_def bind_sock2inf_def c_format_plain upd_query_def)
  moreover have "send_frame s q (s2\<lparr>queries := (queries s2)(q \<mapsto> ?m)\<rparr>) ms"
    using send_frame_trans [OF send_frame_trans [OF f1 s2(3)] st(2)] by (simp add: same_client_def)
  ultimately show ?thesis using st(1) s1(3) k(2) by (auto simp: same_client_def)
qed

text \<open>The test on the name of the interface stays in the arrays of names.\<close>

lemma c_strneq_total: "n \<le> length b \<Longrightarrow> c_strneq (a @ [0]) b n \<noteq> None"
proof (induction n arbitrary: a b)
  case (Suc n)
  then obtain y b' where b: "b = y # b'" "n \<le> length b'" by (cases b) auto
  show ?case
  proof (cases a)
    case (Cons z zs)
    then show ?thesis using Suc.IH [OF b(2), of zs] b(1) by (simp del: not_None_eq)
  qed (simp add: b(1) del: not_None_eq)
qed simp

lemma any_strneq_total: "\<forall>b \<in> set bs. n \<le> length b \<Longrightarrow> any_strneq (a @ [0]) bs n \<noteq> None"
proof (induction bs)
  case (Cons b bs)
  then obtain e where "c_strneq (a @ [0]) b n = Some e" using c_strneq_total [of n b a] by auto
  then show ?case using Cons by (simp del: not_None_eq)
qed simp

lemma inf_allowed_total:
  assumes "opts_ok W s"
  shows "\<exists>e. inf_allowed name s = Some e"
proof -
  have b: "\<forall>b \<in> set (take (def_inf_count s) (def_inf_list s)). 9 \<le> length b"
    using assms set_take_subset unfolding opts_ok_def by fast
  have "inf_allowed name s \<noteq> None"
    using any_strneq_total [OF b, of name] assms by (simp add: inf_allowed_def opts_ok_def is_curr_inf_default_def del: not_None_eq)
  then show ?thesis by blast
qed
text \<open>All messages of a list go from the sockets of \<open>q\<close> to servers of the program.\<close>

definition forwards :: "'a query_state_scheme \<Rightarrow> ptr \<Rightarrow> bytes \<Rightarrow> (int \<times> sockaddr_in \<times> bytes) list \<Rightarrow> bool" where
  "forwards s q msg ms \<longleftrightarrow>
     (\<forall>m \<in> set ms. \<exists>fd p v. fd \<in> set (sock_arr (qrec s q)) \<and> srvs s p = Some v \<and> m = (fd, srv_addr v, msg))"

lemma forwards_append [simp]: "forwards s q msg (ms @ ns) \<longleftrightarrow> forwards s q msg ms \<and> forwards s q msg ns"
  by (auto simp: forwards_def)

lemma forwards_Nil [simp]: "forwards s q msg []"
  by (simp add: forwards_def)

lemma to_servers_forwards: "to_servers s fd msg ms \<Longrightarrow> fd \<in> set (sock_arr (qrec s q)) \<Longrightarrow> forwards s q msg ms"
  unfolding to_servers_def forwards_def by blast

lemma forwards_cong:
  assumes "send_frame s q t ns"
  shows "forwards t q msg ms = forwards s q msg ms"
proof -
  have "sock_arr (qrec t q) = sock_arr (qrec s q)"
    using assms unfolding send_frame_def same_client_def qrec_def by auto
  moreover have "\<forall>p. map_option srv_addr (srvs t p) = map_option srv_addr (srvs s p)"
    using assms by (simp add: send_frame_def)
  then have a: "(\<exists>v. srvs t p = Some v \<and> m = (fd, srv_addr v, msg)) \<longleftrightarrow> (\<exists>v. srvs s p = Some v \<and> m = (fd, srv_addr v, msg))"
    for m p and fd :: int by (cases "srvs t p"; cases "srvs s p") (auto dest!: spec [of _ p])
  ultimately show ?thesis by (simp add: forwards_def)
qed

lemma send_loop_ok:
  assumes "dnrd_inv s is xs ps" "q \<in> set ps" "is = as @ js" "len \<le> length msg" "opts_ok W s"
  shows "\<exists>j t ms. send_loop q (hd (js @ [inf_list s])) c msg len s = Some (j, t) \<and> j \<in> set (inf_list s # is) \<and>
    dnrd_inv t is xs ps \<and> send_frame s q t ms \<and> forwards s q (take len msg) ms"
  using assms
proof (induction js arbitrary: s as c)
  case Nil
  obtain k where k: "queries s q = Some k" using dnrd_inv_member [OF Nil(1,2)] by blast
  have "send_loop q (inf_list s) c msg len s = Some (inf_list s, s)" by (subst send_loop.simps) simp
  then show ?case using Nil(1) send_frame_srv [OF srv_step_refl [OF Nil(1)] k] by auto
next
  case (Cons j js)
  note d = dnrd_invD [OF Cons.prems(1)]
  obtain k where k: "queries s q = Some k" "qrec s q = k" "query_ok s k" using dnrd_inv_member [OF Cons.prems(1,2)] by blast
  obtain n where n: "infs s j = Some n" "inf_next n = hd (js @ [inf_list s])" and ne: "j \<noteq> inf_list s"
    using infs_ok_at [OF d(3) Cons.prems(3)] by blast
  have j: "j \<in> set is" using Cons.prems(3) by simp
  obtain nm where nm: "inf n = Some nm" using d(4) j n(1) by (auto simp: named_infs_def)
  obtain e where e: "inf_allowed nm s = Some e" using inf_allowed_total [OF Cons.prems(5)] by blast
  have split: "is = (as @ [j]) @ js" using Cons.prems(3) by simp
  have hd: "hd ((j # js) @ [inf_list s]) = j" by simp
  show ?case
  proof (cases "c < 3")
    case False
    then have "send_loop q j c msg len s = Some (j, s)" by (subst send_loop.simps) simp
    then show ?thesis using Cons.prems(1) j send_frame_srv [OF srv_step_refl [OF Cons.prems(1)] k(1)] unfolding hd by fastforce
  next
    case c: True
    show ?thesis
    proof (cases e)
      case False
      then have "send_loop q j c msg len s = send_loop q (hd (js @ [inf_list s])) c msg len s"
        using ne c n nm e by (subst send_loop.simps) simp
      then show ?thesis using Cons.IH [OF Cons.prems(1,2) split Cons.prems(4,5), of c] unfolding hd by simp
    next
      case True
      from send_on_ok [OF Cons.prems(1,2) j c Cons.prems(4,5)] obtain s1 ms where s1: "send_on q c j msg len s = Some s1"
        "dnrd_inv s1 is xs ps" "send_frame s q s1 ms" "to_servers s (sock_arr (qrec s q) ! c) (take len msg) ms" by blast
      note f1 = send_frame_fields [OF s1(3)]
      have m1: "forwards s q (take len msg) ms"
        by (rule to_servers_forwards [OF s1(4)]) (use k c in \<open>simp add: query_ok_def\<close>)
      obtain n1 where n1: "infs s1 j = Some n1" "inf_next n1 = hd (js @ [inf_list s])"
        using infs_ok_at(1) [OF dnrd_invD(3) [OF s1(2)] Cons.prems(3)] f1(1) by auto
      obtain k1 where k1: "queries s1 q = Some k1" using dnrd_inv_member [OF s1(2) Cons.prems(2)] by blast
      have run: "send_loop q j c msg len s = (if is_dummy k1 = 1 then Some (hd (js @ [inf_list s]), s1)
          else send_loop q (hd (js @ [inf_list s])) (c + 1) msg len s1)"
        using ne c n nm e True s1(1) n1 k1 by (subst send_loop.simps) simp
      show ?thesis
      proof (cases "is_dummy k1 = 1")
        case True
        moreover have "hd (js @ [inf_list s]) \<in> set (inf_list s # is)" using Cons.prems(3) by (cases js) auto
        ultimately show ?thesis using run s1(2,3) m1 unfolding hd by auto
      next
        case False
        have o1: "opts_ok W s1" using f1(3) Cons.prems(5) by simp
        from Cons.IH [OF s1(2) Cons.prems(2) split Cons.prems(4) o1, of "c + 1"] obtain i t ns where
          t: "send_loop q (hd (js @ [inf_list s])) (c + 1) msg len s1 = Some (i, t)" "i \<in> set (inf_list s # is)"
            "dnrd_inv t is xs ps" "send_frame s1 q t ns" "forwards s1 q (take len msg) ns" unfolding f1(1) by blast
        have "forwards s q (take len msg) (ms @ ns)" using m1 t(5) forwards_cong [OF s1(3)] by simp
        then show ?thesis using run False t(1-3) send_frame_trans [OF s1(3) t(4)] unfolding hd by auto
      qed
    qed
  qed
qed

lemma send2current_ok:
  assumes "dnrd_inv s is xs ps" "q \<in> set ps" "len \<le> length msg" "opts_ok W s"
  shows "\<exists>r t ms. send2current q msg len s = Some (r, t) \<and> (r = 0 \<or> r = int len) \<and> dnrd_inv t is xs ps \<and>
    send_frame s q t ms \<and> forwards s q (take len msg) ms"
proof -
  note d = dnrd_invD [OF assms(1)]
  have q: "q \<noteq> NULL" using d(1) assms(2) by (auto simp: query_inv_def qlist_inv_def)
  have f: "find_matches msg len s = Some s" using assms(4) by (simp add: find_matches_def opts_ok_def)
  have "circ (inf_nxt s) (inf_list s) is" using d(3) by (simp add: infs_ok_def inflist_at_def)
  then obtain l where l: "infs s (inf_list s) = Some l" "inf_next l = hd (is @ [inf_list s])"
    using circ_next [of "inf_nxt s" "inf_list s" "is"] by auto
  have "is = [] @ is" by simp
  from send_loop_ok [OF assms(1,2) this assms(3,4), of 0] obtain j t ms where
    t: "send_loop q (inf_next l) 0 msg len s = Some (j, t)" "j \<in> set (inf_list s # is)" "dnrd_inv t is xs ps"
      "send_frame s q t ms" "forwards s q (take len msg) ms" unfolding l(2) by blast
  have "j \<in> set (inf_list t # is)" using t(2) send_frame_fields(1) [OF t(4)] by simp
  from infs_okD(2) [OF dnrd_invD(3) [OF t(3)] this] obtain n where n: "infs t j = Some n" by blast
  have "send2current q msg len s = Some (if current n \<noteq> NULL then int len else 0, t)"
    using q f l(1) t(1) n by (simp add: send2current_def)
  then show ?thesis using t(3-5) by auto
qed

section \<open>The choice of a server\<close>

text \<open>The failure message: the query with the bits for a response and the code for a failure of the server.\<close>

definition srvfail :: "bytes \<Rightarrow> bytes" where
  "srvfail msg = msg[2 := msg ! 2 OR 0x84, 3 := 0x82]"

lemma set_srvfail_ok: "4 \<le> len \<Longrightarrow> 4 \<le> length msg \<Longrightarrow> set_srvfail msg len = Some (Some (srvfail msg))"
  by (simp add: set_srvfail_def srvfail_def wr_def)

lemma srvfail_shape: "length (srvfail msg) = length msg" "take 2 (srvfail msg) = take 2 msg"
  by (simp_all add: srvfail_def)

lemma choose_server_ok:
  assumes "dnrd_inv s is xs ps" "4 \<le> len" "4 \<le> length msg"
  shows "\<exists>r m i t. choose_server msg len s = Some (r, m, len, i, t) \<and> srv_step s is t [] \<and>
    (r = 0 \<and> m = srvfail msg \<or>
     r = 1 \<and> m = msg \<and> i \<in> set (inf_list s # is) \<and> (\<exists>n. infs t i = Some n \<and> srv_live t (current n)))"
proof -
  note d = dnrd_invD [OF assms(1)]
  have c: "circ (inf_nxt s) (inf_list s) is" using d(3) by (simp add: infs_ok_def inflist_at_def)
  then obtain l where l: "infs s (inf_list s) = Some l" "inf_next l = hd (is @ [inf_list s])"
    using circ_next [of "inf_nxt s" "inf_list s" "is"] by auto
  obtain j js where js: "is = j # js" using d(4) by (cases "is") (auto simp: named_infs_def)
  have "is = [] @ j # js" using js by simp
  from choose_inf_ok [OF d(3) this] obtain i s1 where s1: "choose_inf j s = Some (i, s1)" "infs_ok s1 is" "same_shape s s1"
    "s1 = s\<lparr>infs := infs s1\<rparr>" "i = (case find (has_active s) (j # js) of Some k \<Rightarrow> k | None \<Rightarrow> inf_list s)" by blast
  have i: "i \<in> set (inf_list s # is)"
    using s1(5) find_Some_in [of "has_active s" "j # js"] js by (auto split: option.splits simp del: find.simps)
  have e1: "srvs s1 = srvs s" "sent s1 = sent s" "inf_list s1 = inf_list s"
    using arg_cong [OF s1(4), of srvs] arg_cong [OF s1(4), of sent] arg_cong [OF s1(4), of inf_list] by simp_all
  obtain a where "s1 = s\<lparr>infs := a\<rparr>" using s1(4) by blast
  then have "s1 = s\<lparr>srvs := srvs s1, infs := infs s1, io := io s1, sent := sent s1\<rparr>" by simp
  then have st1: "srv_step s is s1 []" using s1(2,3) e1 d(5) by (simp add: srv_step_def no_newq_def)
  note inv1 = srv_step_inv [OF assms(1) st1]
  have i1: "i \<in> set (inf_list s1 # is)" using i e1(3) by simp
  obtain n ys where n: "infs s1 i = Some n" "srvlist_at s1 (srvlist n) ys" "current n = NULL \<or> current n \<in> set (srvlist n # ys)"
    using infs_okD(2) [OF s1(2) i1] by blast
  obtain p t1 where t1: "deactivate_current i s1 = Some (p, t1)" "srv_step s1 is t1 []"
    using deactivate_current_step [OF inv1 i1] by blast
  define f where "f = (if current n \<noteq> NULL then do {
            v \<leftarrow> get_srv s1 (current n);
            if timed_out v s1 then map_option snd (deactivate_current i s1) else Some s1
          } else Some s1)"
  have "\<exists>v. current n \<noteq> NULL \<longrightarrow> get_srv s1 (current n) = Some v"
    using srvlist_live [OF n(2), of "current n"] n(3) by (auto simp: get_srv_def)
  then have "f = Some s1 \<or> f = Some t1" using t1(1) by (auto simp: f_def)
  then obtain t where t: "f = Some t" "srv_step s is t []"
    using st1 srv_step_trans [OF st1 t1(2)] by auto
  note invt = srv_step_inv [OF assms(1) t(2)]
  have it: "i \<in> set (inf_list t # is)" using i srv_step_fields(5) [OF t(2)] by simp
  obtain m zs where m: "infs t i = Some m" "srvlist_at t (srvlist m) zs" "current m = NULL \<or> current m \<in> set (srvlist m # zs)"
    using infs_okD(2) [OF dnrd_invD(3) [OF invt] it] by blast
  have "choose_server msg len s = (if current m \<noteq> NULL then Some (1, msg, len, i, t) else Some (0, srvfail msg, len, NULL, t))"
    using l js s1(1) n(1) t(1) m(1) set_srvfail_ok [OF assms(2,3)] by (simp add: choose_server_def f_def)
  moreover have "current m \<noteq> NULL \<Longrightarrow> srv_live t (current m)"
    using srvlist_live [OF m(2), of "current m"] m(3) by (auto simp: srv_live_def)
  ultimately show ?thesis using t(2) i m(1) by (cases "current m = NULL") auto
qed

section \<open>Entering a query\<close>

lemma q_frame_opts: "q_frame s t \<Longrightarrow> opts_ok W t = opts_ok W s"
proof -
  assume "q_frame s t"
  then obtain b a1 a2 a3 a4 a5 a6 a7 a8 a9 a10 a11 a12 where t: "t = s\<lparr>brk := b, queries := a1, qlist_tail := a2,
     total_queries := a3, total_timeouts := a4, upstream_sockets := a5, qids := a6, fdmaster := a7, maxsock := a8,
     open_fds := a9, io := a10, bound := a11, sent := a12\<rparr>"
    unfolding q_frame_def by blast
  show ?thesis unfolding t opts_ok_def by simp
qed

text \<open>
  Whatever the request is, \<open>query_add\<close> ends with the list as it was, or with one query more, and returns the node
  before the query that stands for the request, or \<open>NULL\<close>; the identifier in the message is that of this query,
  in one order or the other.
\<close>

definition entered :: "'a query_state_scheme \<Rightarrow> ptr list \<Rightarrow> 'a query_state_scheme \<Rightarrow> ptr list \<Rightarrow> ptr \<Rightarrow> bytes \<Rightarrow> bytes \<Rightarrow> bool" where
  "entered s ps t qs r msg m \<longleftrightarrow> length m = length msg \<and> drop 2 m = drop 2 msg \<and>
     (if r = NULL then qs = ps \<and> m = msg
      else \<exists>k as bs. queries t r = Some k \<and> r = last (QLIST # as) \<and> qs = as @ q_next k # bs \<and>
        (qs = ps \<or> qs = ps @ [q_next k] \<and> q_next k \<notin> set ps) \<and>
        (let w = my_qid (qrec t (q_next k)) in take 2 m = [lo8 w, hi8 w] \<or> take 2 m = [hi8 w, lo8 w]))"

lemma query_add_any:
  assumes "dnrd_inv s is xs ps" "srv_live s srv" "2 \<le> length msg"
  shows "\<exists>r m t qs. query_add i srv from msg s = Some (r, m, t) \<and> q_frame s t \<and> dnrd_inv t is xs qs \<and> sent t = sent s \<and>
    entered s ps t qs r msg m"
proof -
  note d = dnrd_invD [OF assms(1)]
  obtain a b rest where msg: "msg = a # b # rest" using assms(3) by (cases msg; cases "tl msg") auto
  consider as p bs where "ps = as @ p # bs" "\<forall>c \<in> set as. client_qid (qrec s c) \<noteq> be16 b a" "client_qid (qrec s p) = be16 b a"
    | "\<forall>c \<in> set ps. client_qid (qrec s c) \<noteq> be16 b a"
    using split_list_first_prop [of ps "\<lambda>c. client_qid (qrec s c) = be16 b a"] by blast
  then show ?thesis
  proof cases
    case 1
    let ?w = "my_qid (qrec s p)" and ?l = "last (QLIST # as)"
    have q0: "query_inv s (as @ p # bs)" using d(1) unfolding 1(1) .
    obtain t m where t: "query_add i srv from msg s = Some (?l, lo8 ?w # hi8 ?w # rest, t)"
      "queries s p = Some m" "t = s\<lparr>queries := (queries s)(p \<mapsto> m\<lparr>client_time := clock s, client_count := client_count m + 1\<rparr>)\<rparr>"
      "query_inv t (as @ p # bs)"
      using query_add_known [OF q0 1(2,3)] unfolding msg by blast
    have f: "q_frame s t" by (simp add: q_frame_def t(3))
    have inv: "dnrd_inv t is xs ps" using dnrd_inv_query [OF assms(1) f t(4)] unfolding 1(1) .
    obtain k where k: "queries t ?l = Some k" "q_next k = p" using next_query [OF t(4)] by auto
    have "?l \<in> set (QLIST # ps)" using last_in_set [of "QLIST # as"] unfolding 1(1) by (auto simp del: last_in_set)
    then have l: "?l \<noteq> NULL" using q0 unfolding 1(1) by (auto simp: query_inv_def qlist_inv_def QLIST_def simp del: last.simps)
    have "my_qid (qrec t p) = ?w" using t(2) by (simp add: qrec_def t(3))
    then have "entered s ps t ps ?l msg (lo8 ?w # hi8 ?w # rest)"
      using k l by (simp add: entered_def msg 1(1) numeral_2_eq_2 del: last.simps) (rule exI [of _ as], simp)
    moreover have "sent t = sent s" by (simp add: t(3))
    ultimately show ?thesis using t(1) f inv by blast
  next
    case 2
    show ?thesis
    proof (cases "upstream_sockets s < max_sockets s")
      case True
      obtain r m t where t: "query_add i srv from msg s = Some (r, m, t)" "q_frame s t" "sent t = sent s"
        "r = NULL \<Longrightarrow> m = msg \<and> query_inv t ps"
        "r \<noteq> NULL \<Longrightarrow> r = last (QLIST # ps) \<and> (\<exists>q n. query_inv t (ps @ [q]) \<and> queries t q = Some n \<and>
           m = hi8 (my_qid n) # lo8 (my_qid n) # rest)"
        using query_add_new [OF d(1) assms(2) d(6,5) True 2, of i "from" rest]
        unfolding msg [symmetric] by (elim exE conjE) (rule that, assumption+, auto simp del: last.simps split: if_splits)
      show ?thesis
      proof (cases "r = NULL")
        case True
        then have "dnrd_inv t is xs ps" using dnrd_inv_query [OF assms(1) t(2)] t(4) by blast
        then show ?thesis using t(1-4) True by (auto simp: entered_def)
      next
        case False
        obtain q n where q: "r = last (QLIST # ps)" "query_inv t (ps @ [q])" "queries t q = Some n"
          "m = hi8 (my_qid n) # lo8 (my_qid n) # rest" using t(5) [OF False] by blast
        obtain k where k: "queries t r = Some k" "q_next k = q" using next_query [of t ps "[q]"] q(1,2) by auto
        have "q \<notin> set ps" using q(2) by (auto simp: query_inv_def qlist_inv_def circ_def)
        then have "entered s ps t (ps @ [q]) r msg m"
          using k q(1,3,4) False by (simp add: entered_def msg qrec_def numeral_2_eq_2 del: last.simps) (rule exI [of _ ps], simp)
        then show ?thesis using t(1-3) dnrd_inv_query [OF assms(1) t(2) q(2)] by blast
      qed
    next
      case False
      have "srv \<noteq> NULL" using assms(2) by (auto simp: srv_live_def)
      then have "query_get_new i srv s = Some (NULL, s)"
        using query_get_new_eq [OF d(1) assms(2) d(6,5)] query_create_full [of srv s i] False by simp
      moreover have "query_find s (be16 b a) QLIST = Some NULL"
        using query_find_none [of s "[]" ps] d(1) 2 by (simp add: query_inv_def)
      ultimately have "query_add i srv from msg s = Some (NULL, msg, s)"
        by (simp add: query_add_def msg get_le16_Cons)
      then show ?thesis using assms(1) q_frame_refl by (fastforce simp: entered_def)
    qed
  qed
qed

section \<open>The decision on a query\<close>

lemma log_query_ok:
  assumes "cache_inv s xs" "opt_debug s = 0 \<or> named (take len msg)" "12 \<le> len" "len \<le> length msg"
  shows "log_query msg len s = Some ()"
proof -
  have "log_reply msg len s = Some ()" by (rule log_reply_ok [OF assms])
  then show ?thesis by (auto simp: log_query_def log_reply_def bind_eq_Some_conv split: if_splits)
qed

lemma log_query_root:
  assumes "opt_debug s \<noteq> 0" "msg ! 12 = 0" "12 < len" "len \<le> length msg"
  shows "log_query msg len s = None"
  using snprintf_cname_root [OF assms(2-4)] assms(1) by (simp add: log_query_def)

lemma dnrd_inv_lookup:
  assumes "dnrd_inv s is xs ps" "cx_frame (s\<lparr>cache_hits := h, cache_misses := m\<rparr>) t" "cache_inv t ys"
  shows "dnrd_inv t is ys ps" "queries t = queries s" "sent t = sent s" "inf_list t = inf_list s" "isock t = isock s"
    "opts_ok W t = opts_ok W s" "srvs t = srvs s"
proof -
  note i = dnrd_invD [OF assms(1)]
  obtain a1 a2 a3 where t: "t = s\<lparr>cache_hits := h, cache_misses := m, cxs := a1, cachelist := a2, lastcache := a3\<rparr>"
    using assms(2) unfolding cx_frame_def by auto
  have "query_inv t ps"
    by (rule query_inv_cong [OF i(1)]) (auto simp: t srv_live_def)
  moreover have "infs_ok t is"
    by (rule infs_ok_srv_upd [OF i(3)]) (auto simp: same_shape_def srv_nxt_def t)
  moreover have "ports_avail t" by (rule ports_avail_cong [OF i(6)]) (simp_all add: t)
  ultimately show "dnrd_inv t is ys ps"
    using assms(3) i(4,5,7-9) by (simp add: dnrd_inv_def named_infs_def no_newq_def t)
  show "queries t = queries s" "sent t = sent s" "inf_list t = inf_list s" "isock t = isock s" "opts_ok W t = opts_ok W s" "srvs t = srvs s"
    by (simp_all add: t opts_ok_def)
qed

lemma cache_lookup_len: "cache_lookup msg len s = Some (n, m, t) \<Longrightarrow> 0 < n \<Longrightarrow> 2 \<le> n"
  by (auto simp: cache_lookup_def Let_def bind_eq_Some_conv split: if_splits)

lemma handle_query_ok:
  assumes "dnrd_inv s is xs ps" "opts_ok W s" "12 \<le> len" "len \<le> UDP_MAXSIZE" "length msg = UDP_MAXSIZE + 4"
    and "opt_debug s = 0 \<or> named (take len msg)"
  shows "\<exists>r m l i t. handle_query msg len s = Some (r, m, l, i, t) \<and> dnrd_inv t is xs ps \<and> opts_ok W t \<and> sent t = sent s \<and>
    queries t = queries s \<and> isock t = isock s \<and> length m = length msg \<and> take 2 m = take 2 msg \<and> 2 \<le> l \<and> l \<le> UDP_MAXSIZE \<and>
    (r = 0 \<or> r = 1 \<and> (ignore_inactive_cache_hits s = 0 \<longrightarrow> m = msg) \<and> l = len \<and> i \<in> set (inf_list t # is) \<and> (\<exists>n. infs t i = Some n \<and> srv_live t (current n)))"
proof -
  have s: "s\<lparr>mst := mst s\<rparr> = s" by simp
  have l: "len \<le> length msg" "UDP_MAXSIZE \<le> length msg" "4 \<le> len" "4 \<le> length msg" using assms(3-5) by (simp_all add: UDP_MAXSIZE_def)
  have c: "length (vc s) = 256" "rr_ok (rr_garbage s)" using dnrd_invD(2) [OF assms(1)] by (simp_all add: cache_inv_def)
  have "master_safe (reloads W) (mst s)" using assms(2) by (simp add: opts_ok_def)
  from master_lookup_safe [OF this c l(1,2)] obtain k m0 where ml: "master_lookup (vc s) (rr_garbage s) msg len (mst s) = Some (k, m0, mst s)"
    "length m0 = length msg" "take 2 m0 = take 2 msg" "k = 0 \<and> m0 = msg \<or> 12 \<le> k \<and> k \<le> UDP_MAXSIZE"
    unfolding good_answer_def by auto
  from cache_lookup_safe [OF dnrd_invD(2) [OF assms(1)] l(1,2)] obtain n m1 s1 h mi where
    c: "cache_lookup msg len s = Some (n, m1, s1)" "n \<le> UDP_MAXSIZE" "length m1 = length msg" "take 2 m1 = take 2 msg"
      "cache_inv s1 xs" "cx_frame (s\<lparr>cache_hits := h, cache_misses := mi\<rparr>) s1"
      "n = 0 \<longrightarrow> ignore_inactive_cache_hits s = 0 \<longrightarrow> m1 = msg" by blast
  have lq: "log_query msg len s = Some ()" by (rule log_query_ok [OF dnrd_invD(2) [OF assms(1)] assms(6,3) l(1)])
  note s1 = dnrd_inv_lookup [OF assms(1) c(6,5)]
  consider "0 < k" | "k = 0" "0 < n" | "k = 0" "n = 0" by blast
  then show ?thesis
  proof cases
    case 1
    then have "handle_query msg len s = Some (0, m0, k, NULL, s)" using ml(1) by (simp add: handle_query_def lq s)
    then show ?thesis using 1 ml(2-4) assms(1,2) by auto
  next
    case 2
    note True = 2(2)
    have ml: "master_lookup (vc s) (rr_garbage s) msg len (mst s) = Some (0, msg, mst s)" using ml(1,4) 2(1) by simp
    then have "handle_query msg len s = Some (0, m1, n, NULL, s1)" using True c(1) by (simp add: handle_query_def lq s)
    then show ?thesis using s1 c(2-4) cache_lookup_len [OF c(1) True] assms(2) by auto
  next
    case 3
    then have ml: "master_lookup (vc s) (rr_garbage s) msg len (mst s) = Some (0, msg, mst s)" using ml(1,4) by simp
    have l1: "4 \<le> length m1" using l(4) c(3) by simp
    from choose_server_ok [OF s1(1) l(3) l1] obtain r m i t where
      t: "choose_server m1 len s1 = Some (r, m, len, i, t)" "srv_step s1 is t []"
        "r = 0 \<and> m = srvfail m1 \<or> r = 1 \<and> m = m1 \<and> i \<in> set (inf_list s1 # is) \<and> (\<exists>n. infs t i = Some n \<and> srv_live t (current n))"
      by blast
    note f = srv_step_fields [OF t(2)]
    have run: "handle_query msg len s = Some (r, m, len, i, t)" using ml c(1) t(1) 3(2) by (simp add: handle_query_def lq s)
    have "opts_ok W s1" using s1(6) [of W] assms(2) by simp
    then have "opts_ok W t" using f unfolding opts_ok_def by simp
    moreover have "sent t = sent s1" using t(2) by (simp add: srv_step_def)
    moreover have "length m = length msg \<and> take 2 m = take 2 msg" using t(3) srvfail_shape c(3,4) by auto
    moreover have "r = 1 \<longrightarrow> ignore_inactive_cache_hits s = 0 \<longrightarrow> m = msg" using t(3) c(7) 3(2) by auto
    ultimately show ?thesis using run srv_step_inv [OF s1(1) t(2)] f(1,2,5) s1(2-5) assms(3,4) t(3)
      by (intro exI [of _ r] exI [of _ m] exI [of _ len] exI [of _ i] exI [of _ t]) auto
  qed
qed

section \<open>The whole handler\<close>

definition forward_request ::
    "ptr \<Rightarrow> sockaddr_in \<Rightarrow> bytes \<Rightarrow> nat \<Rightarrow> 'a dnrd_state_scheme \<Rightarrow> (ptr \<times> 'a dnrd_state_scheme) option" where
  "forward_request i from msg len s = do {
     n \<leftarrow> infs s i;
     (prev, msg1, s5) \<leftarrow> query_add i (current n) from msg s;
     let s6 = s5\<lparr>req_msg := msg1\<rparr>;
     if prev = NULL then Some (NULL, s6)
     else do {
       k \<leftarrow> queries s6 prev;
       (sentlen, s7) \<leftarrow> send2current (q_next k) msg1 len s6;
       if 0 < sentlen then Some (q_next k, s7)
       else do {
         (plen, pkt, m) \<leftarrow> master_dontknow (vc s7) (rr_garbage s7) msg1 len (replicate (UDP_MAXSIZE + 4) 0) (mst s7);
         let s8 = s7\<lparr>mst := m\<rparr>;
         if 0 < plen then do {
           s9 \<leftarrow> query_delete_next prev s8;
           Some (NULL, s9)
         } else Some (q_next k, s8)
       }
     }
   }"

text \<open>
  The query \<open>q\<close> was sent to servers from its own sockets: \<open>d\<close> with the identifier of \<open>q\<close> in place of the first two
  bytes, in one order or the other.
\<close>

definition relayed ::
    "'a query_state_scheme \<Rightarrow> ptr \<Rightarrow> bytes \<Rightarrow> (int \<times> sockaddr_in \<times> bytes) list \<Rightarrow> bool" where
  "relayed s q d ms \<longleftrightarrow> (let w = my_qid (qrec s q) in
     forwards s q ([lo8 w, hi8 w] @ drop 2 d) ms \<or> forwards s q ([hi8 w, lo8 w] @ drop 2 d) ms)"

text \<open>
  No interface had a server in the end, and the local master could have said so: the query, which may be one that
  was open before, is deleted. What was sent until then went to servers.
\<close>

definition given_up ::
    "ptr list \<Rightarrow> 'a dnrd_state_scheme \<Rightarrow> ptr list \<Rightarrow> bytes \<Rightarrow> (int \<times> sockaddr_in \<times> bytes) list \<Rightarrow> bool" where
  "given_up ps t qs d ms \<longleftrightarrow> master_onoff (mst t) \<noteq> 0 \<and> (qs = ps \<or> (\<exists>as q bs. ps = as @ q # bs \<and> qs = as @ bs)) \<and>
     (\<exists>h. length h = 2 \<and> (\<forall>x \<in> set ms. \<exists>fd p v. srvs t p = Some v \<and> x = (fd, srv_addr v, h @ drop 2 d)))"

lemma take_drop_2: "2 \<le> n \<Longrightarrow> drop 2 m = drop 2 msg \<Longrightarrow> take n m = take 2 m @ drop 2 (take n msg)"
proof -
  assume a: "2 \<le> n" "drop 2 m = drop 2 msg"
  have "take n m = take 2 (take n m) @ drop 2 (take n m)" by (rule append_take_drop_id [symmetric])
  then show ?thesis using a by (simp add: min_def drop_take)
qed

lemma removed_split:
  assumes "qs = as @ q # bs" "qs = ps \<or> qs = ps @ [q] \<and> q \<notin> set ps"
  shows "as @ bs = ps \<or> (\<exists>as' q' bs'. ps = as' @ q' # bs' \<and> as @ bs = as' @ bs')"
proof (cases "qs = ps")
  case True
  then show ?thesis using assms(1) by blast
next
  case False
  then have e: "as @ q # bs = ps @ [q]" "q \<notin> set ps" using assms by auto
  have "bs = []"
  proof (rule ccontr)
    assume "bs \<noteq> []"
    then have "butlast (as @ q # bs) = as @ q # butlast bs" by (simp add: butlast_append)
    then have "ps = as @ q # butlast bs" unfolding e(1) by simp
    then show False using e(2) by simp
  qed
  then show ?thesis using e(1) by simp
qed

lemma forward_request_ok:
  assumes "dnrd_inv s is xs ps" "opts_ok W s" "infs s i = Some n" "srv_live s (current n)" "length msg = UDP_MAXSIZE + 4"
    and "len \<le> length msg" "2 \<le> len"
  shows "\<exists>r t qs ms. forward_request i from msg len s = Some (r, t) \<and> dnrd_inv t is xs qs \<and> opts_ok W t \<and> isock t = isock s \<and>
    sent t = sent s @ ms \<and>
    (r = NULL \<and> (qs = ps \<and> ms = [] \<or> given_up ps t qs (take len msg) ms) \<or>
     r \<in> set qs \<and> (qs = ps \<or> r \<notin> set ps \<and> qs = ps @ [r]) \<and> relayed t r (take len msg) ms)"
proof -
  have l2: "2 \<le> length msg" using assms(5) by (simp add: UDP_MAXSIZE_def)
  from query_add_any [OF assms(1,4) l2, of i "from"] obtain p m1 s5 qs where a: "query_add i (current n) from msg s = Some (p, m1, s5)"
    "q_frame s s5" "dnrd_inv s5 is xs qs" "sent s5 = sent s" "entered s ps s5 qs p msg m1" by blast
  let ?s6 = "s5\<lparr>req_msg := m1\<rparr>"
  have m1: "length m1 = UDP_MAXSIZE + 4" using a(5) assms(5) by (simp add: entered_def)
  have inv6: "dnrd_inv ?s6 is xs qs" by (rule dnrd_inv_bufs(2) [OF a(3) m1])
  have "opts_ok W s5" using q_frame_opts [OF a(2), of W] assms(2) by simp
  then have o6: "opts_ok W ?s6" by (simp add: opts_ok_def)
  have is6: "isock ?s6 = isock s" using q_frame_fields(12) [OF a(2)] by simp
  show ?thesis
  proof (cases "p = NULL")
    case True
    have "forward_request i from msg len s = Some (NULL, ?s6)" using assms(3) a(1) True by (simp add: forward_request_def)
    moreover have "qs = ps" using a(5) True by (simp add: entered_def)
    ultimately show ?thesis using inv6 o6 is6 a(4) by auto
  next
    case False
    then obtain k as bs where k: "queries s5 p = Some k" "p = last (QLIST # as)" "qs = as @ q_next k # bs"
      "qs = ps \<or> qs = ps @ [q_next k] \<and> q_next k \<notin> set ps"
      "let w = my_qid (qrec s5 (q_next k)) in take 2 m1 = [lo8 w, hi8 w] \<or> take 2 m1 = [hi8 w, lo8 w]"
      "drop 2 m1 = drop 2 msg" "length m1 = length msg"
      using a(5) unfolding entered_def by (auto simp del: last.simps)
    have q: "q_next k \<in> set qs" using k(3) by simp
    have len: "len \<le> length m1" using assms(6) k(7) by simp
    from send2current_ok [OF inv6 q len o6] obtain r t ms where t: "send2current (q_next k) m1 len ?s6 = Some (r, t)"
      "dnrd_inv t is xs qs" "send_frame ?s6 (q_next k) t ms" "forwards ?s6 (q_next k) (take len m1) ms" by blast
    note f = send_frame_fields [OF t(3)]
    have ot: "opts_ok W t" "isock t = isock s" using f(2,3) o6 is6 by simp_all
    have fw: "forwards t (q_next k) (take len m1) ms" using t(4) unfolding forwards_cong [OF t(3)] .
    have "my_qid (qrec t (q_next k)) = my_qid (qrec s5 (q_next k))"
      using t(3) by (auto simp: send_frame_def qrec_def)
    moreover have tk: "take len m1 = take 2 m1 @ drop 2 (take len msg)" by (rule take_drop_2 [OF assms(7) k(6)])
    ultimately have rl: "relayed t (q_next k) (take len msg) ms" using k(5) fw unfolding relayed_def tk by (auto simp: Let_def)
    have st: "sent t = sent s @ ms" using t(3) a(4) by (simp add: send_frame_def)
    have c: "length (vc t) = 256" "rr_ok (rr_garbage t)" using dnrd_invD(2) [OF t(2)] by (simp_all add: cache_inv_def)
    have ms: "master_safe (reloads W) (mst t)" using ot(1) by (simp add: opts_ok_def)
    have l6: "6 \<le> length m1" using m1 by (simp add: UDP_MAXSIZE_def)
    from master_dontknow_safe [OF ms c len l6, of "replicate (UDP_MAXSIZE + 4) 0"] obtain n1 pkt where
      dk: "master_dontknow (vc t) (rr_garbage t) m1 len (replicate (UDP_MAXSIZE + 4) 0) (mst t) = Some (n1, pkt, mst t)"
        "master_onoff (mst t) = 0 \<longrightarrow> n1 = 0" by auto
    have tm: "t\<lparr>mst := mst t\<rparr> = t" by simp
    have run: "forward_request i from msg len s = (if 0 < r \<or> n1 = 0 then Some (q_next k, t)
        else query_delete_next p t \<bind> (\<lambda>s9. Some (NULL, s9)))"
      using assms(3) a(1) False k(1) t(1) dk(1) by (simp add: forward_request_def tm)
    show ?thesis
    proof (cases "0 < r \<or> n1 = 0")
      case True
      moreover have "qs = ps \<or> q_next k \<notin> set ps \<and> qs = ps @ [q_next k]" using k(4) by blast
      ultimately show ?thesis using run t(2) ot st q rl
        by (intro exI [of _ "q_next k"] exI [of _ t] exI [of _ qs] exI [of _ ms]) simp
    next
      case fail: False
      have "query_inv t (as @ q_next k # bs)" using dnrd_invD(1) [OF t(2)] k(3) by simp
      from query_delete_next_ok [OF this] obtain u where u: "query_delete_next p t = Some u" "query_inv u (as @ bs)"
        "q_frame t u" "sent u = sent t" unfolding k(2) by blast
      have "srvs u = srvs t" using q_frame_fields [OF u(3)] by simp
      moreover have "mst u = mst t" using q_frame_options [OF u(3)] by (simp add: options_of_def)
      moreover have "\<forall>x \<in> set ms. \<exists>fd p v. srvs t p = Some v \<and> x = (fd, srv_addr v, take 2 m1 @ drop 2 (take len msg))"
        using fw unfolding forwards_def tk by blast
      moreover have "length (take 2 m1) = 2" using l6 by simp
      ultimately have "given_up ps u (as @ bs) (take len msg) ms"
        unfolding given_up_def using removed_split [OF k(3,4)] fail dk(2) by (metis neq0_conv)
      moreover have "dnrd_inv u is xs (as @ bs)" by (rule dnrd_inv_query [OF t(2) u(3,2)])
      moreover have "opts_ok W u" "isock u = isock s" using q_frame_opts [OF u(3)] q_frame_fields(12) [OF u(3)] ot by simp_all
      ultimately show ?thesis using run fail u(1,4) st
        by (intro exI [of _ NULL] exI [of _ u] exI [of _ "as @ bs"] exI [of _ ms]) simp
    qed
  qed
qed

lemma udp_handle_request_eq:
  "udp_handle_request s =
     (case os_recv s of
        (Recv_error, s1) \<Rightarrow> Some (NULL, s1)
      | (Recv_msg d from nm, s1) \<Rightarrow> do {
          let d1 = take UDP_MAXSIZE d;
          let s2 = s1\<lparr>req_msg := overlay (req_msg s1) 0 d1\<rparr>;
          ok \<leftarrow> check_query (req_msg s2) (length d1);
          if ok < 0 then Some (NULL, s2)
          else do {
            (fwd, msg, len, i, s3) \<leftarrow> handle_query (req_msg s2) (length d1) s2;
            let s4 = s3\<lparr>req_msg := msg\<rparr>;
            if fwd < 0 then Some (NULL, s4)
            else if fwd = 0 then
              (if len \<le> length msg then Some (NULL, snd (os_sendto (isock s4) (take len msg) from s4)) else None)
            else forward_request i from msg len s4
          }
        })"
  unfolding udp_handle_request_def forward_request_def by (rule refl)

text \<open>The packets that are taken for a query, and what the handler does with each packet.\<close>

definition valid_request :: "bytes \<Rightarrow> bool" where
  "valid_request d \<longleftrightarrow> 12 \<le> length d \<and> \<not> bit (be16 (d ! 2) (d ! 3)) 6 \<and> \<not> bit (be16 (d ! 2) (d ! 3)) 15"

definition answered :: "int \<Rightarrow> sockaddr_in \<Rightarrow> bytes \<Rightarrow> (int \<times> sockaddr_in \<times> bytes) list \<Rightarrow> bool" where
  "answered fd from d ms \<longleftrightarrow> (\<exists>m. ms = [(fd, from, m)] \<and> take 2 m = take 2 d)"

text \<open>
  What is forwarded of a query: the packet as it came. With the option \<open>-i\<close>, which makes the cache ignore entries of
  servers that are switched off, it is only a packet of the same length and identifier, because the cache has then
  written such an entry over it.
\<close>

definition passed_body :: "'a cache_state_scheme \<Rightarrow> bytes \<Rightarrow> bytes \<Rightarrow> bool" where
  "passed_body s d body \<longleftrightarrow> length body = length d \<and> take 2 body = take 2 d \<and>
     (ignore_inactive_cache_hits s = 0 \<longrightarrow> body = d)"

definition request_result ::
    "'a dnrd_state_scheme \<Rightarrow> ptr list \<Rightarrow> ptr \<Rightarrow> 'a dnrd_state_scheme \<Rightarrow> ptr list \<Rightarrow> (int \<times> sockaddr_in \<times> bytes) list \<Rightarrow> bool" where
  "request_result s ps r t qs ms \<longleftrightarrow>
     (case env_recv s (io s) of Recv_error \<Rightarrow> r = NULL \<and> qs = ps \<and> ms = []
      | Recv_msg d from nm \<Rightarrow>
          if \<not> valid_request (take UDP_MAXSIZE d) then r = NULL \<and> qs = ps \<and> ms = []
          else if r = NULL then qs = ps \<and> (ms = [] \<or> answered (isock s) from d ms) \<or>
            (\<exists>body. passed_body s (take UDP_MAXSIZE d) body \<and> given_up ps t qs body ms)
          else r \<in> set qs \<and> (qs = ps \<or> r \<notin> set ps \<and> qs = ps @ [r]) \<and>
            (\<exists>body. passed_body s (take UDP_MAXSIZE d) body \<and> relayed t r body ms))"

lemma overlay_prefix: "length d \<le> length m \<Longrightarrow> take (length d) (overlay m 0 d) = d"
  by (simp add: overlay_def)

lemma request_code:
  assumes "length m = UDP_MAXSIZE + 4" "length d \<le> UDP_MAXSIZE" "take (length d) m = d"
  shows "check_query m (length d) = Some (if valid_request d then 0 else - 1)"
proof -
  have l: "4 \<le> length m" "length d \<le> 512" using assms(1,2) by (simp_all add: UDP_MAXSIZE_def)
  have "12 \<le> length d \<Longrightarrow> m ! 2 = d ! 2 \<and> m ! 3 = d ! 3"
    using nth_take [of 2 "length d" m] nth_take [of 3 "length d" m] unfolding assms(3) by simp
  then show ?thesis using check_query_iff [OF l(1), of "length d"] l(2) by (auto simp: valid_request_def)
qed

lemma dnrd_inv_ne_NULL: "dnrd_inv s is xs ps \<Longrightarrow> q \<in> set ps \<Longrightarrow> q \<noteq> NULL"
  by (auto simp: dnrd_inv_def query_inv_def qlist_inv_def)

lemma udp_handle_request_ok:
  assumes "dnrd_inv s is xs ps" "opts_ok W s"
  shows "\<exists>r t qs ms. udp_handle_request s = Some (r, t) \<and> dnrd_inv t is xs qs \<and> opts_ok W t \<and> isock t = isock s \<and>
    sent t = sent s @ ms \<and> request_result s ps r t qs ms"
proof (cases "env_recv s (io s)")
  case Recv_error
  let ?s1 = "s\<lparr>io := Suc (io s)\<rparr>"
  have "udp_handle_request s = Some (NULL, ?s1)" using Recv_error by (simp add: udp_handle_request_def os_recv_def)
  moreover have "opts_ok W ?s1" using assms(2) by (simp add: opts_ok_def)
  ultimately show ?thesis using srv_step_inv [OF assms(1) io_step(1) [OF assms(1)]] Recv_error
    by (intro exI [of _ NULL] exI [of _ ?s1] exI [of _ ps] exI [of _ "[]"]) (simp add: request_result_def)
next
  case (Recv_msg d frm nm)
  let ?s1 = "s\<lparr>io := Suc (io s)\<rparr>" and ?d = "take UDP_MAXSIZE d"
  let ?m = "overlay (req_msg s) 0 ?d"
  let ?s2 = "?s1\<lparr>req_msg := ?m\<rparr>"
  have lm: "length (req_msg s) = UDP_MAXSIZE + 4" by (rule dnrd_invD(8) [OF assms(1)])
  then have m: "length ?m = UDP_MAXSIZE + 4" "take (length ?d) ?m = ?d" by (subst length_overlay overlay_prefix; simp)+
  have inv2: "dnrd_inv ?s2 is xs ps"
    by (rule dnrd_inv_bufs(2) [OF srv_step_inv [OF assms(1) io_step(1) [OF assms(1)]] m(1)])
  have o2: "opts_ok W ?s2" using assms(2) by (simp add: opts_ok_def)
  note code = request_code [OF m(1) _ m(2)]
  show ?thesis
  proof (cases "valid_request ?d")
    case False
    have "udp_handle_request s = Some (NULL, ?s2)"
      using Recv_msg code False by (simp add: udp_handle_request_def os_recv_def)
    then show ?thesis using inv2 o2 Recv_msg False
      by (intro exI [of _ NULL] exI [of _ ?s2] exI [of _ ps] exI [of _ "[]"]) (simp add: request_result_def)
  next
    case True
    have len: "12 \<le> length ?d" "length ?d \<le> UDP_MAXSIZE" using True by (simp_all add: valid_request_def)
    have nm: "opt_debug ?s2 = 0 \<or> named (take (length ?d) ?m)"
      using opts_ok_debug [OF assms(2)] Recv_msg unfolding m(2) by (auto simp: debug_ok_def named_recv_def)
    from handle_query_ok [OF inv2 o2 len m(1) nm] obtain r m1 l i s3 where
      h: "handle_query ?m (length ?d) ?s2 = Some (r, m1, l, i, s3)" "dnrd_inv s3 is xs ps" "opts_ok W s3" "sent s3 = sent s"
        "isock s3 = isock s" "length m1 = UDP_MAXSIZE + 4" "take 2 m1 = take 2 ?m" "2 \<le> l" "l \<le> UDP_MAXSIZE"
        "r = 0 \<or> r = 1 \<and> (ignore_inactive_cache_hits s = 0 \<longrightarrow> m1 = ?m) \<and> l = length ?d \<and> (\<exists>n. infs s3 i = Some n \<and> srv_live s3 (current n))" using m(1) by auto
    let ?s4 = "s3\<lparr>req_msg := m1\<rparr>"
    have inv4: "dnrd_inv ?s4 is xs ps" by (rule dnrd_inv_bufs(2) [OF h(2,6)])
    have o4: "opts_ok W ?s4" using h(3) by (simp add: opts_ok_def)
    have "take 2 ?m = take 2 (take (length ?d) ?m)" using len(1) by (simp add: min_def)
    also have "\<dots> = take 2 d" unfolding m(2) by (simp add: UDP_MAXSIZE_def)
    finally have id: "take 2 m1 = take 2 d" using h(7) by simp
    have run: "udp_handle_request s = (if r < 0 then Some (NULL, ?s4) else if r = 0 then
        (if l \<le> length m1 then Some (NULL, snd (os_sendto (isock ?s4) (take l m1) frm ?s4)) else None)
        else forward_request i frm m1 l ?s4)"
      using Recv_msg code True h(1) by (simp add: udp_handle_request_eq os_recv_def)
    show ?thesis
    proof (cases "r = 0")
      case r: True
      let ?t = "?s4\<lparr>io := Suc (io s3), sent := sent s3 @ [(isock s, frm, take l m1)]\<rparr>"
      have "udp_handle_request s = Some (NULL, ?t)" using run r h(5,6,9) by (simp add: os_sendto_def)
      moreover have "dnrd_inv ?t is xs ps" using dnrd_inv_sent [OF inv4] by simp
      moreover have "answered (isock s) frm d [(isock s, frm, take l m1)]"
        using id h(8) by (simp add: answered_def min_def)
      ultimately show ?thesis using h(3,4,5) Recv_msg True
        by (intro exI [of _ NULL] exI [of _ ?t] exI [of _ ps] exI [of _ "[(isock s, frm, take l m1)]"])
          (simp add: request_result_def opts_ok_def)
    next
      case False
      then obtain n where n: "r = 1" "l = length ?d" "infs ?s4 i = Some n" "srv_live ?s4 (current n)"
        using h(10) by (auto simp: srv_live_def)
      have "l \<le> length m1" using h(6,9) by simp
      from forward_request_ok [OF inv4 o4 n(3,4) h(6) this h(8), of frm] obtain q t qs ms where
        t: "forward_request i frm m1 l ?s4 = Some (q, t)" "dnrd_inv t is xs qs" "opts_ok W t" "isock t = isock s" "sent t = sent s @ ms"
          "q = NULL \<and> (qs = ps \<and> ms = [] \<or> given_up ps t qs (take l m1) ms) \<or> q \<in> set qs \<and> (qs = ps \<or> q \<notin> set ps \<and> qs = ps @ [q]) \<and> relayed t q (take l m1) ms"
        using h(4,5) by auto
      have "passed_body s ?d (take l m1)" unfolding passed_body_def
      proof (intro conjI impI)
        show "length (take l m1) = length ?d" using n(2) m(1) h(6) len(2) by simp
        show "take 2 (take l m1) = take 2 ?d" using id h(8) by (simp add: min_def UDP_MAXSIZE_def)
        show "take l m1 = ?d" if "ignore_inactive_cache_hits s = 0" using h(10) that m(2) n(1,2) by auto
      qed
      then have "request_result s ps q t qs ms"
        using t(6) dnrd_inv_ne_NULL [OF t(2), of q] Recv_msg True unfolding request_result_def by auto
      then show ?thesis using run n(1) t(1-5) by auto
    qed
  qed
qed

text \<open>While debugging is on, a valid question for the root writes in front of an array.\<close>

lemma udp_handle_request_root:
  assumes "env_recv s (io s) = Recv_msg d from mh" "valid_request (take UDP_MAXSIZE d)" "12 < length d" "d ! 12 = 0"
    and "opt_debug s \<noteq> 0" "length (req_msg s) = UDP_MAXSIZE + 4"
  shows "udp_handle_request s = None"
proof -
  let ?d = "take UDP_MAXSIZE d" and ?s = "s\<lparr>io := io s + 1\<rparr>"
  let ?m = "overlay (req_msg s) 0 ?d"
  have r: "os_recv s = (Recv_msg d from mh, ?s)" using assms(1) by (simp add: os_recv_def)
  have l: "length ?d \<le> UDP_MAXSIZE" by simp
  have p: "take (length ?d) ?m = ?d" "length ?m = UDP_MAXSIZE + 4"
    using overlay_prefix [of ?d "req_msg s"] assms(6) l by (simp_all add: overlay_def)
  have c: "check_query ?m (length ?d) = Some 0" using request_code [OF p(2) l p(1)] assms(2) by simp
  have d: "12 < length ?d" "?d ! 12 = 0" using assms(3,4) by (simp_all add: UDP_MAXSIZE_def)
  have "?m ! 12 = 0" using p(1) d nth_take [of 12 "length ?d" ?m] by simp
  then have "handle_query ?m (length ?d) (?s\<lparr>req_msg := ?m\<rparr>) = None"
    using log_query_root [of "?s\<lparr>req_msg := ?m\<rparr>" ?m "length ?d"] d(1) p(2) l assms(5) by (simp add: handle_query_def)
  then show ?thesis using r c by (simp add: udp_handle_request_def Let_def)
qed

end
