(* ===== verification/Rounds.thy ===== *)
theory Rounds
  imports Requests
begin

text \<open>
  One iteration of the main loop, src/relay.c: the sweeps over the servers, which send a probe to those that are
  switched off and switch off those that do not answer, the packets, and the upkeep of the cache and of the open
  queries. Every iteration ends in bounds and keeps the invariant, whatever the kernel reports, as long as
  descriptor 0 is not among those that are ready.
\<close>

section \<open>Probing a server\<close>

definition same_addrs :: "'a srv_state_scheme \<Rightarrow> 'a srv_state_scheme \<Rightarrow> bool" where
  "same_addrs s t \<longleftrightarrow> (\<forall>p. map_option srv_addr (srvs t p) = map_option srv_addr (srvs s p))"

text \<open>Every message goes to a server of the program and carries the test query.\<close>

definition probes :: "'a dnrd_state_scheme \<Rightarrow> (int \<times> sockaddr_in \<times> bytes) list \<Rightarrow> bool" where
  "probes s ms \<longleftrightarrow> (\<forall>(fd, to, m) \<in> set ms. drop 2 m = drop 2 (dnsbuf s) \<and> (\<exists>p v. srvs s p = Some v \<and> to = srv_addr v))"

definition round_step ::
    "world \<Rightarrow> 'a dnrd_state_scheme \<Rightarrow> ptr list \<Rightarrow> ptr list \<Rightarrow> ptr list \<Rightarrow> 'a dnrd_state_scheme \<Rightarrow> ptr list \<Rightarrow> bool" where
  "round_step W s is xs ps t qs \<longleftrightarrow> dnrd_inv t is xs qs \<and> opts_ok W t \<and> same_shape s t \<and> same_addrs s t \<and>
     isock t = isock s \<and> forward_timeout t = forward_timeout s \<and> drop 2 (dnsbuf t) = drop 2 (dnsbuf s) \<and>
     (\<exists>ns. qs = ps @ ns) \<and> (\<exists>ms. sent t = sent s @ ms \<and> probes s ms)"

lemma probes_cong: "same_addrs s t \<Longrightarrow> drop 2 (dnsbuf t) = drop 2 (dnsbuf s) \<Longrightarrow> probes t ms = probes s ms"
proof -
  assume a: "same_addrs s t" "drop 2 (dnsbuf t) = drop 2 (dnsbuf s)"
  have "(\<exists>v. srvs t p = Some v \<and> to = srv_addr v) \<longleftrightarrow> (\<exists>v. srvs s p = Some v \<and> to = srv_addr v)" for p and to :: sockaddr_in
    using a(1) by (cases "srvs t p"; cases "srvs s p") (auto simp: same_addrs_def dest!: spec [of _ p])
  then show ?thesis using a(2) by (simp add: probes_def)
qed

lemma round_step_trans: "round_step W s is xs ps t qs \<Longrightarrow> round_step W t is xs qs u rs \<Longrightarrow> round_step W s is xs ps u rs"
proof -
  assume a: "round_step W s is xs ps t qs" "round_step W t is xs qs u rs"
  obtain ms ns where m: "sent t = sent s @ ms" "probes s ms" "sent u = sent t @ ns" "probes t ns"
    using a unfolding round_step_def by blast
  have "probes s (ms @ ns)"
    using m a(1) probes_cong [of s t ns] unfolding round_step_def by (auto simp: probes_def)
  moreover have "same_shape s u" using a same_shape_trans unfolding round_step_def by blast
  ultimately show ?thesis using a m unfolding round_step_def by (auto simp: same_addrs_def)
qed

lemma round_step_srv:
  assumes "dnrd_inv s is xs ps" "opts_ok W s" "srv_step s is t []"
  shows "round_step W s is xs ps t ps"
proof -
  have "opts_ok W t" using assms(2) srv_step_fields [OF assms(3)] unfolding opts_ok_def by simp
  then show ?thesis
    using srv_step_inv [OF assms(1,3)] srv_step_fields [OF assms(3)] assms(3)
    by (auto simp: round_step_def same_addrs_def srv_step_def probes_def)
qed

lemma dnrd_inv_dnsbuf:
  assumes "dnrd_inv s is xs ps" "2 \<le> length b"
  shows "dnrd_inv (s\<lparr>dnsbuf := b\<rparr>) is xs ps"
proof -
  note i = dnrd_invD [OF assms(1)]
  have "query_inv (s\<lparr>dnsbuf := b\<rparr>) ps" by (rule query_inv_cong [OF i(1)]) (auto simp: srv_live_def)
  moreover have "cache_inv (s\<lparr>dnsbuf := b\<rparr>) xs" by (rule cache_inv_cong [OF i(2)]) auto
  moreover have "infs_ok (s\<lparr>dnsbuf := b\<rparr>) is"
    by (rule infs_ok_srv_upd [OF i(3)]) (auto simp: same_shape_def srv_nxt_def)
  moreover have "ports_avail (s\<lparr>dnsbuf := b\<rparr>)" by (rule ports_avail_cong [OF i(6)]) simp_all
  ultimately show ?thesis using assms(2) i by (simp add: dnrd_inv_def named_infs_def no_newq_def)
qed

lemma q_frame_round:
  assumes "dnrd_inv s is xs ps" "opts_ok W s" "q_frame s t" "dnrd_inv t is xs qs" "sent t = sent s" "qs = ps @ ns"
  shows "round_step W s is xs ps t qs"
proof -
  obtain b a1 a2 a3 a4 a5 a6 a7 a8 a9 a10 a11 a12 where t: "t = s\<lparr>brk := b, queries := a1, qlist_tail := a2,
     total_queries := a3, total_timeouts := a4, upstream_sockets := a5, qids := a6, fdmaster := a7, maxsock := a8,
     open_fds := a9, io := a10, bound := a11, sent := a12\<rparr>"
    using assms(3) unfolding q_frame_def by blast
  have "same_shape s t" by (simp add: t same_shape_def srv_nxt_def)
  moreover have "opts_ok W t" using q_frame_opts [OF assms(3)] assms(2) by simp
  moreover have "isock t = isock s" "dnsbuf t = dnsbuf s" "same_addrs s t" "forward_timeout t = forward_timeout s"
    by (simp_all add: t same_addrs_def)
  ultimately show ?thesis using assms(4-6) by (auto simp: round_step_def probes_def)
qed

lemma put_get_le16:
  assumes "2 \<le> length b"
  shows "\<exists>id c. get_le16 b = Some id \<and> put_le16 b (id + 1) = Some c \<and> length c = length b \<and> drop 2 c = drop 2 b"
proof -
  obtain x y r where "b = x # y # r" using assms by (cases b; cases "tl b") auto
  then show ?thesis by (simp add: numeral_2_eq_2)
qed

lemma udp_send_dummy_ok:
  assumes "dnrd_inv s is xs ps" "opts_ok W s" "srv_live s srv"
  shows "\<exists>rc t qs. udp_send_dummy srv s = Some (rc, t) \<and> round_step W s is xs ps t qs"
proof -
  have srv: "srv \<noteq> NULL" using assms(3) by (simp add: srv_live_def)
  from query_add_any [OF assms(1,3) dnrd_invD(9) [OF assms(1)], of NULL "addr_garbage s"] obtain p m s1 qs where
    a: "query_add NULL srv (addr_garbage s) (dnsbuf s) s = Some (p, m, s1)" "q_frame s s1" "dnrd_inv s1 is xs qs"
      "sent s1 = sent s" "entered s ps s1 qs p (dnsbuf s) m" by blast
  have qs: "\<exists>ns. qs = ps @ ns" using a(5) by (auto simp: entered_def split: if_splits)
  then have r1: "round_step W s is xs ps s1 qs" using q_frame_round [OF assms(1,2) a(2,3,4)] by blast
  show ?thesis
  proof (cases "p = NULL")
    case True
    then have "udp_send_dummy srv s = Some (- 1, s1)" using srv a(1) by (simp add: udp_send_dummy_def)
    then show ?thesis using r1 by blast
  next
    case False
    then obtain n where n: "queries s1 p = Some n" "q_next n \<in> set qs" and m: "drop 2 m = drop 2 (dnsbuf s)" "2 \<le> length m"
      using a(5) dnrd_invD(9) [OF assms(1)] by (auto simp: entered_def)
    let ?q = "q_next n" and ?s1 = "s1\<lparr>dnsbuf := m\<rparr>"
    have i1: "dnrd_inv ?s1 is xs qs" by (rule dnrd_inv_dnsbuf [OF a(3) m(2)])
    obtain k where k: "queries ?s1 ?q = Some k" "query_ok ?s1 k" using dnrd_inv_member [OF i1 n(2)] by blast
    let ?k = "k\<lparr>ttl := reactivate_interval s1\<rparr>"
    let ?s2 = "?s1\<lparr>queries := (queries ?s1)(?q \<mapsto> ?k)\<rparr>"
    have "query_ok ?s1 ?k" using k(2) by (simp add: query_ok_def)
    from query_upd_step(1) [OF i1 n(2) k(1) _ _ _ this] have i2: "dnrd_inv ?s2 is xs qs" by (simp add: same_client_def)
    have sock: "sock_arr k \<noteq> []" using k(2) by (auto simp: query_ok_def)
    have live: "srvs s1 = srvs s" using q_frame_fields(1) [OF a(2)] .
    obtain v where v: "srvs ?s2 srv = Some v" using assms(3) live by (auto simp: srv_live_def)
    from udp_send_step [OF i2 v order_refl [of "length m"], of "sock_arr k ! 0"] obtain rc s3 where
      s3: "udp_send (sock_arr k ! 0) srv m (length m) ?s2 = Some (rc, s3)" "srv_step ?s2 is s3 [(sock_arr k ! 0, srv_addr v, m)]"
      by auto
    have i3: "dnrd_inv s3 is xs qs" by (rule srv_step_inv [OF i2 s3(2)])
    have d3: "dnsbuf s3 = m" using srv_step_fields(14) [OF s3(2)] by simp
    obtain id b where b: "get_le16 m = Some id" "put_le16 m (id + 1) = Some b" "length b = length m" "drop 2 b = drop 2 m"
      using put_get_le16 [OF m(2)] by blast
    let ?t = "s3\<lparr>dnsbuf := b\<rparr>"
    have run: "udp_send_dummy srv s = Some (rc, ?t)"
      using srv a(1) False n(1) k(1) sock s3(1) d3 b(1,2) by (simp add: udp_send_dummy_def upd_query_def)
    obtain a1 a2 a3 a4 where e: "s3 = ?s2\<lparr>srvs := a1, infs := a2, io := a3, sent := a4\<rparr>"
      using s3(2) unfolding srv_step_def by blast
    have sh: "same_shape ?s2 s3" "sent s3 = sent ?s2 @ [(sock_arr k ! 0, srv_addr v, m)]" "same_addrs ?s2 s3"
      using s3(2) unfolding srv_step_def same_addrs_def by blast+
    have s12: "same_shape s s1" "opts_ok W s1" "same_addrs s s1" "isock s1 = isock s" "forward_timeout s1 = forward_timeout s"
      using r1 unfolding round_step_def by blast+
    have "same_shape s1 ?s2" by (simp add: same_shape_def srv_nxt_def)
    moreover have "same_shape s3 ?t" by (simp add: same_shape_def srv_nxt_def)
    ultimately have shape: "same_shape s ?t" using s12(1) sh(1) same_shape_trans by blast
    have pr: "probes s [(sock_arr k ! 0, srv_addr v, m)]" using v m(1) live by (auto simp: probes_def)
    have "dnrd_inv ?t is xs qs" by (rule dnrd_inv_dnsbuf [OF i3]) (use b(3) m(2) in simp)
    moreover have "opts_ok W ?t" using s12(2) by (simp add: opts_ok_def e)
    moreover have "same_addrs s ?t" using s12(3) sh(3) by (simp add: same_addrs_def)
    moreover have "isock ?t = isock s" "drop 2 (dnsbuf ?t) = drop 2 (dnsbuf s)" "forward_timeout ?t = forward_timeout s"
      using s12(4,5) b(4) m(1) by (simp_all add: e)
    moreover have "sent ?t = sent s @ [(sock_arr k ! 0, srv_addr v, m)]" using sh(2) a(4) by simp
    ultimately have "round_step W s is xs ps ?t qs" using shape qs pr unfolding round_step_def by blast
    then show ?thesis using run by blast
  qed
qed

section \<open>The sweep that looks for servers that are back\<close>

lemma srvlist_next:
  assumes "srvlist_at s h (as @ bs)"
  shows "\<exists>n. srvs s (last (h # as)) = Some n \<and> srv_next n = hd (bs @ [h])"
  using assms circ_last [of "srv_nxt s" h as] circ_next_last [of "srv_nxt s" h as "hd bs" "tl bs"]
  by (cases bs) (auto simp: srvlist_at_def simp del: last.simps)

lemma inflist_next:
  assumes "infs_ok s is" "is = as @ bs"
  shows "\<exists>n. infs s (last (inf_list s # as)) = Some n \<and> inf_next n = hd (bs @ [inf_list s])"
    and "last (inf_list s # as) \<in> set (inf_list s # is)" "hd (bs @ [inf_list s]) = inf_list s \<longleftrightarrow> bs = []"
proof -
  have c: "circ (inf_nxt s) (inf_list s) (as @ bs)" using assms by (simp add: infs_ok_def inflist_at_def)
  show "\<exists>n. infs s (last (inf_list s # as)) = Some n \<and> inf_next n = hd (bs @ [inf_list s])"
    using c circ_last [of "inf_nxt s" "inf_list s" as] circ_next_last [of "inf_nxt s" "inf_list s" as "hd bs" "tl bs"]
    by (cases bs) (auto simp del: last.simps)
  show "last (inf_list s # as) \<in> set (inf_list s # is)" using assms(2) by auto
  show "hd (bs @ [inf_list s]) = inf_list s \<longleftrightarrow> bs = []" using c by (cases bs) (auto simp: circ_def)
qed

lemma round_stepD:
  assumes "round_step W s is xs ps t qs"
  shows "dnrd_inv t is xs qs" "opts_ok W t" "same_shape s t"
  using assms by (simp_all add: round_step_def)

lemma round_step_refl: "dnrd_inv s is xs ps \<Longrightarrow> opts_ok W s \<Longrightarrow> round_step W s is xs ps s ps"
  by (rule round_step_srv [OF _ _ srv_step_refl])

lemma retry_loop_ok:
  assumes "dnrd_inv s is xs ps" "opts_ok W s" "srvlist_at s h (as @ bs)"
  shows "\<exists>t qs. retry_loop h delay (last (h # as)) s = Some t \<and> round_step W s is xs ps t qs"
  using assms
proof (induction bs arbitrary: s as ps)
  case Nil
  obtain n where "srvs s (last (h # as)) = Some n" "srv_next n = h" using srvlist_next [OF Nil(3)] by auto
  then have "retry_loop h delay (last (h # as)) s = Some s"
    by (subst retry_loop.simps) (simp add: get_srv_def del: last.simps)
  then show ?case using round_step_refl [OF Nil(1,2)] by blast
next
  case (Cons b bs)
  obtain n where n: "srvs s (last (h # as)) = Some n" "srv_next n = b" using srvlist_next [OF Cons.prems(3)] by auto
  have b: "b \<noteq> NULL" "b \<noteq> h" using Cons.prems(3) by (auto simp: srvlist_at_def circ_def)
  obtain v where v: "srvs s b = Some v" using srvlist_live [OF Cons.prems(3), of b] by auto
  define f where "f = (if inactive v \<noteq> 0 \<and> delay \<le> clock s - inactive v then do {
              s1 \<leftarrow> upd_srv b (\<lambda>v. v\<lparr>inactive := clock s\<rparr>) s;
              map_option snd (udp_send_dummy b s1)
            } else Some s)"
  have "\<exists>s1 rs. f = Some s1 \<and> round_step W s is xs ps s1 rs"
  proof (cases "inactive v \<noteq> 0 \<and> delay \<le> clock s - inactive v")
    case False
    then have "f = Some s" by (simp only: f_def if_False)
    then show ?thesis using round_step_refl [OF Cons.prems(1,2)] by blast
  next
    case True
    obtain s0 where s0: "upd_srv b (\<lambda>v. v\<lparr>inactive := clock s\<rparr>) s = Some s0" "srv_step s is s0 []"
      "s0 = s\<lparr>srvs := (srvs s)(b \<mapsto> v\<lparr>inactive := clock s\<rparr>)\<rparr>"
      using upd_srv_step [OF Cons.prems(1) v, of "\<lambda>v. v\<lparr>inactive := clock s\<rparr>"] by auto
    have r0: "round_step W s is xs ps s0 ps" by (rule round_step_srv [OF Cons.prems(1,2) s0(2)])
    have "srv_live s0 b" using b(1) by (simp add: srv_live_def s0(3))
    from udp_send_dummy_ok [OF round_stepD(1,2) [OF r0] this] obtain rc s1 rs where
      "udp_send_dummy b s0 = Some (rc, s1)" "round_step W s0 is xs ps s1 rs" by blast
    moreover have "f = map_option snd (udp_send_dummy b s0)" using True s0(1) by (simp add: f_def)
    ultimately show ?thesis using round_step_trans [OF r0] by auto
  qed
  then obtain s1 rs where s1: "f = Some s1" "round_step W s is xs ps s1 rs" by blast
  have "srvlist_at s1 h ((as @ [b]) @ bs)" using Cons.prems(3) same_shape_srvlist [OF round_stepD(3) [OF s1(2)]] by simp
  from Cons.IH [OF round_stepD(1,2) [OF s1(2)] this] obtain t qs where
    t: "retry_loop h delay (last (h # as @ [b])) s1 = Some t" "round_step W s1 is xs rs t qs" by auto
  have "retry_loop h delay (last (h # as)) s = retry_loop h delay b s1"
    using n v b s1(1) unfolding f_def by (subst retry_loop.simps) (simp add: get_srv_def del: last.simps)
  then show ?case using t(1) round_step_trans [OF s1(2) t(2)] by auto
qed

lemma react_step:
  assumes "dnrd_inv s is xs ps" "opts_ok W s" "is = as @ bs"
  shows "\<exists>s1 rs. round_step W s is xs ps s1 rs \<and> inf_list s1 = inf_list s \<and>
    react_loop delay (last (inf_list s # as)) s = (if bs \<noteq> [] then react_loop delay (hd bs) s1 else Some s1)"
proof -
  let ?i = "last (inf_list s # as)"
  note d = dnrd_invD(3) [OF assms(1)]
  obtain n ys where n: "infs s ?i = Some n" "srvlist_at s (srvlist n) ys"
    using infs_okD(2) [OF d inflist_next(2) [OF d assms(3)]] by blast
  have nx: "inf_next n = hd (bs @ [inf_list s])" using inflist_next(1) [OF d assms(3)] n(1) by (simp del: last.simps)
  from retry_loop_ok [OF assms(1,2), of "srvlist n" "[]" ys delay] n(2) obtain s0 ps0 where
    s0: "retry_loop (srvlist n) delay (srvlist n) s = Some s0" "round_step W s is xs ps s0 ps0" by auto
  obtain s1 rs where s1: "(if ys = [] then Some s else retry_srvlist ?i delay s) = Some s1" "round_step W s is xs ps s1 rs"
  proof (cases "ys = []")
    case True
    then show ?thesis using that [of s ps] round_step_refl [OF assms(1,2)] by simp
  next
    case False
    then show ?thesis using that [of s0 ps0] s0 n(1) by (simp add: retry_srvlist_def del: last.simps)
  qed
  note r1 = round_stepD [OF s1(2)]
  obtain m where m: "infs s1 ?i = Some m" "inf_next m = hd (bs @ [inf_list s])"
    using same_shape_inf [OF r1(3) n(1)] nx by auto
  have il: "inf_list s1 = inf_list s" using r1(3) by (simp add: same_shape_def)
  have "react_loop delay ?i s = (if bs \<noteq> [] then react_loop delay (hd bs) s1 else Some s1)"
  proof -
    define i where "i = ?i"
    have "react_loop delay i s = (if inf_next m \<noteq> inf_list s1 then react_loop delay (inf_next m) s1 else Some s1)"
      using n(1) no_srvlist_iff [OF n(2)] s1(1) m(1) unfolding i_def [symmetric]
      by (subst react_loop.simps) (cases "ys = []"; simp)
    then show ?thesis using inflist_next(3) [OF d assms(3)] unfolding i_def m(2) il by (cases bs) simp_all
  qed
  then show ?thesis using s1(2) il by blast
qed

lemma react_loop_ok:
  assumes "dnrd_inv s is xs ps" "opts_ok W s" "is = as @ bs"
  shows "\<exists>t qs. react_loop delay (last (inf_list s # as)) s = Some t \<and> round_step W s is xs ps t qs"
  using assms
proof (induction bs arbitrary: s as ps)
  case Nil
  then show ?case using react_step [OF Nil, of delay] by auto
next
  case (Cons b bs)
  obtain s1 rs where s1: "round_step W s is xs ps s1 rs" "inf_list s1 = inf_list s"
    "react_loop delay (last (inf_list s # as)) s = react_loop delay b s1"
    using react_step [OF Cons.prems, of delay] by auto
  have sp: "is = (as @ [b]) @ bs" using Cons.prems(3) by simp
  from Cons.IH [OF round_stepD(1,2) [OF s1(1)] sp] obtain t qs where
    "react_loop delay b s1 = Some t" "round_step W s1 is xs rs t qs" by auto
  then show ?case using s1(3) round_step_trans [OF s1(1)] by auto
qed

section \<open>The sweep that switches off silent servers\<close>

lemma deact_one:
  assumes "dnrd_inv s is xs ps" "i \<in> set (inf_list s # is)" "srvs s r = Some w"
  shows "\<exists>t. (if inactive w \<noteq> 0 then Some s
             else if send_time w \<noteq> 0 \<and> clock s - send_time w > forward_timeout s then do {
               s1 \<leftarrow> upd_srv r (\<lambda>v. v\<lparr>inactive := clock s\<rparr>) s;
               n \<leftarrow> infs s1 i;
               if r = current n then map_option snd (deactivate_current i s1) else Some s1
             } else Some s) = Some t \<and> srv_step s is t []"
proof -
  obtain s1 where s1: "upd_srv r (\<lambda>v. v\<lparr>inactive := clock s\<rparr>) s = Some s1" "srv_step s is s1 []"
    using upd_srv_step [OF assms(1,3), of "\<lambda>v. v\<lparr>inactive := clock s\<rparr>"] by auto
  have i1: "i \<in> set (inf_list s1 # is)" using assms(2) srv_step_fields(5) [OF s1(2)] by simp
  obtain n p t where t: "infs s1 i = Some n" "deactivate_current i s1 = Some (p, t)" "srv_step s1 is t []"
    using deactivate_current_step [OF srv_step_inv [OF assms(1) s1(2)] i1] by blast
  have st: "srv_step s is t []" using srv_step_trans [OF s1(2) t(3)] by simp
  show ?thesis using s1 t(1,2) st srv_step_refl [OF assms(1)] by simp
qed

lemma deact_srvs_ok:
  assumes "dnrd_inv s is xs ps" "i \<in> set (inf_list s # is)" "srvlist_at s h (as @ bs)"
  shows "\<exists>t. deact_srvs i h (last (h # as)) s = Some t \<and> srv_step s is t []"
  using assms
proof (induction bs arbitrary: s as)
  case Nil
  obtain n where "srvs s (last (h # as)) = Some n" "srv_next n = h" using srvlist_next [OF Nil(3)] by auto
  then have "deact_srvs i h (last (h # as)) s = Some s"
    by (subst deact_srvs.simps) (simp add: get_srv_def del: last.simps)
  then show ?case using srv_step_refl [OF Nil(1)] by blast
next
  case (Cons b bs)
  obtain n where n: "srvs s (last (h # as)) = Some n" "srv_next n = b" using srvlist_next [OF Cons.prems(3)] by auto
  have b: "b \<noteq> h" using Cons.prems(3) by (auto simp: srvlist_at_def circ_def)
  obtain w where w: "srvs s b = Some w" using srvlist_live [OF Cons.prems(3), of b] by auto
  from deact_one [OF Cons.prems(1,2) w] obtain s1 where s1: "(if inactive w \<noteq> 0 then Some s
             else if send_time w \<noteq> 0 \<and> clock s - send_time w > forward_timeout s then do {
               s1 \<leftarrow> upd_srv b (\<lambda>v. v\<lparr>inactive := clock s\<rparr>) s;
               n \<leftarrow> infs s1 i;
               if b = current n then map_option snd (deactivate_current i s1) else Some s1
             } else Some s) = Some s1" "srv_step s is s1 []" by blast
  have sh: "same_shape s s1" using s1(2) by (simp add: srv_step_def)
  have l1: "srvlist_at s1 h ((as @ [b]) @ bs)" using Cons.prems(3) same_shape_srvlist [OF sh] by simp
  have i1: "i \<in> set (inf_list s1 # is)" using Cons.prems(2) srv_step_fields(5) [OF s1(2)] by simp
  from Cons.IH [OF srv_step_inv [OF Cons.prems(1) s1(2)] i1 l1] obtain t where
    t: "deact_srvs i h (last (h # as @ [b])) s1 = Some t" "srv_step s1 is t []" by auto
  have "deact_srvs i h (last (h # as)) s = deact_srvs i h b s1"
    using n w b s1(1) by (subst deact_srvs.simps) (simp add: get_srv_def del: last.simps)
  then show ?case using t(1) srv_step_trans [OF s1(2) t(2)] by auto
qed

lemma deact_step:
  assumes "dnrd_inv s is xs ps" "is = as @ bs"
  shows "\<exists>s1. srv_step s is s1 [] \<and>
    deact_loop (last (inf_list s # as)) s = (if bs \<noteq> [] then deact_loop (hd bs) s1 else Some s1)"
proof -
  define i where "i = last (inf_list s # as)"
  note d = dnrd_invD(3) [OF assms(1)]
  have i: "i \<in> set (inf_list s # is)" using inflist_next(2) [OF d assms(2)] by (simp only: i_def)
  obtain n ys where n: "infs s i = Some n" "srvlist_at s (srvlist n) ys" using infs_okD(2) [OF d i] by blast
  have nx: "inf_next n = hd (bs @ [inf_list s])" using inflist_next(1) [OF d assms(2)] n(1) by (simp add: i_def del: last.simps)
  obtain s1 where s1: "deact_srvs i (srvlist n) (srvlist n) s = Some s1" "srv_step s is s1 []"
    using deact_srvs_ok [OF assms(1) i, of "srvlist n" "[]" ys] n(2) by auto
  have sh: "same_shape s s1" using s1(2) by (simp add: srv_step_def)
  obtain m where m: "infs s1 i = Some m" "inf_next m = hd (bs @ [inf_list s])" using same_shape_inf [OF sh n(1)] nx by auto
  have "srvlist n \<noteq> NULL" using n(2) by (auto simp: srvlist_at_def)
  then have "deact_loop i s = (if inf_next m \<noteq> inf_list s then deact_loop (inf_next m) s1 else Some s1)"
    using n(1) s1(1) m(1) srv_step_fields(5) [OF s1(2)] by (subst deact_loop.simps) simp
  then have "deact_loop i s = (if bs \<noteq> [] then deact_loop (hd bs) s1 else Some s1)"
    using inflist_next(3) [OF d assms(2)] unfolding m(2) by (cases bs) simp_all
  then show ?thesis using s1(2) unfolding i_def by blast
qed

lemma deact_loop_ok:
  assumes "dnrd_inv s is xs ps" "is = as @ bs"
  shows "\<exists>t. deact_loop (last (inf_list s # as)) s = Some t \<and> srv_step s is t []"
  using assms
proof (induction bs arbitrary: s as)
  case Nil
  then show ?case using deact_step [OF Nil] by auto
next
  case (Cons b bs)
  obtain s1 where s1: "srv_step s is s1 []" "deact_loop (last (inf_list s # as)) s = deact_loop b s1"
    using deact_step [OF Cons.prems] by auto
  have sp: "is = (as @ [b]) @ bs" using Cons.prems(2) by simp
  from Cons.IH [OF srv_step_inv [OF Cons.prems(1) s1(1)] sp] obtain t where
    "deact_loop b s1 = Some t" "srv_step s1 is t []" by auto
  then show ?case using s1(2) srv_step_trans [OF s1(1)] by auto
qed

section \<open>The servers in one iteration\<close>

lemma dnrd_inv_marks:
  assumes "dnrd_inv s is xs ps" "opts_ok W s"
  shows "round_step W s is xs ps (s\<lparr>react_last := l\<rparr>) ps" "round_step W s is xs ps (s\<lparr>deact_last := l\<rparr>) ps"
proof -
  note i = dnrd_invD [OF assms(1)]
  have f: "q_frame s s" by (rule q_frame_refl)
  have sh: "same_shape s (s\<lparr>react_last := l\<rparr>)" "same_shape s (s\<lparr>deact_last := l\<rparr>)"
    by (simp_all add: same_shape_def srv_nxt_def)
  have "query_inv (s\<lparr>react_last := l\<rparr>) ps" "query_inv (s\<lparr>deact_last := l\<rparr>) ps"
    by (rule query_inv_cong [OF i(1)]; simp add: srv_live_def)+
  moreover have "cache_inv (s\<lparr>react_last := l\<rparr>) xs" "cache_inv (s\<lparr>deact_last := l\<rparr>) xs"
    by (rule cache_inv_cong [OF i(2)]; simp)+
  moreover have "infs_ok (s\<lparr>react_last := l\<rparr>) is" "infs_ok (s\<lparr>deact_last := l\<rparr>) is"
    using infs_ok_srv_upd [OF i(3) sh(1)] infs_ok_srv_upd [OF i(3) sh(2)] by simp_all
  moreover have "ports_avail (s\<lparr>react_last := l\<rparr>)" "ports_avail (s\<lparr>deact_last := l\<rparr>)"
    by (rule ports_avail_cong [OF i(6)]; simp)+
  ultimately show "round_step W s is xs ps (s\<lparr>react_last := l\<rparr>) ps" "round_step W s is xs ps (s\<lparr>deact_last := l\<rparr>) ps"
    using assms(2) i(4,5,7-9) sh
    by (simp_all add: round_step_def dnrd_inv_def named_infs_def no_newq_def opts_ok_def same_addrs_def probes_def)
qed

lemma reactivate_servers_ok:
  assumes "dnrd_inv s is xs ps" "opts_ok W s"
  shows "\<exists>t qs. reactivate_servers delay s = Some t \<and> round_step W s is xs ps t qs"
proof -
  note m = dnrd_inv_marks(1) [OF assms]
  have "is = [] @ is" by simp
  from react_loop_ok [OF round_stepD(1,2) [OF m] this, of delay "clock s"]
  obtain t qs where t: "react_loop delay (inf_list s) (s\<lparr>react_last := clock s\<rparr>) = Some t"
    "round_step W (s\<lparr>react_last := clock s\<rparr>) is xs ps t qs" by auto
  define l where "l = (if react_last s = 0 then clock s else react_last s)"
  have "reactivate_servers delay s = (if clock s - l < delay then Some (s\<lparr>react_last := l\<rparr>) else Some t)"
    using t(1) by (simp add: reactivate_servers_def l_def)
  then show ?thesis using m [of l] round_step_trans [OF m t(2)] by (cases "clock s - l < delay") auto
qed

lemma deactivate_servers_ok:
  assumes "dnrd_inv s is xs ps" "opts_ok W s"
  shows "\<exists>t. deactivate_servers delay s = Some t \<and> round_step W s is xs ps t ps"
proof -
  note m = dnrd_inv_marks(2) [OF assms]
  have "is = [] @ is" by simp
  from deact_loop_ok [OF round_stepD(1) [OF m] this, of "clock s"]
  obtain t where t: "deact_loop (inf_list s) (s\<lparr>deact_last := clock s\<rparr>) = Some t"
    "srv_step (s\<lparr>deact_last := clock s\<rparr>) is t []" by auto
  have "round_step W s is xs ps t ps" by (rule round_step_trans [OF m round_step_srv [OF round_stepD(1,2) [OF m] t(2)]])
  then show ?thesis using m t(1) unfolding deactivate_servers_def Let_def by simp
qed

lemma run_servers_ok:
  assumes "dnrd_inv s is xs ps" "opts_ok W s"
  shows "\<exists>t qs. run_servers s = Some t \<and> round_step W s is xs ps t qs"
proof -
  have r: "reactivate_interval s \<noteq> 0" using assms(2) by (simp add: opts_ok_def)
  from reactivate_servers_ok [OF assms] obtain s1 qs where s1: "reactivate_servers (reactivate_interval s) s = Some s1"
    "round_step W s is xs ps s1 qs" by blast
  from deactivate_servers_ok [OF round_stepD(1,2) [OF s1(2)]] obtain t where
    t: "deactivate_servers 1 s1 = Some t" "round_step W s1 is xs qs t qs" by blast
  show ?thesis using r s1 t(1) round_step_trans [OF s1(2) t(2)] by (simp add: run_servers_def) blast
qed

section \<open>The upkeep\<close>

lemma dnrd_inv_expire:
  assumes "dnrd_inv s is xs ps" "cx_frame (s\<lparr>lastexpire := l\<rparr>) t" "cache_inv t ys"
  shows "dnrd_inv t is ys ps" "options_of t = options_of s" "isock t = isock s"
proof -
  note i = dnrd_invD [OF assms(1)]
  obtain a1 a2 a3 where t: "t = s\<lparr>lastexpire := l, cxs := a1, cachelist := a2, lastcache := a3\<rparr>"
    using assms(2) unfolding cx_frame_def by auto
  have "query_inv t ps" by (rule query_inv_cong [OF i(1)]) (auto simp: t srv_live_def)
  moreover have "infs_ok t is" by (rule infs_ok_srv_upd [OF i(3)]) (auto simp: same_shape_def srv_nxt_def t)
  moreover have "ports_avail t" by (rule ports_avail_cong [OF i(6)]) (simp_all add: t)
  ultimately show "dnrd_inv t is ys ps"
    using assms(3) i(4,5,7-9) by (simp add: dnrd_inv_def named_infs_def no_newq_def t)
  show "options_of t = options_of s" "isock t = isock s" by (simp_all add: t)
qed

lemma cache_expire_ok:
  assumes "cache_inv s xs"
  shows "\<exists>t ys l. cache_expire s = Some t \<and> cache_inv t ys \<and> cx_frame (s\<lparr>lastexpire := l\<rparr>) t"
proof -
  have lx: "cache_inv (s\<lparr>lastexpire := l\<rparr>) xs" for l
    using assms by (simp add: cache_inv_def cache_at_def centry_ok_def cval_def)
  show ?thesis
  proof (cases "expire_due s")
    case False
    let ?l = "if cache_onoff s \<noteq> 0 \<and> lastexpire s = 0 then clock s else lastexpire s"
    have "cache_expire s = Some (s\<lparr>lastexpire := ?l\<rparr>)" using cache_expire_idle [OF False] by simp
    then show ?thesis using lx [of ?l] by (intro exI [of _ "s\<lparr>lastexpire := ?l\<rparr>"] exI [of _ xs] exI [of _ ?l]) simp
  next
    case True
    have at: "cache_at s xs" "0 \<le> cache_lowwater s" using assms by (simp_all add: cache_inv_def)
    let ?f = "fresh_cxs (clock s) s xs"
    obtain t vs where t: "cache_expire s = Some t" "cache_at t (filter (\<lambda>x. x \<notin> set vs) ?f)"
      "cval t = cval s |` (- ({x \<in> set xs. cx_expired (clock s) (the (cval s x))} \<union> set vs))"
      "cx_frame (s\<lparr>lastexpire := clock s\<rparr>) t"
      using cache_expire_run [OF at True] by - (elim exE conjE, rule that)
    have "cval (s\<lparr>lastexpire := clock s\<rparr>) = cval s" by (simp add: cval_def)
    moreover have "set (filter (\<lambda>x. x \<notin> set vs) ?f) \<subseteq> set xs" by (auto simp: fresh_cxs_def)
    ultimately have "cache_inv t (filter (\<lambda>x. x \<notin> set vs) ?f)"
      using cache_inv_drop [OF lx t(2) _ t(4)] t(3) by simp
    then show ?thesis using t(1,4) by blast
  qed
qed

lemma dnrd_inv_counters:
  assumes "dnrd_inv s is xs ps"
  shows "dnrd_inv (s\<lparr>stats_last := a\<rparr>) is xs ps" "dnrd_inv (s\<lparr>srv_stats_last := a\<rparr>) is xs ps"
    "dnrd_inv (s\<lparr>cache_hits := h, cache_misses := m, total_timeouts := n\<rparr>) is xs ps" "dnrd_inv (s\<lparr>clock := c\<rparr>) is xs ps"
    "dnrd_inv (s\<lparr>mst := x\<rparr>) is xs ps" "dnrd_inv (s\<lparr>fdmaster := f, maxsock := b\<rparr>) is xs ps"
    "dnrd_inv (s\<lparr>opt_debug := dbg\<rparr>) is xs ps"
proof -
  note i = dnrd_invD [OF assms(1)]
  have main: "dnrd_inv t is xs ps"
    if "query_inv t ps = query_inv s ps" "cache_inv t xs = cache_inv s xs" "same_shape s t" "infs t = infs s" "srvs t = srvs s"
      "excluded t = excluded s" "exc_port t = exc_port s" "exc_port_ofst t = exc_port_ofst s" "rep_msg t = rep_msg s" "req_msg t = req_msg s" "dnsbuf t = dnsbuf s" for t :: "'a dnrd_state_scheme"
    using that i infs_ok_srv_upd [OF i(3) that(3,4)] by (simp add: dnrd_inv_def named_infs_def no_newq_def ports_avail_def)
  note d = query_inv_def qlist_inv_def head_ok_def pool_inv_def fd_inv_def ids_of_def socks_of_def qrec_def q_nxt_def query_ok_def srv_live_def
    cache_inv_def cache_at_def centry_ok_def cval_def same_shape_def srv_nxt_def excluded_def
  show "dnrd_inv (s\<lparr>stats_last := a\<rparr>) is xs ps" "dnrd_inv (s\<lparr>srv_stats_last := a\<rparr>) is xs ps"
    "dnrd_inv (s\<lparr>cache_hits := h, cache_misses := m, total_timeouts := n\<rparr>) is xs ps" "dnrd_inv (s\<lparr>clock := c\<rparr>) is xs ps"
    "dnrd_inv (s\<lparr>mst := x\<rparr>) is xs ps" "dnrd_inv (s\<lparr>fdmaster := f, maxsock := b\<rparr>) is xs ps"
    "dnrd_inv (s\<lparr>opt_debug := dbg\<rparr>) is xs ps"
    by (rule main; simp add: d fun_eq_iff)+
qed

lemma run_maintain_ok:
  assumes "dnrd_inv s is xs ps" "opts_ok W s"
  shows "\<exists>t ys qs. run_maintain s = Some t \<and> dnrd_inv t is ys qs \<and> opts_ok W t \<and> isock t = isock s"
proof -
  obtain s1 ys l where s1: "cache_expire s = Some s1" "cache_inv s1 ys" "cx_frame (s\<lparr>lastexpire := l\<rparr>) s1"
    using cache_expire_ok [OF dnrd_invD(2) [OF assms(1)]] by blast
  note e = dnrd_inv_expire [OF assms(1) s1(3,2)]
  obtain s2 qs where s2: "query_timeout s1 = Some s2" "timeout_result s1 ps qs s2"
    using query_timeout_walk [OF dnrd_invD(1) [OF e(1)]] by blast
  have f: "q_frame s1 s2" "query_inv s2 qs" using s2(2) by (simp_all add: timeout_result_def)
  have inv: "dnrd_inv s2 is ys qs" by (rule dnrd_inv_query [OF e(1) f])
  have o2: "opts_ok W s2" "isock s2 = isock s"
    using assms(2) e(2,3) q_frame_options [OF f(1)] q_frame_fields(12) [OF f(1)] by (simp_all add: opts_ok_def options_of_def)
  let ?t = "srv_stats 10 (query_stats (stats_interval s2) s2)"
  have "dnrd_inv (query_stats (stats_interval s2) s2) is ys qs"
    using inv by (auto simp: query_stats_def Let_def intro!: dnrd_inv_counters)
  then have "dnrd_inv ?t is ys qs" by (auto simp: srv_stats_def intro!: dnrd_inv_counters)
  moreover have "opts_ok W ?t" "isock ?t = isock s" using o2 by (simp_all add: srv_stats_def query_stats_def Let_def opts_ok_def)
  ultimately show ?thesis using s1(1) s2(1) by (simp add: run_maintain_def) blast
qed

section \<open>One iteration, and any number of them\<close>

text \<open>
  The state between two iterations. Descriptor 0 must not become ready, see \<open>reply_loop_head\<close>, the clock of
  the machine must not stand at 0, SIGHUP finds the files in one of the states of the world, and SIGUSR1 comes only if
  debugging may be on in it.
\<close>

definition main_inv :: "world \<Rightarrow> 'a dnrd_state_scheme \<Rightarrow> ptr list \<Rightarrow> bool" where
  "main_inv W s is \<longleftrightarrow> (\<exists>xs ps. dnrd_inv s is xs ps) \<and> opts_ok W s \<and> 0 \<le> isock s \<and> isock s < FD_SETSIZE"

definition sane_event :: "world \<Rightarrow> int \<times> select_result \<Rightarrow> bool" where
  "sane_event W e \<longleftrightarrow> 0 < fst e \<and> (case snd e of Sel_error eintr \<Rightarrow> True | Sel_hangup f \<Rightarrow> f \<in> reloads W | Sel_usr1 \<Rightarrow> debugs W | Sel_ready fds \<Rightarrow> 0 \<notin> set fds)"

lemma run_packets_ok:
  assumes "main_inv W s is" "0 \<notin> set fds"
  shows "\<exists>t. run_packets fds s = Some t \<and> main_inv W t is"
proof (cases "fds = []")
  case True
  then show ?thesis using assms(1) by (simp add: run_packets_def)
next
  case False
  obtain xs ps where inv: "dnrd_inv s is xs ([] @ ps)" "opts_ok W s" "0 \<le> isock s" "isock s < FD_SETSIZE"
    using assms(1) by (auto simp: main_inv_def)
  obtain s1 ys qs where s1: "reply_loop QLIST fds s = Some s1" "dnrd_inv s1 is ys qs" "reply_frame s ps s1 qs"
    using reply_loop_ok [OF inv(1) assms(2) opts_ok_debug [OF inv(2)]] by auto
  have e: "opts_ok W s1" "isock s1 = isock s"
    using s1(3) inv(2) by (simp_all add: reply_frame_def same_env_def options_of_def opts_ok_def)
  have fd: "fd_isset (isock s1) fds = Some (isock s1 \<in> set fds)" using e(2) inv(3,4) by (simp add: fd_isset_def)
  obtain r t rs where t: "udp_handle_request s1 = Some (r, t)" "dnrd_inv t is ys rs" "opts_ok W t" "isock t = isock s1"
    using udp_handle_request_ok [OF s1(2) e(1)] by blast
  show ?thesis
  proof (cases "isock s1 \<in> set fds")
    case True
    then have "run_packets fds s = Some t" using False s1(1) fd t(1) by (simp add: run_packets_def)
    moreover have "main_inv W t is" using t(2-4) e(2) inv(3,4) unfolding main_inv_def by auto
    ultimately show ?thesis by blast
  next
    case out: False
    then have "run_packets fds s = Some s1" using False s1(1) fd by (simp add: run_packets_def)
    moreover have "main_inv W s1 is" using s1(2) e inv(3,4) unfolding main_inv_def by auto
    ultimately show ?thesis by blast
  qed
qed

lemma on_signal_ok:
  assumes "dnrd_inv s is xs ps" "opts_ok W s" "sane_event W (now, sel)"
  defines "t \<equiv> on_signal sel (s\<lparr>clock := now\<rparr>)"
  shows "dnrd_inv t is xs ps" "opts_ok W t" "isock t = isock s"
proof -
  have i: "dnrd_inv (s\<lparr>clock := now\<rparr>) is xs ps" by (rule dnrd_inv_counters(4) [OF assms(1)])
  show "dnrd_inv t is xs ps" "isock t = isock s"
    using i dnrd_inv_counters(5,7) [OF i] by (simp_all add: t_def on_signal_def split: select_result.split)
  have "0 < now" "\<And>f. sel = Sel_hangup f \<Longrightarrow> f \<in> reloads W" "sel = Sel_usr1 \<Longrightarrow> debugs W"
    using assms(3) by (auto simp: sane_event_def)
  then show "opts_ok W t"
    using assms(2) master_hangup_safe [of "reloads W" "mst s"] by (auto simp: t_def on_signal_def opts_ok_def split: select_result.split)
qed

lemma run_reload_ok:
  assumes "main_inv W s is"
  shows "\<exists>t. run_reload s = Some t \<and> main_inv W t is"
proof -
  obtain xs ps where inv: "dnrd_inv s is xs ps" "opts_ok W s" "0 \<le> isock s" "isock s < FD_SETSIZE"
    using assms by (auto simp: main_inv_def)
  have "master_safe (reloads W) (mst s)" using inv(2) by (simp add: opts_ok_def)
  from master_reinit_safe [OF this] obtain m where m: "master_reinit (mst s) = Some m" "master_safe (reloads W) m" by blast
  have "main_inv W (s\<lparr>mst := m\<rparr>) is"
    using dnrd_inv_counters(5) [OF inv(1)] inv(2-4) m(2) unfolding main_inv_def by (auto simp: opts_ok_def)
  then show ?thesis using m(1) by (simp add: run_reload_def)
qed

lemma run_step_ok:
  assumes "main_inv W s is" "sane_event W (now, sel)"
  shows "\<exists>t. run_step now sel s = Some t \<and> main_inv W t is"
proof -
  let ?s = "on_signal sel (s\<lparr>clock := now\<rparr>)"
  obtain xs ps where inv: "dnrd_inv s is xs ps" "opts_ok W s" "0 \<le> isock s" "isock s < FD_SETSIZE"
    using assms(1) by (auto simp: main_inv_def)
  note h = on_signal_ok [OF inv(1,2) assms(2)]
  from run_servers_ok [OF h(1,2)] obtain s1 qs where s1: "run_servers ?s = Some s1" "round_step W ?s is xs ps s1 qs" by blast
  have m1: "dnrd_inv s1 is xs qs" "opts_ok W s1" "isock s1 = isock s" using s1(2) h(3) by (simp_all add: round_step_def)
  have main1: "main_inv W s1 is" using m1 inv(3,4) unfolding main_inv_def by auto
  obtain r where r: "run_reload s1 = Some r" "main_inv W r is" using run_reload_ok [OF main1] by blast
  show ?thesis
  proof (cases sel)
    case (Sel_error eintr)
    then show ?thesis using s1(1) r main1 by (simp add: run_step_def)
  next
    case (Sel_hangup f)
    then show ?thesis using s1(1) r by (simp add: run_step_def)
  next
    case Sel_usr1
    then show ?thesis using s1(1) r by (simp add: run_step_def)
  next
    case (Sel_ready fds)
    have "0 \<notin> set fds" using assms(2) Sel_ready by (simp add: sane_event_def)
    from run_packets_ok [OF main1 this] obtain s2 where s2: "run_packets fds s1 = Some s2" "main_inv W s2 is" by blast
    then obtain ys rs where i2: "dnrd_inv s2 is ys rs" "opts_ok W s2" by (auto simp: main_inv_def)
    from run_maintain_ok [OF i2] obtain t zs ts where t: "run_maintain s2 = Some t" "dnrd_inv t is zs ts" "opts_ok W t" "isock t = isock s2"
      by blast
    have "run_step now sel s = Some t" using s1(1) s2(1) t(1) Sel_ready by (simp add: run_step_def)
    moreover have "main_inv W t is" using t(2-4) s2(2) unfolding main_inv_def by auto
    ultimately show ?thesis by blast
  qed
qed

text \<open>The loop of \<open>run\<close> up to its n-th iteration, for the events that \<open>pselect\<close> and \<open>time\<close> report.\<close>

fun run_steps :: "(int \<times> select_result) list \<Rightarrow> 'a dnrd_state_scheme \<Rightarrow> 'a dnrd_state_scheme option" where
  "run_steps [] s = Some s"
| "run_steps ((now, sel) # es) s = do {
     s1 \<leftarrow> run_step now sel s;
     run_steps es s1
   }"

definition run_events :: "(int \<times> select_result) list \<Rightarrow> 'a dnrd_state_scheme \<Rightarrow> 'a dnrd_state_scheme option" where
  "run_events es s = do {
     s1 \<leftarrow> run_init s;
     run_steps es s1
   }"

lemma run_steps_ok:
  assumes "main_inv W s is" "\<forall>e \<in> set es. sane_event W e"
  shows "\<exists>t. run_steps es s = Some t \<and> main_inv W t is"
  using assms
proof (induction es arbitrary: s)
  case (Cons e es)
  obtain now sel where e: "e = (now, sel)" by (cases e)
  obtain s1 where "run_step now sel s = Some s1" "main_inv W s1 is"
    using run_step_ok [OF Cons.prems(1), of now sel] Cons.prems(2) e by auto
  then show ?case using Cons.IH [of s1] Cons.prems(2) e by auto
qed simp

lemma run_init_ok:
  assumes "main_inv W s is"
  shows "\<exists>t. run_init s = Some t \<and> main_inv W t is"
proof -
  obtain xs ps where inv: "dnrd_inv s is xs ps" "opts_ok W s" "0 \<le> isock s" "isock s < FD_SETSIZE"
    using assms by (auto simp: main_inv_def)
  let ?t = "s\<lparr>fdmaster := [isock s], maxsock := isock s\<rparr>"
  have "run_init s = Some ?t" using inv(3,4) by (simp add: run_init_def fd_add_def)
  moreover have "main_inv W ?t is"
    using dnrd_inv_counters(6) [OF inv(1)] inv(2-4) unfolding main_inv_def by (auto simp: opts_ok_def)
  ultimately show ?thesis by blast
qed

lemma run_events_ok:
  assumes "main_inv W s is" "\<forall>e \<in> set es. sane_event W e"
  shows "\<exists>t. run_events es s = Some t \<and> main_inv W t is"
proof -
  obtain s1 where "run_init s = Some s1" "main_inv W s1 is" using run_init_ok [OF assms(1)] by blast
  then show ?thesis using run_steps_ok [OF _ assms(2), of s1 "is"] by (simp add: run_events_def)
qed

end
