(* ===== verification/Config.thy ===== *)
theory Config
  imports Startup Rounds
begin

text \<open>
  The table of interfaces and servers that the options build, src/args.c with src/infnode.c and src/srvnode.c,
  against its specification: a list of names with the addresses of their servers. An option \<open>-s\<close> adds an address
  at the end of its interface, a new interface comes in front.
\<close>

type_synonym table = "(bytes \<times> u32 list) list"

definition enter_server :: "bytes \<Rightarrow> u32 \<Rightarrow> table \<Rightarrow> table" where
  "enter_server name a cfg =
     (if name \<in> fst ` set cfg then map (\<lambda>(n, as). (n, if n = name then as @ [a] else as)) cfg
      else (name, [a]) # cfg)"

section \<open>The heap that represents a table\<close>

definition srv_rec :: "'a srv_state_scheme \<Rightarrow> ptr \<Rightarrow> srvnode" where
  "srv_rec s p = the (srvs s p)"

definition inf_text :: "'a inf_state_scheme \<Rightarrow> ptr \<Rightarrow> bytes" where
  "inf_text s i = the (inf (the (infs s i)))"

definition table_of :: "'a inf_state_scheme \<Rightarrow> (ptr \<times> ptr \<times> ptr list) list \<Rightarrow> table" where
  "table_of s ts = map (\<lambda>(i, h, xs). (inf_text s i, map (\<lambda>p. sin_addr (srv_addr (srv_rec s p))) xs)) ts"

definition config_ok :: "'a inf_state_scheme \<Rightarrow> ptr \<Rightarrow> (ptr \<times> ptr \<times> ptr list) list \<Rightarrow> bool" where
  "config_ok s l ts \<longleftrightarrow> inf_wf s \<and> inflist_at s (inf_list s) (map fst ts) \<and> inf_trees s (ts @ [(inf_list s, l, [])]) \<and>
     (\<forall>i \<in> set (map fst ts). inf (the (infs s i)) \<noteq> None) \<and> distinct (map fst (table_of s ts)) \<and>
     (\<forall>(i, h, xs) \<in> set ts. \<forall>p \<in> set xs. inactive (srv_rec s p) = 0) \<and> no_newq s"

text \<open>The state holds the table \<open>cfg\<close>.\<close>

definition configured :: "'a inf_state_scheme \<Rightarrow> table \<Rightarrow> bool" where
  "configured s cfg \<longleftrightarrow> (\<exists>l ts. config_ok s l ts \<and> table_of s ts = cfg)"

lemma config_wf: "config_ok s l ts \<Longrightarrow> inf_wf s"
  by (simp add: config_ok_def)

lemma config_active:
  assumes "config_ok s l ts" "(j, k, zs) \<in> set ts" "x \<in> set zs"
  shows "inactive (srv_rec s x) = 0"
proof -
  have "\<forall>(i, h, xs) \<in> set ts. \<forall>p \<in> set xs. inactive (srv_rec s p) = 0" using assms(1) by (simp add: config_ok_def)
  then show ?thesis using assms(2,3) by blast
qed

section \<open>A server at the end of a list\<close>

lemma inf_treesD:
  assumes "inf_trees s ts" "(j, k, zs) \<in> set ts"
  shows "\<exists>n. infs s j = Some n \<and> srvlist n = k \<and> srvlist_at s k zs"
  using bspec [OF conjunct1 [OF assms(1) [unfolded inf_trees_def]] assms(2)] by simp

lemma tree_nodes: "x \<in> set (concat (map (\<lambda>(i, h, xs). h # xs) ts)) \<longleftrightarrow> (\<exists>i h xs. (i, h, xs) \<in> set ts \<and> x \<in> set (h # xs))"
  by (simp only: set_concat set_map image_image UN_iff Bex_def split_paired_Ex prod.case)

lemma disjoint_mono_right: "A \<inter> B = {} \<Longrightarrow> C \<subseteq> B \<Longrightarrow> A \<inter> C = {}"
  by blast

lemma inf_trees_apart:
  assumes "inf_trees s (us @ (i, h, xs) # vs)" "(j, k, zs) \<in> set (us @ vs)"
  shows "set (h # xs) \<inter> set (k # zs) = {}"
proof -
  let ?f = "\<lambda>ts. concat (map (\<lambda>(i, h, xs). h # xs) ts) :: ptr list"
  have "distinct (?f us @ (h # xs) @ ?f vs)" using assms(1) by (simp add: inf_trees_def)
  then have "set (h # xs) \<inter> (set (?f us) \<union> set (?f vs)) = {}" unfolding distinct_append set_append by blast
  moreover have "set (k # zs) \<subseteq> set (?f us) \<union> set (?f vs)"
    using assms(2) unfolding subset_iff Un_iff tree_nodes set_append by blast
  ultimately show ?thesis by (rule disjoint_mono_right)
qed

lemma srvlist_at_frame: "srvlist_at s h xs \<Longrightarrow> (\<And>x. x \<in> set (h # xs) \<Longrightarrow> srvs t x = srvs s x) \<Longrightarrow> srvlist_at t h xs"
proof -
  assume a: "srvlist_at s h xs" and eq: "\<And>x. x \<in> set (h # xs) \<Longrightarrow> srvs t x = srvs s x"
  have "srv_nxt t x = srv_nxt s x" if "x \<in> set (h # xs)" for x using eq [OF that] by (simp add: srv_nxt_def)
  then have "circ (srv_nxt t) h xs = circ (srv_nxt s) h xs" by (rule circ_cong)
  then show ?thesis using a by (simp add: srvlist_at_def)
qed

lemma srvlist_from_last:
  fixes s :: "'a srv_state_scheme"
  shows "srvlist_at s h xs \<Longrightarrow> \<exists>ys. srvlist_at s (last (h # xs)) ys \<and> set (last (h # xs) # ys) = set (h # xs) \<and>
    (\<forall>(t :: 'a srv_state_scheme) p. srvlist_at t (last (h # xs)) (p # ys) \<longrightarrow> srvlist_at t h (xs @ [p]))"
proof (cases xs rule: rev_cases)
  case Nil
  then show "srvlist_at s h xs \<Longrightarrow> ?thesis" by auto
next
  case (snoc as l)
  assume a: "srvlist_at s h xs"
  have "srvlist_at s l (h # as)" using a circ_rotate [of "srv_nxt s" h as l "[]"] snoc by (auto simp: srvlist_at_def)
  moreover have "srvlist_at t h (as @ [l, p])" if "srvlist_at t l (p # h # as)" for t :: "'a srv_state_scheme" and p
    using that circ_rotate [of "srv_nxt t" l "[p]" h as] by (auto simp: srvlist_at_def)
  ultimately show ?thesis using snoc by (intro exI [of _ "h # as"]) auto
qed

text \<open>Adding a server writes the heap of servers and takes an address.\<close>

lemma add_srv_frame:
  assumes "add_srv h ip s = Some (p, t)"
  shows "\<exists>b m. t = s\<lparr>brk := b, srvs := m\<rparr> \<and> brk s \<le> b" "no_newq s \<Longrightarrow> no_newq t"
proof -
  have "h \<noteq> NULL" using assms by (auto simp: add_srv_def split: if_splits)
  note d = assms this
  show "\<exists>b m. t = s\<lparr>brk := b, srvs := m\<rparr> \<and> brk s \<le> b"
  proof (cases "inet_aton ip")
    case None
    then have "t = s\<lparr>brk := brk s, srvs := srvs s\<rparr>" using d by (simp add: add_srv_def)
    then show ?thesis by blast
  next
    case (Some a)
    then show ?thesis using d
      by (auto simp: add_srv_def alloc_srvnode_def ins_srvnode_def srv_link_def upd_srv_def Let_def get_srv_def
          split: option.splits if_splits Option.bind_splits)
  qed
  show "no_newq t" if "no_newq s"
  proof (cases "inet_aton ip")
    case None
    then show ?thesis using d that by (simp add: add_srv_def)
  next
    case (Some a)
    then show ?thesis using d that
      by (auto simp: add_srv_def alloc_srvnode_def ins_srvnode_def srv_link_def upd_srv_def Let_def get_srv_def no_newq_def
          split: option.splits if_splits Option.bind_splits)
  qed
qed

lemma add_srv_last:
  assumes "config_ok s l (us @ (i, h, xs) # vs)" "inet_aton ip = Some a"
  shows "\<exists>p t. add_srv (last (h # xs)) ip s = Some (p, t) \<and> p \<noteq> NULL \<and> config_ok t l (us @ (i, h, xs @ [p]) # vs) \<and>
    table_of t (us @ (i, h, xs @ [p]) # vs) =
      table_of s us @ (inf_text s i, map (\<lambda>p. sin_addr (srv_addr (srv_rec s p))) xs @ [a]) # table_of s vs"
proof -
  let ?ts = "us @ (i, h, xs) # vs" and ?q = "last (h # xs)"
  have wf: "srv_wf s" "srvlist_at s h xs"
    using assms(1) by (auto simp: config_ok_def inf_wf_def inf_trees_def)
  obtain ys where ys: "srvlist_at s ?q ys" "set (?q # ys) = set (h # xs)"
    "\<And>(t :: 'a inf_state_scheme) p. srvlist_at t ?q (p # ys) \<Longrightarrow> srvlist_at t h (xs @ [p])"
    using srvlist_from_last [OF wf(2)] by blast
  obtain p t n m where t: "add_srv ?q ip s = Some (p, t)" "srv_wf t" "srvlist_at t ?q (p # ys)"
    "p \<notin> dom (srvs s)" "srvs t p = Some n" "sin_addr (srv_addr n) = a" "inactive n = 0"
    "\<And>x. x \<noteq> p \<Longrightarrow> x \<noteq> ?q \<Longrightarrow> srvs t x = srvs s x" "srvs s ?q = Some m" "srvs t ?q = Some (m\<lparr>srv_next := p\<rparr>)"
    using add_srv_list [OF wf(1) ys(1) assms(2)] by (elim exE conjE) (rule that, assumption+, blast, assumption+)
  obtain b sv where f: "t = s\<lparr>brk := b, srvs := sv\<rparr>" "brk s \<le> b" using add_srv_frame(1) [OF t(1)] by blast
  have p0: "p \<noteq> NULL" using t(3) by (simp add: srvlist_at_def)
  have rec: "sin_addr (srv_addr (srv_rec t x)) = sin_addr (srv_addr (srv_rec s x))" "inactive (srv_rec t x) = inactive (srv_rec s x)"
    if "x \<noteq> p" for x
    using t(8) [OF that] t(9,10) by (cases "x = ?q"; simp add: srv_rec_def)+
  have tr: "inf_trees s (?ts @ [(inf_list s, l, [])])" using assms(1) by (simp add: config_ok_def)
  have live: "x \<noteq> p" if "(j, k, zs) \<in> set (?ts @ [(inf_list s, l, [])])" "x \<in> set (k # zs)" for j k zs x
  proof -
    have "srvlist_at s k zs" using inf_treesD [OF tr that(1)] by blast
    then show ?thesis using srvlist_live [of s k zs x] that(2) t(4) by auto
  qed
  have dist: "set (h # xs) \<inter> set (k # zs) = {}" if "(j, k, zs) \<in> set (us @ vs @ [(inf_list s, l, [])])" for j k zs
    using inf_trees_apart [of s us i h xs "vs @ [(inf_list s, l, [])]"] tr that by simp
  have trees: "inf_trees t ((us @ (i, h, xs @ [p]) # vs) @ [(inf_list t, l, [])])"
    unfolding inf_trees_def
  proof (intro conjI ballI)
    fix u
    assume "u \<in> set ((us @ (i, h, xs @ [p]) # vs) @ [(inf_list t, l, [])])"
    then consider "u = (i, h, xs @ [p])" | "u \<in> set (us @ vs @ [(inf_list s, l, [])])" using f(1) by auto
    then show "case u of (i, h, xs) \<Rightarrow> \<exists>n. infs t i = Some n \<and> srvlist n = h \<and> srvlist_at t h xs"
    proof cases
      case 1
      then show ?thesis using inf_treesD [OF tr, of i h xs] ys(3) [OF t(3)] f(1) by auto
    next
      case 2
      obtain j k zs where u: "u = (j, k, zs)" by (cases u) auto
      have in_ts: "(j, k, zs) \<in> set (?ts @ [(inf_list s, l, [])])" using 2 u by auto
      obtain nj where nj: "infs s j = Some nj" "srvlist nj = k" "srvlist_at s k zs"
        using inf_treesD [OF tr in_ts] by blast
      have "srvs t x = srvs s x" if x: "x \<in> set (k # zs)" for x
      proof (rule t(8))
        show "x \<noteq> p" by (rule live [OF in_ts x])
        have "x \<notin> set (h # xs)" using dist 2 u x by blast
        then show "x \<noteq> ?q" using ys(2) by (metis list.set_intros(1))
      qed
      then have "srvlist_at t k zs" by (rule srvlist_at_frame [OF nj(3)])
      then show ?thesis using nj(1,2) u f(1) by simp
    qed
  next
    have "p \<notin> set (concat (map (\<lambda>(i, h, xs). h # xs) (?ts @ [(inf_list s, l, [])])))"
      unfolding tree_nodes using live by blast
    then show "distinct (concat (map (\<lambda>(i, h, xs). h # xs) ((us @ (i, h, xs @ [p]) # vs) @ [(inf_list t, l, [])])))"
      using tr f(1) unfolding inf_trees_def by auto
  qed
  have same: "table_of t ws = table_of s ws" if "set ws \<subseteq> set ?ts" for ws
  proof -
    have "sin_addr (srv_addr (srv_rec t x)) = sin_addr (srv_addr (srv_rec s x))"
      if "(j, k, zs) \<in> set ws" "x \<in> set zs" for j k zs x
    proof (rule rec(1))
      have "(j, k, zs) \<in> set (?ts @ [(inf_list s, l, [])])" using that(1) \<open>set ws \<subseteq> set ?ts\<close> by auto
      then show "x \<noteq> p" using live that(2) by simp
    qed
    then show ?thesis using f(1) by (auto simp: table_of_def inf_text_def)
  qed
  have tab: "table_of t (us @ (i, h, xs @ [p]) # vs) =
      table_of s us @ (inf_text s i, map (\<lambda>p. sin_addr (srv_addr (srv_rec s p))) xs @ [a]) # table_of s vs"
  proof -
    have "set us \<subseteq> set ?ts" "set vs \<subseteq> set ?ts" by auto
    then have "table_of t us = table_of s us" "table_of t vs = table_of s vs" using same by blast+
    moreover have "map (\<lambda>p. sin_addr (srv_addr (srv_rec t p))) xs = map (\<lambda>p. sin_addr (srv_addr (srv_rec s p))) xs"
      using live [of i h xs] rec(1) by (simp add: map_eq_conv)
    moreover have "sin_addr (srv_addr (srv_rec t p)) = a" using t(5,6) by (simp add: srv_rec_def)
    moreover have "inf_text t i = inf_text s i" using f(1) by (simp add: inf_text_def)
    moreover have "table_of t (us @ (i, h, xs @ [p]) # vs) = table_of t us @
        (inf_text t i, map (\<lambda>p. sin_addr (srv_addr (srv_rec t p))) xs @ [sin_addr (srv_addr (srv_rec t p))]) # table_of t vs"
      by (simp add: table_of_def)
    ultimately show ?thesis by simp
  qed
  have "config_ok t l (us @ (i, h, xs @ [p]) # vs)"
    unfolding config_ok_def
  proof (intro conjI)
    show "inf_wf t" 
    proof -
      have "\<forall>p \<in> dom (infs s). 0 < p \<and> p < brk s" using config_wf [OF assms(1)] by (simp add: inf_wf_def)
      moreover have "infs t = infs s" "brk s \<le> brk t" using f by simp_all
      ultimately show ?thesis using t(2) unfolding inf_wf_def by (metis order_less_le_trans)
    qed
    show "inflist_at t (inf_list t) (map fst (us @ (i, h, xs @ [p]) # vs))"
      using assms(1) f(1) by (simp add: config_ok_def inflist_at_def inf_nxt_def)
    show "\<forall>j \<in> set (map fst (us @ (i, h, xs @ [p]) # vs)). inf (the (infs t j)) \<noteq> None"
      using assms(1) f(1) by (simp add: config_ok_def)
    have "distinct (map fst (table_of s ?ts))" using assms(1) by (simp add: config_ok_def)
    moreover have "table_of s ?ts = table_of s us @
        (inf_text s i, map (\<lambda>p. sin_addr (srv_addr (srv_rec s p))) xs) # table_of s vs" by (simp add: table_of_def)
    ultimately show "distinct (map fst (table_of t (us @ (i, h, xs @ [p]) # vs)))" unfolding tab by simp
    show "no_newq t" using assms(1) add_srv_frame(2) [OF t(1)] by (simp add: config_ok_def)
    show "\<forall>(j, k, zs) \<in> set (us @ (i, h, xs @ [p]) # vs). \<forall>x \<in> set zs. inactive (srv_rec t x) = 0"
    proof -
      have all: "inactive (srv_rec s x) = 0" if "(j, k, zs) \<in> set ?ts" "x \<in> set zs" for j k zs x
        by (rule config_active [OF assms(1) that])
      have "inactive (srv_rec t x) = 0" if jk: "(j, k, zs) \<in> set (us @ (i, h, xs @ [p]) # vs)" "x \<in> set zs" for j k zs x
      proof (cases "x = p")
        case True
        then show ?thesis using t(5,7) by (simp add: srv_rec_def)
      next
        case False
        then have "(j, k, zs) \<in> set ?ts \<or> (j, k, xs) \<in> set ?ts \<and> x \<in> set xs" using jk by auto
        then obtain ws where "(j, k, ws) \<in> set ?ts" "x \<in> set ws" using jk(2) by blast
        then show ?thesis using all rec(2) [OF False] by simp
      qed
      then show ?thesis by blast
    qed
  qed (rule trees)
  then show ?thesis using t(1) p0 tab by blast
qed

section \<open>An interface in front\<close>

lemma add_interface_frame:
  assumes "add_interface h name s = Some (i, t)"
  shows "t = s\<lparr>brk := brk t, srvs := srvs t, infs := infs t\<rparr>" "brk s \<le> brk t" "no_newq s \<Longrightarrow> no_newq t"
  using assms
  by (auto simp: add_interface_def alloc_infnode_def alloc_srvnode_def ins_infnode_def inf_link_def upd_inf_def Let_def
      no_newq_def split: option.splits if_splits Option.bind_splits)

lemma add_interface_front:
  assumes "config_ok s l ts" "name \<notin> fst ` set (table_of s ts)"
  shows "\<exists>i t h. add_interface (inf_list s) name s = Some (i, t) \<and> config_ok t l ((i, h, []) # ts) \<and>
    table_of t ((i, h, []) # ts) = (name, []) # table_of s ts"
proof -
  have c: "inf_wf s" "inflist_at s (inf_list s) (map fst ts)" using assms(1) by (simp_all add: config_ok_def)
  obtain i t n m where t: "add_interface (inf_list s) name s = Some (i, t)" "inf_wf t" "inflist_at t (inf_list s) (i # map fst ts)"
    "i \<notin> dom (infs s)" "infs t i = Some n" "inf n = Some name" "srvlist n \<notin> dom (srvs s)" "srvlist_at t (srvlist n) []"
    "\<And>q. q \<noteq> i \<Longrightarrow> q \<noteq> inf_list s \<Longrightarrow> infs t q = infs s q" "infs s (inf_list s) = Some m"
    "infs t (inf_list s) = Some (m\<lparr>inf_next := i\<rparr>)" "\<And>q. q \<in> dom (srvs s) \<Longrightarrow> srvs t q = srvs s q" "inf_list t = inf_list s"
    using add_interface_list [OF c, of name] by (elim exE conjE) (rule that, assumption+, blast, assumption+, blast, assumption+)
  let ?us = "ts @ [(inf_list s, l, [])]"
  have tr: "inf_trees s ?us" using assms(1) by (simp add: config_ok_def)
  have sv: "srvs t x = srvs s x \<and> x \<noteq> srvlist n" if "(j, k, zs) \<in> set ?us" "x \<in> set (k # zs)" for j k zs x
  proof -
    have "srvlist_at s k zs" using inf_treesD [OF tr that(1)] by blast
    then have "x \<in> dom (srvs s)" using srvlist_live [of s k zs x] that(2) by auto
    then show ?thesis using t(7,12) by auto
  qed
  have nd: "inf (the (infs t j)) = inf (the (infs s j)) \<and> srvlist (the (infs t j)) = srvlist (the (infs s j)) \<and> j \<noteq> i \<and> infs t j \<noteq> None"
    if "(j, k, zs) \<in> set ?us" for j k zs
  proof -
    obtain nj where nj: "infs s j = Some nj" using inf_treesD [OF tr \<open>(j, k, zs) \<in> set ?us\<close>] by blast
    then have "j \<noteq> i" using t(4) by auto
    then show ?thesis using nj t(9) [of j] t(10,11) by (cases "j = inf_list s") auto
  qed
  have tab: "table_of t ts = table_of s ts"
    unfolding table_of_def
  proof (rule list.map_cong0, clarify, intro conjI)
    fix j k zs
    assume "(j, k, zs) \<in> set ts"
    then have u: "(j, k, zs) \<in> set ?us" by simp
    show "inf_text t j = inf_text s j" using nd [OF u] by (simp add: inf_text_def)
    show "map (\<lambda>p. sin_addr (srv_addr (srv_rec t p))) zs = map (\<lambda>p. sin_addr (srv_addr (srv_rec s p))) zs"
      using sv [OF u] by (simp add: srv_rec_def)
  qed
  have trees: "inf_trees t (((i, srvlist n, []) # ts) @ [(inf_list t, l, [])])"
    unfolding inf_trees_def
  proof (intro conjI ballI)
    fix u
    assume "u \<in> set (((i, srvlist n, []) # ts) @ [(inf_list t, l, [])])"
    then consider "u = (i, srvlist n, [])" | "u \<in> set ?us" using t(13) by auto
    then show "case u of (i, h, xs) \<Rightarrow> \<exists>n. infs t i = Some n \<and> srvlist n = h \<and> srvlist_at t h xs"
    proof cases
      case 1
      then show ?thesis using t(5,8) by simp
    next
      case 2
      obtain j k zs where u: "u = (j, k, zs)" by (cases u)
      obtain nj where nj: "infs s j = Some nj" "srvlist nj = k" "srvlist_at s k zs" using inf_treesD [OF tr] 2 u by blast
      have "srvlist_at t k zs" using srvlist_at_frame [OF nj(3), of t] sv 2 u by blast
      then show ?thesis using nd [of j k zs] nj(1,2) 2 u by auto
    qed
  next
    have "srvlist n \<notin> set (concat (map (\<lambda>(i, h, xs). h # xs) ?us))"
      unfolding tree_nodes using sv by blast
    then show "distinct (concat (map (\<lambda>(i, h, xs). h # xs) (((i, srvlist n, []) # ts) @ [(inf_list t, l, [])])))"
      using tr t(13) unfolding inf_trees_def by simp
  qed
  have "inf_text t i = name" using t(5,6) by (simp add: inf_text_def)
  then have tab2: "table_of t ((i, srvlist n, []) # ts) = (name, []) # table_of s ts" using tab by (simp add: table_of_def)
  have "config_ok t l ((i, srvlist n, []) # ts)"
    unfolding config_ok_def
  proof (intro conjI)
    show "inflist_at t (inf_list t) (map fst ((i, srvlist n, []) # ts))" using t(3,13) by simp
    show "\<forall>j \<in> set (map fst ((i, srvlist n, []) # ts)). inf (the (infs t j)) \<noteq> None"
      using assms(1) t(5,6) nd by (fastforce simp: config_ok_def)
    show "distinct (map fst (table_of t ((i, srvlist n, []) # ts)))"
      unfolding tab2 using assms by (simp add: config_ok_def)
    show "no_newq t" using assms(1) add_interface_frame(3) [OF t(1)] by (simp add: config_ok_def)
    have "inactive (srv_rec t x) = 0" if "(j, k, zs) \<in> set ts" "x \<in> set zs" for j k zs x
      using config_active [OF assms(1) that] sv [of j k zs x] that by (simp add: srv_rec_def)
    then show "\<forall>(j, k, zs) \<in> set ((i, srvlist n, []) # ts). \<forall>x \<in> set zs. inactive (srv_rec t x) = 0" by auto
  qed (rule t(2), rule trees)
  then show ?thesis using t(1) tab2 by blast
qed

section \<open>The option \<open>-s\<close>\<close>

lemma search_config:
  assumes "config_ok s l ts"
  shows "search_infnode s (inf_list s) name = Some (case find (\<lambda>i. inf_text s i = name) (map fst ts) of Some i \<Rightarrow> i | None \<Rightarrow> NULL)"
proof -
  have c: "inflist_at s (inf_list s) (map fst ts)" "\<forall>i \<in> set (map fst ts). inf (the (infs s i)) \<noteq> None"
    using assms by (simp_all add: config_ok_def)
  have live: "\<exists>n nm. infs s i = Some n \<and> inf n = Some nm" if "i \<in> set (map fst ts)" for i
  proof -
    obtain n where "infs s i = Some n" using inflist_live [OF c(1), of i] \<open>i \<in> set (map fst ts)\<close> by auto
    then show ?thesis using c(2) \<open>i \<in> set (map fst ts)\<close> by fastforce
  qed
  have "inf_named s name i = (inf_text s i = name)" if "i \<in> set (map fst ts)" for i
    using live [OF that] by (auto simp: inf_named_def inf_text_def)
  then have "find (inf_named s name) (map fst ts) = find (\<lambda>i. inf_text s i = name) (map fst ts)"
    by (intro find_cong) auto
  then show ?thesis using search_infnode_list [OF c(1), of name] live by simp
qed

lemma table_names: "fst ` set (table_of s ts) = inf_text s ` fst ` set ts"
  by (force simp: table_of_def)

lemma enter_server_at:
  assumes "distinct (map fst (us @ (name, as) # vs))"
  shows "enter_server name a (us @ (name, as) # vs) = us @ (name, as @ [a]) # vs"
proof -
  have "map (\<lambda>(n, as). (n, if n = name then as @ [a] else as)) ws = ws" if "name \<notin> fst ` set ws" for ws :: table
    using that by (induction ws) auto
  moreover have "name \<notin> fst ` set us" "name \<notin> fst ` set vs" using assms by auto
  ultimately show ?thesis by (simp add: enter_server_def)
qed

lemma opt_server_config:
  assumes "config_ok s l ts" "58 \<in> set arg" "validate_interface (behind 58 arg) s = Some v" "0 \<le> v"
    and "inet_aton (before 58 arg) = Some a"
  shows "\<exists>t us. opt_server arg s = Some (Go t) \<and> config_ok t l us \<and> table_of t us = enter_server (behind 58 arg) a (table_of s ts)"
proof -
  let ?name = "behind 58 arg" and ?l = "inf_list s"
  have enter: "\<exists>t ws. (do { n \<leftarrow> infs s1 i; l \<leftarrow> last_srvnode s1 (srvlist n); (p, s2) \<leftarrow> add_srv l (before 58 arg) s1;
        Some (if p = NULL then Exit (- 1) else Go s2) }) = Some (Go t) \<and> config_ok t l ws \<and>
      table_of t ws = enter_server (inf_text s1 i) a (table_of s1 (us @ (i, h, xs) # vs))"
    if c: "config_ok s1 l (us @ (i, h, xs) # vs)" for s1 :: "'a proc_state_scheme" and us i h xs vs
  proof -
    have "inf_trees s1 ((us @ (i, h, xs) # vs) @ [(inf_list s1, l, [])])" using c by (simp add: config_ok_def)
    from inf_treesD [OF this, of i h xs] obtain n where n: "infs s1 i = Some n" "srvlist n = h" "srvlist_at s1 h xs" by auto
    obtain p t where t: "add_srv (last (h # xs)) (before 58 arg) s1 = Some (p, t)" "p \<noteq> NULL"
      "config_ok t l (us @ (i, h, xs @ [p]) # vs)" "table_of t (us @ (i, h, xs @ [p]) # vs) =
      table_of s1 us @ (inf_text s1 i, map (\<lambda>p. sin_addr (srv_addr (srv_rec s1 p))) xs @ [a]) # table_of s1 vs"
      using add_srv_last [OF c assms(5)] by blast
    have sp: "table_of s1 (us @ (i, h, xs) # vs) =
      table_of s1 us @ (inf_text s1 i, map (\<lambda>p. sin_addr (srv_addr (srv_rec s1 p))) xs) # table_of s1 vs"
      by (simp add: table_of_def)
    have "distinct (map fst (table_of s1 (us @ (i, h, xs) # vs)))" using c by (simp add: config_ok_def)
    then have "enter_server (inf_text s1 i) a (table_of s1 (us @ (i, h, xs) # vs)) = table_of t (us @ (i, h, xs @ [p]) # vs)"
      unfolding sp t(4) by (rule enter_server_at)
    moreover have "(do { n \<leftarrow> infs s1 i; l \<leftarrow> last_srvnode s1 (srvlist n); (p, s2) \<leftarrow> add_srv l (before 58 arg) s1;
        Some (if p = NULL then Exit (- 1) else Go s2) }) = Some (Go t)"
      using n t(1,2) last_srvnode_list [OF n(3)] by simp
    ultimately show ?thesis using t(3) by (intro exI conjI) auto
  qed
  show ?thesis
  proof (cases "find (\<lambda>i. inf_text s i = ?name) (map fst ts)")
    case (Some i)
    then have i: "i \<in> set (map fst ts)" "inf_text s i = ?name" using find_Some_in [OF Some] by simp_all
    then obtain us h xs vs where ts: "ts = us @ (i, h, xs) # vs" 
    proof -
      from i(1) obtain u where u: "u \<in> set ts" "i = fst u" by auto
      obtain us vs where "ts = us @ u # vs" using split_list [OF u(1)] by blast
      then show ?thesis using that [of us "fst (snd u)" "snd (snd u)" vs] u(2) by simp
    qed
    have "i \<noteq> NULL" using assms(1) i(1) by (force simp: config_ok_def inflist_at_def)
    then have "opt_server arg s = (do { n \<leftarrow> infs s i; l \<leftarrow> last_srvnode s (srvlist n); (p, s2) \<leftarrow> add_srv l (before 58 arg) s;
        Some (if p = NULL then Exit (- 1) else Go s2) })"
      using assms(2-4) search_config [OF assms(1), of ?name] Some by (simp add: opt_server_def)
    then show ?thesis using enter [of s us i h xs vs] assms(1) i(2) ts by simp
  next
    case None
    then have "?name \<notin> fst ` set (table_of s ts)" unfolding table_names by (auto simp: find_None_iff)
    from add_interface_front [OF assms(1) this] obtain i t h where t: "add_interface ?l ?name s = Some (i, t)"
      "config_ok t l ((i, h, []) # ts)" "table_of t ((i, h, []) # ts) = (?name, []) # table_of s ts" by blast
    have "opt_server arg s = (do { n \<leftarrow> infs t i; l \<leftarrow> last_srvnode t (srvlist n); (p, s2) \<leftarrow> add_srv l (before 58 arg) t;
        Some (if p = NULL then Exit (- 1) else Go s2) })"
      using assms(2-4) search_config [OF assms(1), of ?name] None t(1) by (simp add: opt_server_def)
    moreover have "inf_text t i = ?name" using t(3) by (simp add: table_of_def)
    moreover have "enter_server ?name a ((?name, []) # table_of s ts) = enter_server ?name a (table_of s ts)"
    proof -
      have "map (\<lambda>(n, as). (n, if n = ?name then as @ [a] else as)) ws = ws" if "?name \<notin> fst ` set ws" for ws :: table
        using that by (induction ws) auto
      then show ?thesis using \<open>?name \<notin> fst ` set (table_of s ts)\<close> by (simp add: enter_server_def)
    qed
    ultimately show ?thesis using enter [of t "[]" i h "[]" ts] t(2,3) by simp
  qed
qed

text \<open>What an option that succeeds found, and what it writes.\<close>

lemma opt_server_go:
  assumes "opt_server arg s = Some (Go t)"
  shows "58 \<in> set arg" "\<exists>v. validate_interface (behind 58 arg) s = Some v \<and> 0 \<le> v"
    "\<exists>i1 s1 x p. (s1 = s \<or> add_interface (inf_list s) (behind 58 arg) s = Some (i1, s1)) \<and>
       add_srv x (before 58 arg) s1 = Some (p, t) \<and> p \<noteq> NULL"
proof -
  let ?r = "\<lambda>i. if i = NULL then add_interface (inf_list s) (behind 58 arg) s else Some (i, s)"
  show sep: "58 \<in> set arg" using assms by (auto simp: opt_server_def split: if_splits)
  obtain v where v: "validate_interface (behind 58 arg) s = Some v" "\<not> v < 0"
    using assms sep by (auto simp: opt_server_def Let_def split: if_splits Option.bind_splits)
  then show "\<exists>v. validate_interface (behind 58 arg) s = Some v \<and> 0 \<le> v" by auto
  obtain i where i: "search_infnode s (inf_list s) (behind 58 arg) = Some i"
    using assms sep v by (auto simp: opt_server_def Let_def split: if_splits Option.bind_splits)
  obtain i1 s1 where r: "?r i = Some (i1, s1)"
    using assms sep v i by (auto simp: opt_server_def Let_def simp del: not_None_eq split: Option.bind_splits)
  have "(do { n \<leftarrow> infs s1 i1; l \<leftarrow> last_srvnode s1 (srvlist n); (p, s2) \<leftarrow> add_srv l (before 58 arg) s1;
       Some (if p = NULL then Exit (- 1) else Go s2) }) = Some (Go t)"
    using assms sep v i r by (simp add: opt_server_def Let_def)
  then obtain x p where "add_srv x (before 58 arg) s1 = Some (p, t)" "p \<noteq> NULL"
    by (auto split: Option.bind_splits if_splits)
  moreover have "s1 = s \<or> add_interface (inf_list s) (behind 58 arg) s = Some (i1, s1)" using r by (auto split: if_splits)
  ultimately show "\<exists>i1 s1 x p. (s1 = s \<or> add_interface (inf_list s) (behind 58 arg) s = Some (i1, s1)) \<and>
       add_srv x (before 58 arg) s1 = Some (p, t) \<and> p \<noteq> NULL" by blast
qed

lemma opt_server_addr: "opt_server arg s = Some (Go t) \<Longrightarrow> \<exists>a. inet_aton (before 58 arg) = Some a"
  using opt_server_go(3) [of arg s t] by (auto simp: add_srv_def split: if_splits option.splits)

lemma opt_server_frame:
  assumes "opt_server arg s = Some (Go t)"
  shows "\<exists>b m n. t = s\<lparr>brk := b, srvs := m, infs := n\<rparr> \<and> brk s \<le> b"
proof -
  obtain i1 s1 x p where r: "s1 = s \<or> add_interface (inf_list s) (behind 58 arg) s = Some (i1, s1)"
    "add_srv x (before 58 arg) s1 = Some (p, t)" using opt_server_go(3) [OF assms] by blast
  obtain b m n where 1: "s1 = s\<lparr>brk := b, srvs := m, infs := n\<rparr>" "brk s \<le> b"
  proof (cases "s1 = s")
    case True
    then have "s1 = s\<lparr>brk := brk s, srvs := srvs s, infs := infs s\<rparr>" by simp
    then show ?thesis using that by blast
  next
    case False
    then have "add_interface (inf_list s) (behind 58 arg) s = Some (i1, s1)" using r(1) by simp
    from add_interface_frame(1,2) [OF this] show ?thesis by (rule that)
  qed
  obtain b' m' where 2: "t = s1\<lparr>brk := b', srvs := m'\<rparr>" "brk s1 \<le> b'" using add_srv_frame(1) [OF r(2)] by blast
  have "t = s\<lparr>brk := b', srvs := m', infs := n\<rparr>" "brk s \<le> b'" using 1 2 by simp_all
  then show ?thesis by blast
qed

end
