(* ===== verification/Boot.thy ===== *)
theory Boot
  imports Config
begin

text \<open>
  From the first line of \<open>main\<close> to its loop: what each phase needs and leaves, for the state in which the
  program is loaded and any answers of the kernel. The start ends, and when it does not end the process, the state
  satisfies the invariant of the main loop and holds the table of the options.
\<close>

section \<open>The options\<close>

text \<open>What the options enter into the table.\<close>

definition opt_entry :: "char \<times> bytes \<Rightarrow> table \<Rightarrow> table" where
  "opt_entry = (\<lambda>(c, arg) cfg.
     if c = CHR ''s'' then enter_server (behind 58 arg) (the (inet_aton (before 58 arg))) cfg else cfg)"

definition options_table :: "(char \<times> bytes) list \<Rightarrow> table" where
  "options_table opts = fold opt_entry opts []"

text \<open>The parts of the state that no option writes, and the arrays that options fill.\<close>

definition quiet :: "'a proc_state_scheme \<Rightarrow> bool" where
  "quiet s \<longleftrightarrow> QLIST < brk s \<and> cxs s = Map.empty \<and> cachelist s = NULL \<and> lastcache s = NULL \<and> cache_onoff s = 1 \<and>
     0 \<le> cache_lowwater s \<and> cache_lowwater s \<le> cache_highwater s \<and> rr_ok (rr_garbage s) \<and>
     (\<exists>k. queries s = [QLIST \<mapsto> query_zero\<lparr>q_next := k\<rparr>]) \<and> upstream_sockets s = 0 \<and>
     pool_ptr (qids s) = 65535 \<and> length (randmem (isaac_ctx (qids s))) = RANDSIZ \<and>
     matched_intf_cnt s = 0 \<and> length (req_msg s) = UDP_MAXSIZE + 4 \<and> length (rep_msg s) = UDP_MAXSIZE + 4 \<and>
     2 \<le> length (dnsbuf s) \<and> open_fds s = [2, 1, 0] \<and> sort_st s = sort_static \<and> dnrd_sem s = 0 \<and> 0 < clock s \<and>
     def_inf_count s \<le> length (def_inf_list s) \<and> (\<forall>b \<in> set (def_inf_list s). 9 \<le> length b)"

lemma configured_cong:
  assumes "configured s cfg" "brk t = brk s" "srvs t = srvs s" "infs t = infs s" "inf_list t = inf_list s"
  shows "configured t cfg"
  using assms
  by (simp add: configured_def config_ok_def table_of_def inf_text_def srv_rec_def inf_wf_def srv_wf_def inflist_at_def
      inf_trees_def srvlist_at_def inf_nxt_def srv_nxt_def no_newq_def)

lemma c_strncpy_length: "c_strncpy d x n = Some e \<Longrightarrow> length e = length d"
  by (auto simp: c_strncpy_def split: if_splits)

lemma wr_fits: "wr xs i v = Some ys \<Longrightarrow> length ys = length xs \<and> set ys \<subseteq> insert v (set xs)"
  using set_update_subset_insert by (fastforce simp: wr_def split: if_splits)

text \<open>Options other than \<open>-s\<close> and \<open>-D\<close> write only their own variables.\<close>

definition opt_frame :: "'a proc_state_scheme \<Rightarrow> 'a proc_state_scheme \<Rightarrow> bool" where
  "opt_frame s t \<longleftrightarrow> t = s\<lparr>cache_param := cache_param t, ignore_inactive_cache_hits := ignore_inactive_cache_hits t,
     max_sockets := max_sockets t, forward_timeout := forward_timeout t, reactivate_interval := reactivate_interval t,
     exc_port := exc_port t, exc_port_ofst := exc_port_ofst t, mst := mst t, sp_hosts := sp_hosts t,
     sp_hosts_count := sp_hosts_count t, stats_interval := stats_interval t, stats_reset := stats_reset t,
     opt_debug := opt_debug t, gotterminal := gotterminal t, recv_addr := recv_addr t, dnrd_user := dnrd_user t,
     dnrd_root := dnrd_root t\<rparr>"

lemma parse_opt_rest_frame: "parse_opt_rest c arg s = Some (Go t) \<Longrightarrow> opt_frame s t"
  by (auto simp: parse_opt_rest_def opt_stats_def opt_exclude_def opt_frame_def split: if_splits Option.bind_splits)

lemma parse_opt_frame:
  assumes "parse_opt c arg s = Some (Go t)" "c \<noteq> CHR ''s''" "c \<noteq> CHR ''D''"
  shows "opt_frame s t"
proof -
  have host: "opt_frame s t" if "opt_host arg s = Some (Go t)"
    using that by (auto simp: opt_host_def opt_frame_def split: if_splits Option.bind_splits prod.splits)
  have master: "opt_frame s t" if "opt_master arg s = Some (Go t)"
    using that by (auto simp: opt_master_def opt_frame_def split: if_splits Option.bind_splits)
  have kill: "opt_kill s \<noteq> Go t" by (simp add: opt_kill_def split: ending.splits)
  show ?thesis
    using assms host master kill parse_opt_rest_frame [of c arg s t]
    by (auto simp: parse_opt_def split: if_splits option.splits Option.bind_splits prod.splits) (auto simp: opt_frame_def)
qed

lemma parse_opt_quiet:
  assumes "parse_opt c arg s = Some (Go t)" "quiet s" "configured s cfg"
  shows "quiet t \<and> configured t (opt_entry (c, arg) cfg)"
proof -
  consider "c = CHR ''s''" | "c = CHR ''D''" | "c \<noteq> CHR ''s''" "c \<noteq> CHR ''D''" by blast
  then show ?thesis
  proof cases
    case 1
    then have o: "opt_server arg s = Some (Go t)" using assms(1) by (simp add: parse_opt_def)
    obtain v a where g: "58 \<in> set arg" "validate_interface (behind 58 arg) s = Some v" "0 \<le> v"
      "inet_aton (before 58 arg) = Some a" using opt_server_go(1,2) [OF o] opt_server_addr [OF o] by blast
    obtain l ts where c: "config_ok s l ts" "table_of s ts = cfg" using assms(3) by (auto simp: configured_def)
    from opt_server_config [OF c(1) g] o have "configured t (enter_server (behind 58 arg) a cfg)"
      using c(2) by (auto simp: configured_def)
    moreover have "quiet t" using opt_server_frame [OF o] assms(2) by (auto simp: quiet_def)
    ultimately show ?thesis using 1 g(4) by (simp add: opt_entry_def)
  next
    case 2
    then have o: "opt_default arg s = Some (Go t)" using assms(1) by (simp add: parse_opt_def)
    then obtain d d1 ds where d: "rd (def_inf_list s) (int (def_inf_count s)) = Some d" "c_strncpy d arg 9 = Some d1"
      "wr (def_inf_list s) (int (def_inf_count s)) d1 = Some ds"
      "t = s\<lparr>def_inf_list := ds, def_inf_count := def_inf_count s + 1\<rparr>"
      by (auto simp: opt_default_def split: Option.bind_splits if_splits)
    have "def_inf_count s < length (def_inf_list s)" "d \<in> set (def_inf_list s)" using d(1) by (auto split: if_splits)
    moreover have "length d1 = length d" using c_strncpy_length d(2) .
    ultimately have "quiet t" using wr_fits [OF d(3)] assms(2) d(4) unfolding quiet_def by auto
    moreover have "configured t cfg" by (rule configured_cong [OF assms(3)]) (simp_all add: d(4))
    ultimately show ?thesis using 2 by (simp add: opt_entry_def)
  next
    case 3
    have "quiet t \<and> brk t = brk s \<and> srvs t = srvs s \<and> infs t = infs s \<and> inf_list t = inf_list s"
    proof -
      have "opt_frame s t" by (rule parse_opt_frame [OF assms(1) 3])
      then obtain a1 a2 a3 a4 a5 a6 a7 a8 a9 a10 a11 a12 a13 a14 a15 a16 a17 where "t = s\<lparr>cache_param := a1,
        ignore_inactive_cache_hits := a2, max_sockets := a3, forward_timeout := a4, reactivate_interval := a5, exc_port := a6,
        exc_port_ofst := a7, mst := a8, sp_hosts := a9, sp_hosts_count := a10, stats_interval := a11, stats_reset := a12,
        opt_debug := a13, gotterminal := a14, recv_addr := a15, dnrd_user := a16, dnrd_root := a17\<rparr>"
        unfolding opt_frame_def by blast
      then show ?thesis using assms(2) by (simp add: quiet_def)
    qed
    then show ?thesis using configured_cong [OF assms(3), of t] 3 by (simp add: opt_entry_def)
  qed
qed

lemma run_opts_quiet:
  assumes "run_all (map (\<lambda>(c, arg). parse_opt c arg) opts) s = Some (Go t)" "quiet s" "configured s cfg"
  shows "quiet t \<and> configured t (fold opt_entry opts cfg)"
  using assms
proof (induction opts arbitrary: s cfg)
  case (Cons o1 opts)
  obtain c arg where o: "o1 = (c, arg)" by (cases o1)
  obtain s1 where s1: "parse_opt c arg s = Some (Go s1)" "run_all (map (\<lambda>(c, arg). parse_opt c arg) opts) s1 = Some (Go t)"
    using Cons.prems(1) o by (auto split: Option.bind_splits ending.splits)
  have "quiet s1 \<and> configured s1 (opt_entry (c, arg) cfg)" by (rule parse_opt_quiet [OF s1(1) Cons.prems(2,3)])
  then have "quiet t \<and> configured t (fold opt_entry opts (opt_entry (c, arg) cfg))" using Cons.IH [OF s1(2)] by blast
  then show ?case using o by simp
qed simp

lemma parse_args_quiet:
  assumes "parse_args opts rest s = Some (Go t)" "quiet s" "configured s cfg"
  shows "quiet t \<and> configured t (fold opt_entry opts cfg) \<and> \<not> rest"
proof -
  let ?s = "s\<lparr>exc_port_ofst := 0, def_inf_count := 0, sp_hosts_count := 0\<rparr>"
  have "run_all (map (\<lambda>(c, arg). parse_opt c arg) opts) ?s = Some (Go t)" "\<not> rest"
    using assms(1) by (auto simp: parse_args_def split: Option.bind_splits ending.splits if_splits)
  moreover have "quiet ?s" using assms(2) by (simp add: quiet_def)
  moreover have "configured ?s cfg" by (rule configured_cong [OF assms(3)]) simp_all
  ultimately show ?thesis using run_opts_quiet by blast
qed

text \<open>The program as it is loaded: no heap, and the variables as they are initialised.\<close>

definition loaded :: "'a proc_state_scheme \<Rightarrow> bool" where
  "loaded s \<longleftrightarrow> quiet s \<and> srvs s = Map.empty \<and> infs s = Map.empty \<and> length (dnrd_root s) = 512"

lemma main_begin_config:
  assumes "loaded s"
  shows "\<exists>t. main_begin s = Some (Go t) \<and> quiet t \<and> configured t []"
proof -
  let ?p = "brk s"
  let ?k = "\<lparr>srv_addr = sockaddr_zero, inactive = - 1, send_count = 0, send_time = 0, newquery = NULL, srv_next = Suc ?p\<rparr>"
  let ?n = "\<lparr>inf = None, srvlist = Suc ?p, current = NULL, roundrobin = 0, retrydelay = 0, inf_next = ?p\<rparr>"
  let ?t = "s\<lparr>recv_addr := sockaddr_zero\<lparr>sin_family := AF_INET\<rparr>, brk := Suc (Suc ?p), srvs := [Suc ?p \<mapsto> ?k], infs := [?p \<mapsto> ?n],
    inf_list := ?p\<rparr>"
  have b: "0 < ?p" using assms by (simp add: loaded_def quiet_def QLIST_def)
  have "config_ok ?t (Suc ?p) []"
    using b by (auto simp: config_ok_def inf_wf_def srv_wf_def inflist_at_def inf_trees_def srvlist_at_def circ_Nil inf_nxt_def
        srv_nxt_def table_of_def no_newq_def)
  then have c: "configured ?t []" unfolding configured_def by (intro exI conjI) (auto simp: table_of_def)
  have q: "quiet ?t" using assms by (simp add: loaded_def quiet_def)
  have e: "srvs s = Map.empty" "infs s = Map.empty" using assms by (simp_all add: loaded_def)
  show ?thesis
  proof (cases "env_root s")
    case None
    then have "main_begin s = Some (Go ?t)" using e by (simp add: main_begin_def alloc_infnode_def alloc_srvnode_def Let_def)
    then show ?thesis using c q by blast
  next
    case (Some dir)
    obtain d where d: "c_strncpy (dnrd_root s) dir 512 = Some d" using assms by (auto simp: loaded_def c_strncpy_def)
    have "main_begin s = Some (Go (?t\<lparr>dnrd_root := d\<rparr>))"
      using Some d e by (simp add: main_begin_def alloc_infnode_def alloc_srvnode_def Let_def)
    moreover have "quiet (?t\<lparr>dnrd_root := d\<rparr>)" using q by (simp add: quiet_def)
    moreover have "configured (?t\<lparr>dnrd_root := d\<rparr>) []" by (rule configured_cong [OF c]) simp_all
    ultimately show ?thesis by blast
  qed
qed

section \<open>The ports of the servers\<close>

definition with_port :: "srvnode \<Rightarrow> srvnode" where
  "with_port v = v\<lparr>srv_addr := (srv_addr v)\<lparr>sin_family := AF_INET, sin_port := 53\<rparr>\<rparr>"

lemma with_port_sel [simp]:
  "srv_next (with_port v) = srv_next v" "inactive (with_port v) = inactive v" "newquery (with_port v) = newquery v"
  "sin_addr (srv_addr (with_port v)) = sin_addr (srv_addr v)" "sin_port (srv_addr (with_port v)) = 53"
  "with_port (with_port v) = with_port v"
  by (simp_all add: with_port_def)

definition on_port :: "ptr set \<Rightarrow> (ptr \<rightharpoonup> srvnode) \<Rightarrow> ptr \<rightharpoonup> srvnode" where
  "on_port A m = (\<lambda>x. if x \<in> A then map_option with_port (m x) else m x)"

lemma on_port_un: "on_port B (on_port A m) = on_port (A \<union> B) m"
  by (auto simp: on_port_def fun_eq_iff option.map_comp o_def)

lemma on_port_nxt: "srv_nxt (s\<lparr>srvs := on_port A (srvs s)\<rparr>) = srv_nxt s"
  by (auto simp: srv_nxt_def on_port_def fun_eq_iff option.map_comp o_def)

lemma set_ports_path:
  assumes "path (srv_nxt s) p (p # xs) h" "h \<notin> set xs"
  shows "set_ports h p s = Some (s\<lparr>srvs := on_port (set xs) (srvs s)\<rparr>)"
  using assms
proof (induction xs arbitrary: p s)
  case Nil
  have "on_port (set []) (srvs s) = srvs s" by (simp add: on_port_def)
  moreover obtain n where "srvs s p = Some n" "srv_next n = h" using Nil by auto
  ultimately show ?case by (subst set_ports.simps) (simp add: get_srv_def)
next
  case (Cons x xs)
  obtain n where n: "srvs s p = Some n" "srv_next n = x" "path (srv_nxt s) x (x # xs) h" using Cons.prems(1) by auto
  then obtain m where m: "srvs s x = Some m" by auto
  let ?s1 = "s\<lparr>srvs := on_port {x} (srvs s)\<rparr>"
  have "upd_srv x (\<lambda>v. v\<lparr>srv_addr := (srv_addr v)\<lparr>sin_family := AF_INET, sin_port := 53\<rparr>\<rparr>) s = Some ?s1"
    using m by (auto simp: upd_srv_def on_port_def with_port_def fun_eq_iff intro!: arg_cong [where f = "\<lambda>m. s\<lparr>srvs := m\<rparr>"])
  moreover have "set_ports h x ?s1 = Some (?s1\<lparr>srvs := on_port (set xs) (srvs ?s1)\<rparr>)"
    using Cons.IH [of ?s1 x] n(3) Cons.prems(2) unfolding on_port_nxt by simp
  moreover have "?s1\<lparr>srvs := on_port (set xs) (srvs ?s1)\<rparr> = s\<lparr>srvs := on_port (set (x # xs)) (srvs s)\<rparr>"
    using on_port_un [of "set xs" "{x}" "srvs s"] by simp
  ultimately show ?case using n Cons.prems(2) by (subst set_ports.simps) (simp add: get_srv_def)
qed

text \<open>What \<open>main\<close> makes of an interface: its first server becomes the current one.\<close>

definition ported :: "'a inf_state_scheme \<Rightarrow> ptr set \<Rightarrow> 'a inf_state_scheme \<Rightarrow> bool" where
  "ported s A t \<longleftrightarrow> same_shape s t \<and> inf_frame s t \<and> srvs t = on_port A (srvs s)"

lemma ported_trans: "ported s A t \<Longrightarrow> ported t B u \<Longrightarrow> ported s (A \<union> B) u"
  using same_shape_trans [of s t u] inf_frame_trans [of s t u] by (simp add: ported_def on_port_un)

lemma ported_inf:
  assumes "infs s i = Some n" "srvlist_at s (srvlist n) xs"
  shows "\<exists>s1 h t. set_ports (srvlist n) (srvlist n) s = Some s1 \<and> get_srv s1 (srvlist n) = Some h \<and>
    upd_inf i (\<lambda>n. n\<lparr>current := srv_next h\<rparr>) s1 = Some t \<and> ported s (set xs) t \<and>
    infs t = (infs s)(i \<mapsto> n\<lparr>current := hd (xs @ [srvlist n])\<rparr>)"
proof -
  let ?s1 = "s\<lparr>srvs := on_port (set xs) (srvs s)\<rparr>" and ?l = "srvlist n"
  let ?t = "?s1\<lparr>infs := (infs s)(i \<mapsto> n\<lparr>current := hd (xs @ [?l])\<rparr>)\<rparr>"
  have sp: "set_ports ?l ?l s = Some ?s1" using set_ports_path [of s ?l xs ?l] assms(2) by (simp add: srvlist_at_def circ_def)
  obtain m where m: "srvs s ?l = Some m" "srv_next m = hd (xs @ [?l])" using srvlist_first [OF assms(2)] by blast
  have "?l \<notin> set xs" using assms(2) by (simp add: srvlist_at_def circ_def)
  then obtain h where h: "get_srv ?s1 ?l = Some h" "srv_next h = hd (xs @ [?l])"
    using m that [of m] by (simp add: get_srv_def on_port_def)
  have "same_shape s ?t"
    using assms(1) on_port_nxt [of "set xs" s] by (auto simp: same_shape_def srv_nxt_def)
  then have "ported s (set xs) ?t" by (simp add: ported_def inf_frame_def)
  moreover have "upd_inf i (\<lambda>n. n\<lparr>current := srv_next h\<rparr>) ?s1 = Some ?t" using assms(1) h(2) by (simp add: upd_inf_def)
  ultimately show ?thesis using sp h(1) by (intro exI conjI) auto
qed

lemma port_loop_path:
  assumes "path (inf_nxt s) i (map fst ts) (inf_list s)" "ts \<noteq> []" "inf_list s \<notin> set (map fst (tl ts))" "distinct (map fst ts)"
    and "\<And>j k zs. (j, k, zs) \<in> set ts \<Longrightarrow> \<exists>n. infs s j = Some n \<and> srvlist n = k \<and> srvlist_at s k zs"
  shows "\<exists>t. port_loop i s = Some t \<and> ported s (\<Union>(j, k, zs) \<in> set ts. set zs) t \<and>
    (\<forall>(j, k, zs) \<in> set ts. current (the (infs t j)) = hd (zs @ [k])) \<and> (\<forall>j. j \<notin> set (map fst ts) \<longrightarrow> infs t j = infs s j)"
  using assms
proof (induction ts arbitrary: i s)
  case Nil
  then show ?case by simp
next
  case (Cons u ts)
  obtain k zs where u: "u = (i, k, zs)" using Cons.prems(1) by (cases u) auto
  obtain n where n: "infs s i = Some n" "srvlist n = k" "srvlist_at s k zs" using Cons.prems(5) [of i k zs] u by auto
  obtain s1 h t where t: "set_ports k k s = Some s1" "get_srv s1 k = Some h"
    "upd_inf i (\<lambda>n. n\<lparr>current := srv_next h\<rparr>) s1 = Some t" "ported s (set zs) t"
    "infs t = (infs s)(i \<mapsto> n\<lparr>current := hd (zs @ [k])\<rparr>)" using ported_inf [OF n(1)] n(2,3) by blast
  have sh: "same_shape s t" using t(4) by (simp add: ported_def)
  have il: "inf_list t = inf_list s" using sh by (simp add: same_shape_def)
  have p: "path (inf_nxt t) (inf_next n) (map fst ts) (inf_list t)"
    using Cons.prems(1) u n(1) il by (simp add: same_shape_inf_nxt [OF sh])
  have step: "port_loop i s = (if inf_next n \<noteq> inf_list t then port_loop (inf_next n) t else Some t)"
    using n(1,2) t(1-3) by (subst port_loop.simps) simp
  show ?case
  proof (cases "ts = []")
    case True
    then have "inf_next n = inf_list t" using p by simp
    then have "port_loop i s = Some t" using step by simp
    moreover have "current (the (infs t i)) = hd (zs @ [k])" using t(5) by simp
    ultimately show ?thesis using t(4,5) u True by (intro exI [of _ t]) simp
  next
    case False
    then have "inf_next n = hd (map fst ts)" "hd (map fst ts) \<in> set (map fst ts)" using p by (cases ts; auto)+
    moreover have out: "inf_list s \<notin> set (map fst ts)" using Cons.prems(3) by simp
    ultimately have ne: "inf_next n \<noteq> inf_list t" using il by metis
    have tl: "inf_list t \<notin> set (map fst (tl ts))" using out il by (cases ts) auto
    have trees: "\<exists>n. infs t j = Some n \<and> srvlist n = k' \<and> srvlist_at t k' zs'" if "(j, k', zs') \<in> set ts" for j k' zs'
    proof -
      obtain m where m: "infs s j = Some m" "srvlist m = k'" "srvlist_at s k' zs'" using Cons.prems(5) \<open>(j, k', zs') \<in> set ts\<close> by force
      then show ?thesis using same_shape_inf [OF sh m(1)] same_shape_srvlist [OF sh] by auto
    qed
    have di: "distinct (map fst ts)" "i \<notin> set (map fst ts)" using Cons.prems(4) u by simp_all
    obtain t' where t': "port_loop (inf_next n) t = Some t'" "ported t (\<Union>(j, k, zs) \<in> set ts. set zs) t'"
      "\<forall>(j, k, zs) \<in> set ts. current (the (infs t' j)) = hd (zs @ [k])" "\<forall>j. j \<notin> set (map fst ts) \<longrightarrow> infs t' j = infs t j"
      using Cons.IH [OF p False tl di(1) trees] by blast
    have "current (the (infs t' i)) = hd (zs @ [k])" using t'(4) di(2) t(5) by simp
    then have "\<forall>(j, k, zs) \<in> set (u # ts). current (the (infs t' j)) = hd (zs @ [k])" using t'(3) u by simp
    moreover have "port_loop i s = Some t'" using step ne t'(1) by simp
    moreover have "ported s (\<Union>(j, k, zs) \<in> set (u # ts). set zs) t'" using ported_trans [OF t(4) t'(2)] u by simp
    moreover have "\<forall>j. j \<notin> set (map fst (u # ts)) \<longrightarrow> infs t' j = infs s j" using t'(4) t(5) u by simp
    ultimately show ?thesis by blast
  qed
qed

lemma fst_triple: "i \<in> set (map fst ts) \<Longrightarrow> \<exists>k zs. (i, k, zs) \<in> set ts"
  by force

lemma ported_config:
  assumes "config_ok s l ts" "ported s A t"
  shows "config_ok t l ts \<and> table_of t ts = table_of s ts"
proof -
  have sh: "same_shape s t" "inf_frame s t" "srvs t = on_port A (srvs s)" using assms(2) by (simp_all add: ported_def)
  have il: "inf_list t = inf_list s" using sh(1) by (simp add: same_shape_def)
  have bk: "brk t = brk s"
  proof -
    obtain m n where "t = s\<lparr>srvs := m, infs := n\<rparr>" using sh(2) unfolding inf_frame_def by blast
    then show ?thesis by simp
  qed
  have sv: "sin_addr (srv_addr (srv_rec t x)) = sin_addr (srv_addr (srv_rec s x))" "inactive (srv_rec t x) = inactive (srv_rec s x)"
    if "srvs s x \<noteq> None" for x using that sh(3) by (auto simp: srv_rec_def on_port_def)
  have dm: "dom (srvs t) = dom (srvs s)" "dom (infs t) = dom (infs s)"
  proof -
    show "dom (srvs t) = dom (srvs s)" unfolding sh(3) by (auto simp: on_port_def dom_def)
    have "dom (inf_nxt t) = dom (inf_nxt s)" using same_shape_inf_nxt [OF sh(1)] by simp
    then show "dom (infs t) = dom (infs s)" by (simp add: inf_nxt_def dom_def)
  qed
  have tr: "inf_trees s (ts @ [(inf_list s, l, [])])" using assms(1) by (simp add: config_ok_def)
  have nd: "\<exists>n m. infs s j = Some n \<and> infs t j = Some m \<and> inf m = inf n \<and> srvlist m = k \<and> srvlist_at t k zs \<and> (\<forall>x \<in> set zs. srvs s x \<noteq> None)"
    if j: "(j, k, zs) \<in> set (ts @ [(inf_list s, l, [])])" for j k zs
  proof -
    obtain n where n: "infs s j = Some n" "srvlist n = k" "srvlist_at s k zs" using inf_treesD [OF tr j] by blast
    then show ?thesis using same_shape_inf [OF sh(1) n(1)] same_shape_srvlist [OF sh(1)] srvlist_live [OF n(3)] by auto
  qed
  have tab: "table_of t ts = table_of s ts"
    unfolding table_of_def
  proof (rule list.map_cong0, clarify, intro conjI)
    fix j k zs
    assume "(j, k, zs) \<in> set ts"
    then have u: "(j, k, zs) \<in> set (ts @ [(inf_list s, l, [])])" by simp
    show "inf_text t j = inf_text s j" using nd [OF u] by (auto simp: inf_text_def)
    show "map (\<lambda>p. sin_addr (srv_addr (srv_rec t p))) zs = map (\<lambda>p. sin_addr (srv_addr (srv_rec s p))) zs"
      using nd [OF u] sv(1) by (auto simp: map_eq_conv)
  qed
  have "config_ok t l ts" unfolding config_ok_def
  proof (intro conjI)
    show "inf_wf t" using config_wf [OF assms(1)] dm bk by (simp add: inf_wf_def srv_wf_def)
    show "inflist_at t (inf_list t) (map fst ts)" using assms(1) same_shape_inflist [OF sh(1)] il by (simp add: config_ok_def)
    have "distinct (concat (map (\<lambda>(i, h, xs). h # xs) (ts @ [(inf_list s, l, [])])))" using tr by (simp add: inf_trees_def)
    moreover have "\<exists>n. infs t j = Some n \<and> srvlist n = k \<and> srvlist_at t k zs" if "(j, k, zs) \<in> set (ts @ [(inf_list s, l, [])])" for j k zs
      using nd [OF that] by blast
    ultimately show "inf_trees t (ts @ [(inf_list t, l, [])])" unfolding inf_trees_def il by blast
    show "\<forall>i \<in> set (map fst ts). inf (the (infs t i)) \<noteq> None"
    proof
      fix i assume i: "i \<in> set (map fst ts)"
      then obtain k zs where "(i, k, zs) \<in> set (ts @ [(inf_list s, l, [])])" using fst_triple [OF i] by auto
      from nd [OF this] show "inf (the (infs t i)) \<noteq> None" using assms(1) i by (fastforce simp: config_ok_def)
    qed
    show "distinct (map fst (table_of t ts))" unfolding tab using assms(1) by (simp add: config_ok_def)
    have "inactive (srv_rec t x) = 0" if "(j, k, zs) \<in> set ts" "x \<in> set zs" for j k zs x
      using nd [of j k zs] sv(2) [of x] config_active [OF assms(1) that] that by auto
    then show "\<forall>(i, h, xs) \<in> set ts. \<forall>p \<in> set xs. inactive (srv_rec t p) = 0" by blast
    show "no_newq t" using assms(1) sh(3) by (auto simp: config_ok_def no_newq_def on_port_def split: if_splits)
  qed
  then show ?thesis using tab by blast
qed

text \<open>Each interface of the table is on its first server, which is active and has the port of the service.\<close>

definition on_first :: "'a inf_state_scheme \<Rightarrow> ptr list \<Rightarrow> table \<Rightarrow> bool" where
  "on_first s is cfg \<longleftrightarrow>
     map (\<lambda>i. (inf_text s i, sin_addr (srv_addr (srv_rec s (current (the (infs s i))))))) is = map (\<lambda>(n, as). (n, hd as)) cfg \<and>
     (\<forall>i \<in> set is. is_active s (current (the (infs s i))) \<and> sin_port (srv_addr (srv_rec s (current (the (infs s i))))) = 53)"

lemma main_servers_ok:
  assumes "configured s cfg" "cfg \<noteq> []" "\<forall>e \<in> set cfg. snd e \<noteq> [] \<and> 37 \<notin> set (fst e)"
  shows "\<exists>t is m n. main_servers s = Some (Go t) \<and> configured t cfg \<and> infs_ok t is \<and> named_infs t is \<and> no_newq t \<and>
    on_first t is cfg \<and> t = s\<lparr>srvs := m, infs := n\<rparr>"
proof -
  obtain l ts where c: "config_ok s l ts" "table_of s ts = cfg" using assms(1) by (auto simp: configured_def)
  let ?us = "(inf_list s, l, []) # ts"
  have ci: "inflist_at s (inf_list s) (map fst ts)" and tr: "inf_trees s (ts @ [(inf_list s, l, [])])"
    using c(1) by (simp_all add: config_ok_def)
  have "\<exists>t. port_loop (inf_list s) s = Some t \<and> ported s (\<Union>(j, k, zs) \<in> set ?us. set zs) t \<and>
    (\<forall>(j, k, zs) \<in> set ?us. current (the (infs t j)) = hd (zs @ [k])) \<and> (\<forall>j. j \<notin> set (map fst ?us) \<longrightarrow> infs t j = infs s j)"
  proof (rule port_loop_path)
    show "path (inf_nxt s) (inf_list s) (map fst ?us) (inf_list s)" "inf_list s \<notin> set (map fst (tl ?us))" "distinct (map fst ?us)"
      using ci by (simp_all add: inflist_at_def circ_def)
    show "\<exists>n. infs s j = Some n \<and> srvlist n = k \<and> srvlist_at s k zs" if "(j, k, zs) \<in> set ?us" for j k zs
      using inf_treesD [OF tr, of j k zs] that by auto
  qed simp
  then obtain t where t: "port_loop (inf_list s) s = Some t" "ported s (\<Union>(j, k, zs) \<in> set ?us. set zs) t"
    "\<And>j k zs. (j, k, zs) \<in> set ?us \<Longrightarrow> current (the (infs t j)) = hd (zs @ [k])" by blast
  have ct: "config_ok t l ts" "table_of t ts = cfg" using ported_config [OF c(1) t(2)] c(2) by simp_all
  have il: "inf_list t = inf_list s" using t(2) by (simp add: ported_def same_shape_def)
  have it: "inflist_at t (inf_list t) (map fst ts)" and tt: "inf_trees t (ts @ [(inf_list t, l, [])])"
    using ct(1) by (simp_all add: config_ok_def)
  have nd: "\<exists>n. infs t j = Some n \<and> srvlist n = k \<and> srvlist_at t k zs \<and> current n = hd (zs @ [k])"
    if "(j, k, zs) \<in> set ?us" for j k zs
    using inf_treesD [OF tt, of j k zs] t(3) [OF that] that il by auto
  have "infs_ok t (map fst ts)" unfolding infs_ok_def
  proof (intro conjI ballI)
    fix i assume "i \<in> set (inf_list t # map fst ts)"
    then obtain k zs where "(i, k, zs) \<in> set ?us" using fst_triple [of i ?us] il by auto
    from nd [OF this] obtain n where n: "infs t i = Some n" "srvlist n = k" "srvlist_at t k zs" "current n = hd (zs @ [k])" by blast
    then have "current n \<in> set (srvlist n # zs)" by (cases zs) auto
    then show "inf_ok t i" using n unfolding inf_ok_def by blast
  qed (rule it)
  moreover have "named_infs t (map fst ts)" unfolding named_infs_def
  proof (intro conjI ballI)
    show "map fst ts \<noteq> []" using assms(2) c(2) by (auto simp: table_of_def)
    fix i assume i: "i \<in> set (map fst ts)"
    then obtain k zs where "(i, k, zs) \<in> set ?us" using fst_triple [OF i] by auto
    from nd [OF this] obtain n nm where n: "infs t i = Some n" "inf n = Some nm" using ct(1) i by (fastforce simp: config_ok_def)
    have "nm \<in> fst ` set (table_of t ts)" using i n unfolding table_names by (force simp: inf_text_def)
    then have "37 \<notin> set nm" using assms(3) ct(2) by auto
    then show "\<exists>n nm. infs t i = Some n \<and> inf n = Some nm \<and> 37 \<notin> set nm" using n by blast
  qed
  moreover have "on_first t (map fst ts) cfg"
  proof -
    have full: "zs \<noteq> []" if "(j, k, zs) \<in> set ts" for j k zs
    proof -
      have "(inf_text t j, map (\<lambda>p. sin_addr (srv_addr (srv_rec t p))) zs) \<in> set (table_of t ts)"
        using that by (force simp: table_of_def)
      then show ?thesis using assms(3) ct(2) by fastforce
    qed
    have cur: "current (the (infs t j)) = hd zs \<and> hd zs \<in> set zs" if "(j, k, zs) \<in> set ts" for j k zs
      using t(3) [of j k zs] full [OF that] that by simp
    have "map (\<lambda>(j, k, zs). (inf_text t j, sin_addr (srv_addr (srv_rec t (current (the (infs t j))))))) ts =
      map (\<lambda>(n, as). (n, hd as)) (table_of t ts)"
      unfolding table_of_def using cur full by (auto simp: hd_map)
    then have 1: "map (\<lambda>i. (inf_text t i, sin_addr (srv_addr (srv_rec t (current (the (infs t i))))))) (map fst ts) =
      map (\<lambda>(n, as). (n, hd as)) cfg" unfolding ct(2) by (simp add: case_prod_unfold o_def)
    have "is_active t (current (the (infs t i))) \<and> sin_port (srv_addr (srv_rec t (current (the (infs t i))))) = 53"
      if i: "i \<in> set (map fst ts)" for i
    proof -
      obtain k zs where j: "(i, k, zs) \<in> set ts" using i by auto
      obtain n where "srvlist_at t k zs" using nd [of i k zs] j by auto
      then obtain v where v: "srvs t (hd zs) = Some v" using srvlist_live [of t k zs "hd zs"] cur [OF j] by auto
      have "hd zs \<in> (\<Union>(j, k, zs) \<in> set ?us. set zs)" using cur [OF j] j by auto
      then obtain w where "v = with_port w" using v t(2) by (auto simp: ported_def on_port_def)
      then have "sin_port (srv_addr v) = 53" by simp
      moreover have "inactive v = 0" using config_active [OF ct(1) j, of "hd zs"] cur [OF j] v by (simp add: srv_rec_def)
      ultimately show ?thesis using cur [OF j] v by (simp add: is_active_def srv_rec_def)
    qed
    then show ?thesis using 1 unfolding on_first_def by blast
  qed
  moreover have "configured t cfg" using ct by (auto simp: configured_def)
  moreover have "no_newq t" using ct(1) by (simp add: config_ok_def)
  moreover have "t = s\<lparr>srvs := srvs t, infs := infs t\<rparr>" using t(2) unfolding ported_def inf_frame_def by blast
  ultimately show ?thesis using t(1) unfolding main_servers_def by (metis option.simps(9))
qed

section \<open>How a phase ends\<close>

text \<open>When \<open>g\<close> holds, the phase goes on; otherwise it may end the process.\<close>

definition outcome :: "bool \<Rightarrow> 'a ending option \<Rightarrow> ('a \<Rightarrow> bool) \<Rightarrow> bool" where
  "outcome g r P \<longleftrightarrow> (\<exists>t. r = Some (Go t) \<and> P t) \<or> \<not> g \<and> (\<exists>c. r = Some (Exit c))"

lemma outcome_go: "r = Some (Go t) \<Longrightarrow> P t \<Longrightarrow> outcome g r P"
  by (auto simp: outcome_def)

lemma outcome_exit: "r = Some (Exit c) \<Longrightarrow> \<not> g \<Longrightarrow> outcome g r P"
  by (auto simp: outcome_def)

lemma run_all_outcome:
  assumes "outcome g (f s) P" "\<And>t. P t \<Longrightarrow> outcome g (run_all fs t) Q"
  shows "outcome g (run_all (f # fs) s) Q"
proof (cases "\<exists>t. f s = Some (Go t) \<and> P t")
  case True
  then obtain t where t: "f s = Some (Go t)" "P t" by blast
  then show ?thesis using assms(2) [OF t(2)] by (simp add: outcome_def)
next
  case False
  then show ?thesis using assms(1) by (auto simp: outcome_def)
qed

lemma log_err_exit_ok:
  assumes "configured s cfg" "dnrd_sem s \<noteq> 0"
  shows "log_err_exit c s = Some (Exit c)"
proof -
  obtain l ts where c: "config_ok s l ts" using assms(1) by (auto simp: configured_def)
  have d: "\<exists>t. destroy_inflist (inf_list u) u = Some (NULL, t)" if u: "u = s\<lparr>dnrd_sem := k, open_fds := b\<rparr>" for u k b
  proof -
    have "config_ok u l ts"
      using c unfolding u
      by (simp add: config_ok_def table_of_def inf_text_def srv_rec_def inf_wf_def srv_wf_def inflist_at_def
          inf_trees_def srvlist_at_def inf_nxt_def srv_nxt_def no_newq_def)
    then have "inflist_at u (inf_list u) (map fst ts)" "inf_trees u (ts @ [(inf_list u, l, [])])"
      unfolding config_ok_def by blast+
    from destroy_inflist_list [OF this] show ?thesis by blast
  qed
  let ?s1 = "s\<lparr>dnrd_sem := dnrd_sem s - 1\<rparr>"
  have e: "?s1 = s\<lparr>dnrd_sem := dnrd_sem s - 1, open_fds := open_fds s\<rparr>" by simp
  show ?thesis
  proof (cases "0 \<le> isock s")
    case True
    then show ?thesis
      using assms(2) d [OF refl, where k = "dnrd_sem s - 1" and b = "filter (\<lambda>x. x \<noteq> isock s) (open_fds s)"]
      by (auto simp: log_err_exit_def cleanexit_def sem_wait_def Let_def os_close_def)
  next
    case False
    then show ?thesis
      using assms(2) d [OF e] by (auto simp: log_err_exit_def cleanexit_def sem_wait_def Let_def)
  qed
qed

section \<open>The phases\<close>

text \<open>What the kernel answers when it lets the program start.\<close>

definition granted :: "'a proc_state_scheme \<Rightarrow> bool" where
  "granted s \<longleftrightarrow> pidfile s \<noteq> Unreadable \<and> (\<forall>c. env_sys s c) \<and>
     (fst (env_ports s) = None \<longleftrightarrow> snd (env_ports s) = None) \<and> (\<forall>k. env_sock s k) \<and> root_sane s \<and> env_fork s = Fork_child \<and>
     (snd (strtoul10 (cstr (dnrd_user s))) = [] \<or> env_passwd s (cstr (dnrd_user s)) \<noteq> None) \<and> cstr (dnrd_user s) \<noteq> []"

text \<open>
  The options that the proofs ask for; the local master is off, or its database, which is read at the start and
  again after each SIGHUP, leaves room in the answers. The names in arrays have their NUL, the marks of the cache can be
  computed, and debugging is on only in a world that allows it.
\<close>

definition fixed_ok :: "world \<Rightarrow> 'a proc_state_scheme \<Rightarrow> bool" where
  "fixed_ok W s \<longleftrightarrow> sp_hosts_count s = 0 \<and> 0 < reactivate_interval s \<and> ports_avail s \<and>
     max_sockets s \<le> 1018 \<and> 0 \<in> set (dnrd_user s) \<and> 0 \<in> set (dnrd_root s) \<and>
     (opt_debug s = 0 \<or> debugs W) \<and> (debugs W \<longrightarrow> named_env s)"

definition settings_ok :: "world \<Rightarrow> 'a proc_state_scheme \<Rightarrow> bool" where
  "settings_ok W s \<longleftrightarrow> master_ready (reloads W) (mst s) \<and> fixed_ok W s \<and> marks_fit (cstr (cache_param s))"

definition table_rows :: "table \<Rightarrow> (u32 \<times> bytes option) list" where
  "table_rows cfg = concat (map (\<lambda>(n, as). map (\<lambda>a. (a, Some n)) as) cfg)"

definition table_ok :: "table \<Rightarrow> bool" where
  "table_ok cfg \<longleftrightarrow> cfg \<noteq> [] \<and> (\<forall>e \<in> set cfg. snd e \<noteq> [] \<and> 37 \<notin> set (fst e)) \<and> length (table_rows cfg) \<le> 100 \<and>
     (\<forall>(a, n) \<in> set (table_rows cfg). length (group_entry a n) < 40)"

text \<open>The state between two phases; \<open>tab\<close> says whether the tables are set up.\<close>

definition booting :: "world \<Rightarrow> bool \<Rightarrow> table \<Rightarrow> nat \<Rightarrow> int list \<Rightarrow> bool \<Rightarrow> 'a proc_state_scheme \<Rightarrow> bool" where
  "booting W g cfg sem fds tab s \<longleftrightarrow> configured s cfg \<and> fixed_ok W s \<and> (g \<longrightarrow> granted s) \<and>
     env_sys s Sys_fopen_pid \<and> env_sys s Sys_sem_init \<and> dnrd_sem s = sem \<and> open_fds s = fds \<and> QLIST < brk s \<and>
     cxs s = Map.empty \<and> cachelist s = NULL \<and> lastcache s = NULL \<and> 0 \<le> cache_lowwater s \<and>
     cache_lowwater s \<le> cache_highwater s \<and> rr_ok (rr_garbage s) \<and>
     upstream_sockets s = 0 \<and> matched_intf_cnt s = 0 \<and> length (req_msg s) = UDP_MAXSIZE + 4 \<and>
     length (rep_msg s) = UDP_MAXSIZE + 4 \<and> 2 \<le> length (dnsbuf s) \<and> sort_st s = sort_static \<and> 0 < clock s \<and>
     def_inf_count s \<le> length (def_inf_list s) \<and> (\<forall>b \<in> set (def_inf_list s). 9 \<le> length b) \<and>
     (if tab then master_safe (reloads W) (mst s) \<and> queries s = [QLIST \<mapsto> query_zero\<lparr>q_next := QLIST\<rparr>] \<and> qlist_tail s = QLIST \<and> qp.balanced (qids s) {} \<and> length (vc s) = 256
      else master_ready (reloads W) (mst s) \<and> (\<exists>k. queries s = [QLIST \<mapsto> query_zero\<lparr>q_next := k\<rparr>]) \<and> pool_ptr (qids s) = 65535 \<and>
        length (randmem (isaac_ctx (qids s))) = RANDSIZ \<and> cache_onoff s = 1 \<and> marks_fit (cstr (cache_param s)))"

lemma quiet_booting:
  assumes "quiet s" "configured s cfg" "settings_ok W s" "g \<longrightarrow> granted s" "env_sys s Sys_fopen_pid" "env_sys s Sys_sem_init"
  shows "booting W g cfg 0 [2, 1, 0] False s"
  using assms by (simp add: booting_def quiet_def settings_ok_def)

text \<open>Steps that change nothing the predicate looks at.\<close>

definition boot_frame :: "'a proc_state_scheme \<Rightarrow> 'a proc_state_scheme \<Rightarrow> bool" where
  "boot_frame s t \<longleftrightarrow> t = s\<lparr>pid_fd := pid_fd t, pidfile := pidfile t, killed := killed t, dnrd_sem := dnrd_sem t,
     open_fds := open_fds t, io := io t, isock := isock t, recv_addr := recv_addr t, daemonuid := daemonuid t,
     daemongid := daemongid t, gotterminal := gotterminal t\<rparr>"

lemma booting_frame:
  assumes "booting W g cfg sem fds tab s" "boot_frame s t" "pidfile s \<noteq> Unreadable \<longrightarrow> pidfile t \<noteq> Unreadable"
  shows "booting W g cfg (dnrd_sem t) (open_fds t) tab t"
proof -
  obtain a1 a2 a3 a4 a5 a6 a7 a8 a9 a10 a11 where t: "t = s\<lparr>pid_fd := a1, pidfile := a2, killed := a3, dnrd_sem := a4,
     open_fds := a5, io := a6, isock := a7, recv_addr := a8, daemonuid := a9, daemongid := a10, gotterminal := a11\<rparr>"
    using assms(2) unfolding boot_frame_def by blast
  have "configured t cfg" using configured_cong [of s cfg t] assms(1) by (simp add: booting_def t)
  moreover have "fixed_ok W t" using assms(1) ports_avail_cong [of s t] by (simp add: booting_def fixed_ok_def t)
  moreover have "root_sane t = root_sane s" by (simp add: root_sane_def t)
  then have "granted s \<Longrightarrow> granted t" using assms(3) by (simp add: granted_def t)
  then have "g \<longrightarrow> granted t" using assms(1) by (auto simp: booting_def)
  ultimately show ?thesis using assms(1) by (simp add: booting_def t)
qed

text \<open>A phase that goes on with a state in the frame, or ends the process when it is not granted.\<close>

lemma booting_exit:
  assumes "booting W g cfg sem fds tab s" "sem \<noteq> 0" "\<not> g"
  shows "outcome g (log_err_exit c s) P"
  using outcome_exit [OF log_err_exit_ok [of s cfg c] assms(3)] assms(1,2) by (simp add: booting_def)

lemma kill_current_go:
  assumes "pidfile s \<noteq> Unreadable"
  shows "\<exists>k a b. kill_current s = Go (k, s\<lparr>pidfile := a, killed := b\<rparr>)"
proof (cases "pidfile s")
  case No_file
  then have "kill_current s = Go (0, s\<lparr>pidfile := pidfile s, killed := killed s\<rparr>)" by (simp add: kill_current_def)
  then show ?thesis by blast
next
  case (Pid_file t)
  show ?thesis
  proof (cases "scan_int t")
    case None
    then have "kill_current s = Go (0, s\<lparr>pidfile := No_file, killed := killed s\<rparr>)" using Pid_file by (simp add: kill_current_def)
    then show ?thesis by blast
  next
    case (Some p)
    then have "kill_current s = Go (1, s\<lparr>pidfile := No_file, killed := killed s @ [p]\<rparr>)"
      using Pid_file by (simp add: kill_current_def Let_def)
    then show ?thesis by blast
  qed
qed (use assms in simp)

lemma main_pid_boot:
  assumes "booting W g cfg 0 [2, 1, 0] False s"
  shows "outcome g (main_pid s) (\<lambda>t. booting W g cfg 0 [3, 2, 1, 0] False t \<and> pid_fd t = 3)"
proof (cases "pidfile s = Unreadable")
  case True
  then have "\<not> g" using assms by (auto simp: booting_def granted_def)
  moreover have "main_pid s = Some (Exit (- 1))" using True by (simp add: main_pid_def kill_current_def)
  ultimately show ?thesis by (rule outcome_exit [rotated])
next
  case False
  obtain k a b where k: "kill_current s = Go (k, s\<lparr>pidfile := a, killed := b\<rparr>)" using kill_current_go [OF False] by blast
  have e: "env_sys s Sys_fopen_pid" "open_fds s = [2, 1, 0]" "dnrd_sem s = 0" using assms by (simp_all add: booting_def)
  have low: "lowest_free [2, 1, 0] = 3" by (simp add: lowest_free_def)
  let ?t = "s\<lparr>killed := b, pid_fd := 3, open_fds := [3, 2, 1, 0], pidfile := Pid_file []\<rparr>"
  have "main_pid s = Some (Go ?t)" using k e low by (simp add: main_pid_def need_def)
  moreover have "boot_frame s ?t" unfolding boot_frame_def by simp
  then have "booting W g cfg (dnrd_sem ?t) (open_fds ?t) False ?t" by (rule booting_frame [OF assms]) simp
  ultimately show ?thesis using e(3) by (intro outcome_go) auto
qed

lemma main_sem_boot:
  assumes "booting W g cfg 0 fds tab s"
  shows "outcome g (main_sem s) (\<lambda>t. booting W g cfg 1 fds tab t \<and> pid_fd t = pid_fd s)"
proof -
  let ?t = "s\<lparr>dnrd_sem := 1\<rparr>"
  have "boot_frame s ?t" by (simp add: boot_frame_def)
  then have "booting W g cfg (dnrd_sem ?t) (open_fds ?t) tab ?t" by (rule booting_frame [OF assms]) simp
  moreover have "main_sem s = Some (Go ?t)" "open_fds s = fds" using assms by (simp_all add: main_sem_def booting_def)
  ultimately show ?thesis by (intro outcome_go) auto
qed

lemma init_socket_boot:
  assumes "booting W g cfg 1 [3, 2, 1, 0] tab s"
  shows "outcome g (init_socket s) (\<lambda>t. booting W g cfg 1 [4, 3, 2, 1, 0] tab t \<and> pid_fd t = pid_fd s \<and> isock t = 4)"
proof -
  obtain udp tcp where ports: "env_ports s = (udp, tcp)" by (cases "env_ports s")
  let ?port = "case tcp of Some p \<Rightarrow> p | None \<Rightarrow> 53"
  let ?s1 = "s\<lparr>recv_addr := (recv_addr s)\<lparr>sin_port := ?port\<rparr>\<rparr>"
  have fds: "open_fds s = [3, 2, 1, 0]" "dnrd_sem s = 1" using assms by (simp_all add: booting_def)
  have low: "lowest_free [3, 2, 1, 0] = 4" by (simp add: lowest_free_def)
  consider "(udp = None) \<noteq> (tcp = None)" | "(udp = None) = (tcp = None)" "\<not> env_sock s (io s)"
    | "(udp = None) = (tcp = None)" "env_sock s (io s)" by blast
  then show ?thesis
  proof cases
    case 1
    then have "\<not> g" using assms ports by (auto simp: booting_def granted_def)
    moreover have "init_socket s = log_err_exit (- 1) s" using 1 ports by (simp add: init_socket_def)
    ultimately show ?thesis using booting_exit [OF assms] by simp
  next
    case 2
    let ?t = "?s1\<lparr>io := Suc (io s), isock := - 1\<rparr>"
    have "\<not> g" using assms 2 by (auto simp: booting_def granted_def)
    have "boot_frame s ?t" by (simp add: boot_frame_def)
    then have "booting W g cfg (dnrd_sem ?t) (open_fds ?t) tab ?t" by (rule booting_frame [OF assms]) simp
    moreover have "init_socket s = log_err_exit (- 1) ?t" using 2 ports
      by (cases udp; cases tcp) (simp_all add: init_socket_def os_socket_def Let_def)
    ultimately show ?thesis using booting_exit [of W g cfg 1 _ tab ?t] fds \<open>\<not> g\<close> by simp
  next
    case 3
    let ?t = "?s1\<lparr>io := Suc (io s), open_fds := [4, 3, 2, 1, 0], isock := 4\<rparr>"
    have "boot_frame s ?t" by (simp add: boot_frame_def)
    then have b: "booting W g cfg (dnrd_sem ?t) (open_fds ?t) tab ?t" by (rule booting_frame [OF assms]) simp
    have i: "init_socket s = (if \<not> env_sys ?t Sys_bind then log_err_exit (- 1) ?t else Some (Go ?t))"
      using 3 ports fds low by (cases udp; cases tcp) (simp_all add: init_socket_def os_socket_def Let_def)
    show ?thesis
    proof (cases "env_sys ?t Sys_bind")
      case True
      then show ?thesis using i b fds(2) by (intro outcome_go [of _ ?t]) auto
    next
      case False
      then have "\<not> g" using b by (auto simp: booting_def granted_def)
      then show ?thesis using booting_exit [OF b] i False fds(2) by simp
    qed
  qed
qed

lemma main_tables_boot:
  assumes "booting W g cfg sem fds False s"
  shows "outcome g (main_tables s) (\<lambda>t. booting W g cfg sem fds True t \<and> pid_fd t = pid_fd s \<and> isock t = isock s)"
proof -
  have b: "cache_onoff s = 1" "0 \<le> cache_lowwater s" "cache_lowwater s \<le> cache_highwater s" "pool_ptr (qids s) = 65535"
    "length (randmem (isaac_ctx (qids s))) = RANDSIZ" "master_ready (reloads W) (mst s)" "\<exists>k. queries s = [QLIST \<mapsto> query_zero\<lparr>q_next := k\<rparr>]"
    "marks_fit (cstr (cache_param s))"
    using assms by (simp_all add: booting_def fixed_ok_def)
  obtain a1 a2 a3 a4 where c: "cache_init s = Some (s\<lparr>cache_param := a1, cache_onoff := a2, cache_highwater := a3, cache_lowwater := a4\<rparr>)"
    "0 \<le> a4" "a4 \<le> a3" using cache_init_marks [OF b(1-3,8)] by blast
  obtain qs where q: "qid_init_pool (env_tv s) (qids s) = Some qs" "qp.balanced qs {}"
    using qid_init_pool_balanced [OF b(4,5)] by blast
  obtain k where k: "queries s = [QLIST \<mapsto> query_zero\<lparr>q_next := k\<rparr>]" using b(7) by blast
  obtain m where m: "master_init (mst s) = Some m" "master_safe (reloads W) m" using master_init_safe [OF b(6)] by blast
  let ?t = "s\<lparr>cache_param := a1, cache_onoff := a2, cache_highwater := a3, cache_lowwater := a4, qids := qs, mst := m,
    queries := [QLIST \<mapsto> query_zero\<lparr>q_next := QLIST\<rparr>], qlist_tail := QLIST, vc := init_dns 1\<rparr>"
  have "main_tables s = Some (Go ?t)"
    using c(1) q(1) m(1) k by (simp add: main_tables_def query_init_def q_link_def upd_query_def Let_def)
  moreover have "configured ?t cfg"
  proof (rule configured_cong)
    show "configured s cfg" using assms by (simp add: booting_def)
  qed simp_all
  moreover have "fixed_ok W ?t" using assms ports_avail_cong [of s ?t] by (simp add: booting_def fixed_ok_def)
  moreover have "root_sane ?t = root_sane s" by (simp add: root_sane_def)
  then have "g \<longrightarrow> granted ?t" using assms by (simp add: booting_def granted_def)
  moreover have "length (init_dns 1) = 256" by (simp add: init_dns_tolerant)
  ultimately show ?thesis using assms c(2,3) q(2) m(2) by (intro outcome_go [of _ ?t]) (simp_all add: booting_def)
qed

lemma init_dnrd_uid_boot:
  assumes "booting W g cfg 1 fds tab s"
  shows "outcome g (init_dnrd_uid s) (\<lambda>t. booting W g cfg 1 fds tab t \<and> pid_fd t = pid_fd s \<and> isock t = isock s)"
proof -
  obtain v ep where v: "strtoul10 (cstr (dnrd_user s)) = (v, ep)" by (cases "strtoul10 (cstr (dnrd_user s))")
  let ?s1 = "s\<lparr>daemonuid := of_nat v\<rparr>"
  have fds: "open_fds s = fds" "dnrd_sem s = 1" "0 \<in> set (dnrd_user s)" using assms by (simp_all add: booting_def fixed_ok_def)
  have n: "\<exists>n. c_strlen (dnrd_user s) = Some n" using fds(3) by (simp add: c_strlen_def)
  have f1: "booting W g cfg 1 fds tab ?s1"
    using booting_frame [OF assms, of ?s1] fds by (simp add: boot_frame_def)
  have bad: "\<not> g" if "cstr (dnrd_user s) = [] \<or> ep \<noteq> [] \<and> env_passwd s (cstr (dnrd_user s)) = None"
    using assms that v by (auto simp: booting_def granted_def)
  consider "cstr (dnrd_user s) = [] \<or> ep \<noteq> [] \<and> env_passwd s (cstr (dnrd_user s)) = None"
    | u g' where "cstr (dnrd_user s) \<noteq> []" "ep \<noteq> []" "env_passwd s (cstr (dnrd_user s)) = Some (u, g')"
    | "cstr (dnrd_user s) \<noteq> []" "ep = []" by (cases "env_passwd s (cstr (dnrd_user s))") auto
  then show ?thesis
  proof cases
    case 1
    then have "init_dnrd_uid s = log_err_exit (- 1) ?s1" using n v by (auto simp: init_dnrd_uid_def Let_def)
    then show ?thesis using booting_exit [OF f1 _ bad [OF 1]] by simp
  next
    case 2
    let ?t = "?s1\<lparr>daemonuid := u, daemongid := g'\<rparr>"
    have "init_dnrd_uid s = Some (Go ?t)" using n v 2 by (auto simp: init_dnrd_uid_def Let_def)
    moreover have "booting W g cfg 1 fds tab ?t" using booting_frame [OF assms, of ?t] fds by (simp add: boot_frame_def)
    ultimately show ?thesis by (intro outcome_go [of _ ?t]) simp_all
  next
    case 3
    then have "init_dnrd_uid s = Some (Go ?s1)" using n v by (auto simp: init_dnrd_uid_def Let_def)
    then show ?thesis using f1 by (intro outcome_go [of _ ?s1]) simp_all
  qed
qed

lemma root_name: "booting W g cfg sem fds tab s \<Longrightarrow> \<exists>n. c_strlen (dnrd_root s) = Some n"
  by (simp add: booting_def fixed_ok_def c_strlen_def)

lemma main_chdir_boot: "booting W g cfg sem fds tab s \<Longrightarrow> outcome g (main_chdir s) (booting W g cfg sem fds tab)"
  using root_name [of W g cfg sem fds tab s] by (auto simp: main_chdir_def outcome_def)

lemma sanity_boot:
  assumes "booting W g cfg 1 fds tab s"
  shows "outcome g (dnrd_root_sanity_check s) (\<lambda>t. booting W g cfg 1 fds tab t \<and> pid_fd t = pid_fd s \<and> isock t = isock s)"
proof (cases "root_sane s")
  case True
  then show ?thesis using assms root_name [OF assms] by (intro outcome_go [of _ s]) (auto simp: dnrd_root_sanity_check_def)
next
  case False
  then have "\<not> g" using assms by (auto simp: booting_def granted_def)
  then show ?thesis using False booting_exit [OF assms] root_name [OF assms] by (auto simp: dnrd_root_sanity_check_def)
qed

lemma need_boot:
  assumes "booting W g cfg 1 fds tab s"
  shows "outcome g (need c s) (\<lambda>t. booting W g cfg 1 fds tab t \<and> pid_fd t = pid_fd s \<and> isock t = isock s)"
proof (cases "env_sys s c")
  case True
  then show ?thesis using assms by (intro outcome_go [of _ s]) (simp_all add: need_def)
next
  case False
  then have "\<not> g" using assms by (auto simp: booting_def granted_def)
  then show ?thesis using False booting_exit [OF assms] by (simp add: need_def)
qed

lemma main_chroot_boot:
  assumes "booting W g cfg 1 fds tab s"
  shows "outcome g (main_chroot s) (\<lambda>t. booting W g cfg 1 fds tab t \<and> pid_fd t = pid_fd s \<and> isock t = isock s)"
  using need_boot [OF assms, of Sys_chroot] root_name [OF assms] by (auto simp: main_chroot_def)

text \<open>From \<open>main_servers\<close> on, the interfaces are ready.\<close>

definition served :: "table \<Rightarrow> ptr list \<Rightarrow> 'a proc_state_scheme \<Rightarrow> bool" where
  "served cfg is s \<longleftrightarrow> infs_ok s is \<and> named_infs s is \<and> no_newq s \<and> on_first s is cfg"

lemma served_cong:
  assumes "served cfg is s" "srvs t = srvs s" "infs t = infs s" "inf_list t = inf_list s"
  shows "served cfg is t"
  using assms
  by (simp add: served_def infs_ok_def inf_ok_def inflist_at_def srvlist_at_def inf_nxt_def srv_nxt_def named_infs_def no_newq_def
      on_first_def inf_text_def srv_rec_def is_active_def)

lemma main_servers_boot:
  assumes "booting W g cfg sem fds tab s" "table_ok cfg"
  shows "outcome g (main_servers s) (\<lambda>t. booting W g cfg sem fds tab t \<and> pid_fd t = pid_fd s \<and> isock t = isock s \<and> (\<exists>is. served cfg is t))"
proof -
  have "configured s cfg" "cfg \<noteq> []" "\<forall>e \<in> set cfg. snd e \<noteq> [] \<and> 37 \<notin> set (fst e)" using assms by (simp_all add: booting_def table_ok_def)
  from main_servers_ok [OF this] obtain t "is" m n where t: "main_servers s = Some (Go t)" "configured t cfg" "infs_ok t is"
    "named_infs t is" "no_newq t" "on_first t is cfg" "t = s\<lparr>srvs := m, infs := n\<rparr>"
    by (elim exE conjE) (rule that, assumption+)
  have "fixed_ok W t" using assms(1) ports_avail_cong [of s t] t(7) by (simp add: booting_def fixed_ok_def)
  moreover have "root_sane t = root_sane s" using t(7) by (simp add: root_sane_def)
  then have "g \<longrightarrow> granted t" using assms(1) t(7) by (simp add: booting_def granted_def)
  ultimately have "booting W g cfg sem fds tab t" using assms(1) t(2,7) by (simp add: booting_def)
  moreover have "served cfg is t" using t(3-6) by (simp add: served_def)
  ultimately show ?thesis using t(1,7) by (intro outcome_go [of _ t]) auto
qed

lemma main_daemon_boot:
  assumes "booting W g cfg 1 [4, 3, 2, 1, 0] tab s" "served cfg is s"
  shows "outcome g (main_daemon s) (\<lambda>t. (booting W g cfg 1 [4, 3] tab t \<or> booting W g cfg 1 [4, 3, 2, 1, 0] tab t) \<and>
    pid_fd t = pid_fd s \<and> isock t = isock s \<and> served cfg is t)"
proof (cases "opt_debug s = 0 \<or> gotterminal s = 0")
  case False
  then have "main_daemon s = Some (Go s)" by (auto simp: main_daemon_def)
  then show ?thesis using assms by (intro outcome_go [of _ s]) simp_all
next
  case True
  have fork: "\<not> g" if "env_fork s \<noteq> Fork_child" using assms(1) that by (auto simp: booting_def granted_def)
  show ?thesis
  proof (cases "env_fork s")
    case Fork_error
    then have "main_daemon s = log_err_exit (- 1) s" using True by (simp add: main_daemon_def)
    then show ?thesis using booting_exit [OF assms(1) _ fork] Fork_error by simp
  next
    case Fork_parent
    then have "main_daemon s = Some (Exit 0)" using True by (simp add: main_daemon_def)
    then show ?thesis using fork Fork_parent by (intro outcome_exit) simp_all
  next
    case Fork_child
    let ?t = "s\<lparr>gotterminal := 0, open_fds := [4, 3]\<rparr>"
    have fds: "open_fds s = [4, 3, 2, 1, 0]" "dnrd_sem s = 1" using assms(1) by (simp_all add: booting_def)
    then have "main_daemon s = Some (Go ?t)" using True Fork_child by (simp add: main_daemon_def os_close_def)
    moreover have "booting W g cfg (dnrd_sem ?t) (open_fds ?t) tab ?t"
      by (rule booting_frame [OF assms(1)]) (simp_all add: boot_frame_def)
    moreover have "served cfg is ?t" by (rule served_cong [OF assms(2)]) simp_all
    ultimately show ?thesis using fds(2) by (intro outcome_go [of _ ?t]) simp_all
  qed
qed

lemma inf_rows_table:
  assumes "\<forall>e \<in> set (table_of s ts). snd e \<noteq> []" "\<forall>i \<in> set (map fst ts). inf (the (infs s i)) \<noteq> None"
  shows "concat (map (inf_rows s) ts) = table_rows (table_of s ts)"
proof -
  have "inf_rows s t = (\<lambda>(n, as). map (\<lambda>a. (a, Some n)) as) ((\<lambda>(i, h, xs). (inf_text s i, map (\<lambda>p. sin_addr (srv_addr (srv_rec s p))) xs)) t)"
    if u: "t \<in> set ts" for t
  proof -
    obtain i h xs where t: "t = (i, h, xs)" by (cases t)
    have "(inf_text s i, map (\<lambda>p. sin_addr (srv_addr (srv_rec s p))) xs) \<in> set (table_of s ts)"
      using u t by (force simp: table_of_def)
    then have "xs \<noteq> []" using assms(1) by fastforce
    moreover obtain nm where "inf (the (infs s i)) = Some nm" using assms(2) u t by force
    ultimately show ?thesis using t by (simp add: inf_rows_def inf_text_def srv_rec_def)
  qed
  then have "map (inf_rows s) ts = map (\<lambda>(n, as). map (\<lambda>a. (a, Some n)) as) (table_of s ts)"
    unfolding table_of_def map_map by (intro map_cong) (auto simp: o_def)
  then show ?thesis by (simp add: table_rows_def)
qed

lemma sort_groups_ok:
  assumes "configured s cfg" "table_ok cfg"
  shows "\<exists>st. sort_groups s sort_static = Some st"
proof -
  obtain l ts where c: "config_ok s l ts" "table_of s ts = cfg" using assms(1) by (auto simp: configured_def)
  have ci: "inflist_at s (inf_list s) (map fst ts)" "inf_trees s (ts @ [(inf_list s, l, [])])"
    "\<forall>i \<in> set (map fst ts). inf (the (infs s i)) \<noteq> None" using c(1) by (simp_all add: config_ok_def)
  have rows: "concat (map (inf_rows s) ts) = table_rows cfg"
    using inf_rows_table [OF _ ci(3)] c(2) assms(2) by (simp add: table_ok_def)
  let ?st = "sort_static\<lparr>hash_array := replicate 25 0 @ drop 25 (hash_array sort_static), group_cnt := 0\<rparr>"
  obtain n where n: "infs s (inf_list s) = Some n" using inflist_live [OF ci(1)] by auto
  have "sort_infs s (inf_next n) ?st = Some (add_rows (concat (map (inf_rows s) ts)) ?st)"
  proof (rule sort_infs_rows)
    show "path (inf_nxt s) (inf_next n) (map fst ts) (inf_list s)" "inf_list s \<notin> set (map fst ts)"
      using ci(1) n by (auto simp: inflist_at_def circ_def)
    show "ts \<noteq> []" using assms(2) c(2) by (auto simp: table_ok_def table_of_def)
    show "\<forall>(i, h, xs) \<in> set ts. \<exists>n. infs s i = Some n \<and> srvlist n = h \<and> srvlist_at s h xs"
      using inf_treesD [OF ci(2)] by auto
    show "sort_fits (concat (map (inf_rows s) ts)) ?st"
      unfolding rows using assms(2) by (simp add: sort_fits_def table_ok_def sort_static_def)
  qed
  then show ?thesis using n by (simp add: sort_groups_def Let_def)
qed

text \<open>The state in which the loop begins.\<close>

definition ready :: "world \<Rightarrow> table \<Rightarrow> 'a proc_state_scheme \<Rightarrow> bool" where
  "ready W cfg t \<longleftrightarrow> configured t cfg \<and> (\<exists>is. main_inv W t is \<and> on_first t is cfg)"

lemma booting_main_inv:
  assumes "booting W g cfg sem fds True s" "served cfg is s" "isock s = 4" "fds = [4] \<or> fds = [4, 2, 1, 0]"
  shows "main_inv W s is"
proof -
  have b: "queries s = [QLIST \<mapsto> query_zero\<lparr>q_next := QLIST\<rparr>]" "qlist_tail s = QLIST" "qp.balanced (qids s) {}"
    "QLIST < brk s" "open_fds s = fds" "upstream_sockets s = 0" "max_sockets s \<le> 1018"
    using assms(1) by (simp_all add: booting_def fixed_ok_def)
  have "qlist_inv s []" using b by (simp add: qlist_inv_def circ_Nil q_nxt_def head_ok_def query_zero_def)
  moreover have "pool_inv s []" using b by (simp add: pool_inv_def ids_of_def)
  moreover have "fd_inv s (socks_of s [])" using b assms(4) by (auto simp: fd_inv_def socks_of_def FD_SETSIZE_def)
  ultimately have q: "query_inv s []" by (simp add: query_inv_def)
  have c: "cache_inv s []" using assms(1) by (simp add: cache_inv_def cache_at_def booting_def QLIST_def)
  have o: "opts_ok W s" using assms(1) by (simp add: opts_ok_def booting_def fixed_ok_def)
  have "dnrd_inv s is [] []"
    using q c assms(1,2) by (simp add: dnrd_inv_def served_def booting_def fixed_ok_def)
  then show ?thesis using o assms(3) by (auto simp: main_inv_def FD_SETSIZE_def)
qed

lemma main_sort_boot:
  assumes "booting W g cfg 1 fds tab s" "pid_fd s = 3" "fds = [4, 3] \<or> fds = [4, 3, 2, 1, 0]" "served cfg is s" "table_ok cfg"
  shows "outcome g (main_sort pid s) (\<lambda>t. booting W g cfg 1 (filter (\<lambda>x. x \<noteq> 3) fds) tab (t\<lparr>sort_st := sort_static\<rparr>) \<and>
    isock t = isock s \<and> served cfg is t)"
proof -
  let ?s1 = "s\<lparr>pidfile := Pid_file pid, open_fds := filter (\<lambda>x. x \<noteq> 3) fds\<rparr>"
  have fds: "open_fds s = fds" "dnrd_sem s = 1" "sort_st s = sort_static" using assms(1) by (simp_all add: booting_def)
  have "booting W g cfg (dnrd_sem ?s1) (open_fds ?s1) tab ?s1"
    by (rule booting_frame [OF assms(1)]) (simp_all add: boot_frame_def)
  then have b: "booting W g cfg 1 (filter (\<lambda>x. x \<noteq> 3) fds) tab ?s1" using fds(2) by simp
  then have "configured ?s1 cfg" by (simp add: booting_def)
  then obtain st where st: "sort_groups ?s1 sort_static = Some st" using sort_groups_ok [OF _ assms(5)] by blast
  have "main_sort pid s = Some (Go (?s1\<lparr>sort_st := st\<rparr>))"
    using st fds assms(2) by (simp add: main_sort_def os_close_def Let_def)
  moreover have "served cfg is (?s1\<lparr>sort_st := st\<rparr>)" by (rule served_cong [OF assms(4)]) simp_all
  moreover have "(?s1\<lparr>sort_st := st\<rparr>)\<lparr>sort_st := sort_static\<rparr> = ?s1" using fds(3) by simp
  ultimately show ?thesis using b by (intro outcome_go [of _ "?s1\<lparr>sort_st := st\<rparr>"]) simp_all
qed

text \<open>The invariant of the main loop does not see the variables of the process.\<close>

lemma main_inv_truncate: "main_inv W (dnrd_state.truncate s) is = main_inv W s is"
proof -
  have "excluded (dnrd_state.truncate s) = excluded s" by (simp add: excluded_def fun_eq_iff dnrd_state.defs)
  moreover have "q_nxt (dnrd_state.truncate s) = q_nxt s" "qrec (dnrd_state.truncate s) = qrec s" "cval (dnrd_state.truncate s) = cval s"
    "srv_nxt (dnrd_state.truncate s) = srv_nxt s" "inf_nxt (dnrd_state.truncate s) = inf_nxt s"
    "srv_live (dnrd_state.truncate s) = srv_live s"
    by (simp_all add: q_nxt_def qrec_def cval_def srv_nxt_def inf_nxt_def srv_live_def fun_eq_iff dnrd_state.defs)
  ultimately show ?thesis
    by (simp add: main_inv_def opts_ok_def dnrd_inv_def query_inv_def qlist_inv_def head_ok_def pool_inv_def fd_inv_def ids_of_def
        socks_of_def query_ok_def cache_inv_def cache_at_def centry_ok_def infs_ok_def inf_ok_def inflist_at_def
        srvlist_at_def named_infs_def no_newq_def ports_avail_def)
      (simp add: dnrd_state.defs)
qed

lemma main_inv_cong:
  assumes "main_inv W s is" "dnrd_state.truncate t = dnrd_state.truncate s"
  shows "main_inv W t is"
  using assms main_inv_truncate [of W s "is"] main_inv_truncate [of W t "is"] by simp

lemma main_run_boot:
  assumes "booting W g cfg 1 fds True (s\<lparr>sort_st := sort_static\<rparr>)" "fds = [4] \<or> fds = [4, 2, 1, 0]" "isock s = 4" "served cfg is s"
  shows "outcome g (main_run s) (ready W cfg)"
proof -
  let ?r = "s\<lparr>sort_st := sort_static\<rparr>"
  have "served cfg is ?r" by (rule served_cong [OF assms(4)]) simp_all
  then have "main_inv W ?r is" using booting_main_inv [OF assms(1)] assms(2,3) by simp
  then have m: "main_inv W s is" by (rule main_inv_cong) (simp add: dnrd_state.defs)
  obtain s1 where s1: "run_init s = Some s1" "main_inv W s1 is" using run_init_ok [OF m] by blast
  have fr: "s1 = s\<lparr>fdmaster := fdmaster s1, maxsock := maxsock s1\<rparr>"
    using s1(1) by (auto simp: run_init_def fd_add_def split: if_splits Option.bind_splits)
  let ?t = "snd (init_sig_handler s1)"
  have "main_run s = Some (Go ?t)" using s1(1) by (simp add: main_run_def)
  moreover have "main_inv W ?t is" using s1(2) by (rule main_inv_cong) (simp add: init_sig_handler_def dnrd_state.defs)
  moreover have e: "brk ?t = brk s" "srvs ?t = srvs s" "infs ?t = infs s" "inf_list ?t = inf_list s"
    by (subst fr, simp add: init_sig_handler_def)+
  moreover have "configured s cfg"
  proof (rule configured_cong)
    show "configured ?r cfg" using assms(1) by (simp add: booting_def)
  qed simp_all
  then have "configured ?t cfg" using e by (rule configured_cong)
  moreover have "on_first ?t is cfg" using served_cong [OF assms(4) e(2-4)] by (simp add: served_def)
  ultimately show ?thesis by (intro outcome_go [of _ ?t]) (auto simp: ready_def)
qed

section \<open>The whole start\<close>

text \<open>The options are accepted, and leave the state \<open>t\<close>.\<close>

definition accepted :: "(char \<times> bytes) list \<Rightarrow> bool \<Rightarrow> 'a proc_state_scheme \<Rightarrow> 'a proc_state_scheme \<Rightarrow> bool" where
  "accepted opts rest s t \<longleftrightarrow> run_all [main_begin, parse_args opts rest] s = Some (Go t)"

lemma accepted_split:
  assumes "loaded s" "accepted opts rest s t"
  obtains s1 where "main_begin s = Some (Go s1)" "parse_args opts rest s1 = Some (Go t)" "quiet s1" "configured s1 []"
proof -
  obtain s1 where s1: "main_begin s = Some (Go s1)" "quiet s1" "configured s1 []" using main_begin_config [OF assms(1)] by blast
  then have "parse_args opts rest s1 = Some (Go t)"
    using assms(2) by (auto simp: accepted_def split: Option.bind_splits ending.splits)
  then show ?thesis using s1 that by blast
qed

lemma accepted_config:
  assumes "loaded s" "accepted opts rest s t"
  shows "quiet t" "configured t (options_table opts)"
proof -
  obtain s1 where "parse_args opts rest s1 = Some (Go t)" "quiet s1" "configured s1 []"
    using accepted_split [OF assms] by blast
  then have "quiet t \<and> configured t (fold opt_entry opts []) \<and> \<not> rest" by (rule parse_args_quiet)
  then show "quiet t" "configured t (options_table opts)" by (simp_all add: options_table_def)
qed

text \<open>The phases that leave sockets and tables alone, and then the rest, from the last one back.\<close>

definition stage :: "world \<Rightarrow> bool \<Rightarrow> table \<Rightarrow> bool \<Rightarrow> 'a proc_state_scheme \<Rightarrow> bool" where
  "stage W g cfg tab t \<longleftrightarrow> booting W g cfg 1 [4, 3, 2, 1, 0] tab t \<and> pid_fd t = 3 \<and> isock t = 4"

lemma stage_steps:
  assumes "stage W g cfg tab t"
  shows "outcome g (init_dnrd_uid t) (stage W g cfg tab)" "outcome g (dnrd_root_sanity_check t) (stage W g cfg tab)"
    "outcome g (need c t) (stage W g cfg tab)" "outcome g (main_chroot t) (stage W g cfg tab)" "tab = False \<Longrightarrow> outcome g (main_tables t) (stage W g cfg True)"
proof -
  have t: "booting W g cfg 1 [4, 3, 2, 1, 0] tab t" "pid_fd t = 3" "isock t = 4" using assms by (simp_all add: stage_def)
  show "outcome g (init_dnrd_uid t) (stage W g cfg tab)" "outcome g (dnrd_root_sanity_check t) (stage W g cfg tab)"
    "outcome g (need c t) (stage W g cfg tab)" "outcome g (main_chroot t) (stage W g cfg tab)"
    using init_dnrd_uid_boot [OF t(1)] sanity_boot [OF t(1)] need_boot [OF t(1), of c] main_chroot_boot [OF t(1)] t(2,3)
    unfolding outcome_def stage_def by auto
  show "outcome g (main_tables t) (stage W g cfg True)" if "tab = False"
    using main_tables_boot [of W g cfg 1 "[4, 3, 2, 1, 0]" t] t \<open>tab = False\<close> unfolding outcome_def stage_def by auto
qed

definition forked :: "world \<Rightarrow> bool \<Rightarrow> table \<Rightarrow> 'a proc_state_scheme \<Rightarrow> bool" where
  "forked W g cfg t \<longleftrightarrow> (\<exists>is. (booting W g cfg 1 [4, 3] True t \<or> booting W g cfg 1 [4, 3, 2, 1, 0] True t) \<and>
     pid_fd t = 3 \<and> isock t = 4 \<and> served cfg is t)"

lemma sort_and_run:
  assumes "forked W g cfg t" "table_ok cfg"
  shows "outcome g (run_all [main_sort pid, main_run] t) (ready W cfg)"
proof -
  obtain fds "is" where t: "booting W g cfg 1 fds True t" "fds = [4, 3] \<or> fds = [4, 3, 2, 1, 0]" "pid_fd t = 3" "isock t = 4"
    "served cfg is t" using assms(1) by (auto simp: forked_def)
  let ?P = "\<lambda>u. booting W g cfg 1 (filter (\<lambda>x. x \<noteq> 3) fds) True (u\<lparr>sort_st := sort_static\<rparr>) \<and> isock u = 4 \<and> served cfg is u"
  show ?thesis
  proof (rule run_all_outcome [where f = "main_sort pid" and P = ?P])
    show "outcome g (main_sort pid t) ?P" using main_sort_boot [OF t(1,3,2,5) assms(2)] t(4) by simp
  next
    fix u :: "'a proc_state_scheme"
    assume u: "?P u"
    have "filter (\<lambda>x. x \<noteq> 3) fds = [4] \<or> filter (\<lambda>x. x \<noteq> 3) fds = [4, 2, 1, 0]" using t(2) by auto
    then have "outcome g (main_run u) (ready W cfg)" using u by (intro main_run_boot [of W g cfg "filter (\<lambda>x. x \<noteq> 3) fds" u]) blast+
    then show "outcome g (run_all [main_run] u) (ready W cfg)" by (auto simp: outcome_def)
  qed
qed

lemma serve_and_run:
  assumes "stage W g cfg True t" "table_ok cfg"
  shows "outcome g (run_all [main_servers, main_daemon, main_sort pid, main_run] t) (ready W cfg)"
proof (rule run_all_outcome [where f = main_servers and P = "\<lambda>u. stage W g cfg True u \<and> (\<exists>is. served cfg is u)"])
  show "outcome g (main_servers t) (\<lambda>u. stage W g cfg True u \<and> (\<exists>is. served cfg is u))"
    using main_servers_boot [of W g cfg 1 "[4, 3, 2, 1, 0]" True t] assms unfolding stage_def by simp
next
  fix u :: "'a proc_state_scheme"
  assume u: "stage W g cfg True u \<and> (\<exists>is. served cfg is u)"
  then obtain "is" where i: "served cfg is u" by blast
  have "outcome g (main_daemon u) (forked W g cfg)"
    using main_daemon_boot [OF _ i, of W g True] u unfolding stage_def outcome_def forked_def by auto
  then show "outcome g (run_all [main_daemon, main_sort pid, main_run] u) (ready W cfg)"
    by (rule run_all_outcome) (rule sort_and_run [OF _ assms(2)])
qed

lemma start_outcome:
  assumes "loaded s" "accepted opts rest s s2" "settings_ok W s2" "table_ok (options_table opts)" "g \<longrightarrow> granted s2"
    and "env_sys s2 Sys_fopen_pid" "env_sys s2 Sys_sem_init"
  shows "outcome g (start opts rest pid s) (ready W (options_table opts))"
proof -
  let ?cfg = "options_table opts"
  let ?Q = "ready W ?cfg"
  obtain s1 where s1: "main_begin s = Some (Go s1)" "parse_args opts rest s1 = Some (Go s2)"
    using accepted_split [OF assms(1,2)] by blast
  have b0: "booting W g ?cfg 0 [2, 1, 0] False s2"
    by (rule quiet_booting [OF accepted_config [OF assms(1,2)] assms(3,5-7)])
  have uid: "outcome g (run_all [init_dnrd_uid, dnrd_root_sanity_check, main_chroot, need Sys_setgroups, need Sys_setuid,
      main_servers, main_daemon, main_sort pid, main_run] t) ?Q" if t: "stage W g ?cfg True t" for t :: "'a proc_state_scheme"
    by (rule run_all_outcome, rule stage_steps(1) [OF t], rule run_all_outcome, erule stage_steps(2),
        rule run_all_outcome, erule stage_steps(4), rule run_all_outcome, erule stage_steps(3),
        rule run_all_outcome, erule stage_steps(3), erule serve_and_run [OF _ assms(4)])
  have pids: "outcome g (main_sem t) (\<lambda>u. booting W g ?cfg 1 [3, 2, 1, 0] False u \<and> pid_fd u = 3)"
    if "booting W g ?cfg 0 [3, 2, 1, 0] False t \<and> pid_fd t = 3" for t :: "'a proc_state_scheme"
    using main_sem_boot [OF conjunct1 [OF that]] that by simp
  have sock: "outcome g (init_socket t) (stage W g ?cfg False)"
    if "booting W g ?cfg 1 [3, 2, 1, 0] False t \<and> pid_fd t = 3" for t :: "'a proc_state_scheme"
    using init_socket_boot [OF conjunct1 [OF that]] that unfolding stage_def by simp
  have "outcome g (run_all [main_chdir, main_pid, main_sem, init_socket, main_tables, init_dnrd_uid, dnrd_root_sanity_check, main_chroot,
      need Sys_setgroups, need Sys_setuid, main_servers, main_daemon, main_sort pid, main_run] s2) ?Q"
    by (rule run_all_outcome, rule main_chdir_boot [OF b0], rule run_all_outcome, erule main_pid_boot, rule run_all_outcome, erule pids, rule run_all_outcome, erule sock,
        rule run_all_outcome, erule stage_steps(5), rule refl, erule uid)
  then show ?thesis using s1 by (simp add: start_def)
qed

text \<open>Without the file for the process id, the process waits for a semaphore that was never set up.\<close>

lemma start_no_pid_file:
  assumes "loaded s" "accepted opts rest s s2" "pidfile s2 \<noteq> Unreadable" "\<not> env_sys s2 Sys_fopen_pid"
  shows "start opts rest pid s = None"
proof -
  obtain s1 where s1: "main_begin s = Some (Go s1)" "parse_args opts rest s1 = Some (Go s2)"
    using accepted_split [OF assms(1,2)] by blast
  obtain k a b where k: "kill_current s2 = Go (k, s2\<lparr>pidfile := a, killed := b\<rparr>)" using kill_current_go [OF assms(3)] by blast
  have "dnrd_sem s2 = 0" using accepted_config(1) [OF assms(1,2)] by (simp add: quiet_def)
  then have "main_pid s2 = None"
    using k assms(4) by (simp add: main_pid_def need_def log_err_exit_def cleanexit_def sem_wait_def)
  then show ?thesis using s1 by (cases "c_strlen (dnrd_root s2)") (simp_all add: start_def main_chdir_def)
qed

end
