(* ===== verification/Examples.thy ===== *)
theory Examples
  imports Common Check Query
begin

text \<open>
  Concrete states and packets, on which the witnesses of the properties are evaluated: the
  daemon after its start with one interface and one server, a query for \<open>ab.c\<close> and the reply
  to it.
\<close>

definition demo_rr :: rr_t where
  "demo_rr = \<lparr>rr_flags = 0, rr_name = replicate RR_NAMESIZE 0, rr_type = 0, rr_class = 0, rr_ttl = 0,
     rr_len = 0, rr_data = replicate RR_NAMESIZE 0\<rparr>"

definition demo_srv :: "u32 \<Rightarrow> ptr \<Rightarrow> srvnode" where
  "demo_srv a nx = \<lparr>srv_addr = \<lparr>sin_family = AF_INET, sin_port = 53, sin_addr = a\<rparr>, inactive = 0,
     send_count = 0, send_time = 0, newquery = NULL, srv_next = nx\<rparr>"

text \<open>
  The query stands in a receive buffer of 512 bytes. The head of the queries is node 1, the head of the interfaces node 3 with the empty list of
  servers 2, the interface node 5 with the head of servers 4 and the server 6.
\<close>

definition demo :: "qid_state \<Rightarrow> query_state" where
  "demo qs = \<lparr>brk = 7, clock = 1000,
     srvs = [2 \<mapsto> demo_srv 0 2, 4 \<mapsto> demo_srv 0 6, 6 \<mapsto> demo_srv 0x0A000001 4],
     infs = [3 \<mapsto> \<lparr>inf = None, srvlist = 2, current = NULL, roundrobin = 0, retrydelay = 0, inf_next = 5\<rparr>,
             5 \<mapsto> \<lparr>inf = Some (bstr ''eth0''), srvlist = 4, current = 6, roundrobin = 0, retrydelay = 0,
                  inf_next = 3\<rparr>],
     inf_list = 3, cxs = (\<lambda>p. None), cachelist = NULL, lastcache = NULL, cache_param = [], cache_onoff = 1,
     cache_highwater = 1000, cache_lowwater = 800, cache_hits = 0, cache_misses = 0, lastexpire = 0,
     ignore_inactive_cache_hits = 0, vc = init_dns 1, rr_garbage = demo_rr,
     queries = [QLIST \<mapsto> query_zero\<lparr>q_next := QLIST\<rparr>], qlist_tail = QLIST, total_queries = 0,
     total_timeouts = 0, upstream_sockets = 0, qids = qs, max_sockets = 200, forward_timeout = 12,
     reactivate_interval = 10, exc_port = replicate 30 0, exc_port_ofst = 0, isock = 3, fdmaster = [3],
     maxsock = 3, open_fds = [3, 2, 1, 0], env_sock = (\<lambda>i. True), env_bind = (\<lambda>i. True), env_send = (\<lambda>i. 0), env_recv = (\<lambda>i. Recv_error),
     io = 0, bound = [], sent = []\<rparr>"

text \<open>The same with one open query, node 7, on socket 4.\<close>

definition demo1 :: "qid_state \<Rightarrow> u16 \<Rightarrow> query_state" where
  "demo1 qs q = (demo qs)\<lparr>brk := 8, queries := [QLIST \<mapsto> query_zero\<lparr>q_next := 7\<rparr>,
     7 \<mapsto> query_zero\<lparr>sock_arr := [4, 0, 0], q_srv := 6, is_dummy := 1, my_qid := q, client_qid := 0x1234,
            serv_sent_cnt := 1, client_time := 990, ttl := 12, q_next := QLIST\<rparr>],
     qlist_tail := 7, upstream_sockets := 1, open_fds := [4, 3, 2, 1, 0], fdmaster := [3, 4], maxsock := 4\<rparr>"

definition demo_labels :: "bytes list" where
  "demo_labels = [bstr ''ab'', bstr ''c'']"

definition demo_qhdr :: bytes where
  "demo_qhdr = [0x12, 0x34, 0x01, 0x00, 0, 1, 0, 0, 0, 0, 0, 0]"

definition demo_rhdr :: bytes where
  "demo_rhdr = [0x56, 0x78, 0x81, 0x80, 0, 1, 0, 1, 0, 0, 0, 0]"

definition demo_rest :: bytes where
  "demo_rest = [0, 1, 0, 1, 0xc0, 12, 0, 1, 0, 1, 0, 0, 0, 60, 0, 4, 10, 1, 1, 1]"

definition demo_query :: bytes where
  "demo_query = demo_qhdr @ wire_name demo_labels @ take 4 demo_rest @ replicate 490 0"

definition demo_reply :: bytes where
  "demo_reply = demo_rhdr @ wire_name demo_labels @ demo_rest"

section \<open>What holds of them\<close>

lemma demo_wf_labels: "wf_labels demo_labels"
  by (simp add: wf_labels_def demo_labels_def bstr_def)

lemma demo_valid: "all_valid (vc (demo qs))"
  by (simp add: demo_def init_dns_tolerant all_valid_def)

lemma demo_cache_inv: "cache_inv (demo qs) []"
  by (simp add: cache_inv_def cache_at_def demo_def init_dns_tolerant rr_ok_def demo_rr_def RR_NAMESIZE_def)

lemma demo_query_inv:
  assumes "qp.balanced qs {}"
  shows "query_inv (demo qs) []"
  using assms
  by (simp add: query_inv_def qlist_inv_def head_ok_def pool_inv_def fd_inv_def demo_def QLIST_def circ_def q_nxt_def
      ids_of_def socks_of_def FD_SETSIZE_def query_zero_def)

lemma demo_lists: "srvlist_at (demo qs) 2 []" "srvlist_at (demo qs) 4 [6]" "inflist_at (demo qs) 3 [5]"
  by (simp_all add: inflist_at_def srvlist_at_def circ_def demo_def inf_nxt_def srv_nxt_def demo_srv_def)

lemma demo_infs_ok: "infs_ok (demo qs) [5]"
proof -
  show ?thesis using demo_lists [of qs]
    by (auto simp: infs_ok_def inf_ok_def demo_def intro: exI [of _ "[]"] exI [of _ "[6]"])
qed

lemma demo_qids: "\<exists>qs. qp.balanced qs {}"
  using qid_init_pool_balanced [of qid_static] by (auto simp: qid_static_def QID_POOL_SIZE_def)

lemma demo_bytes:
  "demo_query = [0x12, 0x34, 0x01, 0x00, 0, 1, 0, 0, 0, 0, 0, 0, 2, 97, 98, 1, 99, 0, 0, 1, 0, 1] @ replicate 490 0"
  "demo_reply = [0x56, 0x78, 0x81, 0x80, 0, 1, 0, 1, 0, 0, 0, 0, 2, 97, 98, 1, 99, 0,
     0, 1, 0, 1, 0xc0, 12, 0, 1, 0, 1, 0, 0, 0, 60, 0, 4, 10, 1, 1, 1]"
  by (simp_all add: demo_query_def demo_reply_def demo_qhdr_def demo_rhdr_def demo_rest_def demo_labels_def
      bstr_def)

lemma demo_length: "length demo_query = 512" "length demo_reply = 38"
  by (simp_all add: demo_bytes)

lemma demo_packed:
  "packed demo_query 22 12 demo_labels 0" "name_end demo_query 12 demo_labels = 18"
  "packed demo_reply 38 12 demo_labels 0" "name_end demo_reply 12 demo_labels = 18"
proof -
  have n: "length demo_qhdr = 12" "length demo_rhdr = 12" "length (wire_name demo_labels) = 6"
    by (simp_all add: demo_qhdr_def demo_rhdr_def demo_labels_def bstr_def)
  show "packed demo_query 22 12 demo_labels 0" "name_end demo_query 12 demo_labels = 18"
    using packed_wire [OF demo_wf_labels, of demo_qhdr 22 demo_query] n by (simp_all add: demo_query_def)
  show "packed demo_reply 38 12 demo_labels 0" "name_end demo_reply 12 demo_labels = 18"
    using packed_wire [OF demo_wf_labels, of demo_rhdr 38 demo_reply] n by (simp_all add: demo_reply_def)
qed

lemma demo_name: "dotted demo_labels = [97, 98, 46, 99, 46]" "name_text demo_labels = [97, 98, 46, 99]"
  by (simp_all add: name_text_def dotted_def demo_labels_def bstr_def)

text \<open>What the parser makes of the two packets.\<close>

definition demo_parsed :: "u16 \<Rightarrow> rr_t" where
  "demo_parsed fl = demo_rr\<lparr>rr_flags := fl, rr_name := [97, 98, 46, 99, 0] @ drop 5 (rr_name demo_rr),
     rr_type := 1, rr_class := 1\<rparr>"

lemma demo_lower: "map c_tolower [97, 98, 46, 99] = [97, 98, 46, 99]"
  by (simp add: c_tolower_def c_isupper_def)

lemmas demo_parse_simps = demo_packed demo_valid demo_name demo_lower RR_NAMESIZE_def demo_rr_def demo_parsed_def
  UDP_MAXSIZE_def be16_def

lemma demo_labels_ne: "demo_labels \<noteq> []"
  by (simp add: demo_labels_def)

lemma demo_query_parsed:
  "parse_query (vc (demo qs)) (rr_garbage (demo qs)) demo_query 22 = Some (0, demo_parsed 0x0100)"
proof -
  have "parse_query (vc (demo qs)) demo_rr demo_query 22 = Some (0, demo_parsed 0x0100)"
    using parse_query_packed [OF demo_packed(1) demo_wf_labels demo_labels_ne, of "vc (demo qs)" demo_rr]
    unfolding demo_packed demo_name demo_lower by (simp add: demo_parse_simps demo_bytes(1))
  then show ?thesis by (simp add: demo_def)
qed

lemma demo_reply_parsed:
  "parse_query (vc (demo qs)) (rr_garbage (demo qs)) demo_reply 38 = Some (0, demo_parsed 0x8180)"
proof -
  have "parse_query (vc (demo qs)) demo_rr demo_reply 38 = Some (0, demo_parsed 0x8180)"
    using parse_query_packed [OF demo_packed(3) demo_wf_labels demo_labels_ne, of "vc (demo qs)" demo_rr]
    unfolding demo_packed demo_name demo_lower by (simp add: demo_parse_simps demo_bytes(2))
  then show ?thesis by (simp add: demo_def)
qed

lemma demo1_qrec: "qrec (demo1 qs q) 7 = query_zero\<lparr>sock_arr := [4, 0, 0], q_srv := 6, is_dummy := 1, my_qid := q,
    client_qid := 0x1234, serv_sent_cnt := 1, client_time := 990, ttl := 12, q_next := QLIST\<rparr>"
  by (simp add: qrec_def demo1_def QLIST_def)

lemma demo1_query_inv:
  assumes "qp.balanced qs {q}"
  shows "query_inv (demo1 qs q) [7]"
proof -
  have "srv_live (demo1 qs q) 6" by (simp add: srv_live_def demo1_def demo_def demo_srv_def)
  then have "query_ok (demo1 qs q) (qrec (demo1 qs q) 7)" by (simp add: demo1_qrec query_ok_def query_zero_def)
  then have "qlist_inv (demo1 qs q) [7]"
    by (simp add: qlist_inv_def demo1_qrec) (simp add: demo1_def circ_def q_nxt_def QLIST_def head_ok_def query_zero_def)
  moreover have "pool_inv (demo1 qs q) [7]"
    using assms by (simp add: pool_inv_def ids_of_def demo1_qrec) (simp add: demo1_def demo_def)
  moreover have "fd_inv (demo1 qs q) (socks_of (demo1 qs q) [7])"
    by (simp add: socks_of_def demo1_qrec q_socks_def) (simp add: fd_inv_def demo1_def demo_def FD_SETSIZE_def)
  ultimately show ?thesis by (simp add: query_inv_def)
qed

lemma demo_qids1: "\<exists>qs q. qp.balanced qs {q}"
proof -
  obtain qs where q: "qp.balanced qs {}" using demo_qids by blast
  have "{} \<noteq> (UNIV :: u16 set)" by simp
  then show ?thesis using qp.balanced_get [OF q] by blast
qed

end
