(* ===== verification/Hosts.thy ===== *)
theory Hosts
  imports Local Relay Examples
begin

text \<open>
  What the lemmas of \<open>Database\<close> and \<open>Answer\<close> say together: a host that was added is found by its name
  and by its address, the names of a blacklist and the unknown neighbours of a host are denied, the
  size of an answer about name servers, and the request of a client that the master answers
  (\<open>udp_handle_request\<close> of src/udp.c with \<open>handle_query\<close> of src/relay.c).
\<close>

section \<open>A host that was added\<close>

lemma servers_of_host [simp]: "servers_of name (db @ [host_record n a]) = servers_of name db"
  by (simp add: servers_of_def dns_matches_def host_record_def)

lemma find_last: "\<forall>r \<in> set db. \<not> P r \<Longrightarrow> P x \<Longrightarrow> find P (db @ [x]) = Some x"
  by (induction db) auto

lemma add_host_eq:
  assumes "0 \<notin> set name" "int (length name) \<le> maxlen" "0 \<notin> set ip" "inet_aton ip = Some a"
  shows "add_nameip (name @ [0]) maxlen (ip @ [0]) m = Some (add_record (host_record (map c_tolower name) a) m)"
  using add_nameip_eq [of "name @ [0]" maxlen "ip @ [0]" m] assms by simp

text \<open>The master with one more host; it is on, initialised and its database in order.\<close>

definition serving :: "'a master_state_scheme \<Rightarrow> bool" where
  "serving m \<longleftrightarrow> master_onoff m \<noteq> 0 \<and> master_initialised m \<noteq> 0 \<and> db_ok m"

lemma serving_add:
  assumes "serving m" "0 \<notin> set name" "length name < 256"
  shows "serving (add_record (host_record name a) m)"
  using assms extends_ok [OF add_record_extends [of m "host_record name a"]] host_record_ok [OF assms(2,3), of a]
  by (simp add: serving_def add_record_def)

lemma lookup_delivered:
  assumes "asks msg len ls t" "all_valid tbl" "length (rr_name y) = RR_NAMESIZE" "serving m"
    and "answer_spec (lower ls) t (dbv m) = Some (u, an, ns, body)" "fits msg body"
  shows "master_lookup tbl y msg len m = Some (PACKET_DATABEGIN + length body, reply_packet msg u an ns body, m)"
  using master_lookup_delivered [OF assms(1-3), of m] assms(4-6)
  by (simp add: serving_def delivered_def replied_def)

lemma name_length: "wf_labels ls \<Longrightarrow> length (dotted ls) < 256 \<Longrightarrow> length (name_text (lower ls)) < 256"
  by (simp add: length_name_text dotted_lower)

lemma host_address_answered:
  assumes "asks msg len ls 1" "all_valid tbl" "length (rr_name y) = RR_NAMESIZE" "serving m" "UDP_MAXSIZE \<le> length msg"
    and "name = name_text (lower ls)" "\<forall>r \<in> set (dbv m). \<not> host_named name r" "servers_of name (dbv m) = []"
  shows "master_lookup tbl y msg len (add_record (host_record name a) m) =
    (let body = asked (lower ls) 1 @ [0xC0, 0x0C, 0, 1, 0, 1, 0, 0, 0x0E, 0x10, 0, 4] @ long_bytes a
     in Some (12 + length body, take 2 msg @ [0x80, 0, 0, 1, 0, 1, 0, 0, 0, 0] @ body @ drop (12 + length body) msg,
          add_record (host_record name a) m))"
proof -
  let ?m = "add_record (host_record name a) m"
  let ?body = "asked (lower ls) 1 @ [0xC0, 0x0C, 0, 1, 0, 1, 0, 0, 0x0E, 0x10, 0, 4] @ long_bytes a"
  have wf: "wf_labels ls" "length (dotted ls) < 256" using assms(1) by (simp_all add: asks_def RR_NAMESIZE_def)
  have n: "0 \<notin> set name" "length name < 256"
    unfolding assms(6) using name_text_no_nul [OF wf_labels_lower [OF wf(1)]] name_length [OF wf] by simp_all
  have sv: "serving ?m" by (rule serving_add [OF assms(4) n])
  have f: "find (host_named name) (dbv ?m) = Some (host_record name a)"
    unfolding add_record_def using assms(7) by (simp add: find_last host_named_def host_record_def)
  have rr: "rr_bytes DNS_TYPE_A (long_bytes a) = [0, 1, 0, 1, 0, 0, 0x0E, 0x10, 0, 4] @ long_bytes a"
    by (simp add: rr_bytes_def word_bytes_def long_bytes_def hi8_def lo8_def DNS_TYPE_A_def DNS_CLASS_INET_def DEFAULT_TTL_def)
  have s: "servers_of name (dbv ?m) = []" using assms(8) by (simp add: add_record_def)
  have ip: "rec_ip (host_record name a) = a" by (simp add: rec_ip_def host_record_def)
  have spec: "answer_spec (lower ls) 1 (dbv ?m) = Some (flags_answer, 1, 0, ?body)"
    unfolding answer_spec_def assms(6) [symmetric] Let_def
    by (simp add: f s ip with_record_def rr auth_flags_def Let_def)
  have "fits msg ?body"
    using wf(2) assms(5) by (simp add: fits_def asked_length dotted_length_lower PACKET_DATABEGIN_def PACKET_ASSEMBLYSIZE_def UDP_MAXSIZE_def)
  from lookup_delivered [OF assms(1-3) sv spec this]
  show ?thesis by (simp add: reply_packet_def flags_values hi8_def lo8_def PACKET_DATABEGIN_def Let_def)
qed

lemma arpa_of_append: "arpa_of (arpa @ ARPADOMAIN) = Some arpa"
  by (simp add: arpa_of_def)

lemma host_name_answered:
  assumes "asks msg len ls 12" "all_valid tbl" "length (rr_name y) = RR_NAMESIZE" "serving m" "UDP_MAXSIZE \<le> length msg"
    and "name_text (lower ls) = inet_ntoa (bswap32 a) @ ARPADOMAIN"
    and "\<forall>r \<in> set (dbv m). \<not> host_at (inet_ntoa (bswap32 a)) r" "servers_of (name_text (lower ls)) (dbv m) = []"
    and "wf_labels hs" "length (dotted hs) < 200"
  defines "name \<equiv> name_text (lower hs)"
  shows "master_lookup tbl y msg len (add_record (host_record name a) m) =
    (let d = wire_name (lower hs);
         body = asked (lower ls) 12 @ [0xC0, 0x0C, 0, 12, 0, 1, 0, 0, 0x0E, 0x10, hi8 (of_nat (length d)), lo8 (of_nat (length d))] @ d
     in Some (12 + length body, take 2 msg @ [0x80, 0, 0, 1, 0, 1, 0, 0, 0, 0] @ body @ drop (12 + length body) msg,
          add_record (host_record name a) m))"
proof -
  let ?m = "add_record (host_record name a) m" and ?d = "wire_name (lower hs)"
  let ?body = "asked (lower ls) 12 @ [0xC0, 0x0C, 0, 12, 0, 1, 0, 0, 0x0E, 0x10, hi8 (of_nat (length ?d)), lo8 (of_nat (length ?d))] @ ?d"
  have n: "0 \<notin> set name" "length name < 256"
    unfolding name_def using name_text_no_nul [OF wf_labels_lower [OF assms(9)]] name_length [OF assms(9)] assms(10) by simp_all
  have sv: "serving ?m" by (rule serving_add [OF assms(4) n])
  have f: "find (host_at (inet_ntoa (bswap32 a))) (dbv ?m) = Some (host_record name a)"
    unfolding add_record_def using assms(7) by (simp add: find_last host_at_def host_record_def)
  have rr: "rr_bytes DNS_TYPE_PTR ?d =
      [0, 12, 0, 1, 0, 0, 0x0E, 0x10, hi8 (of_nat (length ?d)), lo8 (of_nat (length ?d))] @ ?d"
    by (simp add: rr_bytes_def word_bytes_def long_bytes_def hi8_def lo8_def DNS_TYPE_PTR_def DNS_CLASS_INET_def DEFAULT_TTL_def)
  have s: "servers_of (name_text (lower ls)) (dbv ?m) = []" using assms(8) by (simp add: add_record_def)
  have nb: "name_bytes (st_string (rec_object (host_record name a))) = ?d"
    unfolding host_record_def name_def using name_bytes_text [OF wf_labels_lower [OF assms(9)]] by simp
  have a: "arpa_of (name_text (lower ls)) = Some (inet_ntoa (bswap32 a))" unfolding assms(6) by (rule arpa_of_append)
  have spec: "answer_spec (lower ls) 12 (dbv ?m) = Some (flags_answer, 1, 0, ?body)"
    unfolding answer_spec_def Let_def
    by (simp add: a f s nb with_record_def rr auth_flags_def Let_def)
  have "length (dotted (lower ls)) \<le> 29"
  proof -
    have "length (name_text (lower ls)) \<le> 28"
      unfolding assms(6) using inet_ntoa_length [of "bswap32 a"] ARPADOMAIN_plain(1) by simp
    then show ?thesis by (simp add: length_name_text)
  qed
  moreover have "length ?d < 201" using assms(10) by (simp add: length_wire_name dotted_lower)
  ultimately have "fits msg ?body"
    using assms(5) by (simp add: fits_def asked_length PACKET_DATABEGIN_def PACKET_ASSEMBLYSIZE_def UDP_MAXSIZE_def)
  from lookup_delivered [OF assms(1-3) sv spec this]
  show ?thesis by (simp add: reply_packet_def flags_values hi8_def lo8_def PACKET_DATABEGIN_def Let_def)
qed

section \<open>Denials\<close>

lemma find_no: "\<forall>r \<in> set db. \<not> P r \<Longrightarrow> find P db = None"
  by (auto simp: find_None_iff)

text \<open>A name that the master is the authority for, and has no host for, gets an empty answer.\<close>

lemma denied:
  assumes "asks msg len ls t" "all_valid tbl" "length (rr_name y) = RR_NAMESIZE" "serving m" "UDP_MAXSIZE \<le> length msg"
    and "answer_spec (lower ls) t (dbv m) = denial (lower ls) t (dbv m)" "46 \<in> set name" "name = name_text (lower ls)"
    and "\<exists>r \<in> set (dbv m). authority_for name r \<or> authority_for (parent name) r"
  shows "master_lookup tbl y msg len m =
    (let body = asked (lower ls) t
     in Some (12 + length body, take 2 msg @ [0x84, 0, 0, 1, 0, 0, 0, 0, 0, 0] @ body @ drop (12 + length body) msg, m))"
proof -
  have d: "length (dotted ls) < 256" using assms(1) by (simp add: asks_def RR_NAMESIZE_def)
  have "fits msg (asked (lower ls) t)"
    using d assms(5) by (simp add: fits_def asked_length dotted_length_lower PACKET_DATABEGIN_def PACKET_ASSEMBLYSIZE_def UDP_MAXSIZE_def)
  moreover have "answer_spec (lower ls) t (dbv m) = Some (flags_authority, 0, 0, asked (lower ls) t)"
    unfolding assms(6) denial_def Let_def using assms(7-9) by simp
  ultimately show ?thesis using lookup_delivered [OF assms(1-4), of flags_authority 0 0 "asked (lower ls) t"]
    by (simp add: reply_packet_def flags_values hi8_def lo8_def PACKET_DATABEGIN_def Let_def)
qed

lemma parent_append: "46 \<notin> set l \<Longrightarrow> parent (l @ 46 # d) = d"
  unfolding parent_def by (induction l) auto

lemma neighbour_denied:
  assumes "asks msg len ls 12" "all_valid tbl" "length (rr_name y) = RR_NAMESIZE" "serving m" "UDP_MAXSIZE \<le> length msg"
    and "\<forall>r \<in> set (dbv m). auto_covered (dbv m) r"
    and "r \<in> set (dbv m)" "rec_data r = Nameip t ip"
    and "arpa = l @ 46 # drop 1 (dropWhile (\<lambda>c. c \<noteq> 46) (inet_ntoa (bswap32 ip)))" "46 \<notin> set l"
    and "name_text (lower ls) = arpa @ ARPADOMAIN" "\<forall>r \<in> set (dbv m). \<not> host_at arpa r"
  shows "master_lookup tbl y msg len m =
    (let body = asked (lower ls) 12
     in Some (12 + length body, take 2 msg @ [0x84, 0, 0, 1, 0, 0, 0, 0, 0, 0] @ body @ drop (12 + length body) msg, m))"
proof -
  have n: "name_text (lower ls) = l @ 46 # net_domain ip" unfolding assms(11,9) net_domain_def by simp
  have "answer_spec (lower ls) 12 (dbv m) = denial (lower ls) 12 (dbv m)"
    unfolding answer_spec_def Let_def assms(11) arpa_of_append using find_no [OF assms(12)] by simp
  moreover have "\<exists>r \<in> set (dbv m). authority_for (name_text (lower ls)) r \<or> authority_for (parent (name_text (lower ls))) r"
  proof -
    have "auto_covered (dbv m) r" using assms(6,7) by blast
    then show ?thesis unfolding n parent_append [OF assms(10)] using assms(8) by (auto simp: auto_covered_def)
  qed
  ultimately show ?thesis by (intro denied [OF assms(1-5) _ _ refl]) (simp_all add: n)
qed

section \<open>The blacklist\<close>

text \<open>A file with one name on each line.\<close>

definition listed :: "bytes \<Rightarrow> bool" where
  "listed n \<longleftrightarrow> n \<noteq> [] \<and> length n < 255 \<and> set n \<inter> {0, 10, 13, 35} = {}"

lemma takeWhile_to: "c \<notin> set l \<Longrightarrow> takeWhile (\<lambda>x. x \<noteq> c) (l @ c # d) = l"
  by (induction l) auto

lemma fgets_piece_line:
  assumes "length l < 255" "10 \<notin> set l"
  shows "fgets_piece 256 (l @ 10 # d) = l @ [10]"
proof -
  have t: "take 255 (l @ 10 # d) = l @ 10 # take (254 - length l) d"
    using assms(1) by (simp add: take_Cons')
  show ?thesis using assms(1) t takeWhile_to [OF assms(2)] by (simp add: fgets_piece_def Let_def min_def)
qed

lemma file_lines_listed:
  assumes "\<forall>n \<in> set ns. listed n"
  shows "file_lines 256 (concat (map (\<lambda>n. n @ [10]) ns)) = map (\<lambda>n. n @ [10]) ns"
  using assms
proof (induction ns)
  case Nil
  then show ?case by (simp add: file_lines.simps)
next
  case (Cons n ns)
  then have p: "fgets_piece 256 (n @ 10 # concat (map (\<lambda>n. n @ [10]) ns)) = n @ [10]"
    by (intro fgets_piece_line) (auto simp: listed_def)
  then show ?case using Cons by (simp add: file_lines.simps [of 256 "n @ 10 # x" for x])
qed

lemma cut_at_absent: "c \<notin> set (cstr buf) \<Longrightarrow> cut_at c buf = buf"
  by (simp add: cut_at_def)

lemma listed_line:
  assumes "listed n"
  defines "b \<equiv> cut_at 10 (cut_at 13 (cut_at 35 (line_buf 256 (n @ [10]))))"
  shows "0 \<in> set b" "cstr b = n" "hd b \<noteq> 0"
proof -
  let ?z = "replicate (255 - length n) 0 :: bytes"
  have l: "line_buf 256 (n @ [10]) = n @ 10 # ?z" by (simp add: line_buf_def)
  obtain z where z: "?z = 0 # z" using assms(1) by (cases "255 - length n") (auto simp: listed_def)
  have s: "0 \<notin> set n" "10 \<notin> set n" "13 \<notin> set n" "35 \<notin> set n" using assms(1) by (auto simp: listed_def)
  have c: "cstr (n @ 10 # ?z) = n @ [10]" using cstr_append_nul [of "n @ [10]" z] s(1) by (simp add: z)
  have k: "length (takeWhile (\<lambda>x. x \<noteq> 10) (n @ 10 # ?z)) = length n"
    by (simp only: takeWhile_to [OF s(2)])
  have "b = (n @ 10 # ?z)[length n := 0]"
    unfolding b_def l using s c k by (simp add: cut_at_def)
  then have b: "b = n @ 0 # ?z" by simp
  show "0 \<in> set b" "cstr b = n" unfolding b using s(1) by simp_all
  show "hd b \<noteq> 0" using assms(1) s(1) unfolding b listed_def by (cases n) auto
qed

lemma blacklist_lines_listed:
  assumes "\<forall>n \<in> set ns. listed n"
  shows "\<exists>k. blacklist_lines (map (\<lambda>n. n @ [10]) ns) m =
    Some (m\<lparr>dbv := dbv m @ map (\<lambda>n. authority_record (map c_tolower n)) ns, dbmax := k\<rparr>)"
  using assms
proof (induction ns arbitrary: m)
  case Nil
  then show ?case by (intro exI [of _ "dbmax m"]) simp
next
  case (Cons n ns)
  note b = listed_line [of n]
  have n: "listed n" "length n < 256" using Cons.prems by (auto simp: listed_def)
  let ?m = "add_record (authority_record (map c_tolower n)) m"
  have a: "add_authority (cut_at 10 (cut_at 13 (cut_at 35 (line_buf 256 (n @ [10]))))) 256 m = Some ?m"
    using add_authority_eq [OF b(1) [OF n(1)], of 256 m] b(2) [OF n(1)] n(2) by simp
  obtain k where "blacklist_lines (map (\<lambda>n. n @ [10]) ns) ?m =
      Some (?m\<lparr>dbv := dbv ?m @ map (\<lambda>n. authority_record (map c_tolower n)) ns, dbmax := k\<rparr>)"
    using Cons.IH [of ?m] Cons.prems by auto
  then show ?case using a b(3) [OF n(1)] by (intro exI [of _ k]) (simp add: Let_def add_record_def)
qed

lemma read_blacklist_listed:
  assumes "files m (cstr fname) = Some (concat (map (\<lambda>n. n @ [10]) ns))" "\<forall>n \<in> set ns. listed n" "0 \<in> set fname"
  shows "\<exists>k. read_blacklist fname m =
    Some (0, m\<lparr>dbv := dbv m @ map (\<lambda>n. authority_record (map c_tolower n)) ns, dbmax := k\<rparr>)"
  using blacklist_lines_listed [OF assms(2), of m] assms(1,3) file_lines_listed [OF assms(2)]
  by (auto simp: read_blacklist_def c_strlen_def)

lemma blacklisted_denied:
  assumes "asks msg len ls 1" "all_valid tbl" "length (rr_name y) = RR_NAMESIZE" "serving m" "UDP_MAXSIZE \<le> length msg"
    and "authority_record (name_text (lower ls)) \<in> set (dbv m)" "46 \<in> set (name_text (lower ls))"
    and "\<forall>r \<in> set (dbv m). \<not> host_named (name_text (lower ls)) r"
  shows "master_lookup tbl y msg len m =
    (let body = asked (lower ls) 1
     in Some (12 + length body, take 2 msg @ [0x84, 0, 0, 1, 0, 0, 0, 0, 0, 0] @ body @ drop (12 + length body) msg, m))"
proof -
  have "answer_spec (lower ls) 1 (dbv m) = denial (lower ls) 1 (dbv m)"
    unfolding answer_spec_def Let_def find_no [OF assms(8)] by simp
  moreover have "authority_for (name_text (lower ls)) (authority_record (name_text (lower ls)))"
    by (simp add: authority_for_def authority_record_def)
  ultimately show ?thesis using assms(6) by (intro denied [OF assms(1-5) _ assms(7) refl]) blast+
qed

text \<open>The denial looks for a dot first: without one the list has no effect.\<close>

lemma undotted_ignored:
  assumes "asks msg len ls 1" "all_valid tbl" "length (rr_name y) = RR_NAMESIZE" "serving m"
    and "46 \<notin> set (name_text (lower ls))" "\<forall>r \<in> set (dbv m). \<not> host_named (name_text (lower ls)) r"
  shows "master_lookup tbl y msg len m = Some (0, msg, m)"
proof -
  have "answer_spec (lower ls) 1 (dbv m) = None"
    unfolding answer_spec_def Let_def find_no [OF assms(6)] using assms(5) by (simp add: denial_def)
  then show ?thesis using master_lookup_delivered [OF assms(1-3), of m] assms(4) by (simp add: serving_def delivered_def)
qed

section \<open>Name servers: the size of the answer\<close>

lemma ns_question_size:
  assumes "asks msg len ls 2" "all_valid tbl" "length (rr_name y) = RR_NAMESIZE" "serving m"
    and "length msg \<le> PACKET_ASSEMBLYSIZE" "rs = servers_of (name_text (lower ls)) (dbv m)" "rs \<noteq> []"
  shows "master_lookup tbl y msg len m = None \<longleftrightarrow>
    length msg < 17 + length (dotted ls) + (\<Sum>r\<leftarrow>rs. 12 + length (name_bytes (server_name r)))"
proof -
  let ?body = "asked (lower ls) 2 @ ns_bytes rs"
  have spec: "answer_spec (lower ls) 2 (dbv m) = Some (flags_authority, length rs, 0, ?body)"
    unfolding answer_spec_def Let_def assms(6) [symmetric] using assms(7) by simp
  have "master_lookup tbl y msg len m = None \<longleftrightarrow> \<not> fits msg ?body"
    using master_lookup_delivered [OF assms(1-3), of m] assms(4) delivered_None [of msg flags_authority "length rs" 0 ?body]
    by (simp add: serving_def spec del: delivered_None)
  also have "\<dots> \<longleftrightarrow> length msg < PACKET_DATABEGIN + length ?body" unfolding fits_512 [OF assms(5)] by auto
  finally show ?thesis by (simp add: asked_length ns_bytes_length dotted_length_lower PACKET_DATABEGIN_def add.assoc)
qed

section \<open>The request of a client\<close>

text \<open>Printing the question does no harm, because it is not the root.\<close>

lemma log_query_asks:
  assumes "asks msg len ls t" "all_valid (vc s)" "length (rr_name (rr_garbage s)) = RR_NAMESIZE"
    and "opt_debug s < 4 \<or> length (rr_data (rr_garbage s)) = RR_NAMESIZE"
  shows "log_query msg len s = Some ()"
proof -
  obtain h where a: "packed msg len 12 ls h" "h < len" "h \<le> UDP_MAXSIZE" "ls \<noteq> []" "length (dotted ls) < RR_NAMESIZE"
    "12 < len" "len \<le> length msg" using assms(1) by (auto simp: asks_def)
  have "length (dotted ls) < 256" "0 + 256 \<le> length (replicate 256 0 :: bytes)" using a(5) by (simp_all add: RR_NAMESIZE_def)
  from get_objname_packed [OF a(1) _ a(6) assms(2) a(7,2,3) this(1) _ this(2)] a(4) obtain d where
    "get_objname (vc s) msg len 12 0 256 (replicate 256 0) = Some (int (name_end msg 12 ls), d)" by simp
  then have sn: "snprintf_cname (vc s) msg len 12 (replicate 256 0) 256 = Some (0, d)" by (simp add: snprintf_cname_def)
  have "unat (opt_debug s) < 4 \<or> length (rr_data (rr_garbage s)) = RR_NAMESIZE"
    using assms(4) by (simp add: word_less_nat_alt)
  from dump_dnspacket_packed [OF a(1) assms(2) a(6,7,2-5) assms(3) this] sn show ?thesis
    by (auto simp: log_query_def)
qed

lemma udp_handle_request_local:
  assumes "os_recv s = (Recv_msg d from mh, s1)" "msg = overlay (req_msg s1) 0 (take UDP_MAXSIZE d)"
    and "len = length (take UDP_MAXSIZE d)" "check_query msg len = Some ok" "0 \<le> ok"
    and "master_lookup (vc s1) (rr_garbage s1) msg len (mst s1) = Some (n, msg', mst s1)" "0 < n" "n \<le> length msg'"
    and "log_query msg len (s1\<lparr>req_msg := msg\<rparr>) = Some ()"
  shows "udp_handle_request s = Some (NULL, snd (os_sendto (isock s1) (take n msg') from (s1\<lparr>req_msg := msg'\<rparr>)))"
  using assms by (simp add: udp_handle_request_def handle_query_def log_query_def Let_def)

section \<open>Examples\<close>

text \<open>A request for the records of type \<open>t\<close> of a name, and a master with a given database.\<close>

definition ask_packet :: "bytes list \<Rightarrow> u16 \<Rightarrow> bytes" where
  "ask_packet ls t = demo_qhdr @ wire_name ls @ [hi8 t, lo8 t, 0, 1] @ replicate 496 0"

definition ask_length :: "bytes list \<Rightarrow> nat" where
  "ask_length ls = 16 + length (wire_name ls)"

definition demo_master :: "dnsrec list \<Rightarrow> master_state" where
  "demo_master db = \<lparr>master_onoff = 1, master_initialised = 1, master_reload = 0, master_config = [0], blacklist = [1, 0],
     auto_authority = 1, dbmax = int (length db), dbv = db, files = (\<lambda>f. None), domain_garbage = replicate 256 0\<rparr>"

lemma asks_wire:
  assumes "wf_labels ls" "ls \<noteq> []" "length (dotted ls) < 256"
    and "msg = demo_qhdr @ wire_name ls @ [hi8 t, lo8 t, 0, 1] @ rest"
  shows "asks msg (ask_length ls) ls t"
proof -
  have h: "length demo_qhdr = 12" by (simp add: demo_qhdr_def)
  have p: "packed msg (ask_length ls) (length demo_qhdr) ls 0 \<and>
      name_end msg (length demo_qhdr) ls = length demo_qhdr + length (wire_name ls)"
    by (rule packed_wire [OF assms(1)]) (simp_all add: assms(4) ask_length_def h)
  let ?e = "12 + length (wire_name ls)"
  have e: "msg ! (?e + k) = ([hi8 t, lo8 t, 0, 1] @ rest) ! k" for k
    unfolding assms(4) by (simp add: nth_append h)
  have f: "msg ! ?e = hi8 t" "msg ! Suc ?e = lo8 t" "msg ! (?e + 2) = 0" "msg ! (?e + 3) = 1"
    using e [of 0] e [of 1] e [of 2] e [of 3] by simp_all
  have q: "be16 (msg ! 4) (msg ! 5) = 1" "be16 (msg ! 2) (msg ! 3) = 0x100"
    by (simp_all add: assms(4) demo_qhdr_def nth_append be16_def)
  have w: "be16 (msg ! ?e) (msg ! Suc ?e) = t" "be16 (msg ! (?e + 2)) (msg ! (?e + 3)) = 1"
    unfolding f by (rule be16_hi_lo) (simp add: be16_def)
  have g: "GET_OPCODE 0x100 = 0" by (simp add: GET_OPCODE_def MASK_OPCODE_def)
  have l: "ask_length ls = ?e + 4" "?e + 4 \<le> length msg" by (simp_all add: assms(4) ask_length_def h)
  have pk: "packed msg (ask_length ls) 12 ls 0" "name_end msg 12 ls = ?e" using p h by simp_all
  show ?thesis unfolding asks_def Let_def pk(2) w q g
    using assms(1-3) pk(1) l by (auto simp: RR_NAMESIZE_def)
qed

lemma ask_packet_asks:
  "wf_labels ls \<Longrightarrow> ls \<noteq> [] \<Longrightarrow> length (dotted ls) < 256 \<Longrightarrow> asks (ask_packet ls t) (ask_length ls) ls t"
  by (rule asks_wire) (simp_all add: ask_packet_def)

lemma ask_packet_length: "length (ask_packet ls t) = 512 + length (wire_name ls)"
  by (simp add: ask_packet_def demo_qhdr_def)

lemma demo_asks: "asks demo_query 22 demo_labels 1" "asks (demo_query @ rest) 22 demo_labels 1"
proof -
  have "wire_name demo_labels = [2, 97, 98, 1, 99, 0]" by (simp add: demo_labels_def bstr_def)
  then have q: "demo_query @ r = demo_qhdr @ wire_name demo_labels @ [hi8 1, lo8 1, 0, 1] @ replicate 490 0 @ r" "ask_length demo_labels = 22" for r
    by (simp_all add: demo_query_def demo_rest_def hi8_def lo8_def ask_length_def)
  have "asks (demo_query @ r) 22 demo_labels 1" for r
    using asks_wire [OF demo_wf_labels demo_labels_ne _ q(1)] q(2) by (simp add: demo_name)
  from this [of "[]"] this [of rest] show "asks demo_query 22 demo_labels 1" "asks (demo_query @ rest) 22 demo_labels 1" by simp_all
qed

lemma demo_serving: "\<forall>r \<in> set db. record_ok r \<Longrightarrow> serving (demo_master db)"
  by (simp add: serving_def demo_master_def db_ok_def)

definition localhost_db :: "dnsrec list" where
  "localhost_db = [host_record (bstr ''localhost'') 0x7F000001,
     \<lparr>rec_object = \<lparr>st_code = get_stringcode (bstr ''0.0.127.in-addr.arpa''), st_string = bstr ''0.0.127.in-addr.arpa''\<rparr>,
      rec_data = Dns_server \<lparr>st_code = get_stringcode (bstr ''localhost''), st_string = bstr ''localhost''\<rparr>\<rparr>,
     authority_record (bstr ''0.0.127.in-addr.arpa'')]"

lemma localhost_arpa: "inet_ntoa (bswap32 0x7F000001) = bstr ''1.0.0.127''"
proof -
  have b: "bswap32 0x7F000001 = 0x0100007F" by (simp add: bswap32_def)
  have d1: "dec_digits 1 = [49]" "dec_digits 0 = [48]" unfolding dec_digits.simps [of 1] dec_digits.simps [of 0] by simp_all
  then have d12: "dec_digits 12 = [49, 50]" unfolding dec_digits.simps [of 12] by simp
  then have d: "dec_digits 127 = [49, 50, 55]" unfolding dec_digits.simps [of 127] by simp
  show ?thesis by (simp add: b inet_ntoa_def bstr_def d d1 [simplified])
qed

lemma localhost_addr: "inet_aton (bstr ''127.0.0.1'') = Some 0x7F000001"
  by (simp add: inet_aton_def bstr_def aton_parts.simps strtoul0_def digit_val_def c_isdigit_def
    c_tolower_def c_isupper_def aton_value_def)

lemma localhost_plain:
  "map c_tolower (bstr ''localhost'') = bstr ''localhost''" "0 \<notin> set (bstr ''localhost'')" "length (bstr ''localhost'') = 9"
  "map c_tolower (bstr ''0.0.127.in-addr.arpa'') = bstr ''0.0.127.in-addr.arpa''"
  "0 \<notin> set (bstr ''0.0.127.in-addr.arpa'')" "length (bstr ''0.0.127.in-addr.arpa'') = 20" "0 \<notin> set (bstr ''127.0.0.1'')"
  by (simp_all add: bstr_def c_tolower_def c_isupper_def)

lemma localhost_auto: "auto_step (host_record (bstr ''localhost'') 0x7F000001) m =
    (if authority_lookup (bstr ''0.0.127.in-addr.arpa'') m = None
     then Some (add_record (authority_record (bstr ''0.0.127.in-addr.arpa'')) m) else Some m)"
proof -
  let ?n = "bstr ''1.0.0.127'' @ ARPADOMAIN"
  have t: "take 197 ?n = ?n" "46 \<in> set ?n" "takeWhile (\<lambda>c. c \<noteq> 46) ?n = [49]" "drop 2 ?n = bstr ''0.0.127.in-addr.arpa''"
    by (simp_all add: bstr_def ARPADOMAIN_def)
  have "add_authority (bstr ''0.0.127.in-addr.arpa'' @ [0]) 202 m = Some (add_record (authority_record (bstr ''0.0.127.in-addr.arpa'')) m)"
    using add_authority_eq [of "bstr ''0.0.127.in-addr.arpa'' @ [0]" 202 m] localhost_plain by simp
  then show ?thesis using t
    by (simp add: auto_step_def host_record_def localhost_arpa Let_def numeral_2_eq_2)
qed

text \<open>Without files the database holds the machine itself, and the authority for its net when that is asked for.\<close>

lemma localhost_init:
  assumes "master_onoff m \<noteq> 0" "dbv m = []" "dbmax m = 0" "files m = (\<lambda>f. None)" "buffers_ok m"
  shows "master_init m = Some (m\<lparr>dbv := if auto_authority m = 0 then take 2 localhost_db else localhost_db, dbmax := 10,
    master_initialised := 1\<rparr>)"
proof -
  let ?r1 = "localhost_db ! 0" and ?r2 = "localhost_db ! Suc 0" and ?r3 = "localhost_db ! Suc (Suc 0)"
  have 1: "add_nameip (bstr ''localhost'' @ [0]) 10 (bstr ''127.0.0.1'' @ [0]) m = Some (add_record ?r1 m)"
    using add_host_eq [of "bstr ''localhost''" 10 "bstr ''127.0.0.1''" "0x7F000001" m] localhost_plain localhost_addr
    by (simp add: localhost_db_def)
  have 2: "add_dns (bstr ''0.0.127.in-addr.arpa'' @ [0]) 21 (bstr ''localhost'' @ [0]) 10 n = Some (add_record ?r2 n)"
    for n :: "'a master_state_scheme"
    using localhost_plain by (simp add: add_dns_def mkstring_lower localhost_db_def)
  let ?m = "m\<lparr>dbv := [?r1, ?r2], dbmax := 10\<rparr>"
  have m: "add_record ?r2 (add_record ?r1 m) = ?m" using assms(2,3) by (simp add: add_record_def)
  have n: "authority_lookup (bstr ''0.0.127.in-addr.arpa'') ?m = None"
    by (simp add: authority_lookup_def localhost_db_def is_authority_def host_record_def)
  have "auto_loop 0 ?m = Some (add_record ?r3 ?m)"
  proof -
    have s: "auto_step ?r1 ?m = Some (add_record ?r3 ?m)" using n by (simp add: localhost_auto localhost_db_def)
    have d: "dbv ?m = [?r1, ?r2]" "dbv (add_record ?r3 ?m) = [?r1, ?r2, ?r3]" by (simp_all add: add_record_def)
    have e: "auto_step ?r2 k = Some k" "auto_step ?r3 k = Some k" for k :: "'a master_state_scheme"
      by (simp_all add: auto_step_def localhost_db_def authority_record_def)
    have 3: "auto_loop (Suc (Suc (Suc 0))) (add_record ?r3 ?m) = Some (add_record ?r3 ?m)" using d by (simp add: auto_loop.simps [of "Suc (Suc (Suc 0))"])
    have 2: "auto_loop (Suc (Suc 0)) (add_record ?r3 ?m) = Some (add_record ?r3 ?m)" using d e 3 by (simp add: auto_loop.simps [of "Suc (Suc 0)"])
    have 1: "auto_loop (Suc 0) (add_record ?r3 ?m) = Some (add_record ?r3 ?m)" using d e 2 by (simp add: auto_loop.simps [of "Suc 0"])
    show ?thesis using d s 1 by (simp add: auto_loop.simps [of 0])
  qed
  moreover have "read_blacklist (blacklist m) ?m = Some (1, ?m)" "read_configuration (master_config m) ?m = Some (1, ?m)"
    using assms(4,5) by (simp_all add: read_blacklist_def read_configuration_def c_strlen_def buffers_ok_def)
  ultimately show ?thesis using 1 2 m assms(1)
    by (simp add: master_init_def add_record_def localhost_db_def numeral_2_eq_2)
qed

lemma demo_init: "master_init (demo_master []) = Some ((demo_master localhost_db)\<lparr>dbmax := 10\<rparr>)"
  using localhost_init [of "demo_master []"] by (simp add: demo_master_def buffers_ok_def)

text \<open>Such a database leaves room in every answer, and a master that keeps to it is safe.\<close>

lemma localhost_roomy: "roomy (take 2 localhost_db)" "roomy localhost_db"
  by (simp_all add: roomy_def servers_of_def localhost_db_def dns_matches_def host_record_def authority_record_def ns_cost_def
      server_name_def bstr_def Let_def)

lemma localhost_reload:
  "master_onoff m \<noteq> 0 \<Longrightarrow> files m = (\<lambda>f. None) \<Longrightarrow> buffers_ok m \<Longrightarrow> reloads_well m"
  using localhost_init [of "reset_master (m\<lparr>master_reload := 1\<rparr>)"] localhost_roomy
  by (simp add: reloads_well_def reset_master_def buffers_ok_def)

lemma localhost_ready:
  assumes "dbv m = []" "dbmax m = 0" "files m = (\<lambda>f. None)" "buffers_ok m" "master_reload m = 0"
  shows "master_ready {\<lambda>f. None} m"
proof (cases "master_onoff m = 0")
  case False
  then show ?thesis using assms localhost_init [OF False assms(1-4)] localhost_roomy
    by (simp add: master_ready_def db_ok_def localhost_reload buffers_ok_def)
qed (simp add: master_ready_def)

text \<open>Names under in-addr.arpa, and a domain with ten name servers.\<close>

definition arpa_labels :: "bytes list \<Rightarrow> bytes list" where
  "arpa_labels ls = ls @ [bstr ''in-addr'', bstr ''arpa'']"

definition many_servers :: "dnsrec list" where
  "many_servers = replicate 10 \<lparr>rec_object = \<lparr>st_code = get_stringcode (bstr ''c''), st_string = bstr ''c''\<rparr>,
     rec_data = Dns_server \<lparr>st_code = get_stringcode (replicate 50 97), st_string = replicate 50 97\<rparr>\<rparr>"

lemma ten_arpa: "inet_ntoa (bswap32 0x0A000001) = bstr ''1.0.0.10''"
proof -
  have b: "bswap32 0x0A000001 = 0x0100000A" by (simp add: bswap32_def)
  have d1: "dec_digits 1 = [49]" "dec_digits 0 = [48]" unfolding dec_digits.simps [of 1] dec_digits.simps [of 0] by simp_all
  then have d: "dec_digits 10 = [49, 48]" unfolding dec_digits.simps [of 10] by simp
  show ?thesis by (simp add: b inet_ntoa_def bstr_def d d1 [simplified])
qed

lemma lower_ascii:
  "lower (arpa_labels [bstr ''1'', bstr ''0'', bstr ''0'', bstr ''10'']) = arpa_labels [bstr ''1'', bstr ''0'', bstr ''0'', bstr ''10'']"
  "lower (arpa_labels [bstr ''2'', bstr ''0'', bstr ''0'', bstr ''127'']) = arpa_labels [bstr ''2'', bstr ''0'', bstr ''0'', bstr ''127'']"
  "lower demo_labels = demo_labels"
  by (simp_all add: lower_def arpa_labels_def demo_labels_def bstr_def c_tolower_def c_isupper_def)

lemma arpa_text:
  "name_text (arpa_labels [bstr ''1'', bstr ''0'', bstr ''0'', bstr ''10'']) = bstr ''1.0.0.10'' @ ARPADOMAIN"
  "name_text (arpa_labels [bstr ''2'', bstr ''0'', bstr ''0'', bstr ''127'']) = bstr ''2.0.0.127'' @ ARPADOMAIN"
  by (simp_all add: name_text_def dotted_def arpa_labels_def ARPADOMAIN_def bstr_def)

lemma arpa_asks:
  "asks (ask_packet (arpa_labels [bstr ''1'', bstr ''0'', bstr ''0'', bstr ''10'']) t)
     (ask_length (arpa_labels [bstr ''1'', bstr ''0'', bstr ''0'', bstr ''10''])) (arpa_labels [bstr ''1'', bstr ''0'', bstr ''0'', bstr ''10'']) t"
  "asks (ask_packet (arpa_labels [bstr ''2'', bstr ''0'', bstr ''0'', bstr ''127'']) t)
     (ask_length (arpa_labels [bstr ''2'', bstr ''0'', bstr ''0'', bstr ''127''])) (arpa_labels [bstr ''2'', bstr ''0'', bstr ''0'', bstr ''127'']) t"
  by (rule ask_packet_asks; simp add: arpa_labels_def wf_labels_def dotted_def bstr_def)+

lemma many_servers_of: "servers_of (name_text demo_labels) many_servers = many_servers"
proof -
  have "filter (dns_matches [97, 98, 46, 99]) (replicate 10 r) = replicate 10 r" if "dns_matches [97, 98, 46, 99] r" for r
    using that by (simp add: filter_replicate)
  then show ?thesis unfolding servers_of_def many_servers_def demo_name(2)
    by (simp add: dns_matches_def bstr_def Let_def)
qed

lemma many_servers_ok: "\<forall>r \<in> set many_servers. record_ok r"
  by (simp add: many_servers_def record_ok_def string_ok_def bstr_def)

lemma many_servers_size: "(\<Sum>r\<leftarrow>many_servers. 12 + length (name_bytes (server_name r))) = 640"
proof -
  have "takeWhile (\<lambda>c. c \<noteq> 46) (replicate 50 97) = (replicate 50 97 :: bytes)" by (rule takeWhile_eq_all_conv [THEN iffD2]) simp
  then have "length (label_bytes (replicate 50 97)) = 51"
    by (simp add: label_bytes.simps [of "replicate 50 97"] label_bytes.simps [of "[]"] Let_def)
  then show ?thesis by (simp add: many_servers_def server_name_def name_bytes_def sum_list_replicate map_replicate)
qed

end
