(* ===== verification/Scenes.thy ===== *)
theory Scenes
  imports Hosts Rounds
begin

text \<open>
  Concrete states of the whole program, for the witnesses: the daemon of \<open>Examples\<close> with one open query of a
  client, whose three sockets, client and environment can be chosen.
\<close>

definition no_master :: master_state where
  "no_master = \<lparr>master_onoff = 0, master_initialised = 0, master_reload = 0, master_config = [0], blacklist = [0],
     auto_authority = 0, dbmax = 0, dbv = [], files = (\<lambda>f. None), domain_garbage = []\<rparr>"

definition dnrd_of :: "query_state \<Rightarrow> dnrd_state" where
  "dnrd_of s = query_state.extend s (dnrd_state.fields no_master [] 0 [] 0 (replicate 5 (replicate 9 0)) 0
     (replicate 516 0) (replicate 516 0) dnsbuf_init sockaddr_zero (replicate 30 0) 0 0 0 0 0 0 0)"

lemma dnrd_of_sel [simp]:
  "queries (dnrd_of s) = queries s" "qlist_tail (dnrd_of s) = qlist_tail s" "qids (dnrd_of s) = qids s"
  "open_fds (dnrd_of s) = open_fds s" "upstream_sockets (dnrd_of s) = upstream_sockets s"
  "max_sockets (dnrd_of s) = max_sockets s" "brk (dnrd_of s) = brk s" "srvs (dnrd_of s) = srvs s"
  "infs (dnrd_of s) = infs s" "inf_list (dnrd_of s) = inf_list s" "cxs (dnrd_of s) = cxs s"
  "cachelist (dnrd_of s) = cachelist s" "lastcache (dnrd_of s) = lastcache s"
  "cache_lowwater (dnrd_of s) = cache_lowwater s" "cache_highwater (dnrd_of s) = cache_highwater s"
  "vc (dnrd_of s) = vc s" "rr_garbage (dnrd_of s) = rr_garbage s" "clock (dnrd_of s) = clock s"
  "exc_port (dnrd_of s) = exc_port s" "exc_port_ofst (dnrd_of s) = exc_port_ofst s" "io (dnrd_of s) = io s"
  "env_recv (dnrd_of s) = env_recv s" "env_send (dnrd_of s) = env_send s" "env_sock (dnrd_of s) = env_sock s"
  "env_bind (dnrd_of s) = env_bind s" "opt_debug (dnrd_of s) = 0"
  "sent (dnrd_of s) = sent s" "isock (dnrd_of s) = isock s" "reactivate_interval (dnrd_of s) = reactivate_interval s"
  "forward_timeout (dnrd_of s) = forward_timeout s" "mst (dnrd_of s) = no_master" "sp_hosts_count (dnrd_of s) = 0"
  "def_inf_count (dnrd_of s) = 0" "matched_intf_cnt (dnrd_of s) = 0" "req_msg (dnrd_of s) = replicate 516 0"
  "rep_msg (dnrd_of s) = replicate 516 0" "dnsbuf (dnrd_of s) = dnsbuf_init" "fdmaster (dnrd_of s) = fdmaster s"
  "cache_onoff (dnrd_of s) = cache_onoff s" "cache_param (dnrd_of s) = cache_param s" "lastexpire (dnrd_of s) = lastexpire s"
  by (simp_all add: dnrd_of_def query_state.defs dnrd_state.defs)

lemma dnrd_of_fun [simp]:
  "q_nxt (dnrd_of s) = q_nxt s" "srv_nxt (dnrd_of s) = srv_nxt s" "inf_nxt (dnrd_of s) = inf_nxt s"
  "qrec (dnrd_of s) = qrec s" "cval (dnrd_of s) = cval s"
  by (simp_all add: q_nxt_def srv_nxt_def inf_nxt_def qrec_def cval_def fun_eq_iff)

lemma dnrd_of_inv [simp]:
  "query_inv (dnrd_of s) ps = query_inv s ps" "cache_inv (dnrd_of s) xs = cache_inv s xs"
  "infs_ok (dnrd_of s) is = infs_ok s is" "named_infs (dnrd_of s) is = named_infs s is"
  by (simp_all add: query_inv_def qlist_inv_def head_ok_def pool_inv_def fd_inv_def ids_of_def socks_of_def query_ok_def
      srv_live_def cache_inv_def cache_at_def centry_ok_def infs_ok_def inf_ok_def inflist_at_def srvlist_at_def
      named_infs_def)

text \<open>The query of a client, node 7, on three sockets, and its state.\<close>

definition demo_k :: "u16 \<Rightarrow> int list \<Rightarrow> query_t" where
  "demo_k q fds = query_zero\<lparr>sock_arr := fds, q_srv := 6, my_qid := q, client_qid := 0x1234, serv_sent_cnt := 1,
     client_time := 990, ttl := 12, srv_list := [6, 0, 0], q_next := QLIST\<rparr>"

definition scene0 :: "qid_state \<Rightarrow> u16 \<Rightarrow> int list \<Rightarrow> (nat \<Rightarrow> recv_result) \<Rightarrow> query_state" where
  "scene0 qs q fds r = (demo qs)\<lparr>brk := 8, queries := [QLIST \<mapsto> query_zero\<lparr>q_next := 7\<rparr>, 7 \<mapsto> demo_k q fds],
     qlist_tail := 7, upstream_sockets := 3, open_fds := 3 # fds, fdmaster := 3 # fds, env_recv := r\<rparr>"

definition scene :: "qid_state \<Rightarrow> u16 \<Rightarrow> int list \<Rightarrow> (nat \<Rightarrow> recv_result) \<Rightarrow> dnrd_state" where
  "scene qs q fds r = dnrd_of (scene0 qs q fds r)"

lemma scene_qrec: "qrec (scene qs q fds r) 7 = demo_k q fds" "qrec (scene qs q fds r) QLIST = query_zero\<lparr>q_next := 7\<rparr>"
  by (simp_all add: scene_def qrec_def scene0_def QLIST_def)

lemma scene_inv:
  assumes "qp.balanced qs {q}" "distinct (3 # fds)" "length fds = 3" "\<forall>fd \<in> set fds. 0 \<le> fd \<and> fd < FD_SETSIZE"
  shows "dnrd_inv (scene qs q fds r) [5] [] [7]"
proof -
  let ?s = "scene0 qs q fds r"
  have k: "qrec ?s 7 = demo_k q fds" by (simp add: qrec_def scene0_def QLIST_def)
  have "srv_live ?s 6" by (simp add: srv_live_def scene0_def demo_def demo_srv_def)
  then have "query_ok ?s (demo_k q fds)" using assms(3) by (simp add: query_ok_def query_zero_def demo_k_def)
  then have "qlist_inv ?s [7]"
    by (simp add: qlist_inv_def) (simp add: scene0_def demo_k_def circ_def q_nxt_def QLIST_def head_ok_def query_zero_def)
  moreover have "pool_inv ?s [7]"
    using assms(1) by (simp add: pool_inv_def ids_of_def k demo_k_def) (simp add: scene0_def demo_def)
  moreover have "fd_inv ?s (socks_of ?s [7])"
    using assms(2-4) by (simp add: socks_of_def k q_socks_def demo_k_def query_zero_def)
      (auto simp: fd_inv_def scene0_def demo_def FD_SETSIZE_def)
  ultimately have q: "query_inv ?s [7]" by (simp add: query_inv_def)
  have c: "cache_inv ?s []"
    by (rule cache_inv_cong [OF demo_cache_inv [of qs]]) (simp_all add: scene0_def, simp add: demo_def)
  have i: "infs_ok ?s [5]"
    by (rule infs_ok_srv_upd [OF demo_infs_ok [of qs]]) (simp_all add: scene0_def same_shape_def srv_nxt_def fun_eq_iff)
  have n: "named_infs ?s [5]" by (simp add: named_infs_def scene0_def demo_def bstr_def)
  have "no_newq (scene qs q fds r)" by (simp add: no_newq_def scene_def scene0_def demo_def demo_srv_def)
  moreover have "ports_avail (scene qs q fds r)"
    by (rule ports_avail_default) (simp add: scene_def scene0_def demo_def)
  ultimately show "dnrd_inv (scene qs q fds r) [5] [] [7]"
    using q c i n by (simp add: dnrd_inv_def) (simp add: scene_def UDP_MAXSIZE_def dnsbuf_init_def bstr_def)
qed

lemma scene_opts:
  assumes "debugs W \<longrightarrow> named_recv r"
  shows "opts_ok W (scene qs q fds r)"
  using assms by (simp add: opts_ok_def scene_def no_master_def master_safe_off)
    (simp add: scene0_def demo_def dnrd_of_def query_state.defs dnrd_state.defs)

lemma scene_main:
  assumes "qp.balanced qs {q}" "distinct (3 # fds)" "length fds = 3" "\<forall>fd \<in> set fds. 0 \<le> fd \<and> fd < FD_SETSIZE"
    and "debugs W \<longrightarrow> named_recv r"
  shows "main_inv W (scene qs q fds r) [5]"
proof -
  have "isock (scene qs q fds r) = 3" by (simp add: scene_def scene0_def demo_def)
  then show ?thesis using scene_inv [OF assms(1-4), of r] scene_opts [OF assms(5)] by (auto simp: main_inv_def FD_SETSIZE_def)
qed

text \<open>
  No file exists, and debugging may be on, so that all packets have a question that can be printed. The two packets of
  the scenes do.
\<close>

definition demo_world :: world where
  "demo_world = \<lparr>reloads = {\<lambda>f. None}, debugs = True\<rparr>"

lemma demo_world_sel [simp]: "reloads demo_world = {\<lambda>f. None}" "debugs demo_world"
  by (simp_all add: demo_world_def)

lemma demo_named: "named (take UDP_MAXSIZE demo_query)" "named (take UDP_MAXSIZE demo_reply)"
  by (simp_all add: named_def demo_bytes UDP_MAXSIZE_def)

text \<open>The scene with a local master that has no files.\<close>

definition local_scene :: "qid_state \<Rightarrow> u16 \<Rightarrow> int list \<Rightarrow> (nat \<Rightarrow> recv_result) \<Rightarrow> dnrd_state" where
  "local_scene qs q fds r = (scene qs q fds r)\<lparr>mst := (demo_master localhost_db)\<lparr>dbmax := 10\<rparr>\<rparr>"

lemma demo_master_safe: "master_safe {\<lambda>f. None} ((demo_master localhost_db)\<lparr>dbmax := 10\<rparr>)"
proof -
  have "db_ok ((demo_master localhost_db)\<lparr>dbmax := 10\<rparr>)"
    using master_init_extends [of "demo_master []"] demo_init
    by (auto simp: Let_def demo_master_def db_ok_def buffers_ok_def)
  then show ?thesis using localhost_roomy
    by (auto simp: master_safe_def demo_master_def buffers_ok_def intro!: localhost_reload)
qed

lemma local_scene_ok:
  assumes "qp.balanced qs {q}" "distinct (3 # fds)" "length fds = 3" "\<forall>fd \<in> set fds. 0 \<le> fd \<and> fd < FD_SETSIZE"
    and "named_recv r"
  shows "dnrd_inv (local_scene qs q fds r) [5] [] [7]" "opts_ok demo_world (local_scene qs q fds r)"
    "main_inv demo_world (local_scene qs q fds r) [5]"
proof -
  show i: "dnrd_inv (local_scene qs q fds r) [5] [] [7]"
    unfolding local_scene_def by (rule dnrd_inv_counters(5) [OF scene_inv [OF assms(1-4)]])
  show o: "opts_ok demo_world (local_scene qs q fds r)"
    using scene_opts [of demo_world r qs q fds] assms(5) demo_master_safe by (simp add: local_scene_def opts_ok_def)
  have "isock (local_scene qs q fds r) = 3" by (simp add: local_scene_def scene_def scene0_def demo_def)
  then show "main_inv demo_world (local_scene qs q fds r) [5]" using i o by (auto simp: main_inv_def FD_SETSIZE_def)
qed

text \<open>The reply that the scene passes on.\<close>

lemma demo_passed: "passed_on (demo_k q fds) demo_reply"
  by (simp add: passed_on_def valid_reply_def demo_bytes be16_def demo_k_def query_zero_def GET_RCODE_def)

lemma demo_answer:
  "answer_of (scene qs q fds r) (demo_k q fds) demo_reply = (3, sockaddr_zero, [0x34, 0x12] @ drop 2 demo_reply)"
  by (simp add: answer_of_def demo_k_def query_zero_def lo8_def hi8_def) (simp add: scene_def scene0_def demo_def)

end
