(* ===== verification/Launch.thy ===== *)
theory Launch
  imports Boot Scenes
begin

text \<open>
  The program as it is loaded, with a choice of the system calls that succeed, and a command line with two servers,
  for the witnesses about the start.
\<close>

definition launch0 :: query_state where
  "launch0 = (demo qid_static)\<lparr>brk := 2, srvs := Map.empty, infs := Map.empty, inf_list := NULL,
     env_recv := (\<lambda>i. if i = 0 then Recv_msg demo_query sockaddr_zero [] else Recv_error),
     queries := [QLIST \<mapsto> query_zero], qlist_tail := NULL, isock := - 1, fdmaster := [], maxsock := 0, open_fds := [2, 1, 0],
     cache_param := replicate 256 0, vc := replicate 256 0\<rparr>"

definition launch :: "(syscall \<Rightarrow> bool) \<Rightarrow> proc_state" where
  "launch sys = dnrd_state.extend
     ((dnrd_of launch0)\<lparr>mst := no_master\<lparr>master_onoff := 1, master_config := replicate 256 0, domain_garbage := replicate 256 0\<rparr>,
        def_inf_list := replicate 30 (replicate 10 0)\<rparr>)
     (proc_state.fields 1 sockaddr_zero (bstr ''root'' @ replicate 252 0) (replicate 512 0) 0 0 0 sort_static 0 No_file [] []
        (\<lambda>c. Sig_dfl) sys [bstr ''eth0''] None (\<lambda>k. Kill_esrch) (Some 53, Some 53) (\<lambda>u. Some (0, 0))
        \<lparr>st_uid = 0, st_mode = 0x1ED, st_isdir = True\<rparr> [] Fork_child (\<lambda>k. (1, 2)))"

definition launch_opts :: "(char \<times> bytes) list" where
  "launch_opts = [(CHR ''s'', bstr ''10.0.0.1:eth0''), (CHR ''s'', bstr ''10.0.0.2:eth0'')]"

lemmas launch_defs = launch_def launch0_def dnrd_of_def demo_def no_master_def query_state.defs dnrd_state.defs proc_state.defs

lemma launch_loaded: "loaded (launch sys)"
proof -
  have "queries (launch sys) = [QLIST \<mapsto> query_zero\<lparr>q_next := q_next query_zero\<rparr>]" by (simp add: launch_defs)
  then have "\<exists>k. queries (launch sys) = [QLIST \<mapsto> query_zero\<lparr>q_next := k\<rparr>]" by blast
  then show ?thesis
    by (simp add: loaded_def quiet_def)
      (simp add: launch_defs QLIST_def qid_static_def QID_POOL_SIZE_def rr_ok_def demo_rr_def RR_NAMESIZE_def UDP_MAXSIZE_def
        dnsbuf_init_def bstr_def)
qed

lemma launch_name: "before 58 (bstr ''10.0.0.1:eth0'') = bstr ''10.0.0.1''" "behind 58 (bstr ''10.0.0.1:eth0'') = bstr ''eth0''"
    "before 58 (bstr ''10.0.0.2:eth0'') = bstr ''10.0.0.2''" "behind 58 (bstr ''10.0.0.2:eth0'') = bstr ''eth0''"
    "58 \<in> set (bstr ''10.0.0.1:eth0'')" "58 \<in> set (bstr ''10.0.0.2:eth0'')"
  by (simp_all add: before_def behind_def bstr_def)

lemma launch_addr: "inet_aton (bstr ''10.0.0.1'') = Some 0x0A000001" "inet_aton (bstr ''10.0.0.2'') = Some 0x0A000002"
  by (simp_all add: inet_aton_def bstr_def aton_parts.simps strtoul0_def digit_val_def c_isdigit_def
    c_tolower_def c_isupper_def aton_value_def)

lemma launch_if: "env_ifs s = [bstr ''eth0''] \<Longrightarrow> validate_interface (bstr ''eth0'') s = Some 0"
  by (simp add: validate_interface_def bstr_def eval_nat_numeral)

lemma launch_table: "options_table launch_opts = [(bstr ''eth0'', [0x0A000001, 0x0A000002])]"
  by (simp add: options_table_def launch_opts_def opt_entry_def launch_name launch_addr enter_server_def)

text \<open>The options are accepted.\<close>

lemma opt_server_step:
  assumes "configured s cfg" "58 \<in> set arg" "validate_interface (behind 58 arg) s = Some 0" "inet_aton (before 58 arg) = Some a"
  shows "\<exists>b m n. parse_opt (CHR ''s'') arg s = Some (Go (s\<lparr>brk := b, srvs := m, infs := n\<rparr>)) \<and>
    configured (s\<lparr>brk := b, srvs := m, infs := n\<rparr>) (enter_server (behind 58 arg) a cfg)"
proof -
  obtain l ts where c: "config_ok s l ts" "table_of s ts = cfg" using assms(1) by (auto simp: configured_def)
  obtain t us where t: "opt_server arg s = Some (Go t)" "config_ok t l us" "table_of t us = enter_server (behind 58 arg) a cfg"
    using opt_server_config [OF c(1) assms(2,3) _ assms(4)] c(2) by auto
  obtain b m n where "t = s\<lparr>brk := b, srvs := m, infs := n\<rparr>" using opt_server_frame [OF t(1)] by blast
  moreover have "parse_opt (CHR ''s'') arg s = Some (Go t)" using t(1) by (simp add: parse_opt_def)
  moreover have "configured t (enter_server (behind 58 arg) a cfg)" using t(2,3) by (auto simp: configured_def)
  ultimately show ?thesis by blast
qed

definition launched :: "(syscall \<Rightarrow> bool) \<Rightarrow> proc_state \<Rightarrow> bool" where
  "launched sys t \<longleftrightarrow> settings_ok demo_world t \<and> env_sys t = sys \<and> pidfile t = No_file \<and> (granted t \<longleftrightarrow> sys = (\<lambda>c. True))"

lemma launch_accepted: "\<exists>t. accepted launch_opts False (launch sys) t \<and> launched sys t"
proof -
  obtain s1 where s1: "main_begin (launch sys) = Some (Go s1)" "configured s1 []" using main_begin_config [OF launch_loaded] by blast
  have "\<exists>b m n i. s1 = (launch sys)\<lparr>recv_addr := sockaddr_zero\<lparr>sin_family := AF_INET\<rparr>, brk := b, srvs := m, infs := n, inf_list := i\<rparr>"
  proof -
    have "env_root (launch sys) = None" by (simp add: launch_defs)
    then show ?thesis using s1(1) by (auto simp: main_begin_def alloc_infnode_def alloc_srvnode_def Let_def)
  qed
  then obtain b1 m1 n1 i1 where e1: "s1 = (launch sys)\<lparr>recv_addr := sockaddr_zero\<lparr>sin_family := AF_INET\<rparr>, brk := b1, srvs := m1,
    infs := n1, inf_list := i1\<rparr>" by blast
  let ?s2 = "s1\<lparr>exc_port_ofst := 0, def_inf_count := 0, sp_hosts_count := 0\<rparr>"
  have c2: "configured ?s2 []" by (rule configured_cong [OF s1(2)]) simp_all
  have i2: "env_ifs ?s2 = [bstr ''eth0'']" unfolding e1 by (simp add: launch_defs)
  have v2: "validate_interface (behind 58 (bstr ''10.0.0.1:eth0'')) ?s2 = Some 0"
    unfolding launch_name by (rule launch_if [OF i2])
  obtain b4 m4 n4 where p2: "parse_opt (CHR ''s'') (bstr ''10.0.0.1:eth0'') ?s2 = Some (Go (?s2\<lparr>brk := b4, srvs := m4, infs := n4\<rparr>))"
    "configured (?s2\<lparr>brk := b4, srvs := m4, infs := n4\<rparr>) (enter_server (bstr ''eth0'') 0x0A000001 [])"
    using opt_server_step [OF c2 launch_name(5) v2] unfolding launch_name launch_addr by blast
  let ?s4 = "?s2\<lparr>brk := b4, srvs := m4, infs := n4\<rparr>"
  have i4: "env_ifs ?s4 = [bstr ''eth0'']" using i2 by simp
  have v4: "validate_interface (behind 58 (bstr ''10.0.0.2:eth0'')) ?s4 = Some 0"
    unfolding launch_name by (rule launch_if [OF i4])
  obtain b5 m5 n5 where p3: "parse_opt (CHR ''s'') (bstr ''10.0.0.2:eth0'') ?s4 = Some (Go (?s4\<lparr>brk := b5, srvs := m5, infs := n5\<rparr>))"
    using opt_server_step [OF p2(2) launch_name(6) v4] unfolding launch_name launch_addr by blast
  let ?t = "?s4\<lparr>brk := b5, srvs := m5, infs := n5\<rparr>"
  have go: "run_all (f # fs) s = run_all fs t" if "f s = Some (Go t)" for f fs and s t :: proc_state using that by simp
  have "run_all (map (\<lambda>(c, arg). parse_opt c arg) launch_opts) ?s2 = Some (Go ?t)"
    unfolding launch_opts_def list.map prod.case go [of "parse_opt (CHR ''s'') (bstr ''10.0.0.1:eth0'')", OF p2(1)]
      go [of "parse_opt (CHR ''s'') (bstr ''10.0.0.2:eth0'')", OF p3] by (rule run_all.simps(1))
  then have "parse_args launch_opts False s1 = Some (Go ?t)" unfolding parse_args_def by simp
  then have "accepted launch_opts False (launch sys) ?t" using s1(1) by (simp add: accepted_def)
  moreover have "settings_ok demo_world ?t"
  proof -
    have "ports_avail ?t" by (rule ports_avail_default) simp
    moreover have "master_ready {\<lambda>f. None} (mst ?t)"
      by (rule localhost_ready) (simp_all add: e1 launch_defs buffers_ok_def)
    moreover have "named_env ?t" using demo_named(1) by (simp add: e1 launch_defs named_recv_def)
    moreover have "marks_fit (cstr (cache_param ?t))" by (simp add: e1 launch_defs marks_fit_def cstr_def)
    ultimately show ?thesis by (simp add: settings_ok_def fixed_ok_def) (simp add: e1 launch_defs bstr_def)
  qed
  moreover have "env_sys ?t = sys" "pidfile ?t = No_file" by (simp_all add: e1 launch_defs)
  moreover have "granted ?t \<longleftrightarrow> sys = (\<lambda>c. True)"
  proof
    assume "granted ?t"
    then have "\<forall>c. env_sys ?t c" by (simp add: granted_def)
    then show "sys = (\<lambda>c. True)" using \<open>env_sys ?t = sys\<close> by (simp add: fun_eq_iff)
  next
    assume sys: "sys = (\<lambda>c. True)"
    have "root_sane ?t" using sys by (simp add: root_sane_def) (simp add: e1 launch_defs MODE_W_def)
    moreover have "cstr (dnrd_user ?t) \<noteq> []" by (simp add: e1 launch_defs bstr_def cstr_def)
    ultimately show "granted ?t" using sys by (simp add: granted_def) (simp add: e1 launch_defs)
  qed
  ultimately show ?thesis unfolding launched_def by blast
qed

lemma launch_table_ok: "table_ok [(bstr ''eth0'', [0x0A000001, 0x0A000002])]"
  by (simp add: table_ok_def table_rows_def group_entry_def inet_ntoa_def bstr_def dec_digits.simps)

lemma launch_begun: "\<exists>s :: proc_state. configured s [] \<and> env_ifs s = [bstr ''eth0'']"
proof -
  obtain s1 where s1: "main_begin (launch (\<lambda>c. True)) = Some (Go s1)" "configured s1 []"
    using main_begin_config [OF launch_loaded] by blast
  have "env_root (launch (\<lambda>c. True)) = None" "env_ifs (launch (\<lambda>c. True)) = [bstr ''eth0'']" by (simp_all add: launch_defs)
  then have "env_ifs s1 = [bstr ''eth0'']" using s1(1) by (auto simp: main_begin_def alloc_infnode_def alloc_srvnode_def Let_def)
  then show ?thesis using s1(2) by blast
qed

end
