(* ===== verification/Special.thy ===== *)
theory Special
  imports Udp
begin

text \<open>
  The hosts whose queries go out through interfaces of their own (option -H), at the start of \<open>send2current\<close> in
  src/udp.c: which interfaces a question selects, and where the search leaves its arrays.
\<close>

text \<open>The interfaces that a name selects: those of the entries whose host begins with the name.\<close>

definition bound_to :: "bytes \<Rightarrow> (bytes \<times> bytes) list \<Rightarrow> bytes list" where
  "bound_to name hs = map (\<lambda>(hn, nm). take 9 (cstr nm)) (filter (\<lambda>(hn, nm). take (length name) hn = name) hs)"

lemma bound_to_simps [simp]:
  "bound_to name [] = []"
  "bound_to name ((hn, nm) # hs) =
     (if take (length name) hn = name then take 9 (cstr nm) # bound_to name hs else bound_to name hs)"
  by (simp_all add: bound_to_def)

lemma bound_to_plain: "x \<in> set (bound_to name hs) \<Longrightarrow> length x \<le> 9 \<and> 0 \<notin> set x"
  using cstr_no_nul by (auto simp: bound_to_def dest: in_set_takeD)

section \<open>Comparisons\<close>

lemma c_strneq_start:
  assumes "0 \<notin> set name" "length name \<le> length hn"
  shows "c_strneq hn (name @ r) (length name) = Some (take (length name) hn = name)"
  using assms
proof (induction name arbitrary: hn)
  case (Cons x name)
  then obtain y hn' where hn: "hn = y # hn'" by (cases hn) auto
  then show ?case using Cons.IH [of hn'] Cons.prems by auto
qed simp

text \<open>\<open>strncmp\<close> of a string with one that is padded with NULs.\<close>

definition padded :: "nat \<Rightarrow> bytes \<Rightarrow> bytes \<Rightarrow> bool" where
  "padded n x b \<longleftrightarrow> n \<le> length b \<and> take n b = take n (x @ replicate n 0)"

lemma c_strneq_padded:
  assumes "0 \<notin> set a" "0 \<notin> set x" "padded n x b"
  shows "c_strneq (a @ [0]) b n = Some (take n a = take n x)"
  using assms
proof (induction n arbitrary: a x b)
  case (Suc n)
  obtain c b' where b: "b = c # b'" "n \<le> length b'" using Suc.prems(3) by (cases b) (auto simp: padded_def)
  have t: "take (Suc n) (x @ replicate (Suc n) 0) = c # take n b'" using Suc.prems(3) b by (simp add: padded_def)
  show ?case
  proof (cases x)
    case Nil
    then have "c = 0" using t by simp
    then show ?thesis using Suc.prems(1) b Nil by (cases a) auto
  next
    case (Cons y x')
    have c: "c = y" "take n b' = take n (x' @ replicate (Suc n) 0)" using t Cons by simp_all
    have "take n (x' @ replicate (Suc n) 0) = take n (x' @ replicate n 0)"
      by (simp add: min_def del: replicate_Suc)
    then have p: "padded n x' b'" using b(2) c(2) by (simp add: padded_def)
    have y: "y \<noteq> 0" "0 \<notin> set x'" using Suc.prems(2) Cons by auto
    show ?thesis
    proof (cases a)
      case Nil
      then show ?thesis using b(1) c(1) y Cons by simp
    next
      case a: (Cons z a')
      then show ?thesis using Suc.IH [of a' x' b'] Suc.prems(1) b(1) c(1) y p Cons by auto
    qed
  qed
qed simp

lemma any_strneq_padded:
  assumes "0 \<notin> set a" "list_all2 (padded n) xs bs" "\<forall>x \<in> set xs. 0 \<notin> set x"
  shows "any_strneq (a @ [0]) bs n = Some (take n a \<in> take n ` set xs)"
  using assms(2,3)
proof (induction xs bs rule: list_all2_induct)
  case (Cons x xs b bs)
  then show ?case using c_strneq_padded [OF assms(1), of x n b] by auto
qed simp

section \<open>The search\<close>

lemma padded_strncpy:
  assumes "9 \<le> length d"
  shows "\<exists>d1. c_strncpy d (cstr nm) 9 = Some d1 \<and> padded 9 (take 9 (cstr nm)) d1 \<and> length d1 = length d"
proof -
  have "take 9 (cstr nm @ replicate 9 0) = take 9 (take 9 (cstr nm) @ replicate 9 0)"
    by (cases "length (cstr nm) \<le> 9") simp_all
  then show ?thesis using assms by (simp add: c_strncpy_def padded_def)
qed

lemma match_hosts_eq:
  assumes "0 \<notin> set name" "\<forall>(hn, nm) \<in> set hs. length name \<le> length hn" "\<forall>b \<in> set ml. 9 \<le> length b"
    and "cnt \<le> length ml"
  shows "case match_hosts (name @ 0 # r) hs (ml, cnt) of
      None \<Rightarrow> length ml < cnt + length (bound_to name hs)
    | Some (ml', cnt') \<Rightarrow> length ml' = length ml \<and> take cnt ml' = take cnt ml \<and> cnt' = cnt + length (bound_to name hs) \<and>
        cnt' \<le> length ml \<and> list_all2 (padded 9) (bound_to name hs) (drop cnt (take cnt' ml'))"
  using assms(2-4)
proof (induction hs arbitrary: ml cnt)
  case (Cons h hs)
  obtain hn nm where h: "h = (hn, nm)" by (cases h)
  have len: "c_strlen (name @ 0 # r) = Some (length name)" using assms(1) by (simp add: c_strlen_def)
  have e: "c_strneq hn (name @ 0 # r) (length name) = Some (take (length name) hn = name)"
    by (rule c_strneq_start [OF assms(1)]) (use Cons.prems(1) h in simp)
  show ?case
  proof (cases "take (length name) hn = name")
    case False
    then have e2: "bound_to name (h # hs) = bound_to name hs"
      "match_hosts (name @ 0 # r) (h # hs) (ml, cnt) = match_hosts (name @ 0 # r) hs (ml, cnt)"
      using h len e by simp_all
    show ?thesis unfolding e2 using Cons.prems by (intro Cons.IH) simp_all
  next
    case m: True
    show ?thesis
    proof (cases "cnt < length ml")
      case False
      then have "cnt = length ml" using Cons.prems(3) by simp
      then show ?thesis using m h len e by (simp add: rd_def)
    next
      case True
      have "9 \<le> length (ml ! cnt)" using Cons.prems(2) True by simp
      then obtain d1 where d1: "c_strncpy (ml ! cnt) (cstr nm) 9 = Some d1" "padded 9 (take 9 (cstr nm)) d1"
        "length d1 = length (ml ! cnt)" using padded_strncpy by blast
      let ?ml = "ml[cnt := d1]"
      have run: "match_hosts (name @ 0 # r) (h # hs) (ml, cnt) = match_hosts (name @ 0 # r) hs (?ml, cnt + 1)"
        using m h len e True d1(1) by simp
      have "\<forall>b \<in> set ?ml. 9 \<le> length b"
        using Cons.prems(2) d1(3) \<open>9 \<le> length (ml ! cnt)\<close> set_update_subset_insert [of ml cnt d1] by auto
      then have ih: "case match_hosts (name @ 0 # r) hs (?ml, cnt + 1) of
          None \<Rightarrow> length ?ml < cnt + 1 + length (bound_to name hs)
        | Some (ml', cnt') \<Rightarrow> length ml' = length ?ml \<and> take (cnt + 1) ml' = take (cnt + 1) ?ml \<and>
            cnt' = cnt + 1 + length (bound_to name hs) \<and> cnt' \<le> length ?ml \<and>
            list_all2 (padded 9) (bound_to name hs) (drop (cnt + 1) (take cnt' ml'))"
        using Cons.prems True by (intro Cons.IH) auto
      show ?thesis
      proof (cases "match_hosts (name @ 0 # r) hs (?ml, cnt + 1)")
        case None
        then show ?thesis using ih run m h by simp
      next
        case (Some mc)
        obtain ml' cnt' where mc: "mc = (ml', cnt')" by (cases mc)
        have i: "length ml' = length ml" "take (Suc cnt) ml' = take (Suc cnt) ?ml" "cnt' = Suc (cnt + length (bound_to name hs))"
          "cnt' \<le> length ml" "list_all2 (padded 9) (bound_to name hs) (drop (Suc cnt) (take cnt' ml'))"
          using ih unfolding Some mc by auto
        have t: "take cnt ml' = take cnt ml"
          using arg_cong [OF i(2), of "take cnt"] by (simp add: min_def)
        have "ml' ! cnt = take (Suc cnt) ml' ! cnt" by simp
        then have n: "ml' ! cnt = d1" unfolding i(2) using True by (simp add: nth_append)
        have "drop cnt (take cnt' ml') = ml' ! cnt # drop (Suc cnt) (take cnt' ml')"
          using i(1,3,4) by (subst Cons_nth_drop_Suc [symmetric]) auto
        then have "list_all2 (padded 9) (bound_to name (h # hs)) (drop cnt (take cnt' ml'))"
          using i(5) n d1(2) m h by simp
        then show ?thesis using run Some mc i(1,3,4) t m h by simp
      qed
    qed
  qed
qed simp

text \<open>The name in the question, as \<open>snprintf_cname\<close> writes it to the 30 bytes of \<open>query_host\<close>.\<close>

lemma query_host:
  assumes "packed msg len 12 ls h" "wf_labels ls" "ls \<noteq> []" "12 < len" "all_valid tbl" "len \<le> length msg"
    and "h < len" "h \<le> UDP_MAXSIZE" "length (dotted ls) < 30" "length buf = 30"
  shows "\<exists>r. snprintf_cname tbl msg len 12 buf 30 = Some (0, name_text ls @ 0 # r)"
proof -
  have "(12 :: int) = int 12" by simp
  then show ?thesis
    using get_objname_text [OF assms(1-3) _ assms(4-9), of 0 buf] assms(10) by (simp add: snprintf_cname_def)
qed

lemma find_matches_eq:
  assumes "packed msg len 12 ls h" "wf_labels ls" "ls \<noteq> []" "12 < len" "all_valid (vc s)" "len \<le> length msg"
    and "h < len" "h \<le> UDP_MAXSIZE" "length (dotted ls) < 30" "length (host_garbage s) = 30"
    and "0 < sp_hosts_count s" "sp_hosts_count s \<le> length (sp_hosts s)" "\<forall>(hn, nm) \<in> set (sp_hosts s). length hn = 30"
    and "\<forall>b \<in> set (matched_intf s). length b = 10"
  defines "nms \<equiv> bound_to (name_text ls) (take (sp_hosts_count s) (sp_hosts s))"
  shows "if length nms \<le> length (matched_intf s)
    then \<exists>ml. find_matches msg len s = Some (s\<lparr>matched_intf := ml, matched_intf_cnt := length nms\<rparr>) \<and>
      length ml = length (matched_intf s) \<and> list_all2 (padded 9) nms (take (length nms) ml)
    else find_matches msg len s = None"
proof -
  let ?hs = "take (sp_hosts_count s) (sp_hosts s)"
  obtain r where r: "snprintf_cname (vc s) msg len 12 (host_garbage s) 30 = Some (0, name_text ls @ 0 # r)"
    using query_host [OF assms(1-10)] by blast
  have "length (name_text ls) \<le> 30" using assms(3,9) by (simp add: dotted_name_text)
  then have h: "\<forall>(hn, nm) \<in> set ?hs. length (name_text ls) \<le> length hn"
    using assms(13) by (auto dest!: in_set_takeD)
  have b: "\<forall>b \<in> set (matched_intf s). 9 \<le> length b" using assms(14) by auto
  have f: "find_matches msg len s = map_option (\<lambda>(ml, cnt). s\<lparr>matched_intf := ml, matched_intf_cnt := cnt\<rparr>)
      (match_hosts (name_text ls @ 0 # r) ?hs (matched_intf s, 0))"
    using assms(11,12) r
    by (cases "match_hosts (name_text ls @ 0 # r) ?hs (matched_intf s, 0)") (auto simp: find_matches_def)
  note m = match_hosts_eq [OF name_text_no_nul [OF assms(2)] h b, of 0 r, folded bound_def]
  show ?thesis
    using m unfolding f nms_def by (cases "match_hosts (name_text ls @ 0 # r) ?hs (matched_intf s, 0)") auto
qed

text \<open>The interfaces that the query may go out through, after the search.\<close>

lemma inf_allowed_bound:
  assumes "list_all2 (padded 9) nms (take (length nms) ml)" "length nms \<le> length ml" "0 \<notin> set name"
    and "\<forall>x \<in> set nms. length x \<le> 9 \<and> 0 \<notin> set x" "nms \<noteq> []"
  shows "inf_allowed name (s\<lparr>matched_intf := ml, matched_intf_cnt := length nms\<rparr>) = Some (take 9 name \<in> set nms)"
proof -
  have "any_strneq (name @ [0]) (take (length nms) ml) 9 = Some (take 9 name \<in> take 9 ` set nms)"
    by (rule any_strneq_padded [OF assms(3,1)]) (use assms(4) in blast)
  moreover have "take 9 ` set nms = set nms" using assms(4) by force
  ultimately show ?thesis using assms(2,5) by (simp add: inf_allowed_def)
qed

text \<open>The question for the root: \<open>get_objname\<close> writes its NUL in front of the buffer.\<close>

lemma find_matches_root:
  assumes "msg ! 12 = 0" "12 < len" "len \<le> length msg" "0 < sp_hosts_count s"
  shows "find_matches msg len s = None"
  using snprintf_cname_root [OF assms(1-3)] assms(4) by (simp add: find_matches_def)

end
