(* ===== verification/Spec2Isabelle.thy ===== *)
theory Spec2Isabelle
  imports Launch Hosts Special
begin

text \<open>
  A verification library for dnrd 2.20.3, a caching, forwarding DNS proxy, sources under
  src/dnrd-2.20.3/src/.

  The program. The daemon listens on one UDP socket. A query from a client is checked (check.c),
  answered from the local database (master.c) or from the cache (cache.c), or else forwarded: it is
  entered into the list of open queries (query.c) under a new identifier (qid.c, random numbers
  from rand.c) with up to three sockets on random ports, and sent through up to three interfaces to
  the current server of each (udp.c, infnode.c, srvnode.c). Replies are cached and handed back to the
  client; a failure is kept until the other servers have answered or the query times out. The main
  loop (relay.c) waits for packets and does the maintenance: it deactivates servers that are silent,
  tests inactive ones with dummy queries, expires the cache and times out queries.

  The build. The model follows the configuration in config.h (RANDOM_SRC and ENABLE_PIDFILE defined,
  ENABLE_TCP and EXCLUDE_MASTER not) for the 32 bit, little endian machine of config.log.

  How states and results are modelled. The state of a component is a record that extends the record of
  the components below it: srv_state (heap of servers, clock), inf_state (heap of interfaces,
  inf_list), cache_state (heap of cache entries and the static variables of cache.c), query_state
  (heap of open queries, socket accounting, and the kernel as far as the program sees it), dnrd_state
  (options, static buffers and the master_state of master.c), proc_state (the process). Pointers are numbers, NULL is 0, heaps
  are partial maps. The outer option of an operation is undefined behaviour or an endless loop: None is
  an access outside an array, through a pointer to nothing, an overflow of an int that the standard leaves undefined, or a
  loop that does not end (partial_function (option)). A theorem that a result is Some is therefore a theorem of safety and
  termination. Error returns of the code are values inside. Numbers that the code stores in unsigned
  types are words of their width; int and time_t values are int, with the wrap-around written out
  where values are narrowed.

  The theories.
  Prelude: machine types, checked array access, C strings, byte order, circular lists in a store and
  the locales node_store and node_heap with their list lemmas.
  Lib, Libc: lib.c and the library functions whose result the program uses.
  Dns, Check, Common: packets and names (dns.c), acceptance of packets (check.c), conversions of names
  (common.c). get_objname works on a destination inside a larger memory, so that the write of its NUL
  in front of an empty name is seen.
  Rand, Qid: ISAAC and the pool of identifiers; the locale id_pool states the contract of the pool, and
  qp interprets it on qid_get and qid_return.
  Srvnode, Infnode: the circular lists, interpretations sv and iv of node_heap; inflist_at and srvlist_at
  relate the heaps to lists of pointers. sort_groups is sort.
  Cache: the doubly linked list (cache_at), insertion, lookup, expiry; qsort is insertion sort, any
  order that satisfies the locale qsort_contract.
  Query: open queries; query_inv is the invariant of list, identifiers and descriptors together.
  Master: database, configuration files, assembly of answers. Files are a map from names to contents.
  Database: the invariant of the records (db_ok), the lookups without their hashes, and that the readers of the
  files return for every content (extends). Answer: what the assembly writes, the abstract answer answer_spec
  and master_answer_delivered, the refinement. Local: the master inside the running program; master_safe says that
  its records leave room in the buffers (roomy) and that reading the files again, whichever of the given states of the
  file system is found then, keeps it so. Hosts: added hosts, the blacklist, denials, the database of a fresh
  start, and the request of a client that is answered locally.
  Udp, Relay: sending, replies, requests, maintenance and one iteration of run (run_step). The time and
  the outcome of pselect are parameters of the iteration (select_result: data on the listening socket, on other
  sockets, a signal; Sel_hangup is SIGHUP with the files as they are then and Sel_usr1 is SIGUSR1, whose handler is
  on_signal; run_reload reads the files); socket, bind, sendto and recvmsg take their outcome from the environment fields
  env_sock, env_bind, env_send and env_recv. opt_debug is the level of debugging; log_query and log_reply do what the
  handlers do only to log a packet, as far as they access memory.
  Timeout: query_timeout over the list of open queries, what one sweep closes and sends, and that
  repeated sweeps close every expired query.
  Special: hosts with interfaces of their own (option -H), which match_hosts and find_matches select by the name of the
  question.
  Replies: dnrd_inv, the invariant of the whole program (open queries, cache, interfaces, buffers);
  udp_handle_reply and the loop over the sockets keep it and answer each query at most once. named says that the
  question of a packet begins with a label; debug_ok that debugging is off or that all packets are so.
  Requests: udp_handle_request with everything it calls (choose_inf, query_add, send2current, try_servers,
  the cache) keeps the invariant; request_result says what is sent to whom.
  Rounds: the sweeps over the servers, the expiry of the cache, one iteration and any number of
  iterations of run (run_events); main_inv is dnrd_inv with the conditions on options, socket and local
  master; a world W holds the states of the file system that a reload may find (reloads) and whether debugging may be
  on (debugs), in which case all packets have a question that begins with a label.
  Process, Args, Startup: proc_state is dnrd_state with the variables of the process; how it ends
  (cleanexit, log_err_exit), replaces a running copy (kill_current) and handles signals (sig.c), the
  options (parse_args), and main up to its loop (start), one definition per phase. A phase ends the process
  with Exit or goes on with Go; None is an endless wait. What getopt_long finds is a parameter, the answers
  of the kernel are the fields env_sys, env_ifs, env_passwd, env_fork and so on.
  Config: the table of interfaces and servers as a list of names with addresses (enter_server), the heap that
  represents it (config_ok, configured), and the refinement of the table by opt_server.
  Boot: every phase of main from the loaded program (loaded) to the loop (ready); outcome g r P says that a
  phase goes on with P or, unless everything is granted (g), ends the process. start_outcome composes them.
  Examples, Scenes, Launch: concrete states for the witnesses, of the running and of the loaded program.

  What the properties show. The main loop never gets stuck (run_never_stuck), the start leads into it
  (start_ready, start_ends), requests and replies are handled as the protocol asks (request_handled,
  reply_handled, reply_loop_ends), queries time out (timeout_sweep, timeouts_clear), the options build the
  table of servers (server_option_refines, options_build_table), hosts with their own interfaces are sent to the right ones
  (hosts_select_interfaces), and the parts below keep their contracts: cache,
  open queries, identifiers, random numbers, names, packet checks, lists of servers. The local
  master may be on in the main loop; its answers are those of an abstract specification (local_answer, local_request), its files
  are read safely (init_total), hosts and blacklisted names get the answers they should (added_host_answered, added_host_named,
  blacklist_denies, neighbours_denied). Error properties
  state where the code does not do what it means to (ns_answer_overruns, reply_loop_crash, try_servers_hangs, start_hangs,
  root_question_clears_flags, root_question_underruns, debugging_root_question, the second half of reply_handled and of
  parse_query_typed, inactive_hit_overwrites, cname2asc_always_malformed).

  Bounds. No definition uses fuel except wait_for_exit, which the code bounds by 400 probes. Loops that may not
  end are partial_function (option), and their termination is a theorem. The hypotheses of main_inv are
  those of the configuration: descriptors fit into an fd_set (at most 1018 sockets for start_ready), the
  local master is off or its database leaves room, now and after each reload (roomy: at most 197 bytes of name servers
  for each domain; ns_answer_overruns shows that more may overrun the buffer), no host with interfaces of its own (-H,
  see root_question_underruns), a retry interval, allowed ports left, and names of interfaces without a percent sign
  (bind_sock2inf uses the name as a format, c_format). Debugging may be on only in a world where questions begin with a
  label: a question for the root is printed to the byte in front of an array. For the start, the number of the option -c
  is at most 28633115, since three quarters of it are computed in an int (marks_fit).

  What is assumed of memory that the code does not initialise or terminate. The records rr_t that the code passes to the
  parser are not initialised; rr_garbage stands for their content, and cache_inv has a NUL in its name, which the question
  for the root needs (rr_ok, parse_query_typed). The array domain of read_configuration is not initialised, and the arrays
  for the names of the files of the master and of the blacklist have no NUL when an option fills them: buffers_ok has
  one in each. The directory of the option -R and the user of the option -u likewise (fixed_ok). The definitions read these
  arrays with c_strlen, which is None without a NUL.

  What is not modelled: the text of messages, dumps and help (output), but log_query, log_reply and log_string model what
  is read for it; the dumps of the assembled answers at levels of debugging above 3 in master_lookup and
  master_dontknow, which read back packets that were just built (dump_dnspacket_total shows that a dump stays in
  bounds); getopt_long, setsockopt and which control
  messages recvmsg delivers (environment), the waits of wait_for_exit, tcp.c (not compiled: ENABLE_TCP is not defined, and
  it uses types that the headers no longer declare), is_writeable and user_groups_contain of main.c (only called
  on Cygwin), the test programs of rand.c, and code under #if 0.
\<close>

section \<open>The cache\<close>

lemma stored_then_found:
  assumes "cache_inv s xs" "cache_onoff s \<noteq> 0" "12 \<le> len" "len \<le> UDP_MAXSIZE" "len \<le> length reply"
    and "parse_query (vc s) (rr_garbage s) reply len = Some (0, r)" "cacheable r" "srvs s server = Some n"
    and "parse_query (vc s) (rr_garbage s) msg qlen = Some (0, q)" "lookable q" "UDP_MAXSIZE \<le> length msg"
    and "cstr (rr_name q) = cstr (rr_name r)" "rr_type q = rr_type r" "rr_class q = rr_class r"
    and "cache_hit s xs q = None"
  shows "\<exists>s1 s2. cache_dnspacket reply len server s = Some s1 \<and>
    cache_lookup msg qlen s1 = Some (if ignore_inactive_cache_hits s \<noteq> 0 \<and> inactive n \<noteq> 0 then 0 else len,
      take 2 msg @ drop 2 (take len reply) @ drop len msg, s2) \<and>
    cache_inv s2 (xs @ [brk s]) \<and> cache_hits s2 = cache_hits s + 1"
proof -
  obtain s1 x where st: "cache_dnspacket reply len server s = Some s1" "cache_inv s1 (xs @ [brk s])"
    "cval s1 = (cval s)(brk s \<mapsto> new_entry x r server (clock s))" "h_packet x = take len reply @ [0, 0]"
    "h_len x = len" "cx_frame (s\<lparr>brk := Suc (brk s)\<rparr>) s1"
    using cache_dnspacket_store [OF assms(1-8)] by blast
  note fr = cx_frame_fields [OF st(6)]
  have new: "brk s \<notin> set xs" using st(2) by (auto simp: cache_inv_def cache_at_def)
  have "answers q (the (cval s1 y)) = answers q (the (cval s y))" if "y \<in> set xs" for y
    using that new st(3) by auto
  then have "find (\<lambda>y. answers q (the (cval s1 y))) xs = None"
    using assms(15) by (simp add: cache_hit_def find_None_iff)
  moreover have "answers q (the (cval s1 (brk s)))"
    using assms(12-14) st(3) by (simp add: answers_def new_entry_def c_strcaseeq_def)
  ultimately have "cache_hit s1 (xs @ [brk s]) q = Some (brk s)" by (simp add: cache_hit_def find_append)
  moreover have "parse_query (vc s1) (rr_garbage s1) msg qlen = Some (0, q)" "cache_onoff s1 \<noteq> 0"
    using assms(2,9) fr by simp_all
  ultimately obtain c where c: "cval s1 (brk s) = Some c" "cache_lookup msg qlen s1 =
      Some (if ignore_inactive_cache_hits s1 \<noteq> 0 \<and> inactive (the (srvs s1 (c_server c))) \<noteq> 0 then 0 else h_len (c_p c),
        overlay msg 2 (take (h_len (c_p c) - 2) (drop 2 (h_packet (c_p c)))), hit_state s1 (brk s))"
    "cache_inv (hit_state s1 (brk s)) (xs @ [brk s])"
    using cache_lookup_hit [OF st(2) _ _ assms(10), of msg qlen "brk s"] assms(11) by fastforce
  have "c = new_entry x r server (clock s)" using c(1) st(3) by simp
  then have p: "h_packet (c_p c) = take len reply @ [0, 0]" "h_len (c_p c) = len" "c_server c = server"
    using st(4,5) by (simp_all add: new_entry_def)
  have "cache_hits (hit_state s1 (brk s)) = cache_hits s + 1"
    using fr by (simp add: hit_state_def Let_def)
  moreover have "2 + (len - 2) = len" using assms(3) by simp
  ultimately show ?thesis
    using st(1) c(2,3) p assms(3,5,8) fr by (simp add: overlay_def del: add_2_eq_Suc)
qed

text \<open>C26: A reply that the cache stores is what a later query for the same name, type and class gets,
  with the identifier of the new query in front: \<open>cache_dnspacket\<close> followed by \<open>cache_lookup\<close> is the
  identity on the packet from its third byte on.\<close>

theorem cache_store_then_lookup:
  assumes "cache_inv s xs" "cache_onoff s \<noteq> 0" "12 \<le> len" "len \<le> UDP_MAXSIZE" "len \<le> length reply"
    and "parse_query (vc s) (rr_garbage s) reply len = Some (0, r)" "cacheable r" "srvs s server = Some n"
    and "parse_query (vc s) (rr_garbage s) msg qlen = Some (0, q)" "lookable q" "UDP_MAXSIZE \<le> length msg"
    and "cstr (rr_name q) = cstr (rr_name r)" "rr_type q = rr_type r" "rr_class q = rr_class r"
    and "cache_hit s xs q = None" "inactive n = 0"
  shows "\<exists>s1 s2. cache_dnspacket reply len server s = Some s1 \<and>
    cache_lookup msg qlen s1 = Some (len, take 2 msg @ drop 2 (take len reply) @ drop len msg, s2) \<and>
    cache_inv s2 (xs @ [brk s]) \<and> cache_hits s2 = cache_hits s + 1"
  using stored_then_found [OF assms(1-15)] assms(16) by simp

theorem cache_store_then_lookup_witness:
  "\<exists>s1 s2. cache_dnspacket demo_reply 38 6 (demo qid_static) = Some s1 \<and>
    cache_lookup demo_query 22 s1 = Some (38, take 2 demo_query @ drop 2 demo_reply @ drop 38 demo_query, s2)"
proof -
  note d = demo_reply_parsed [of qid_static] demo_query_parsed [of qid_static]
  have "\<exists>s1 s2. cache_dnspacket demo_reply 38 6 (demo qid_static) = Some s1 \<and>
    cache_lookup demo_query 22 s1 =
      Some (38, take 2 demo_query @ drop 2 (take 38 demo_reply) @ drop 38 demo_query, s2) \<and>
    cache_inv s2 ([] @ [brk (demo qid_static)]) \<and> cache_hits s2 = cache_hits (demo qid_static) + 1"
    by (rule cache_store_then_lookup [OF demo_cache_inv _ _ _ _ d(1) _ _ d(2), where n = "demo_srv 0x0A000001 4"])
      (simp_all add: demo_parsed_def demo_rr_def demo_bytes demo_def demo_srv_def cacheable_def lookable_def
        cache_hit_def UDP_MAXSIZE_def GET_QR_def MASK_QR_def DNS_CLASS_INET_def)
  moreover have "take 38 demo_reply = demo_reply" by (simp add: demo_bytes(2))
  ultimately show ?thesis by auto
qed

text \<open>C27: With the option to ignore hits of inactive servers, a reply that is found in the cache but came from such a
  server still replaces the query, behind its identifier, although the lookup reports that nothing was found: what
  \<open>handle_query\<close> then forwards to a server is the old reply.\<close>

theorem inactive_hit_overwrites:
  assumes "cache_inv s xs" "cache_onoff s \<noteq> 0" "12 \<le> len" "len \<le> UDP_MAXSIZE" "len \<le> length reply"
    and "parse_query (vc s) (rr_garbage s) reply len = Some (0, r)" "cacheable r" "srvs s server = Some n"
    and "parse_query (vc s) (rr_garbage s) msg qlen = Some (0, q)" "lookable q" "UDP_MAXSIZE \<le> length msg"
    and "cstr (rr_name q) = cstr (rr_name r)" "rr_type q = rr_type r" "rr_class q = rr_class r"
    and "cache_hit s xs q = None" "inactive n \<noteq> 0" "ignore_inactive_cache_hits s \<noteq> 0"
  shows "\<exists>s1 s2. cache_dnspacket reply len server s = Some s1 \<and>
    cache_lookup msg qlen s1 = Some (0, take 2 msg @ drop 2 (take len reply) @ drop len msg, s2)"
  using stored_then_found [OF assms(1-15)] assms(16,17) by auto

theorem inactive_hit_overwrites_witness:
  "let s = (demo qid_static)\<lparr>srvs := (srvs (demo qid_static))(6 \<mapsto> (demo_srv 0x0A000001 4)\<lparr>inactive := 990\<rparr>), ignore_inactive_cache_hits := 1\<rparr>
   in \<exists>s1 s2. cache_dnspacket demo_reply 38 6 s = Some s1 \<and>
    cache_lookup demo_query 22 s1 = Some (0, take 2 demo_query @ drop 2 demo_reply @ drop 38 demo_query, s2)"
proof -
  let ?s = "(demo qid_static)\<lparr>srvs := (srvs (demo qid_static))(6 \<mapsto> (demo_srv 0x0A000001 4)\<lparr>inactive := 990\<rparr>), ignore_inactive_cache_hits := 1\<rparr>"
  note d = demo_reply_parsed [of qid_static] demo_query_parsed [of qid_static]
  have inv: "cache_inv ?s []" by (rule cache_inv_cong [OF demo_cache_inv [of qid_static]]) auto
  have "\<exists>s1 s2. cache_dnspacket demo_reply 38 6 ?s = Some s1 \<and>
    cache_lookup demo_query 22 s1 = Some (0, take 2 demo_query @ drop 2 (take 38 demo_reply) @ drop 38 demo_query, s2)"
    by (rule inactive_hit_overwrites [OF inv, where n = "(demo_srv 0x0A000001 4)\<lparr>inactive := 990\<rparr>" and r = "demo_parsed 0x8180" and q = "demo_parsed 0x0100"])
      (use d in \<open>simp_all add: demo_parsed_def demo_rr_def demo_bytes demo_def demo_srv_def cacheable_def lookable_def
        cache_hit_def UDP_MAXSIZE_def GET_QR_def MASK_QR_def DNS_CLASS_INET_def\<close>)
  moreover have "take 38 demo_reply = demo_reply" by (simp add: demo_bytes(2))
  ultimately show ?thesis by (simp add: Let_def)
qed

text \<open>C36: When an expiry is due, \<open>cache_expire\<close> leaves a cache without expired entries and with at most
  \<open>cache_highwater\<close> entries, all of which were in the cache before.\<close>

theorem cache_expire_bounds:
  assumes "cache_at s xs" "0 \<le> cache_lowwater s" "cache_lowwater s \<le> cache_highwater s" "expire_due s"
  shows "\<exists>s' ys. cache_expire s = Some s' \<and> cache_at s' ys \<and> set ys \<subseteq> set xs \<and>
    int (length ys) \<le> cache_highwater s \<and> (\<forall>y \<in> set ys. \<not> cx_expired (clock s) (the (cval s' y)))"
proof -
  let ?f = "fresh_cxs (clock s) s xs"
  obtain s' vs where r: "cache_expire s = Some s'" "cache_at s' (filter (\<lambda>x. x \<notin> set vs) ?f)"
    "cval s' = cval s |` (- ({x \<in> set xs. cx_expired (clock s) (the (cval s x))} \<union> set vs))"
    "set vs \<subseteq> set ?f" "distinct vs"
    "if int (length ?f) > cache_highwater s
     then length vs = length ?f - nat (cache_lowwater s) \<and>
       ((\<forall>x \<in> set ?f. unat (c_lastused (the (cval s x))) < 2 ^ 31) \<longrightarrow>
        (\<forall>v \<in> set vs. \<forall>k \<in> set ?f - set vs. c_lastused (the (cval s k)) \<le> c_lastused (the (cval s v))))
     else vs = []"
    using cache_expire_run [OF assms(1,2,4)] by - (elim exE conjE, rule that)
  let ?ys = "filter (\<lambda>x. x \<notin> set vs) ?f"
  have "distinct ?f" using assms(1) by (simp add: fresh_cxs_def cache_at_def)
  then have "length ?ys + length vs = length ?f" using length_filter_notin r(4,5) by blast
  then have "int (length ?ys) \<le> cache_highwater s" using r(6) assms(2,3) by (auto split: if_splits)
  moreover have "\<not> cx_expired (clock s) (the (cval s' y))" if "y \<in> set ?ys" for y
    using that r(3) by (auto simp: fresh_cxs_def)
  moreover have "set ?ys \<subseteq> set xs" by (auto simp: fresh_cxs_def)
  ultimately show ?thesis using r(1,2) by (intro exI [of _ s'] exI [of _ ?ys]) simp
qed

theorem cache_expire_bounds_witness:
  "\<exists>s' ys. cache_expire ((demo qid_static)\<lparr>lastexpire := 1\<rparr>) = Some s' \<and> cache_at s' ys \<and>
     int (length ys) \<le> 1000"
proof -
  let ?s = "(demo qid_static)\<lparr>lastexpire := 1\<rparr>"
  have "cache_at ?s []" "0 \<le> cache_lowwater ?s" "cache_lowwater ?s \<le> cache_highwater ?s" "expire_due ?s"
    "cache_highwater ?s = 1000"
    by (simp_all add: cache_at_def demo_def expire_due_def CACHE_MINCYCLE_def CACHE_TIMEUNIT_def)
  then show ?thesis using cache_expire_bounds [of ?s "[]"] by metis
qed

text \<open>C37: When the cache holds more fresh entries than \<open>cache_highwater\<close>, the entries that \<open>expire_oldest\<close>
  throws out are the most recently used ones: every entry that stays was last used no later than every
  entry that goes. The comments in the code say the opposite.\<close>

theorem cache_expire_drops_recent:
  assumes "cache_at s xs" "0 \<le> cache_lowwater s" "cache_lowwater s \<le> cache_highwater s" "expire_due s"
    and "cache_highwater s < int (length (fresh_cxs (clock s) s xs))"
    and "\<forall>x \<in> set xs. unat (c_lastused (the (cval s x))) < 2 ^ 31"
  shows "\<exists>s' vs. cache_expire s = Some s' \<and> vs \<noteq> [] \<and> set vs \<subseteq> set xs \<and> (\<forall>v \<in> set vs. cval s' v = None) \<and>
    (\<forall>v \<in> set vs. \<forall>k \<in> dom (cval s'). k \<in> set xs \<longrightarrow>
       c_lastused (the (cval s' k)) \<le> c_lastused (the (cval s v)))"
proof -
  let ?f = "fresh_cxs (clock s) s xs"
  have sub: "set ?f \<subseteq> set xs" by (auto simp: fresh_cxs_def)
  obtain s' vs where r: "cache_expire s = Some s'"
    "cval s' = cval s |` (- ({x \<in> set xs. cx_expired (clock s) (the (cval s x))} \<union> set vs))"
    "set vs \<subseteq> set ?f" "length vs = length ?f - nat (cache_lowwater s)"
    "\<forall>v \<in> set vs. \<forall>k \<in> set ?f - set vs. c_lastused (the (cval s k)) \<le> c_lastused (the (cval s v))"
    using cache_expire_run [OF assms(1,2,4)] assms(5,6) sub by (auto simp: subset_iff)
  have "vs \<noteq> []" using r(4) assms(2,3,5) by auto
  moreover have "cval s' v = None" if "v \<in> set vs" for v using that r(2) by simp
  moreover have "c_lastused (the (cval s' k)) \<le> c_lastused (the (cval s v))"
    if k: "v \<in> set vs" "k \<in> dom (cval s')" "k \<in> set xs" for v k
  proof -
    have "k \<in> set ?f - set vs" "cval s' k = cval s k"
      using k(2,3) r(2) by (auto simp: restrict_map_def fresh_cxs_def split: if_splits)
    then show ?thesis using r(5) k(1) by simp
  qed
  ultimately show ?thesis using r(1,3) sub by (intro exI [of _ s'] exI [of _ vs]) blast
qed

theorem cache_expire_drops_recent_witness:
  "\<exists>(s :: query_state) s' vs. cache_expire s = Some s' \<and> vs \<noteq> [] \<and> (\<forall>v \<in> set vs. cval s' v = None) \<and> cache_highwater s = 1"
proof -
  define e where "e = (\<lambda>(u :: u32) n p. \<lparr>c_code = 0, c_name = [], c_type = 1, c_class = 1, c_positive = 1,
    c_created = 1000, c_lastused = u, c_expires = 2000, c_p = \<lparr>h_id = 0, h_u = 0, h_qdcount = 0, h_ancount = 0,
    h_nscount = 0, h_arcount = 0, h_here = 0, h_packet = [], h_len = 0, h_rdata = None\<rparr>, c_server = 6,
    c_next = n, c_prev = p\<rparr>)"
  define s where "s = (demo qid_static)\<lparr>lastexpire := 1, cache_lowwater := 1, cache_highwater := 1,
    cxs := [7 \<mapsto> e 1000 8 NULL, 8 \<mapsto> e 1001 NULL 7], cachelist := 7, lastcache := 8\<rparr>"
  have c: "cache_at s [7, 8]" by (simp add: cache_at_def s_def e_def)
  have v: "cval s 7 = Some (e 1000 0 0)" "cval s 8 = Some (e 1001 0 0)"
    by (simp_all add: cval_def s_def e_def centry_def)
  have ck: "clock s = 1000" by (simp add: s_def demo_def)
  have "fresh_cxs (clock s) s [7, 8] = [7, 8]"
    by (simp add: fresh_cxs_def v ck cx_expired_def e_def CACHE_MAXTIME_def CACHE_TIMEUNIT_def)
  then have f: "cache_highwater s < int (length (fresh_cxs (clock s) s [7, 8]))" by (simp add: s_def)
  have d: "expire_due s"
    by (simp add: s_def demo_def expire_due_def CACHE_MINCYCLE_def CACHE_TIMEUNIT_def)
  have u: "\<forall>x \<in> set [7, 8]. unat (c_lastused (the (cval s x))) < 2 ^ 31" using v by (simp add: e_def)
  have h: "0 \<le> cache_lowwater s" "cache_lowwater s \<le> cache_highwater s" "cache_highwater s = 1"
    by (simp_all add: s_def)
  show ?thesis using cache_expire_drops_recent [OF c h(1,2) d f u] h(3) by blast
qed

text \<open>Whatever packets, of whatever length up to the buffer, reach \<open>cache_lookup\<close>, it stays inside its
  buffers, keeps the first two bytes of the packet and the list of entries, and returns a length that fits
  the buffer.\<close>

theorem cache_lookup_total:
  assumes "cache_inv s xs" "len \<le> length packet" "UDP_MAXSIZE \<le> length packet"
  shows "\<exists>n packet' s'. cache_lookup packet len s = Some (n, packet', s') \<and> n \<le> UDP_MAXSIZE \<and>
    length packet' = length packet \<and> take 2 packet' = take 2 packet \<and> cache_inv s' xs"
  using cache_lookup_safe [OF assms] by blast

theorem cache_lookup_total_witness:
  "\<exists>n packet' s'. cache_lookup demo_query 22 (demo qid_static) = Some (n, packet', s') \<and> n \<le> UDP_MAXSIZE"
  using cache_lookup_total [OF demo_cache_inv, of 22 demo_query qid_static]
  by (simp add: demo_bytes UDP_MAXSIZE_def) blast

section \<open>Names in packets\<close>

text \<open>C34: The decoder of names, \<open>get_objname\<close>, terminates on every packet, compression loops included, and
  stays inside the packet and the destination, except for one byte in front of the destination; the offset it
  returns lies inside the packet.\<close>

theorem get_objname_total:
  assumes "length tbl = 256" "msgsize \<le> length msg" "1 \<le> base" "0 < destsize" "base + destsize \<le> length mem"
  shows "\<exists>r mem'. get_objname tbl msg msgsize index base destsize mem = Some (r, mem') \<and>
    length mem' = length mem \<and> take (base - 1) mem' = take (base - 1) mem \<and>
    drop (base + destsize) mem' = drop (base + destsize) mem \<and> (r = -1 \<or> 12 < r \<and> r \<le> int msgsize)"
  using get_objname_safe [OF assms, of index] by (auto simp: frame_def)

theorem get_objname_total_witness:
  "\<exists>r mem'. get_objname (init_dns 1) ([0xc0, 0] @ demo_query) 30 13 1 30 (replicate 40 0) = Some (r, mem')"
  using get_objname_total [of "init_dns 1" 30 "[0xc0, 0] @ demo_query" 1 30 "replicate 40 0" 13]
  by (simp add: init_dns_tolerant demo_bytes) blast

text \<open>C35: A name in wire format, with any number of compression pointers in it, is decoded into its labels
  separated by dots, and the offset returned is where the name ends in the packet.\<close>

theorem get_objname_decodes:
  assumes "packed msg msgsize i ls h" "wf_labels ls" "ls \<noteq> []" "12 \<le> i" "i < msgsize" "all_valid tbl"
    and "msgsize \<le> length msg" "h < msgsize" "h \<le> UDP_MAXSIZE" "length (dotted ls) < destsize"
    and "base + destsize \<le> length mem"
  shows "\<exists>mem'. get_objname tbl msg msgsize (int i) base destsize mem = Some (int (name_end msg i ls), mem') \<and>
    cstr (drop base mem') = name_text ls"
  using get_objname_text [OF assms] by blast

theorem get_objname_decodes_witness:
  "\<exists>mem'. get_objname (init_dns 1) demo_query 22 12 1 30 (replicate 40 0) = Some (18, mem') \<and>
     cstr (drop 1 mem') = bstr ''ab.c''"
proof -
  have "all_valid (init_dns 1)" by (simp add: init_dns_tolerant all_valid_def)
  then show ?thesis
    using get_objname_decodes [OF demo_packed(1) demo_wf_labels demo_labels_ne, of "init_dns 1" 30 1 "replicate 40 0"]
    by (simp add: demo_packed(2) demo_name demo_length UDP_MAXSIZE_def bstr_def)
qed

text \<open>\<open>make_cname\<close> and \<open>get_objname\<close> are inverse: a dotted name that is packed, put behind a header and
  decoded again is the same name, and the decoder ends where the packed name ends.\<close>

theorem make_cname_roundtrip:
  assumes "wf_labels ls" "ls \<noteq> []" "length (name_text ls) < maxlen" "all_valid tbl" "length hdr = 12"
    and "length (dotted ls) < destsize"
  shows "\<exists>w mem'. make_cname (name_text ls @ 0 # r) maxlen = Some (Some w) \<and>
    get_objname tbl (hdr @ w @ post) (12 + length w) 12 1 destsize (replicate (1 + destsize) 0) =
      Some (int (12 + length w), mem') \<and>
    cstr (drop 1 mem') = name_text ls"
proof -
  let ?w = "wire_name ls"
  have p: "packed (hdr @ ?w @ post) (12 + length ?w) 12 ls 0"
    "name_end (hdr @ ?w @ post) 12 ls = 12 + length ?w"
    using packed_wire [OF assms(1), of hdr "12 + length ?w" "hdr @ ?w @ post" post] assms(5) by auto
  have "0 < length ?w" by (simp add: length_wire_name)
  then obtain mem' where "get_objname tbl (hdr @ ?w @ post) (12 + length ?w) 12 1 destsize (replicate (1 + destsize) 0) =
      Some (int (12 + length ?w), mem')" "cstr (drop 1 mem') = name_text ls"
    using get_objname_text [OF p(1) assms(1,2) _ _ assms(4) _ _ _ assms(6), of 1 "replicate (1 + destsize) 0"]
      assms(5) p(2) by auto
  then show ?thesis using make_cname_wire [OF assms(1-3)] by blast
qed

theorem make_cname_roundtrip_witness:
  "\<exists>w mem'. make_cname (bstr ''ab.c'' @ [0]) 30 = Some (Some w) \<and>
     get_objname (init_dns 1) (replicate 12 0 @ w @ []) (12 + length w) 12 1 30 (replicate (1 + 30) 0) =
       Some (int (12 + length w), mem') \<and> cstr (drop 1 mem') = bstr ''ab.c''"
proof -
  have v: "all_valid (init_dns 1)" by (simp add: init_dns_tolerant all_valid_def)
  have n: "name_text demo_labels = bstr ''ab.c''" by (simp add: demo_name bstr_def)
  show ?thesis
    by (rule make_cname_roundtrip [OF demo_wf_labels demo_labels_ne _ v, unfolded n])
      (simp_all add: demo_name bstr_def)
qed

text \<open>C40: The question for the root of the name space is decoded with its NUL one byte in front of the name: the
  high byte of the flags, with the bit that tells a query from a reply, is cleared, and the name stays
  what the memory held before.\<close>

theorem root_question_clears_flags:
  assumes "msg ! 12 = 0" "12 < msgsize" "msgsize \<le> length msg"
  shows "\<exists>y'. objname_rr tbl msg msgsize (int PACKET_DATABEGIN) y = Some (13, y') \<and>
    rr_name y' = rr_name y \<and> GET_QR (rr_flags y') = 0 \<and> hi8 (rr_flags y') = 0 \<and> lo8 (rr_flags y') = lo8 (rr_flags y)"
proof -
  have "bit (be16 0 b) n = (n < 8 \<and> bit b n)" for b n
    using bit_imp_le_length [of b n] by (auto simp: be16_def bit_simps)
  then have "drop_bit 15 (be16 0 b AND MASK_QR) = 0" for b
    by (intro bit_eqI) (simp add: bit_simps)
  then show ?thesis using objname_rr_root [OF assms, of tbl y] by (simp add: GET_QR_def)
qed

theorem root_question_clears_flags_witness:
  "\<exists>y'. objname_rr [] (replicate 17 0) 17 12 (demo_rr\<lparr>rr_flags := 0x8180\<rparr>) = Some (13, y') \<and>
     hi8 (rr_flags y') = 0"
proof -
  have "\<exists>y'. objname_rr [] (replicate 17 0) 17 (int PACKET_DATABEGIN) (demo_rr\<lparr>rr_flags := 0x8180\<rparr>) = Some (13, y') \<and>
      hi8 (rr_flags y') = 0"
    using root_question_clears_flags [of "replicate 17 0" 17 "[]" "demo_rr\<lparr>rr_flags := 0x8180\<rparr>"] by auto
  then show ?thesis by (simp add: PACKET_DATABEGIN_def)
qed

text \<open>\<open>cname2asc\<close> does not convert names: whatever name it is given, its result is the text it has for
  malformatted names.\<close>

theorem cname2asc_always_malformed:
  assumes "0 \<in> set cname" "256 \<le> length buf"
  shows "\<exists>buf'. cname2asc tbl buf (Some cname) = Some buf' \<and> cstr buf' = malformatted"
  using cname2asc_any [OF assms, of tbl] by (simp add: malformatted_def cstr_def bstr_def)

theorem cname2asc_always_malformed_witness:
  "\<exists>buf'. cname2asc (init_dns 1) (replicate 256 1) (Some [2, 97, 98, 0]) = Some buf' \<and> cstr buf' = malformatted"
  by (rule cname2asc_always_malformed) simp_all

text \<open>The debug dump of a packet, which decodes every record of all four sections and prints their names, stays in bounds
  on every packet of at least a header's length, given that the uninitialised name of its record holds a NUL.\<close>

theorem dump_dnspacket_total:
  assumes "length tbl = 256" "12 \<le> len" "len \<le> length packet" "rr_ok y"
  shows "\<exists>r. dump_dnspacket tbl dbg y packet len = Some r \<and> (r = 0 \<or> r = -1)"
  by (rule dump_dnspacket_ok [OF assms])

theorem dump_dnspacket_total_witness: "\<exists>r. dump_dnspacket (init_dns 1) 5 demo_rr demo_reply 38 = Some r"
  using dump_dnspacket_total [of "init_dns 1" 38 demo_reply demo_rr 5]
  by (auto simp: init_dns_tolerant demo_length demo_rr_def rr_ok_def RR_NAMESIZE_def)

section \<open>Checking packets\<close>

text \<open>A packet from a client is accepted exactly when it has 12 to 512 bytes, its reserved Z bit is clear
  and it is a query.\<close>

theorem query_accepted_iff:
  assumes "4 \<le> length msg"
  shows "check_query msg len = Some (if 12 \<le> len \<and> len \<le> 512 \<and>
    \<not> bit (be16 (msg ! 2) (msg ! 3)) 6 \<and> \<not> bit (be16 (msg ! 2) (msg ! 3)) 15 then 0 else -1)"
  by (rule check_query_iff [OF assms])

theorem query_accepted_iff_witness: "check_query demo_query 22 = Some 0"
  using query_accepted_iff [of demo_query 22]
  by (simp add: demo_bytes be16_def)

text \<open>C38: A packet from a server is accepted exactly when it has at least 12 bytes, its reserved Z bit is clear
  and it is a reply; no packet is accepted from both sides.\<close>

theorem reply_accepted_iff:
  assumes "4 \<le> length msg"
  shows "check_reply msg len = Some (if 12 \<le> len \<and> \<not> bit (be16 (msg ! 2) (msg ! 3)) 6 \<and>
      bit (be16 (msg ! 2) (msg ! 3)) 15 then 0 else -1) \<and>
    (check_reply msg len = Some 0 \<longrightarrow> check_query msg len = Some (-1))"
  using check_reply_iff [OF assms, of len] check_query_iff [OF assms, of len] by simp

theorem reply_accepted_iff_witness: "check_reply demo_reply 38 = Some 0 \<and> check_query demo_reply 38 = Some (-1)"
  using reply_accepted_iff [of demo_reply 38] by (simp add: demo_bytes be16_def)

section \<open>Random numbers and identifiers\<close>

text \<open>After any seeding, any number of random numbers can be drawn: the generator never leaves its arrays.\<close>

fun draws :: "nat \<Rightarrow> randctx \<Rightarrow> u32 list option" where
  "draws 0 ctx = Some []"
| "draws (Suc n) ctx = do { (v, ctx') \<leftarrow> c_rand ctx; vs \<leftarrow> draws n ctx'; Some (v # vs) }"

theorem random_stream_total:
  assumes "length (randrsl ctx) = RANDSIZ" "length (randmem ctx) = RANDSIZ"
  shows "\<exists>ctx' vs. randinit ctx flag = Some ctx' \<and> draws n ctx' = Some vs \<and> length vs = n"
proof -
  have d: "ctx_ok c \<Longrightarrow> \<exists>vs. draws n c = Some vs \<and> length vs = n" for c
  proof (induction n arbitrary: c)
    case (Suc n)
    obtain v c' where "c_rand c = Some (v, c')" "ctx_ok c'" using c_rand_safe [OF Suc.prems] by blast
    then show ?case using Suc.IH [of c'] by auto
  qed simp
  show ?thesis using randinit_safe [of ctx flag] d assms by (auto simp: ctx_arrays_def)
qed

theorem random_stream_total_witness:
  "\<exists>ctx' vs. randinit (isaac_ctx qid_static) True = Some ctx' \<and> draws 300 ctx' = Some vs \<and> length vs = 300"
  by (rule random_stream_total) (simp_all add: qid_static_def)

text \<open>\<open>myrand\<close> returns a number between 0 and its argument.\<close>

theorem myrand_bounds:
  assumes "ctx_ok (isaac_ctx s)" "0 \<le> mx"
  shows "\<exists>v s'. myrand mx s = Some (v, s') \<and> 0 \<le> v \<and> v \<le> mx \<and> ctx_ok (isaac_ctx s')"
  using myrand_safe [OF assms] by blast

theorem myrand_bounds_witness: "\<exists>v s'. myrand 64510 qid_static = Some (v, s') \<and> 0 \<le> v \<and> v \<le> 64510"
  using myrand_bounds [of qid_static 64510] by (auto simp: qid_static_def ctx_ok_def ctx_arrays_def)

text \<open>C39: Identifiers are unique: from the filled pool on, whatever identifiers were taken and given back, the
  next one is not in use, and every one in use can be given back, as long as not all 65536 are in use.\<close>

inductive qid_reach :: "qid_state \<Rightarrow> u16 set \<Rightarrow> bool" where
  reach_init: "qid_init_pool tv qid_static = Some s \<Longrightarrow> qid_reach s {}"
| reach_get: "qid_reach s out \<Longrightarrow> out \<noteq> UNIV \<Longrightarrow> qid_get s = Some (q, s') \<Longrightarrow> qid_reach s' (insert q out)"
| reach_return: "qid_reach s out \<Longrightarrow> q \<in> out \<Longrightarrow> qid_return q s = Some (r, s') \<Longrightarrow> qid_reach s' (out - {q})"

lemma qid_reach_balanced: "qid_reach s out \<Longrightarrow> qp.balanced s out"
proof (induction rule: qid_reach.induct)
  case (reach_init tv s)
  then show ?case using qid_init_pool_balanced [of qid_static tv] by (auto simp: qid_static_def QID_POOL_SIZE_def)
next
  case (reach_get s out q s')
  then show ?case using qp.balanced_get [of s out] by auto
next
  case (reach_return s out q r s')
  then show ?case using qp.balanced_put [of s out q] by auto
qed

theorem qid_unique:
  assumes "qid_reach s out" "out \<noteq> UNIV"
  shows "(\<exists>q s'. qid_get s = Some (q, s') \<and> q \<notin> out) \<and> (\<forall>q \<in> out. \<exists>s'. qid_return q s = Some (q, s'))"
  using qp.balanced_get [OF qid_reach_balanced [OF assms(1)] assms(2)]
    qp.balanced_put [OF qid_reach_balanced [OF assms(1)]] by blast

theorem qid_unique_witness: "\<exists>s q s'. qid_reach s {} \<and> qid_get s = Some (q, s')"
proof -
  obtain s where "qid_init_pool (\<lambda>i. (1, 2)) qid_static = Some s"
    using qid_init_pool_balanced [of qid_static "\<lambda>i. (1, 2)"] by (auto simp: qid_static_def QID_POOL_SIZE_def)
  then have r: "qid_reach s {}" by (rule reach_init)
  show ?thesis using qid_unique [OF r] r by blast
qed

section \<open>Interfaces and servers\<close>

text \<open>\<open>destroy_inflist\<close> frees every interface and every server below it exactly once, and nothing else.\<close>

theorem destroy_inflist_frees_all:
  assumes "inflist_at s h (map fst ts)" "inf_trees s (ts @ [(h, l, xs)])"
  shows "destroy_inflist h s = Some (NULL, s\<lparr>srvs := srvs s |` (- tree_srvs (ts @ [(h, l, xs)])),
    infs := infs s |` (- set (h # map fst ts))\<rparr>)"
  by (rule destroy_inflist_list [OF assms])

theorem destroy_inflist_frees_all_witness:
  "\<exists>s. destroy_inflist 3 (demo qid_static) = Some (NULL, s) \<and> srvs s 6 = None \<and> infs s 5 = None"
proof -
  have "inflist_at (demo qid_static) 3 (map fst [(5, 4, [6])])" "inf_trees (demo qid_static) ([(5, 4, [6])] @ [(3, 2, [])])"
    using demo_lists [of qid_static] by (simp_all add: inf_trees_def demo_def)
  from destroy_inflist_frees_all [OF this] show ?thesis by (simp add: tree_srvs_def)
qed

text \<open>\<open>next_active\<close> chooses the first active server behind the current one in the circular list of the
  interface, the current one being tried last, and returns NULL exactly when all are inactive.\<close>

theorem next_active_first:
  assumes "infs s i = Some n" "i \<noteq> NULL" "srvlist_at s (srvlist n) xs"
    and "current n = NULL \<or> current n \<in> set (srvlist n # xs)"
  shows "\<exists>p. next_active s i = Some p \<and>
    p = first_active s (srvlist n # xs) (if current n = NULL then srvlist n else current n) \<and>
    (p = NULL \<longleftrightarrow> (\<forall>q \<in> set (srvlist n # xs). \<not> is_active s q))"
  using next_active_spec [OF assms] first_active_NULL [of "srv_nxt s" "srvlist n" xs] assms(3,4)
  by (auto simp: srvlist_at_def)

theorem next_active_first_witness: "\<exists>p. next_active (demo qid_static) 5 = Some p \<and> p \<noteq> NULL"
proof -
  let ?s = "demo qid_static"
  let ?n = "\<lparr>inf = Some (bstr ''eth0''), srvlist = 4, current = 6, roundrobin = 0, retrydelay = 0, inf_next = 3\<rparr>"
  have "infs ?s 5 = Some ?n" "srvlist_at ?s (srvlist ?n) [6]" "is_active ?s 6"
    using demo_lists [of qid_static] by (simp_all add: demo_def is_active_def demo_srv_def)
  from next_active_first [OF this(1) _ this(2)] this(3) show ?thesis by auto
qed

text \<open>\<open>deactivate_current\<close> marks the current server with the time, moves on to the next active server of the
  list and changes no other server; the interface lists stay well formed.\<close>

theorem deactivate_current_moves_on:
  assumes "infs_ok s is" "i \<in> set (inf_list s # is)" "infs s i = Some n" "srvlist_at s (srvlist n) xs"
    and "current n = NULL \<or> current n \<in> set (srvlist n # xs)"
  shows "\<exists>s' p. deactivate_current i s = Some (p, s') \<and> infs_ok s' is \<and>
    infs s' = (infs s)(i \<mapsto> n\<lparr>current := p\<rparr>) \<and>
    srvs s' = (if current n = NULL then srvs s
               else (srvs s)(current n \<mapsto> (the (srvs s (current n)))\<lparr>inactive := clock s\<rparr>)) \<and>
    p = first_active s' (srvlist n # xs) (if current n = NULL then srvlist n else current n)"
  using deactivate_current_ok [OF assms] by blast

theorem deactivate_current_moves_on_witness:
  "\<exists>p s'. deactivate_current 5 (demo qid_static) = Some (p, s') \<and> \<not> is_active s' 6"
proof -
  let ?s = "demo qid_static"
  let ?n = "\<lparr>inf = Some (bstr ''eth0''), srvlist = 4, current = 6, roundrobin = 0, retrydelay = 0, inf_next = 3\<rparr>"
  have h: "infs ?s 5 = Some ?n" "srvlist_at ?s (srvlist ?n) [6]" "5 \<in> set (inf_list ?s # [5])"
    "current ?n = NULL \<or> current ?n \<in> set (srvlist ?n # [6])"
    using demo_lists [of qid_static] by (simp_all add: demo_def)
  from deactivate_current_moves_on [OF demo_infs_ok h(3,1,2,4)] obtain p s' where
    "deactivate_current 5 ?s = Some (p, s')" "srvs s' = (srvs ?s)(6 \<mapsto> (the (srvs ?s 6))\<lparr>inactive := clock ?s\<rparr>)"
    by auto
  then show ?thesis by (simp add: is_active_def demo_def)
qed

text \<open>\<open>add_srv\<close> with a valid address puts one new, active server in front of the list and changes no other;
  with an invalid address it returns NULL and changes nothing.\<close>

theorem add_srv_spec:
  assumes "srv_wf s" "srvlist_at s h xs"
  shows "case inet_aton ip of
      None \<Rightarrow> add_srv h ip s = Some (NULL, s)
    | Some a \<Rightarrow> \<exists>p s' n. add_srv h ip s = Some (p, s') \<and> srv_wf s' \<and> srvlist_at s' h (p # xs) \<and>
        p \<notin> dom (srvs s) \<and> srvs s' p = Some n \<and> sin_addr (srv_addr n) = a \<and> inactive n = 0 \<and>
        (\<forall>q. q \<noteq> p \<and> q \<noteq> h \<longrightarrow> srvs s' q = srvs s q)"
proof (cases "inet_aton ip")
  case None
  then show ?thesis using add_srv_bad [of h ip s] assms(2) by (simp add: srvlist_at_def)
next
  case (Some a)
  then show ?thesis using add_srv_list [OF assms Some] by fastforce
qed

theorem add_srv_spec_witness:
  "\<exists>p s'. add_srv 4 (bstr ''10.0.0.1'') (demo qid_static) = Some (p, s') \<and> srvlist_at s' 4 [p, 6]"
proof -
  have "srv_wf (demo qid_static)" by (auto simp: srv_wf_def demo_def split: if_splits)
  from add_srv_spec [OF this demo_lists(2), of "bstr ''10.0.0.1''"] show ?thesis
    unfolding inet_aton_example by auto
qed

section \<open>Queries\<close>

text \<open>C28: A request that is new to the proxy, with a free socket left, either is dropped with the state of the
  queries unchanged, or one query is appended: its identifier is not used by another query and stands in network
  order in the packet that is forwarded, it remembers the client, and its sockets are bound to allowed ports
  above 1024, unless the kernel refuses to bind one, which the code only logs.\<close>

theorem query_add_fresh:
  assumes "query_inv s ps" "srv_live s srv" "ports_avail s" "no_newq s" "upstream_sockets s < max_sockets s"
    and "\<forall>c \<in> set ps. client_qid (qrec s c) \<noteq> be16 b a"
  shows "\<exists>r msg' s'. query_add i srv from (a # b # rest) s = Some (r, msg', s') \<and> good_ports s s' \<and>
    (if r = NULL then msg' = a # b # rest \<and> query_inv s' ps
     else \<exists>q n. query_inv s' (ps @ [q]) \<and> queries s' q = Some n \<and>
       msg' = hi8 (my_qid n) # lo8 (my_qid n) # rest \<and> my_qid n \<notin> set (ids_of s ps) \<and>
       client_qid n = be16 b a \<and> client n = from \<and> client_time n = clock s \<and> q_srv n = srv)"
  using query_add_new [OF assms, of i "from" rest] by (auto split: if_splits) blast+

theorem query_add_fresh_witness:
  "\<exists>qs r msg' s'. query_add 5 6 sockaddr_zero [0x12, 0x34, 1] (demo qs) = Some (r, msg', s') \<and> good_ports (demo qs) s'"
proof -
  obtain qs where q: "qp.balanced qs {}" using demo_qids by blast
  have "srv_live (demo qs) 6" "no_newq (demo qs)" "upstream_sockets (demo qs) < max_sockets (demo qs)"
    "ports_avail (demo qs)"
    using ports_avail_default [of "demo qs"]
    by (auto simp: srv_live_def no_newq_def demo_def demo_srv_def split: if_splits)
  with query_add_fresh [OF demo_query_inv [OF q], of 6 "0x34" "0x12" 5 sockaddr_zero "[1]"] show ?thesis by auto
qed

text \<open>C30: A request whose identifier is that of an open query is taken for a repetition, whoever sent it: no query
  is added, the time of the old one is renewed and its counter raised, and its identifier is written into the
  packet low byte first, which is the other order than for a new query.\<close>

theorem query_add_repeated:
  assumes "query_inv s (as @ p # bs)" "\<forall>c \<in> set as. client_qid (qrec s c) \<noteq> be16 b a"
    and "client_qid (qrec s p) = be16 b a"
  shows "\<exists>s' m. query_add i srv from (a # b # rest) s =
      Some (last (QLIST # as), lo8 (my_qid (qrec s p)) # hi8 (my_qid (qrec s p)) # rest, s') \<and>
    queries s p = Some m \<and> query_inv s' (as @ p # bs) \<and>
    s' = s\<lparr>queries := (queries s)(p \<mapsto> m\<lparr>client_time := clock s, client_count := client_count m + 1\<rparr>)\<rparr>"
  using query_add_known [OF assms, of i srv "from" rest] by blast

theorem query_add_repeated_witness:
  "\<exists>qs q s'. query_add 5 6 sockaddr_zero [0x34, 0x12, 1] (demo1 qs q) = Some (QLIST, [lo8 q, hi8 q, 1], s')"
proof -
  obtain qs q where q: "qp.balanced qs {q}" using demo_qids1 by blast
  have c: "client_qid (qrec (demo1 qs q) 7) = be16 0x12 0x34" "my_qid (qrec (demo1 qs q) 7) = q"
    by (simp_all add: demo1_qrec be16_def)
  have "query_inv (demo1 qs q) ([] @ 7 # [])" using demo1_query_inv [OF q] by simp
  from query_add_repeated [OF this _ c(1), of 5 6 sockaddr_zero "[1]"] show ?thesis unfolding c(2) by auto
qed

text \<open>C29: Deleting the query behind a position takes exactly this query out of the list, gives its identifier
  back, closes exactly its sockets and takes them out of the set that is watched, and frees it; all other
  queries keep their contents.\<close>

theorem query_delete_exact:
  assumes "query_inv s (as @ p # bs)"
  shows "\<exists>s'. query_delete_next (last (QLIST # as)) s = Some s' \<and> query_inv s' (as @ bs) \<and>
    queries s' p = None \<and> sent s' = sent s \<and>
    set (open_fds s') = set (open_fds s) - set (q_socks (qrec s p)) \<and>
    set (fdmaster s') \<inter> set (q_socks (qrec s p)) = {} \<and>
    (\<forall>x \<in> set (QLIST # as @ bs). \<exists>m m'. queries s x = Some m \<and> queries s' x = Some m' \<and> m'\<lparr>q_next := 0\<rparr> = m\<lparr>q_next := 0\<rparr>)"
  using query_delete_next_ok [OF assms] by blast

theorem query_delete_exact_witness:
  "\<exists>qs q s'. query_delete_next QLIST (demo1 qs q) = Some s' \<and> queries s' 7 = None \<and> query_inv s' []"
proof -
  obtain qs q where q: "qp.balanced qs {q}" using demo_qids1 by blast
  have "query_inv (demo1 qs q) ([] @ 7 # [])" using demo1_query_inv [OF q] by simp
  from query_delete_exact [OF this] show ?thesis by auto
qed

section \<open>Replies\<close>

text \<open>C4: Whatever a server sends to a socket of an open query, \<open>udp_handle_reply\<close> stays in bounds and keeps
  the invariant of the program, as long as debugging is off or the question of the packet begins with a label. The
  client gets a message exactly when the packet is a valid reply, the query is a real one that was not answered yet, and
  the reply is good or the last one to come; the message is the packet with the identifier of the client. The query is
  closed exactly when it waited for one reply only. With debugging on, by the option \<open>-d\<close> or SIGUSR1, a valid reply to
  the question for the root writes in front of the array for the printed name. The invariant has a NUL in the record
  \<open>rr_garbage\<close>, the array that the code does not initialise.\<close>

theorem reply_handled:
  assumes "dnrd_inv s is xs (as @ p # bs)" "c < 3"
  shows "(opt_debug s = 0 \<or> (\<forall>d. arrived s = Some d \<longrightarrow> named d) \<longrightarrow>
      (\<exists>t ys. udp_handle_reply (last (QLIST # as)) c s = Some t \<and>
        dnrd_inv t is ys (if serv_sent_cnt (qrec s p) = 1 then as @ bs else as @ p # bs) \<and>
        sent t = sent s @ (case arrived s of None \<Rightarrow> []
          | Some d \<Rightarrow> if passed_on (qrec s p) d then [answer_of s (qrec s p) d] else []))) \<and>
    (\<forall>d. opt_debug s \<noteq> 0 \<and> arrived s = Some d \<and> valid_reply d \<and> 12 < length d \<and> d ! 12 = 0 \<longrightarrow>
      udp_handle_reply (last (QLIST # as)) c s = None)"
  using udp_handle_reply_ok [OF assms] udp_handle_reply_root [OF assms] unfolding printable_def by blast

theorem reply_handled_witness:
  "\<exists>qs q t ys. udp_handle_reply QLIST 0 (scene qs q [4, 5, 6] (\<lambda>i. Recv_msg demo_reply sockaddr_zero [Pktinfo (Some (bstr ''eth0''))])) = Some t \<and>
    dnrd_inv t [5] ys [] \<and> sent t = [(3, sockaddr_zero, [0x34, 0x12] @ drop 2 demo_reply)]"
proof -
  obtain qs q where q: "qp.balanced qs {q}" using demo_qids1 by blast
  let ?r = "\<lambda>i :: nat. Recv_msg demo_reply sockaddr_zero [Pktinfo (Some (bstr ''eth0''))]"
  let ?s = "scene qs q [4, 5, 6] ?r"
  have inv: "dnrd_inv ?s [5] [] ([] @ 7 # [])" using scene_inv(1) [OF q, of "[4, 5, 6]" ?r] by (simp add: FD_SETSIZE_def)
  have "arrived ?s = Some demo_reply"
    by (simp add: arrived_def scene_def scene0_def demo_def UDP_MAXSIZE_def demo_length)
  moreover have "passed_on (demo_k q [4, 5, 6]) demo_reply" by (simp add: demo_passed)
  moreover have "answer_of ?s (demo_k q [4, 5, 6]) demo_reply = (3, sockaddr_zero, [0x34, 0x12] @ drop 2 demo_reply)"
    by (simp add: demo_answer)
  moreover have "sent ?s = []" "serv_sent_cnt (demo_k q [4, 5, 6]) = 1" "opt_debug ?s = 0"
    by (simp_all add: scene_def scene0_def demo_def demo_k_def)
  ultimately obtain t ys where "udp_handle_reply QLIST 0 ?s = Some t" "dnrd_inv t [5] ys []"
    "sent t = [(3, sockaddr_zero, [0x34, 0x12] @ drop 2 demo_reply)]"
    using conjunct1 [OF reply_handled [OF inv, of 0]] by (auto simp: scene_qrec)
  then show ?thesis by blast
qed

text \<open>C5: The loop over the sockets of the open queries ends, in bounds, whatever arrives, provided that descriptor 0
  is not among those that are ready, and that debugging is off or the questions of all packets begin with a label.
  Afterwards the queries that are left are among those before. Each message belongs to another query, so that each query
  got at most one: the query was open and not answered before, it is marked as answered if it stays, the message went to
  its client from the listening socket, and it is a valid packet that was read with the identifier of the client in place
  of the first two bytes.\<close>

theorem reply_loop_ends:
  assumes "dnrd_inv s is xs ps" "0 \<notin> set fds" "opt_debug s = 0 \<or> named_recv (env_recv s)"
  shows "\<exists>t ys qs ans. reply_loop QLIST fds s = Some t \<and> dnrd_inv t is ys qs \<and> set qs \<subseteq> set ps \<and>
    sent t = sent s @ map snd ans \<and> distinct (map fst ans) \<and>
    (\<forall>(p, m) \<in> set ans. p \<in> set ps \<and> resp_sent (qrec s p) = 0 \<and> replies_to s p m \<and>
       (\<exists>d. received t d \<and> valid_reply d \<and> drop 2 (snd (snd m)) = drop 2 d) \<and>
       (p \<in> set qs \<longrightarrow> resp_sent (qrec t p) \<noteq> 0))"
proof -
  have "dnrd_inv s is xs ([] @ ps)" using assms(1) by simp
  moreover have "debug_ok s" using assms(3) by (simp add: debug_ok_def)
  ultimately obtain t ys qs where "reply_loop QLIST fds s = Some t" "dnrd_inv t is ys qs" "reply_frame s ps t qs"
    using reply_loop_ok [of s "is" xs "[]" ps, OF _ assms(2)] by auto
  then show ?thesis unfolding reply_frame_def answers_once_def by blast
qed

theorem reply_loop_ends_witness:
  "\<exists>qs q t. reply_loop QLIST [3, 5] (scene qs q [4, 5, 6] (\<lambda>i. Recv_msg demo_reply sockaddr_zero [])) = Some t \<and>
    length (sent t) \<le> 1"
proof -
  obtain qs q where q: "qp.balanced qs {q}" using demo_qids1 by blast
  let ?r = "\<lambda>i :: nat. Recv_msg demo_reply sockaddr_zero []"
  let ?s = "scene qs q [4, 5, 6] ?r"
  have inv: "dnrd_inv ?s [5] [] [7]"
    using scene_inv [OF q, of "[4, 5, 6]" ?r] by (simp_all add: FD_SETSIZE_def)
  have n: "sent ?s = []" "opt_debug ?s = 0 \<or> named_recv (env_recv ?s)" by (simp_all add: scene_def scene0_def demo_def)
  have "\<exists>t ys qs ans. reply_loop QLIST [3, 5] ?s = Some t \<and> dnrd_inv t [5] ys qs \<and> set qs \<subseteq> set [7] \<and>
    sent t = sent ?s @ map snd ans \<and> distinct (map fst ans) \<and>
    (\<forall>(p, m) \<in> set ans. p \<in> set [7] \<and> resp_sent (qrec ?s p) = 0 \<and> replies_to ?s p m \<and>
       (\<exists>d. received t d \<and> valid_reply d \<and> drop 2 (snd (snd m)) = drop 2 d) \<and>
       (p \<in> set qs \<longrightarrow> resp_sent (qrec t p) \<noteq> 0))"
    by (rule reply_loop_ends [OF inv _ n(2)]) simp
  then obtain t and ans :: "(ptr \<times> int \<times> sockaddr_in \<times> bytes) list" where t: "reply_loop QLIST [3, 5] ?s = Some t"
    "sent t = map snd ans" "distinct (map fst ans)" "\<forall>e \<in> set ans. fst e \<in> {7}" using n(1) by fastforce
  have "card (fst ` set ans) \<le> card {7 :: ptr}" using t(4) by (intro card_mono) auto
  then have "length ans \<le> 1" using distinct_card [OF t(3)] by simp
  then show ?thesis using t(1,2) by fastforce
qed

text \<open>C6: The hypothesis on descriptor 0 is needed. When the only open query uses descriptor 0, which is free once the
  daemon has closed its standard input, and waits for one reply only, then the first packet for it makes the
  program crash: the query is deleted, the inner loop goes on with the head of the list, and the error message
  for the closed socket follows the null pointer to a server.\<close>

theorem reply_loop_crash:
  assumes "dnrd_inv s is xs [p]" "sock_arr (qrec s p) ! 0 = 0" "serv_sent_cnt (qrec s p) = 1"
    and "0 \<in> set fds" "is_dummy (qrec s QLIST) = 0" "srvs s (q_srv (qrec s QLIST)) = None"
    and "\<forall>j > io s. env_recv s j = Recv_error"
  shows "reply_loop QLIST fds s = None"
  using assms by (rule reply_loop_head)

theorem reply_loop_crash_witness:
  "\<exists>qs q. reply_loop QLIST [0] (scene qs q [0, 1, 2]
     (\<lambda>i. if i = 0 then Recv_msg demo_reply sockaddr_zero [] else Recv_error)) = None"
proof -
  obtain qs q where q: "qp.balanced qs {q}" using demo_qids1 by blast
  let ?r = "\<lambda>i :: nat. if i = 0 then Recv_msg demo_reply sockaddr_zero [] else Recv_error"
  let ?s = "scene qs q [0, 1, 2] ?r"
  have inv: "dnrd_inv ?s [5] [] [7]"
    using scene_inv [OF q, of "[0, 1, 2]" ?r] by (simp_all add: FD_SETSIZE_def)
  have f: "env_recv ?s = ?r" "io ?s = 0" "srvs ?s NULL = None" by (simp_all add: scene_def scene0_def demo_def)
  have "reply_loop QLIST [0] ?s = None"
    by (rule reply_loop_crash [OF inv]) (simp_all add: scene_qrec demo_k_def query_zero_def f)
  then show ?thesis by blast
qed

section \<open>Time-outs\<close>

text \<open>C14: One sweep of \<open>query_timeout\<close> ends and keeps every query whose time is not over; if there is a query whose time
  is over it closes at least one; it sends exactly the failures that were kept for the clients of the queries it
  closes, one message for each of them that had no answer, and nothing else.\<close>

theorem timeout_sweep:
  assumes "query_inv s ps"
  shows "\<exists>t qs. query_timeout s = Some t \<and> query_inv t qs \<and> set qs \<subseteq> set ps \<and>
    {p \<in> set ps. \<not> q_due (clock s) s p} \<subseteq> set qs \<and>
    ((\<exists>p \<in> set ps. q_due (clock s) s p) \<longrightarrow> length qs < length ps) \<and>
    (\<exists>cs. distinct cs \<and> set cs = set ps - set qs \<and>
       sent t = sent s @ map (fail_reply s) (filter (fail_pending s) cs))"
proof -
  let ?e = "q_due (clock s) s"
  let ?ws = "timeout_walk ?e [] ps"
  obtain t where t: "query_timeout s = Some t" "query_inv t ?ws"
    "\<exists>cs. distinct cs \<and> set cs = set ps - set ?ws \<and> sent t = sent s @ map (fail_reply s) (filter (fail_pending s) cs)"
    using query_timeout_walk [OF assms] by (auto simp: timeout_result_def)
  have "set ?ws \<subseteq> set ps" using timeout_walk_subset [of ?e "[]" ps] by simp
  moreover have "{p \<in> set ps. \<not> ?e p} \<subseteq> set ?ws" using timeout_walk_keeps [of _ "[]" ps ?e] by auto
  moreover have "(\<exists>p \<in> set ps. ?e p) \<longrightarrow> length ?ws < length ps" using timeout_walk_progress [of _ ps ?e "[]"] by auto
  ultimately show ?thesis using t by blast
qed

theorem timeout_sweep_witness:
  "\<exists>qs q t. query_timeout (demo1 qs q) = Some t \<and> query_inv t [7]"
proof -
  obtain qs q where q: "qp.balanced qs {q}" using demo_qids1 by blast
  have inv: "query_inv (demo1 qs q) [7]" by (rule demo1_query_inv [OF q])
  have due: "\<not> q_due (clock (demo1 qs q)) (demo1 qs q) 7"
    by (simp add: q_due_def q_expired_def demo1_qrec) (simp add: demo1_def demo_def)
  obtain t rs where t: "query_timeout (demo1 qs q) = Some t" "query_inv t rs" "set rs \<subseteq> {7}" "7 \<in> set rs"
    using timeout_sweep [OF inv] due by auto
  have "distinct rs" using t(2) by (simp add: query_inv_def qlist_inv_def circ_def)
  then have "rs = [7]" using t(3,4) by (cases rs; cases "tl rs") auto
  then show ?thesis using t(1,2) by blast
qed

text \<open>C13: A query does not stay for ever: as many sweeps as there are open queries, without time passing, leave exactly
  those whose time is not over.\<close>

theorem timeouts_clear:
  assumes "query_inv s ps"
  shows "\<exists>t qs. sweeps (length ps) s = Some t \<and> query_inv t qs \<and> set qs = {p \<in> set ps. \<not> q_due (clock s) s p}"
  using sweeps_clear [OF assms, of "length ps"] by auto

theorem timeouts_clear_witness:
  "\<exists>qs q t. sweeps 1 ((demo1 qs q)\<lparr>clock := 2000\<rparr>) = Some t \<and> query_inv t []"
proof -
  obtain qs q where q: "qp.balanced qs {q}" using demo_qids1 by blast
  let ?s = "(demo1 qs q)\<lparr>clock := 2000\<rparr>"
  have inv: "query_inv ?s [7]" by (rule query_inv_cong [OF demo1_query_inv [OF q]]) (auto simp: srv_live_def)
  have "qrec ?s 7 = qrec (demo1 qs q) 7" by (simp add: qrec_def)
  then have due: "{p \<in> set [7]. \<not> q_due (clock ?s) ?s p} = {}" by (simp add: q_due_def q_expired_def demo1_qrec)
  obtain t rs where "sweeps 1 ?s = Some t" "query_inv t rs" "set rs = {}"
    using timeouts_clear [OF inv] unfolding due by (auto simp del: sweeps.simps)
  then show ?thesis by auto
qed

section \<open>Requests and the main loop\<close>



text \<open>C3: Whatever a client sends, \<open>udp_handle_request\<close> ends in bounds and keeps the invariant. Nothing is sent for a
  packet that is not a valid query. For a valid one either the client gets one message, with the identifier of its
  query, from the listening socket, or nobody gets anything, or the query is entered, in the list at most once, and
  all messages go to servers of the program, from the sockets of this query, and are the packet of the client with the
  identifier of the query in place of the first two bytes; or no server could be reached while the local master is on,
  and the query is given up, with one that was open under the same identifier, after messages of the same body. Only with
  the option \<open>-i\<close> the body may be another one of the same length, see \<open>inactive_hit_overwrites\<close>. The hypotheses are those
  of \<open>run_never_stuck\<close>: debugging is off or questions begin with a label, and the record that is not initialised and
  the arrays of names hold a NUL.\<close>

theorem request_handled:
  assumes "dnrd_inv s is xs ps" "opts_ok W s"
  shows "\<exists>r t qs ms. udp_handle_request s = Some (r, t) \<and> dnrd_inv t is xs qs \<and> opts_ok W t \<and>
    sent t = sent s @ ms \<and> request_result s ps r t qs ms"
  using udp_handle_request_ok [OF assms] by blast

theorem request_handled_witness:
  "\<exists>qs q r t ps ms. udp_handle_request (local_scene qs q [4, 5, 6] (\<lambda>i. Recv_msg demo_query sockaddr_zero [])) = Some (r, t) \<and>
     dnrd_inv t [5] [] ps \<and> valid_request demo_query \<and>
     request_result (local_scene qs q [4, 5, 6] (\<lambda>i. Recv_msg demo_query sockaddr_zero [])) [7] r t ps ms"
proof -
  obtain qs q where q: "qp.balanced qs {q}" using demo_qids1 by blast
  let ?s = "local_scene qs q [4, 5, 6] (\<lambda>i. Recv_msg demo_query sockaddr_zero [])"
  have "dnrd_inv ?s [5] [] [7]" "opts_ok demo_world ?s"
    by (rule local_scene_ok(1,2) [OF q]; simp add: FD_SETSIZE_def named_recv_def demo_named)+
  moreover have "valid_request demo_query" by (simp add: valid_request_def demo_bytes be16_def)
  ultimately show ?thesis using request_handled [of ?s "[5]" "[]" "[7]"] by blast
qed

text \<open>While debugging is on, a valid question for the root makes the program write in front of an array: the name is printed
  into a local array, and its NUL goes before the first byte.\<close>

theorem debugging_root_question:
  assumes "env_recv s (io s) = Recv_msg d from mh" "valid_request (take UDP_MAXSIZE d)" "12 < length d" "d ! 12 = 0"
    and "opt_debug s \<noteq> 0" "length (req_msg s) = UDP_MAXSIZE + 4"
  shows "udp_handle_request s = None"
  by (rule udp_handle_request_root [OF assms])

theorem debugging_root_question_witness:
  "udp_handle_request ((scene qid_static 0 [4, 5, 6] (\<lambda>i. Recv_msg (demo_qhdr @ [0, 0, 2, 0, 1]) sockaddr_zero []))\<lparr>opt_debug := 3\<rparr>) = None"
proof -
  let ?d = "demo_qhdr @ [0, 0, 2, 0, 1] :: bytes"
  let ?s = "(scene qid_static 0 [4, 5, 6] (\<lambda>i. Recv_msg ?d sockaddr_zero []))\<lparr>opt_debug := 3\<rparr>"
  have "env_recv ?s (io ?s) = Recv_msg ?d sockaddr_zero []" by (simp add: scene_def scene0_def)
  moreover have "valid_request (take UDP_MAXSIZE ?d)" by (simp add: valid_request_def demo_qhdr_def be16_def UDP_MAXSIZE_def)
  ultimately show ?thesis
    by (rule debugging_root_question) (simp_all add: demo_qhdr_def scene_def UDP_MAXSIZE_def)
qed

text \<open>C15: The loop of \<open>handle_query\<close> ends at the first interface of the list that has an active server, and makes an
  active server its current one; only when no interface has one does it end at the head of the list.\<close>

theorem choose_inf_first:
  assumes "infs_ok s (i # bs)"
  shows "\<exists>j t. choose_inf i s = Some (j, t) \<and> infs_ok t (i # bs) \<and> srvs t = srvs s \<and>
    j = (case find (has_active s) (i # bs) of Some k \<Rightarrow> k | None \<Rightarrow> inf_list s) \<and>
    (j \<noteq> inf_list s \<longrightarrow> (\<exists>n. infs t j = Some n \<and> current n \<noteq> NULL \<and> is_active s (current n)))"
proof -
  have "i # bs = [] @ i # bs" by simp
  from choose_inf_ok [OF assms this] obtain j t where c: "choose_inf i s = Some (j, t)" "infs_ok t (i # bs)"
    "t = s\<lparr>infs := infs t\<rparr>" "j = (case find (has_active s) (i # bs) of Some k \<Rightarrow> k | None \<Rightarrow> inf_list s)"
    "j \<noteq> inf_list s \<longrightarrow> (\<exists>n. infs t j = Some n \<and> current n \<noteq> NULL \<and> is_active s (current n))" by blast
  have "srvs t = srvs s" using arg_cong [OF c(3), of srvs] by simp
  then show ?thesis using c by blast
qed

theorem choose_inf_first_witness:
  "\<exists>qs q j t. choose_inf 5 (scene qs q [4, 5, 6] (\<lambda>i. Recv_error)) = Some (j, t) \<and> (j = 5 \<or> j = 3)"
proof -
  obtain qs q where q: "qp.balanced qs {q}" using demo_qids1 by blast
  let ?s = "scene qs q [4, 5, 6] (\<lambda>i. Recv_error)"
  have "dnrd_inv ?s [5] [] [7]" by (rule scene_inv [OF q]) (simp_all add: FD_SETSIZE_def)
  then have "infs_ok ?s [5]" by (rule dnrd_invD)
  moreover have "inf_list ?s = 3" by (simp add: scene_def scene0_def demo_def)
  ultimately show ?thesis using choose_inf_first [of ?s 5 "[]"] by (auto split: if_splits)
qed

text \<open>C16: The loop that sends a query on one interface ends when there is a retry interval and the clock is not at 0,
  although it goes on as long as sending fails: each failure switches off one server. All messages are the query,
  and go to servers of the program.\<close>

theorem try_servers_ends:
  assumes "dnrd_inv s is xs ps" "i \<in> set (inf_list s # is)" "len \<le> length msg" "reactivate_interval s \<noteq> 0" "clock s \<noteq> 0"
  shows "\<exists>t ms. try_servers fd i msg len s = Some t \<and> dnrd_inv t is xs ps \<and> sent t = sent s @ ms \<and>
    (\<forall>m \<in> set ms. \<exists>p v. srvs s p = Some v \<and> m = (fd, srv_addr v, take len msg))"
proof -
  from try_servers_step [OF assms, of fd] obtain t ms where "try_servers fd i msg len s = Some t" "srv_step s is t ms"
    "to_servers s fd (take len msg) ms" by blast
  then show ?thesis using srv_step_inv [OF assms(1)] by (auto simp: to_servers_def srv_step_def)
qed

theorem try_servers_ends_witness:
  "\<exists>qs q t ms. try_servers 4 5 demo_query 22 (scene qs q [4, 5, 6] (\<lambda>i. Recv_error)) = Some t \<and> sent t = ms \<and>
     (\<forall>m \<in> set ms. snd (snd m) = take 22 demo_query)"
proof -
  obtain qs q where q: "qp.balanced qs {q}" using demo_qids1 by blast
  let ?s = "scene qs q [4, 5, 6] (\<lambda>i. Recv_error)"
  have inv: "dnrd_inv ?s [5] [] [7]" by (rule scene_inv [OF q]) (simp_all add: FD_SETSIZE_def)
  have "sent ?s = []" "reactivate_interval ?s \<noteq> 0" "clock ?s \<noteq> 0" by (simp_all add: scene_def scene0_def demo_def)
  then show ?thesis using try_servers_ends [OF inv, of 5 22 demo_query 4] by (fastforce simp: demo_length)
qed

text \<open>C17: Without a retry interval, the option \<open>-r 0\<close>, the same loop never ends when sending goes on failing: the current
  server is not switched off, and is tried again for ever.\<close>

theorem try_servers_hangs:
  assumes "infs s i = Some n" "current n \<noteq> NULL" "srvs s (current n) \<noteq> None" "reactivate_interval s = 0"
    and "\<forall>j \<ge> io s. env_send s j \<noteq> int len"
  shows "try_servers fd i msg len s = None"
proof (rule ccontr)
  assume "try_servers fd i msg len s \<noteq> None"
  then obtain t where "try_servers fd i msg len s = Some t" by blast
  from try_servers_stuck [OF this assms] show False .
qed

theorem try_servers_hangs_witness:
  "try_servers 4 5 demo_query 22 ((scene qid_static 0 [4, 5, 6] (\<lambda>i. Recv_error))\<lparr>reactivate_interval := 0, env_send := (\<lambda>i. - 1)\<rparr>) = None"
  by (rule try_servers_hangs [where n = "the (infs (scene qid_static 0 [4, 5, 6] (\<lambda>i. Recv_error)) 5)"])
    (simp_all add: scene_def scene0_def demo_def)

text \<open>C18: The two sweeps over the servers, at the start of an iteration, end in bounds and keep the invariant; they close
  no query and send nothing but the test query, and this only to servers of the program.\<close>

theorem sweeps_only_probe:
  assumes "dnrd_inv s is xs ps" "opts_ok W s"
  shows "\<exists>t ns ms. run_servers s = Some t \<and> dnrd_inv t is xs (ps @ ns) \<and> sent t = sent s @ ms \<and>
    (\<forall>(fd, to, m) \<in> set ms. drop 2 m = drop 2 (dnsbuf s) \<and> (\<exists>p v. srvs s p = Some v \<and> to = srv_addr v))"
proof -
  obtain t qs where t: "run_servers s = Some t" "round_step W s is xs ps t qs" using run_servers_ok [OF assms] by blast
  then show ?thesis unfolding round_step_def probes_def by blast
qed

theorem sweeps_only_probe_witness:
  "\<exists>qs q t ns. run_servers (scene qs q [4, 5, 6] (\<lambda>i. Recv_error)) = Some t \<and> dnrd_inv t [5] [] (7 # ns)"
proof -
  obtain qs q where q: "qp.balanced qs {q}" using demo_qids1 by blast
  let ?s = "scene qs q [4, 5, 6] (\<lambda>i. Recv_error)"
  have inv: "dnrd_inv ?s [5] [] [7]" by (rule scene_inv [OF q]) (simp_all add: FD_SETSIZE_def)
  have "opts_ok \<lparr>reloads = {}, debugs = False\<rparr> ?s" by (rule scene_opts) simp
  from sweeps_only_probe [OF inv this] show ?thesis by auto
qed

section \<open>Hosts with interfaces of their own\<close>

text \<open>C19: With hosts that are bound to interfaces (option -H) a query for a name selects the interfaces of all hosts
  that begin with this name, not only of the host itself. When there are at most as many as the array \<open>matched_intf\<close>
  has entries, the query may then go out exactly through the selected ones, or through the default ones when
  none was selected; when there are more, the code writes behind the array.\<close>

theorem hosts_select_interfaces:
  assumes "packed msg len 12 ls h" "wf_labels ls" "ls \<noteq> []" "12 < len" "all_valid (vc s)" "len \<le> length msg"
    and "h < len" "h \<le> UDP_MAXSIZE" "length (dotted ls) < 30" "length (host_garbage s) = 30"
    and "0 < sp_hosts_count s" "sp_hosts_count s \<le> length (sp_hosts s)" "\<forall>(hn, nm) \<in> set (sp_hosts s). length hn = 30"
    and "\<forall>b \<in> set (matched_intf s). length b = 10"
  defines "nms \<equiv> bound_to (name_text ls) (take (sp_hosts_count s) (sp_hosts s))"
  shows "if length nms \<le> length (matched_intf s)
    then \<exists>ml. find_matches msg len s = Some (s\<lparr>matched_intf := ml, matched_intf_cnt := length nms\<rparr>) \<and>
      (\<forall>name. 0 \<notin> set name \<longrightarrow> inf_allowed name (s\<lparr>matched_intf := ml, matched_intf_cnt := length nms\<rparr>) =
        (if nms \<noteq> [] then Some (take 9 name \<in> set nms)
         else if 0 < def_inf_count s then is_curr_inf_default name s else Some True))
    else find_matches msg len s = None"
proof (cases "length nms \<le> length (matched_intf s)")
  case True
  then obtain ml where ml: "find_matches msg len s = Some (s\<lparr>matched_intf := ml, matched_intf_cnt := length nms\<rparr>)"
    "length ml = length (matched_intf s)" "list_all2 (padded 9) nms (take (length nms) ml)"
    using find_matches_eq [OF assms(1-14)] unfolding nms_def by auto
  have "\<forall>x \<in> set nms. length x \<le> 9 \<and> 0 \<notin> set x" unfolding nms_def using bound_to_plain by blast
  moreover have "inf_allowed name (s\<lparr>matched_intf := ml, matched_intf_cnt := length ([] :: bytes list)\<rparr>) =
      (if 0 < def_inf_count s then is_curr_inf_default name s else Some True)" for name
    by (simp add: inf_allowed_def is_curr_inf_default_def)
  ultimately show ?thesis using True ml inf_allowed_bound [OF ml(3)] by (auto intro!: exI [of _ ml])
next
  case False
  then show ?thesis using find_matches_eq [OF assms(1-14)] unfolding nms_def by auto
qed

theorem hosts_select_interfaces_witness:
  "let s = (scene qid_static 0 [4, 5, 6] (\<lambda>i. Recv_error))\<lparr>sp_hosts_count := 1,
     sp_hosts := [(bstr ''ab.com'' @ replicate 24 0, bstr ''eth1'' @ replicate 6 0)], matched_intf := replicate 5 (replicate 10 0)\<rparr>
   in \<exists>t. find_matches demo_query 22 s = Some t \<and> inf_allowed (bstr ''eth1'') t = Some True \<and> inf_allowed (bstr ''eth0'') t = Some False"
proof -
  let ?s = "(scene qid_static 0 [4, 5, 6] (\<lambda>i. Recv_error))\<lparr>sp_hosts_count := 1,
     sp_hosts := [(bstr ''ab.com'' @ replicate 24 0, bstr ''eth1'' @ replicate 6 0)], matched_intf := replicate 5 (replicate 10 0)\<rparr>"
  have b: "bound_to (name_text demo_labels) (take (sp_hosts_count ?s) (sp_hosts ?s)) = [bstr ''eth1'']"
    by (simp add: demo_name bstr_def cstr_def)
  have v: "vc (scene qid_static 0 [4, 5, 6] (\<lambda>i. Recv_error)) = init_dns 1"
    "host_garbage (scene qid_static 0 [4, 5, 6] (\<lambda>i. Recv_error)) = replicate 30 0"
    by (simp_all add: scene_def scene0_def demo_def dnrd_of_def query_state.defs dnrd_state.defs)
  note h = hosts_select_interfaces [OF demo_packed(1) demo_wf_labels demo_labels_ne, of ?s, unfolded b]
  have "\<exists>ml. find_matches demo_query 22 ?s = Some (?s\<lparr>matched_intf := ml, matched_intf_cnt := 1\<rparr>) \<and>
    (\<forall>name. 0 \<notin> set name \<longrightarrow> inf_allowed name (?s\<lparr>matched_intf := ml, matched_intf_cnt := 1\<rparr>) = Some (take 9 name \<in> {bstr ''eth1''}))"
    using h all_valid_init_dns by (simp add: v demo_name demo_length UDP_MAXSIZE_def bstr_def)
  moreover have "0 \<notin> set (bstr ''eth1'')" "0 \<notin> set (bstr ''eth0'')" "take 9 (bstr ''eth1'') = bstr ''eth1''"
    "take 9 (bstr ''eth0'') \<noteq> bstr ''eth1''" by (simp_all add: bstr_def)
  ultimately show ?thesis by (auto simp: Let_def)
qed

text \<open>C20: With hosts that are bound to interfaces a query for the root makes the program write in front of an array:
  the decoder puts the NUL of an empty name before the buffer for the name of the host.\<close>

theorem root_question_underruns:
  assumes "msg ! 12 = 0" "12 < len" "len \<le> length msg" "0 < sp_hosts_count s"
  shows "send2current q msg len s = None"
  using find_matches_root [OF assms] by (simp add: send2current_def)

theorem root_question_underruns_witness:
  "send2current 7 (replicate 17 0) 17 ((scene qid_static 0 [4, 5, 6] (\<lambda>i. Recv_error))\<lparr>sp_hosts_count := 1,
     sp_hosts := [(bstr ''ab.com'' @ replicate 24 0, bstr ''eth1'' @ replicate 6 0)]\<rparr>) = None"
  by (rule root_question_underruns) simp_all

section \<open>The start\<close>



text \<open>C12: Whatever the kernel denies after the file for the process id and the semaphore are there, the start ends, for the
  options that are sane as in \<open>start_ready\<close> (\<open>settings_ok\<close> and \<open>table_ok\<close>, which ask among others that \<open>-m\<close>, \<open>-B\<close> and \<open>-R\<close>
  leave their arrays a NUL, that \<open>-r\<close> is positive and that there are one to 100 servers): either the process exits, or
  it reaches the loop in a state that satisfies the invariant of the program.\<close>

theorem start_ends:
  assumes "loaded s" "accepted opts rest s s2" "settings_ok W s2" "table_ok (options_table opts)"
    and "env_sys s2 Sys_fopen_pid" "env_sys s2 Sys_sem_init"
  shows "(\<exists>c. start opts rest pid s = Some (Exit c)) \<or>
    (\<exists>t is. start opts rest pid s = Some (Go t) \<and> main_inv W t is \<and> configured t (options_table opts))"
  using start_outcome [OF assms(1-4) _ assms(5,6), of False pid] unfolding outcome_def ready_def by blast

theorem start_ends_witness:
  "\<exists>r. start launch_opts False (bstr ''7'') (launch (\<lambda>c. c = Sys_fopen_pid \<or> c = Sys_sem_init)) = Some r"
proof -
  let ?sys = "\<lambda>c. c = Sys_fopen_pid \<or> c = Sys_sem_init"
  obtain s2 where s2: "accepted launch_opts False (launch ?sys) s2" "settings_ok demo_world s2" "env_sys s2 = ?sys"
    using launch_accepted [of ?sys] by (auto simp: launched_def)
  have t: "table_ok (options_table launch_opts)" unfolding launch_table by (rule launch_table_ok)
  have "env_sys s2 Sys_fopen_pid" "env_sys s2 Sys_sem_init" using s2(3) by simp_all
  from start_ends [OF launch_loaded s2(1,2) t this, of "bstr ''7''"] show ?thesis by blast
qed

text \<open>C11: When the file for the process id cannot be written, the process does not exit as the code means it to: the
  error path waits for the semaphore before \<open>sem_init\<close>, and hangs. (With a \<open>-R\<close> that leaves its array no NUL, already the
  \<open>chdir\<close> before reads behind the array.)\<close>

theorem start_hangs:
  assumes "loaded s" "accepted opts rest s s2" "pidfile s2 \<noteq> Unreadable" "\<not> env_sys s2 Sys_fopen_pid"
  shows "start opts rest pid s = None"
  by (rule start_no_pid_file [OF assms])

theorem start_hangs_witness: "start launch_opts False (bstr ''7'') (launch (\<lambda>c. False)) = None"
proof -
  obtain s2 where s2: "accepted launch_opts False (launch (\<lambda>c. False)) s2" "pidfile s2 = No_file" "env_sys s2 = (\<lambda>c. False)"
    using launch_accepted [of "\<lambda>c. False"] by (auto simp: launched_def)
  show ?thesis by (rule start_hangs [OF launch_loaded s2(1)]) (simp_all add: s2(2,3))
qed

text \<open>C10: The option \<open>-s addr:interface\<close> refines the table of servers: in a state that holds the table \<open>cfg\<close>, with an
  interface of the machine and an address that can be parsed, it succeeds, and the new state holds the table with the
  address at the end of its interface, or with a new interface in front.\<close>

theorem server_option_refines:
  assumes "configured s cfg" "58 \<in> set arg" "validate_interface (behind 58 arg) s = Some v" "0 \<le> v"
    and "inet_aton (before 58 arg) = Some a"
  shows "\<exists>t. opt_server arg s = Some (Go t) \<and> configured t (enter_server (behind 58 arg) a cfg)"
proof -
  obtain l ts where "config_ok s l ts" "table_of s ts = cfg" using assms(1) by (auto simp: configured_def)
  then show ?thesis using opt_server_config [OF _ assms(2-5)] unfolding configured_def by blast
qed

theorem server_option_refines_witness:
  "\<exists>(s :: proc_state) t. opt_server (bstr ''10.0.0.1:eth0'') s = Some (Go t) \<and> configured t [(bstr ''eth0'', [0x0A000001])]"
proof -
  obtain s :: proc_state where s: "configured s []" "env_ifs s = [bstr ''eth0'']" using launch_begun by blast
  have "validate_interface (behind 58 (bstr ''10.0.0.1:eth0'')) s = Some 0" unfolding launch_name by (rule launch_if [OF s(2)])
  from server_option_refines [OF s(1) launch_name(5) this] launch_addr(1) show ?thesis
    unfolding launch_name by (force simp: enter_server_def)
qed

text \<open>C31: The whole command line refines the table: whatever options are accepted, in any order, the heap of interfaces
  and servers holds exactly what the options \<open>-s\<close> enter one after the other.\<close>

theorem options_build_table:
  assumes "loaded s" "accepted opts rest s t"
  shows "configured t (options_table opts) \<and> quiet t"
  using accepted_config [OF assms] by blast

theorem options_build_table_witness:
  "\<exists>t. accepted launch_opts False (launch (\<lambda>c. True)) t \<and> configured t [(bstr ''eth0'', [0x0A000001, 0x0A000002])]"
proof -
  obtain t where t: "accepted launch_opts False (launch (\<lambda>c. True)) t" using launch_accepted by blast
  show ?thesis using options_build_table [OF launch_loaded t] t unfolding launch_table by blast
qed

section \<open>Records and hashes\<close>

text \<open>C33: The parser of questions is well typed: when the name of the record that it fills holds a NUL before, or the
  question begins with a label, it ends in bounds with 0 or -1 for any packet of at least 6 bytes, the name and data of
  the record keep their size, and after 0 the name is a string in lower case. The hypothesis is needed, and nothing in the
  code provides it, because the callers pass records that are not initialised: for a complete question for the root, and
  no NUL in the name before, the parser reads behind the end of the name.\<close>

theorem parse_query_typed:
  assumes "length tbl = 256" "len \<le> length msg" "6 \<le> length msg" "length (rr_name y) = RR_NAMESIZE"
    and "length (rr_data y) = RR_NAMESIZE"
  shows "(0 \<in> set (rr_name y) \<or> named (take len msg) \<longrightarrow>
      (\<exists>r y'. parse_query tbl y msg len = Some (r, y') \<and> (r = 0 \<or> r = - 1) \<and>
        length (rr_name y') = RR_NAMESIZE \<and> length (rr_data y') = RR_NAMESIZE \<and>
        (r = 0 \<longrightarrow> 0 \<in> set (rr_name y') \<and> map c_tolower (cstr (rr_name y')) = cstr (rr_name y')))) \<and>
    (0 \<notin> set (rr_name y) \<and> 17 \<le> len \<and> msg ! 12 = 0 \<and> be16 (msg ! 4) (msg ! 5) \<noteq> 0 \<longrightarrow>
      parse_query tbl y msg len = None)"
  using parse_query_record [OF assms] parse_query_root [OF assms(2)] by blast

theorem parse_query_typed_witness:
  "\<exists>r y'. parse_query (init_dns 1) demo_rr demo_query 22 = Some (r, y') \<and> length (rr_name y') = RR_NAMESIZE"
proof -
  have "length (init_dns 1) = 256" "22 \<le> length demo_query" "6 \<le> length demo_query" "length (rr_name demo_rr) = RR_NAMESIZE"
    "length (rr_data demo_rr) = RR_NAMESIZE" by (simp_all add: init_dns_tolerant demo_length demo_rr_def)
  moreover have "0 \<in> set (rr_name demo_rr)" by (simp add: demo_rr_def RR_NAMESIZE_def)
  ultimately show ?thesis using parse_query_typed by blast
qed

text \<open>C32: The hash of the name that \<open>cache_lookup\<close> compares first only speeds up the search: it finds the same entry as the
  reference that compares type, class and the names without regard to case.\<close>

theorem cache_find_reference:
  assumes "cache_inv s xs"
  shows "cache_find s (get_stringcode (cstr (rr_name query))) query (cachelist s) =
    Some (case find (\<lambda>x. answers query (the (cval s x))) xs of Some x \<Rightarrow> x | None \<Rightarrow> NULL)"
proof -
  have "find (\<lambda>x. cx_matches (get_stringcode (cstr (rr_name query))) query (the (cval s x))) xs =
      find (\<lambda>x. answers query (the (cval s x))) xs"
    by (intro find_cong refl cx_matches_answers) (use assms in \<open>simp add: cache_inv_def centry_ok_def\<close>)
  moreover have "cache_at s xs" using assms by (simp add: cache_inv_def)
  ultimately show ?thesis using cache_find_list [of s xs] by simp
qed

theorem cache_find_reference_witness:
  "\<exists>s. cache_dnspacket demo_reply 38 6 (demo qid_static) = Some s \<and>
     cache_find s (get_stringcode (cstr (rr_name (demo_parsed 0x0100)))) (demo_parsed 0x0100) (cachelist s) = Some 7"
proof -
  let ?q = "demo_parsed 0x8180"
  have "\<exists>s p x. cache_dnspacket demo_reply 38 6 (demo qid_static) = Some s \<and> parse_packet demo_reply 38 = Some x \<and>
    p = brk (demo qid_static) \<and> cache_inv s ([] @ [p]) \<and>
    cval s = (cval (demo qid_static))(p \<mapsto> new_entry x ?q 6 (clock (demo qid_static))) \<and>
    h_packet x = take 38 demo_reply @ [0, 0] \<and> h_len x = 38 \<and> cx_frame ((demo qid_static)\<lparr>brk := Suc (brk (demo qid_static))\<rparr>) s"
    by (rule cache_dnspacket_store [OF demo_cache_inv _ _ _ _ demo_reply_parsed, where n = "demo_srv 0x0A000001 4"])
      (simp_all add: demo_parsed_def demo_rr_def demo_bytes demo_def demo_srv_def cacheable_def
        UDP_MAXSIZE_def GET_QR_def MASK_QR_def DNS_CLASS_INET_def)
  then obtain s x where s: "cache_dnspacket demo_reply 38 6 (demo qid_static) = Some s" "cache_inv s [brk (demo qid_static)]"
    "cval s (brk (demo qid_static)) = Some (new_entry x ?q 6 (clock (demo qid_static)))" by auto
  have "answers (demo_parsed 0x0100) (new_entry x ?q 6 (clock (demo qid_static)))"
    by (simp add: answers_def new_entry_def demo_parsed_def c_strcaseeq_def)
  then have "find (\<lambda>x. answers (demo_parsed 0x0100) (the (cval s x))) [brk (demo qid_static)] = Some 7"
    using s(3) by (simp add: demo_def)
  then show ?thesis using cache_find_reference [OF s(2), of "demo_parsed 0x0100"] s(1) by simp
qed

section \<open>The local master\<close>

text \<open>C7: The lookup of the local master implements the abstract answer: for every request for a name, type and
  class IN, compressed or not, the packet that \<open>master_lookup\<close> leaves in the buffer is the one that
  \<open>answer_spec\<close> determines from the records alone, by plain searches for the name in lower case, or the packet is
  untouched when there is no answer; the only exception is an answer that does not fit into the 600 bytes of the
  assembly or into the buffer of the request, where the code writes out of bounds.\<close>

theorem local_answer:
  assumes "asks msg len ls t" "all_valid tbl" "length (rr_name y) = RR_NAMESIZE"
    and "master_onoff m \<noteq> 0" "master_initialised m \<noteq> 0" "db_ok m"
  shows "master_lookup tbl y msg len m =
    (case answer_spec (lower ls) t (dbv m) of
       None \<Rightarrow> Some (0, msg, m)
     | Some (u, an, ns, body) \<Rightarrow>
         if fits msg body then Some (PACKET_DATABEGIN + length body, reply_packet msg u an ns body, m) else None)"
  using master_lookup_delivered [OF assms]
  by (auto simp: delivered_def replied_def split: option.split)

theorem local_answer_witness:
  "master_lookup (init_dns 1) demo_rr demo_query 22 (demo_master []) = Some (0, demo_query, demo_master [])"
  using local_answer [OF demo_asks(1), of "init_dns 1" demo_rr "demo_master []"] demo_serving [of "[]"]
  by (simp add: all_valid_init_dns demo_rr_def serving_def answer_spec_def denial_def demo_master_def servers_of_def Let_def)

text \<open>C23: A host that is added with \<open>add_nameip\<close>, with whatever case of letters, is answered from then on: the reply to
  a request for its address, in whatever case, has the identifier of the request, no error, the question and one record
  of type A with the address in network order, unless an earlier record has the same name.\<close>

theorem added_host_answered:
  assumes "asks msg len ls 1" "all_valid tbl" "length (rr_name y) = RR_NAMESIZE" "serving m" "UDP_MAXSIZE \<le> length msg"
    and "map c_tolower name = name_text (lower ls)" "int (length name) \<le> maxlen" "0 \<notin> set ip" "inet_aton ip = Some a"
    and "\<forall>r \<in> set (dbv m). \<not> host_named (name_text (lower ls)) r" "servers_of (name_text (lower ls)) (dbv m) = []"
  shows "\<exists>m'. add_nameip (name @ [0]) maxlen (ip @ [0]) m = Some m' \<and>
    master_lookup tbl y msg len m' =
      (let body = asked (lower ls) 1 @ [0xC0, 0x0C, 0, 1, 0, 1, 0, 0, 0x0E, 0x10, 0, 4] @ long_bytes a
       in Some (12 + length body,
            take 2 msg @ [0x80, 0, 0, 1, 0, 1, 0, 0, 0, 0] @ body @ drop (12 + length body) msg, m'))"
proof -
  have "0 \<notin> set (map c_tolower name)"
    unfolding assms(6) using assms(1) by (intro name_text_no_nul wf_labels_lower) (simp add: asks_def)
  then have n: "0 \<notin> set name" by (force simp: image_iff)
  show ?thesis
    using add_host_eq [OF n assms(7-9)] host_address_answered [OF assms(1-5) refl assms(10,11)] assms(6) by auto
qed

theorem added_host_answered_witness:
  "\<exists>m'. add_nameip (bstr ''Ab.C'' @ [0]) 10 (bstr ''10.0.0.1'' @ [0]) (demo_master []) = Some m' \<and>
    master_lookup (init_dns 1) demo_rr demo_query 22 m' = Some (38, [0x12, 0x34, 0x80, 0, 0, 1, 0, 1, 0, 0, 0, 0,
      2, 97, 98, 1, 99, 0, 0, 1, 0, 1, 0xC0, 0x0C, 0, 1, 0, 1, 0, 0, 0x0E, 0x10, 0, 4, 10, 0, 0, 1] @ replicate 474 0, m')"
proof -
  have l: "lower demo_labels = demo_labels" "asked demo_labels 1 = [2, 97, 98, 1, 99, 0, 0, 1, 0, 1]"
    by (simp_all add: lower_def demo_labels_def bstr_def c_tolower_def c_isupper_def asked_def word_bytes_def hi8_def lo8_def
        DNS_CLASS_INET_def)
  have n: "map c_tolower (bstr ''Ab.C'') = name_text (lower demo_labels)"
    by (simp add: l demo_name bstr_def c_tolower_def c_isupper_def)
  have a: "long_bytes 0x0A000001 = [10, 0, 0, 1]" by (simp add: long_bytes_def)
  have "drop 38 demo_query = replicate 474 0" "take 2 demo_query = [0x12, 0x34]" by (simp_all add: demo_bytes)
  then show ?thesis
    using added_host_answered [OF demo_asks(1) all_valid_init_dns, of demo_rr "demo_master []" "bstr ''Ab.C''" 10
        "bstr ''10.0.0.1''" "0x0A000001"] demo_serving [of "[]"] n inet_aton_example
    by (simp add: demo_rr_def demo_length UDP_MAXSIZE_def demo_master_def servers_of_def l a bstr_def)
qed

text \<open>C24: The same host is found by its address: a request of type PTR for the reversed address under in-addr.arpa
  gets the name of the host in lower case.\<close>

theorem added_host_named:
  assumes "asks msg len ls 12" "all_valid tbl" "length (rr_name y) = RR_NAMESIZE" "serving m" "UDP_MAXSIZE \<le> length msg"
    and "wf_labels hs" "length (dotted hs) < 200" "int (length (dotted hs)) \<le> maxlen" "0 \<notin> set ip" "inet_aton ip = Some a"
    and "name_text (lower ls) = inet_ntoa (bswap32 a) @ ARPADOMAIN"
    and "\<forall>r \<in> set (dbv m). \<not> host_at (inet_ntoa (bswap32 a)) r" "servers_of (name_text (lower ls)) (dbv m) = []"
  shows "\<exists>m'. add_nameip (name_text hs @ [0]) maxlen (ip @ [0]) m = Some m' \<and>
    master_lookup tbl y msg len m' =
      (let d = wire_name (lower hs);
           body = asked (lower ls) 12 @ [0xC0, 0x0C, 0, 12, 0, 1, 0, 0, 0x0E, 0x10, hi8 (of_nat (length d)), lo8 (of_nat (length d))] @ d
       in Some (12 + length body,
            take 2 msg @ [0x80, 0, 0, 1, 0, 1, 0, 0, 0, 0] @ body @ drop (12 + length body) msg, m'))"
proof -
  have "int (length (name_text hs)) \<le> maxlen" using assms(8) by (simp add: length_name_text)
  then show ?thesis
    using add_host_eq [OF name_text_no_nul [OF assms(6)] _ assms(9,10), of maxlen m]
      host_name_answered [OF assms(1-5,11-13,6,7)] by (simp add: name_text_lower)
qed

theorem added_host_named_witness:
  "let ls = arpa_labels [bstr ''1'', bstr ''0'', bstr ''0'', bstr ''10'']; msg = ask_packet ls 12
   in \<exists>m' n rest. add_nameip (name_text demo_labels @ [0]) 10 (bstr ''10.0.0.1'' @ [0]) (demo_master []) = Some m' \<and>
        master_lookup (init_dns 1) demo_rr msg (ask_length ls) m' =
          Some (n, [0x12, 0x34, 0x80, 0, 0, 1, 0, 1, 0, 0, 0, 0] @ asked ls 12 @
            [0xC0, 0x0C, 0, 12, 0, 1, 0, 0, 0x0E, 0x10, 0, 6, 2, 97, 98, 1, 99, 0] @ rest, m')"
proof -
  let ?ls = "arpa_labels [bstr ''1'', bstr ''0'', bstr ''0'', bstr ''10'']"
  let ?m = "demo_master []" and ?msg = "ask_packet ?ls 12"
  have w: "wire_name demo_labels = [2, 97, 98, 1, 99, 0]" by (simp add: demo_labels_def bstr_def)
  have t: "take 2 ?msg = [0x12, 0x34]" by (simp add: ask_packet_def demo_qhdr_def)
  have n: "name_text (lower ?ls) = inet_ntoa (bswap32 0x0A000001) @ ARPADOMAIN" unfolding lower_ascii arpa_text ten_arpa ..
  have ip: "0 \<notin> set (bstr ''10.0.0.1'')" by (simp add: bstr_def)
  have d: "dbv ?m = []" by (simp add: demo_master_def)
  obtain m' where "add_nameip (name_text demo_labels @ [0]) 10 (bstr ''10.0.0.1'' @ [0]) ?m = Some m'"
    "master_lookup (init_dns 1) demo_rr ?msg (ask_length ?ls) m' =
      (let d = wire_name demo_labels;
           body = asked ?ls 12 @ [0xC0, 0x0C, 0, 12, 0, 1, 0, 0, 0x0E, 0x10, hi8 (of_nat (length d)), lo8 (of_nat (length d))] @ d
       in Some (12 + length body,
            take 2 ?msg @ [0x80, 0, 0, 1, 0, 1, 0, 0, 0, 0] @ body @ drop (12 + length body) ?msg, m'))"
    using added_host_named [OF arpa_asks(1) all_valid_init_dns _ _ _ demo_wf_labels _ _ ip inet_aton_example n, of demo_rr ?m 10]
      demo_serving [of "[]"] unfolding lower_ascii
    by (auto simp: demo_rr_def ask_packet_length UDP_MAXSIZE_def demo_name d servers_of_def)
  then show ?thesis by (simp add: w t Let_def hi8_def lo8_def)
qed

text \<open>C22: A name server question overruns the buffers exactly when the records of the configuration are too long
  for the buffer of the request: the code never checks the size, although its comment says that the answers
  always fit into 512 bytes.\<close>

theorem ns_answer_overruns:
  assumes "asks msg len ls 2" "all_valid tbl" "length (rr_name y) = RR_NAMESIZE" "serving m"
    and "length msg \<le> PACKET_ASSEMBLYSIZE" "rs = servers_of (name_text (lower ls)) (dbv m)" "rs \<noteq> []"
  shows "master_lookup tbl y msg len m = None \<longleftrightarrow>
    length msg < 17 + length (dotted ls) + (\<Sum>r\<leftarrow>rs. 12 + length (name_bytes (server_name r)))"
  by (rule ns_question_size [OF assms])

theorem ns_answer_overruns_witness:
  "master_lookup (init_dns 1) demo_rr (ask_packet demo_labels 2) (ask_length demo_labels) (demo_master many_servers) = None"
proof -
  have a: "asks (ask_packet demo_labels 2) (ask_length demo_labels) demo_labels 2"
    by (rule ask_packet_asks [OF demo_wf_labels demo_labels_ne]) (simp add: demo_name)
  have d: "dbv (demo_master many_servers) = many_servers" by (simp add: demo_master_def)
  have "many_servers \<noteq> []" by (simp add: many_servers_def)
  moreover have "length (ask_packet demo_labels 2) = 518" by (simp add: ask_packet_length length_wire_name demo_name)
  ultimately show ?thesis
    using ns_answer_overruns [OF a all_valid_init_dns, of demo_rr "demo_master many_servers" many_servers]
      demo_serving [OF many_servers_ok] many_servers_of many_servers_size
    by (simp add: demo_rr_def lower_ascii d PACKET_ASSEMBLYSIZE_def demo_name)
qed

text \<open>C9: Initialising the master and reading its files again ends in bounds, whatever the files hold, provided that its
  buffers are sound (\<open>buffers_ok\<close>): the arrays for the names of the two files hold a NUL, which \<open>-m\<close> and \<open>-B\<close> take away
  when they fill them, and so does the array for the domain, which the code does not initialise and reads when a file
  sets none (\<open>domain_garbage\<close>). The records that the files and the built-in entries add come behind those that were
  there, nothing else changes, and all records are well formed, so that the lookups may compare hashes first.\<close>

theorem init_total:
  assumes "db_ok m" "buffers_ok m" "master_onoff m \<noteq> 0"
  shows "\<exists>rs k m2. master_init m = Some (m\<lparr>dbv := dbv m @ rs, dbmax := k, master_initialised := 1\<rparr>) \<and>
    db_ok (m\<lparr>dbv := dbv m @ rs, dbmax := k, master_initialised := 1\<rparr>) \<and>
    master_reinit m = Some m2 \<and> db_ok m2 \<and> buffers_ok m2 \<and> master_reload m2 = 0"
  using master_init_extends [OF assms] master_reinit_ok [OF assms(1,2)] by (auto simp: Let_def)

theorem init_total_witness:
  "\<exists>m1. master_init ((demo_master [])\<lparr>files := (\<lambda>f. Some (bstr ''10.0.0.1 a b''))\<rparr>) = Some m1 \<and> db_ok m1"
  using init_total [of "(demo_master [])\<lparr>files := (\<lambda>f. Some (bstr ''10.0.0.1 a b''))\<rparr>"]
  by (auto simp: db_ok_def buffers_ok_def demo_master_def)

text \<open>C21: After the initialisation the master answers for the neighbours of its hosts: with \<open>auto_authority\<close> a request
  for the name of an address that differs from a host's only in the last number is denied, not forwarded, when there
  is no host at it.\<close>

theorem neighbours_denied:
  assumes "master_init m = Some m1" "db_ok m" "buffers_ok m" "master_onoff m \<noteq> 0" "auto_authority m \<noteq> 0"
    and "asks msg len ls 12" "all_valid tbl" "length (rr_name y) = RR_NAMESIZE" "UDP_MAXSIZE \<le> length msg"
    and "r \<in> set (dbv m1)" "rec_data r = Nameip t ip" "46 \<notin> set l"
    and "arpa = l @ 46 # drop 1 (dropWhile (\<lambda>c. c \<noteq> 46) (inet_ntoa (bswap32 ip)))"
    and "name_text (lower ls) = arpa @ ARPADOMAIN" "\<forall>r \<in> set (dbv m1). \<not> host_at arpa r"
  shows "master_lookup tbl y msg len m1 =
    (let body = asked (lower ls) 12
     in Some (12 + length body,
          take 2 msg @ [0x84, 0, 0, 1, 0, 0, 0, 0, 0, 0] @ body @ drop (12 + length body) msg, m1))"
proof -
  have "serving m1" "\<forall>r \<in> set (dbv m1). auto_covered (dbv m1) r"
    using master_init_extends [OF assms(2-4)] assms(1,4,5) by (auto simp: Let_def serving_def)
  then show ?thesis by (intro neighbour_denied [OF assms(6-8) _ assms(9) _ assms(10,11,13,12,14,15)])
qed

theorem neighbours_denied_witness:
  "let ls = arpa_labels [bstr ''2'', bstr ''0'', bstr ''0'', bstr ''127'']; msg = ask_packet ls 12
   in \<exists>m1 n p. master_init (demo_master []) = Some m1 \<and>
        master_lookup (init_dns 1) demo_rr msg (ask_length ls) m1 = Some (n, p, m1) \<and>
        take 12 p = [0x12, 0x34, 0x84, 0, 0, 1, 0, 0, 0, 0, 0, 0]"
proof -
  let ?ls = "arpa_labels [bstr ''2'', bstr ''0'', bstr ''0'', bstr ''127'']" and ?m = "(demo_master localhost_db)\<lparr>dbmax := 10\<rparr>"
  have t: "take 2 (ask_packet ?ls 12) = [0x12, 0x34]" by (simp add: ask_packet_def demo_qhdr_def)
  have r: "localhost_db ! 0 \<in> set (dbv ?m)" by (simp add: demo_master_def localhost_db_def)
  have n: "rec_data (localhost_db ! 0) = Nameip \<lparr>st_code = get_stringcode (inet_ntoa (bswap32 0x7F000001)),
      st_string = inet_ntoa (bswap32 0x7F000001)\<rparr> 0x7F000001" by (simp add: localhost_db_def host_record_def)
  have a: "bstr ''2.0.0.127'' = [50] @ 46 # drop 1 (dropWhile (\<lambda>c. c \<noteq> 46) (inet_ntoa (bswap32 0x7F000001)))"
    by (simp add: localhost_arpa bstr_def)
  have h: "\<forall>r \<in> set (dbv ?m). \<not> host_at (bstr ''2.0.0.127'') r"
    by (simp add: demo_master_def localhost_db_def host_at_def host_record_def authority_record_def localhost_arpa bstr_def)
  have m: "db_ok (demo_master [])" "buffers_ok (demo_master [])" "master_onoff (demo_master []) \<noteq> 0"
    "auto_authority (demo_master []) \<noteq> 0"
    by (simp_all add: demo_master_def db_ok_def buffers_ok_def)
  have g: "length (rr_name demo_rr) = RR_NAMESIZE" "UDP_MAXSIZE \<le> length (ask_packet ?ls 12)" "46 \<notin> set [50 :: byte]"
    "name_text (lower ?ls) = bstr ''2.0.0.127'' @ ARPADOMAIN"
    unfolding lower_ascii arpa_text by (simp_all add: demo_rr_def ask_packet_length UDP_MAXSIZE_def)
  show ?thesis
    using neighbours_denied [OF demo_init m arpa_asks(2) all_valid_init_dns g(1,2) r n g(3) a g(4) h] demo_init
    by (simp add: Let_def t)
qed

lemma lower_dot: "46 \<in> set (map c_tolower n) \<longleftrightarrow> 46 \<in> set n"
proof -
  have "c_tolower c = 46 \<longleftrightarrow> c = 46" for c
    using unat_c_tolower [of c] by (auto simp: word_unat_eq_iff c_tolower_def c_isupper_def word_le_nat_alt split: if_splits)
  then show ?thesis by (auto simp: image_iff)
qed

text \<open>C25: What a blacklist, a file with one name per line, does to a name that is not also a host: after \<open>read_blacklist\<close> a
  request for the address of a name with a dot gets an empty answer from the authority, with the code 0 for no error; a
  name without a dot is not answered by the master at all, and will be forwarded. The manual, dnrd.8, says that all names
  of a blacklist are answered with "host not found".\<close>

theorem blacklist_denies:
  assumes "files m (cstr fname) = Some (concat (map (\<lambda>n. n @ [10]) ns))" "\<forall>n \<in> set ns. listed n" "n \<in> set ns"
    and "asks msg len ls 1" "all_valid tbl" "length (rr_name y) = RR_NAMESIZE" "serving m" "UDP_MAXSIZE \<le> length msg"
    and "map c_tolower n = name_text (lower ls)" "0 \<in> set fname" "\<forall>r \<in> set (dbv m). \<not> host_named (name_text (lower ls)) r"
  shows "\<exists>m'. read_blacklist fname m = Some (0, m') \<and>
    master_lookup tbl y msg len m' =
      (let body = asked (lower ls) 1
       in if 46 \<in> set n then Some (12 + length body,
            take 2 msg @ [0x84, 0, 0, 1, 0, 0, 0, 0, 0, 0] @ body @ drop (12 + length body) msg, m')
          else Some (0, msg, m'))"
proof -
  let ?rs = "map (\<lambda>n. authority_record (map c_tolower n)) ns"
  obtain k where "read_blacklist fname m = Some (0, m\<lparr>dbv := dbv m @ ?rs, dbmax := k\<rparr>)"
    using read_blacklist_listed [OF assms(1,2,10)] by (elim exE) (rule that)
  then obtain m' where m': "read_blacklist fname m = Some (0, m')" "m' = m\<lparr>dbv := dbv m @ ?rs, dbmax := k\<rparr>" by simp
  have "extends m (Some m')"
    using read_blacklist_extends [of m fname] m'(1) assms(7,10) by (auto simp: serving_def)
  then have "db_ok m'" using extends_ok [of m "Some m'"] by simp
  then have s: "serving m'" using assms(7) m'(2) by (simp add: serving_def)
  have "authority_record (name_text (lower ls)) \<in> set (dbv m')"
    using assms(3) unfolding assms(9) [symmetric] m'(2) by simp
  moreover have d: "46 \<in> set (name_text (lower ls)) \<longleftrightarrow> 46 \<in> set n"
    unfolding assms(9) [symmetric] by (rule lower_dot)
  moreover have h: "\<forall>r \<in> set (dbv m'). \<not> host_named (name_text (lower ls)) r"
    using assms(11) by (auto simp: m'(2) host_named_def authority_record_def)
  ultimately show ?thesis
    using m'(1) blacklisted_denied [OF assms(4-6) s assms(8)] undotted_ignored [OF assms(4-6) s _ h] by (auto simp: Let_def)
qed

theorem blacklist_denies_witness:
  "let m = (demo_master [])\<lparr>files := (\<lambda>f. Some (bstr ''x'' @ [10] @ bstr ''Ab.C'' @ [10]))\<rparr>
   in \<exists>m'. read_blacklist [0] m = Some (0, m') \<and>
     master_lookup (init_dns 1) demo_rr demo_query 22 m' = Some (22,
       [0x12, 0x34, 0x84, 0, 0, 1, 0, 0, 0, 0, 0, 0, 2, 97, 98, 1, 99, 0, 0, 1, 0, 1] @ replicate 490 0, m')"
proof -
  let ?m = "(demo_master [])\<lparr>files := (\<lambda>f. Some (bstr ''x'' @ [10] @ bstr ''Ab.C'' @ [10]))\<rparr>"
  let ?ns = "[bstr ''x'', bstr ''Ab.C'']"
  have l: "asked demo_labels 1 = [2, 97, 98, 1, 99, 0, 0, 1, 0, 1]"
    by (simp add: demo_labels_def bstr_def asked_def word_bytes_def hi8_def lo8_def DNS_CLASS_INET_def)
  have n: "map c_tolower (bstr ''Ab.C'') = name_text (lower demo_labels)"
    by (simp add: lower_ascii demo_name bstr_def c_tolower_def c_isupper_def)
  have f: "files ?m (cstr [0]) = Some (concat (map (\<lambda>n. n @ [10]) ?ns))" by simp
  have i: "\<forall>n \<in> set ?ns. listed n" by (simp add: listed_def bstr_def)
  have s: "serving ?m" by (simp add: serving_def demo_master_def db_ok_def)
  have "drop 22 demo_query = replicate 490 0" "take 2 demo_query = [0x12, 0x34]" by (simp_all add: demo_bytes)
  then show ?thesis
    using blacklist_denies [OF f i _ demo_asks(1) all_valid_init_dns _ s _ n, of demo_rr]
    by (simp add: demo_rr_def demo_length UDP_MAXSIZE_def lower_ascii l Let_def) (simp add: demo_master_def bstr_def)
qed

text \<open>The answer for a request that could not be forwarded: \<open>master_dontknow\<close> assembles the question with the
  flags of a response that reports a format error, no records, and the identifier 0.\<close>

theorem dontknow_reply:
  assumes "asks msg len ls t" "all_valid tbl" "length (rr_name y) = RR_NAMESIZE"
    and "master_onoff m \<noteq> 0" "master_initialised m \<noteq> 0" "UDP_MAXSIZE \<le> length answer"
  shows "master_dontknow tbl y msg len answer m =
    (let n = 12 + length (asked ls t)
     in Some (n, [0, 0, 0x80, 1, 0, 1, 0, 0, 0, 0, 0, 0] @ asked (lower ls) t @ drop n answer, m))"
  using master_dontknow_reply [OF assms] by (simp add: Let_def PACKET_DATABEGIN_def)

theorem dontknow_reply_witness:
  "master_dontknow (init_dns 1) demo_rr demo_query 22 (replicate 512 0) (demo_master []) = Some (22,
    [0, 0, 0x80, 1, 0, 1, 0, 0, 0, 0, 0, 0, 2, 97, 98, 1, 99, 0, 0, 1, 0, 1] @ replicate 490 0, demo_master [])"
proof -
  have "lower demo_labels = demo_labels" "asked demo_labels 1 = [2, 97, 98, 1, 99, 0, 0, 1, 0, 1]"
    by (simp_all add: lower_def demo_labels_def bstr_def c_tolower_def c_isupper_def asked_def word_bytes_def hi8_def lo8_def
        DNS_CLASS_INET_def)
  then show ?thesis
    using dontknow_reply [OF demo_asks(1) all_valid_init_dns, of demo_rr "demo_master []" "replicate 512 0"]
    by (simp add: demo_rr_def demo_master_def UDP_MAXSIZE_def)
qed

text \<open>C8: A request of a client that the master can answer is answered at once and never leaves the host: one message
  is sent, on the socket of the interface and to the client, with the identifier of the request and the answer of the
  local database, and cache, open queries and servers stay as they are, whether debugging is on or not.\<close>

theorem local_request:
  assumes "env_recv s (io s) = Recv_msg d from mh" "msg = overlay (req_msg s) 0 (take UDP_MAXSIZE d)"
    and "len = length (take UDP_MAXSIZE d)" "check_query msg len = Some ok" "0 \<le> ok"
    and "asks msg len ls t" "all_valid (vc s)" "length (rr_name (rr_garbage s)) = RR_NAMESIZE" "serving (mst s)"
    and "answer_spec (lower ls) t (dbv (mst s)) = Some (u, an, ns, body)" "fits msg body"
    and "length (rr_data (rr_garbage s)) = RR_NAMESIZE"
  shows "udp_handle_request s = Some (NULL, s\<lparr>req_msg := reply_packet msg u an ns body, io := io s + 2,
    sent := sent s @ [(isock s, from, take 2 msg @
      concat (map (\<lambda>w. [hi8 w, lo8 w]) [u, 1, of_nat an, of_nat ns, 0]) @ body)]\<rparr>)"
proof -
  let ?n = "PACKET_DATABEGIN + length body" and ?p = "reply_packet msg u an ns body"
  let ?s1 = "s\<lparr>io := io s + 1\<rparr>"
  have r: "os_recv s = (Recv_msg d from mh, ?s1)" using assms(1) by (simp add: os_recv_def)
  have m: "master_lookup (vc ?s1) (rr_garbage ?s1) msg len (mst ?s1) = Some (?n, ?p, mst ?s1)"
    using lookup_delivered [OF assms(6-11)] by simp
  let ?q = "take 2 msg @ concat (map (\<lambda>w. [hi8 w, lo8 w]) [u, 1, of_nat an, of_nat ns, 0]) @ body"
  have "?n \<le> length msg" using assms(11) by (simp add: fits_def)
  then have n: "length ?q = ?n" by (simp add: PACKET_DATABEGIN_def)
  have p: "?q @ drop ?n msg = ?p" by (simp add: reply_packet_def)
  have t: "take ?n ?p = ?q" unfolding n [symmetric] p [symmetric] by (rule append_eq_conv_conj [THEN iffD1, THEN conjunct1, symmetric]) (rule refl)
  have le: "?n \<le> length ?p" unfolding n [symmetric] p [symmetric] by simp
  have o: "msg = overlay (req_msg ?s1) 0 (take UDP_MAXSIZE d)" using assms(2) by simp
  have z: "0 < ?n" by (simp add: PACKET_DATABEGIN_def)
  have "log_query msg len (?s1\<lparr>req_msg := msg\<rparr>) = Some ()" by (rule log_query_asks [OF assms(6)]) (simp_all add: assms(7,8,12))
  from udp_handle_request_local [OF r o assms(3,4,5) m z le this] show ?thesis
    by (simp add: t os_sendto_def)
qed

theorem local_request_witness:
  "\<exists>qs q. let s = (scene qs q [4, 5, 6] (\<lambda>i. Recv_msg (take 22 demo_query) sockaddr_zero []))
                \<lparr>mst := demo_master [host_record (bstr ''ab.c'') 0x0A000001]\<rparr>
     in \<exists>t. udp_handle_request s = Some (NULL, t) \<and> sent t = [(3, sockaddr_zero, [0x12, 0x34, 0x80, 0, 0, 1, 0, 1, 0, 0, 0, 0,
       2, 97, 98, 1, 99, 0, 0, 1, 0, 1, 0xC0, 0x0C, 0, 1, 0, 1, 0, 0, 0x0E, 0x10, 0, 4, 10, 0, 0, 1])] \<and> queries t = queries s"
proof -
  obtain qs q where q: "qp.balanced qs {q}" using demo_qids1 by blast
  let ?h = "host_record (bstr ''ab.c'') 0x0A000001"
  let ?s = "(scene qs q [4, 5, 6] (\<lambda>i. Recv_msg (take 22 demo_query) sockaddr_zero []))\<lparr>mst := demo_master [?h]\<rparr>"
  let ?d = "take 22 demo_query" and ?msg = "demo_query @ replicate 4 0"
  let ?rr = "[0xC0, 0x0C, 0, 1, 0, 1, 0, 0, 0x0E, 0x10, 0, 4, 10, 0, 0, 1] :: bytes"
  have m: "?msg = overlay (req_msg ?s) 0 (take UDP_MAXSIZE ?d)"
    by (simp add: scene_def overlay_def UDP_MAXSIZE_def demo_bytes flip: replicate_add)
  have l: "22 = length (take UDP_MAXSIZE ?d)" by (simp add: UDP_MAXSIZE_def demo_bytes)
  have c: "check_query ?msg 22 = Some 0"
  proof -
    have "length ?d = 22" "length ?msg = UDP_MAXSIZE + 4" "take (length ?d) ?msg = ?d"
      by (simp_all add: demo_length UDP_MAXSIZE_def)
    moreover have "valid_request ?d" by (simp add: valid_request_def demo_bytes be16_def)
    ultimately show ?thesis using request_code [of ?msg ?d] by (simp only: UDP_MAXSIZE_def) simp
  qed
  have v: "all_valid (vc ?s)" "length (rr_name (rr_garbage ?s)) = RR_NAMESIZE"
    and rd: "length (rr_data (rr_garbage ?s)) = RR_NAMESIZE"
    by (simp_all add: scene_def scene0_def demo_def all_valid_init_dns demo_rr_def)
  have sv: "serving (mst ?s)" using demo_serving [of "[?h]"] host_record_ok [of "bstr ''ab.c''"] by (simp add: bstr_def)
  have a: "asked (lower demo_labels) 1 = [2, 97, 98, 1, 99, 0, 0, 1, 0, 1]"
    unfolding lower_ascii by (simp add: demo_labels_def bstr_def asked_def word_bytes_def hi8_def lo8_def DNS_CLASS_INET_def)
  have b: "rr_bytes DNS_TYPE_A (long_bytes 0x0A000001) = drop 2 ?rr"
    by (simp add: rr_bytes_def word_bytes_def long_bytes_def hi8_def lo8_def DNS_TYPE_A_def DNS_CLASS_INET_def DEFAULT_TTL_def)
  have sp: "answer_spec (lower demo_labels) 1 (dbv (mst ?s)) = Some (flags_answer, 1, 0, asked (lower demo_labels) 1 @ ?rr)"
    by (simp add: answer_spec_def lower_ascii demo_name Let_def demo_master_def host_named_def host_record_def bstr_def
        with_record_def rec_ip_def b [simplified] servers_of_def dns_matches_def auth_flags_def)
  have f: "fits ?msg (asked (lower demo_labels) 1 @ ?rr)"
    by (simp add: fits_def a PACKET_DATABEGIN_def PACKET_ASSEMBLYSIZE_def demo_length)
  have e: "env_recv ?s (io ?s) = Recv_msg ?d sockaddr_zero []" by (simp add: scene_def scene0_def)
  have t: "take 2 ?msg = [0x12, 0x34]" "isock ?s = 3" "sent ?s = []"
    by (simp_all add: demo_bytes scene_def scene0_def demo_def)
  note r = local_request [OF e m l c _ demo_asks(2) v sv sp f rd, unfolded t a]
  show ?thesis
    by (rule exI [of _ qs], rule exI [of _ q]) (use r in \<open>simp add: Let_def flags_values hi8_def lo8_def\<close>)
qed

end
